(* ===== verification/Praktor_Prelude.thy ===== *)
theory Praktor_Prelude
  imports Main "HOL-Library.Word" "HOL-Library.While_Combinator"
begin

text \<open>
  What the component theories share: the status codes, the C integer conventions, and the
  generic lemmas on lists, loops and counting that carry the component proofs.

  Conventions of the whole library.
  \<^item> A pointer argument that the C code requires to be non-NULL is the object itself; an
    out-parameter is a component of the result. Where NULL is data (an absent JSON member, an
    empty slot, a missing output object) it is \<open>None\<close>.
  \<^item> \<open>size_t\<close> counters are \<open>nat\<close>. Decrements, where C would wrap at zero, are written with
    \<open>size_dec\<close>, which wraps as a 64-bit \<open>size_t\<close> does; the invariants show that no wrap occurs.
  \<^item> \<open>SIZE_MAX\<close> used as the sentinel of an index is \<open>None\<close>.
  \<^item> \<open>malloc\<close>, \<open>calloc\<close> and \<open>realloc\<close> may fail at any call: an operation that allocates takes
    an allocator, a predicate on its allocation sites that says which requests succeed.
\<close>

section \<open>Status codes\<close>

text \<open>
  The codes of \<open>salts/error_codes.h\<close> that the modelled code returns or tests. The header is a
  dependency; only the distinctness of the codes matters here. \<open>SALTS_OTHER\<close> stands for every
  other code that a provider may return.
\<close>

datatype salts_status =
    SALTS_OK
  | SALTS_EINVAL
  | SALTS_ENOENT
  | SALTS_ENOMEM
  | SALTS_EBUSY
  | SALTS_ENOBUFS
  | SALTS_ERANGE
  | SALTS_ENOTSUP
  | SALTS_EIO
  | SALTS_OTHER int

section \<open>The C integer conventions\<close>

definition size_max :: nat where
  "size_max = 2 ^ 64 - 1"

text \<open>The C expression \<open>--x\<close> on a \<open>size_t\<close>.\<close>

definition size_dec :: "nat \<Rightarrow> nat" where
  "size_dec n = (if n = 0 then size_max else n - 1)"

lemma size_dec_pos [simp]: "0 < n \<Longrightarrow> size_dec n = n - 1"
  by (simp add: size_dec_def)

lemma size_dec_Suc [simp]: "size_dec (Suc n) = n"
  by (simp add: size_dec_def)

text \<open>The C expression \<open>a - b\<close> on \<open>size_t\<close> values.\<close>

definition size_sub :: "nat \<Rightarrow> nat \<Rightarrow> nat" where
  "size_sub a b = (a + (size_max + 1) - b) mod (size_max + 1)"

lemma size_sub_le: "b \<le> a \<Longrightarrow> a \<le> size_max \<Longrightarrow> size_sub a b = a - b"
proof -
  assume "b \<le> a" "a \<le> size_max"
  then have "a + (size_max + 1) - b = (a - b) + (size_max + 1)" "a - b < size_max + 1" by simp_all
  then show ?thesis unfolding size_sub_def by (metis mod_add_self2 mod_less)
qed

section \<open>C strings\<close>

text \<open>What \<open>%s\<close> prints of a buffer: the bytes before the first NUL.\<close>

definition c_text :: "string \<Rightarrow> string" where
  "c_text s = takeWhile (\<lambda>c. c \<noteq> CHR 0x00) s"

section \<open>Allocation\<close>

type_synonym 'site allocator = "'site \<Rightarrow> bool"

abbreviation no_oom :: "'site allocator" where
  "no_oom \<equiv> \<lambda>_. True"

section \<open>Counting\<close>

text \<open>How many elements of a list satisfy a predicate: the abstract value of a C counter.\<close>

abbreviation count_if :: "('a \<Rightarrow> bool) \<Rightarrow> 'a list \<Rightarrow> nat" where
  "count_if P xs \<equiv> length (filter P xs)"

named_theorems counting "equations of the abstract counters under list updates"

lemma count_if_update [counting]:
  assumes "i < length xs"
  shows "count_if P (xs[i := x]) + (if P (xs ! i) then 1 else 0)
       = count_if P xs + (if P x then 1 else 0)"
proof -
  have split: "xs = take i xs @ xs ! i # drop (Suc i) xs"
    using assms by (rule id_take_nth_drop)
  have "count_if P xs = count_if P (take i xs @ xs ! i # drop (Suc i) xs)"
    using split by simp
  then have "count_if P xs = count_if P (take i xs) + (if P (xs ! i) then 1 else 0)
      + count_if P (drop (Suc i) xs)"
    by (simp only: filter_append length_append filter.simps split: if_split) simp
  moreover have "xs[i := x] = take i xs @ x # drop (Suc i) xs"
    using assms by (rule upd_conv_take_nth_drop)
  ultimately show ?thesis by simp
qed

lemma count_if_update_flip:
  assumes "i < length xs" and "P (xs ! i) \<noteq> P x"
  shows "count_if P (xs[i := x])
       = (if P x then Suc (count_if P xs) else count_if P xs - 1)"
  using count_if_update [OF assms(1), of P x] assms(2) by (auto split: if_splits)

lemma count_if_update_same:
  assumes "i < length xs" and "P (xs ! i) = P x"
  shows "count_if P (xs[i := x]) = count_if P xs"
  using count_if_update [OF assms(1), of P x] assms(2) by (auto split: if_splits)

lemma count_if_pos: "i < length xs \<Longrightarrow> P (xs ! i) \<Longrightarrow> 0 < count_if P xs"
  by (metis length_greater_0_conv filter_empty_conv nth_mem)

lemma count_if_le: "count_if P xs \<le> length xs"
  by simp

lemma count_if_zero: "count_if P xs = 0 \<longleftrightarrow> (\<forall>x\<in>set xs. \<not> P x)"
  by (simp add: filter_empty_conv)

lemma count_if_all: "count_if P xs = length xs \<longleftrightarrow> (\<forall>x\<in>set xs. P x)"
  by (metis filter_id_conv length_filter_less less_irrefl filter_True)

lemma count_if_partition: "count_if P xs = count_if (\<lambda>x. P x \<and> Q x) xs + count_if (\<lambda>x. P x \<and> \<not> Q x) xs"
  by (induction xs) auto

lemma count_if_mono: "(\<And>x. x \<in> set xs \<Longrightarrow> P x \<Longrightarrow> Q x) \<Longrightarrow> count_if P xs \<le> count_if Q xs"
  by (induction xs) (auto simp: le_Suc_eq)

lemma count_if_map: "count_if P (map f xs) = count_if (\<lambda>x. P (f x)) xs"
  by (induction xs) auto

lemma filter_by_index: "map ((!) xs) (filter (\<lambda>i. P (xs ! i)) [0..<length xs]) = filter P xs"
proof -
  have "filter P (map ((!) xs) [0..<length xs]) = map ((!) xs) (filter (\<lambda>i. P (xs ! i)) [0..<length xs])"
    by (simp add: filter_map o_def)
  then show ?thesis by (simp add: map_nth)
qed

section \<open>Loops over linked index chains\<close>

text \<open>
  An adjacency chain threads a list of cells through \<open>next\<close> indices; \<open>idx_chain nxt e is\<close> says
  that following \<open>nxt\<close> from \<open>e\<close> visits exactly the indices \<open>is\<close> and then the sentinel.
\<close>

inductive idx_chain :: "(nat \<Rightarrow> nat option) \<Rightarrow> nat option \<Rightarrow> nat list \<Rightarrow> bool" for nxt where
  chain_end: "idx_chain nxt None []"
| chain_next: "idx_chain nxt (nxt i) is \<Longrightarrow> idx_chain nxt (Some i) (i # is)"

inductive_simps idx_chain_None [simp]: "idx_chain nxt None is"
inductive_simps idx_chain_Some: "idx_chain nxt (Some i) is"

text \<open>A \<open>while (edge != SIZE_MAX)\<close> loop along a chain is a fold over the visited indices.\<close>

lemma while_chain_fold:
  assumes "idx_chain nxt e is"
  shows "while_option (\<lambda>(e, s). e \<noteq> None) (\<lambda>(e, s). (nxt (the e), f (the e) s)) (e, s)
       = Some (None, fold f is s)"
  using assms
proof (induction arbitrary: s)
  case chain_end
  then show ?case by (simp add: while_option_unfold)
next
  case (chain_next i "is")
  then show ?case by (subst while_option_unfold) simp
qed

text \<open>A search loop along a chain stops at a hit, or at the sentinel when there is none.\<close>

lemma while_chain_search:
  assumes "idx_chain nxt e is"
  shows "\<exists>r. while_option (\<lambda>e. e \<noteq> None \<and> \<not> P (the e)) (\<lambda>e. nxt (the e)) e = Some r
      \<and> (r \<noteq> None \<longleftrightarrow> (\<exists>i\<in>set is. P i))"
  using assms
proof induction
  case chain_end
  then show ?case by (simp add: while_option_unfold)
next
  case (chain_next i "is")
  then show ?case
    by (cases "P i") (subst while_option_unfold, simp)+
qed

lemma idx_chain_cong:
  assumes "idx_chain nxt e is" and "\<And>i. i \<in> set is \<Longrightarrow> nxt' i = nxt i"
  shows "idx_chain nxt' e is"
  using assms
  by induction (auto intro: idx_chain.intros)

text \<open>
  A probing loop around a table of \<open>n\<close> slots stops at the first slot, counted from its start,
  where the guard fails.
\<close>

lemma while_probe:
  fixes d h n :: nat
  assumes "\<forall>d'<d. P ((h + d') mod n)" and "\<not> P ((h + d) mod n)"
  shows "while_option P (\<lambda>i. (i + 1) mod n) (h mod n) = Some ((h + d) mod n)"
  using assms
proof (induction d arbitrary: h)
  case 0
  then show ?case by (simp add: while_option_unfold)
next
  case (Suc d)
  have guard: "P (h mod n)"
    using Suc.prems(1) by (metis add.right_neutral zero_less_Suc)
  have next_slot: "(h mod n + 1) mod n = (h + 1) mod n"
    by (simp add: mod_Suc_eq)
  have "\<forall>d'<d. P ((h + 1 + d') mod n)"
    using Suc.prems(1) by (metis Suc_less_eq add.assoc plus_1_eq_Suc)
  moreover have "\<not> P ((h + 1 + d) mod n)"
    using Suc.prems(2) by simp
  ultimately have "while_option P (\<lambda>i. (i + 1) mod n) ((h + 1) mod n) = Some ((h + 1 + d) mod n)"
    by (rule Suc.IH)
  then show ?case
    by (subst while_option_unfold) (simp only: guard next_slot if_True, simp)
qed

section \<open>Loops whose bodies call other loops\<close>

text \<open>
  A \<open>while\<close> loop whose body may itself not return. The body gives the state to go on with (\<open>Inl\<close>)
  or to leave the loop with (\<open>Inr\<close>); a loop that does not end is \<open>None\<close>.
\<close>

partial_function (option) c_loop :: "('s \<Rightarrow> ('s + 's) option) \<Rightarrow> 's \<Rightarrow> 's option" where
  "c_loop body s =
     (case body s of
        None \<Rightarrow> None
      | Some r \<Rightarrow> (case r of Inl s' \<Rightarrow> c_loop body s' | Inr s' \<Rightarrow> Some s'))"

declare c_loop.simps [code]

text \<open>The rule of total correctness: an invariant and a measure that every further round decreases.\<close>

lemma c_loop_total:
  fixes m :: "'s \<Rightarrow> nat"
  assumes "I s"
    and "\<And>s. I s \<Longrightarrow> (\<exists>t. body s = Some (Inl t) \<and> I t \<and> m t < m s) \<or> (\<exists>t. body s = Some (Inr t) \<and> Q t)"
  shows "\<exists>t. c_loop body s = Some t \<and> Q t"
  using assms(1)
proof (induction "m s" arbitrary: s rule: less_induct)
  case less
  from assms(2) [OF less.prems] show ?case
  proof
    assume "\<exists>t. body s = Some (Inl t) \<and> I t \<and> m t < m s"
    then obtain t where "body s = Some (Inl t)" "I t" "m t < m s" by blast
    with less.hyps [OF this(3,2)] show ?thesis by (subst c_loop.simps) simp
  next
    assume "\<exists>t. body s = Some (Inr t) \<and> Q t"
    then show ?thesis by (subst c_loop.simps) auto
  qed
qed

text \<open>The rule of partial correctness: what holds of the state a loop is left with.\<close>

lemma c_loop_partial:
  assumes "c_loop body s = Some t" and "I s"
    and "\<And>s s'. I s \<Longrightarrow> body s = Some (Inl s') \<Longrightarrow> I s'" and "\<And>s t. I s \<Longrightarrow> body s = Some (Inr t) \<Longrightarrow> Q t"
  shows "Q t"
proof -
  have "I s \<longrightarrow> (\<forall>s s'. I s \<longrightarrow> body s = Some (Inl s') \<longrightarrow> I s') \<longrightarrow> (\<forall>s t. I s \<longrightarrow> body s = Some (Inr t) \<longrightarrow> Q t) \<longrightarrow> Q t"
  proof (rule c_loop.raw_induct [OF _ assms(1)], intro impI)
    fix loop :: "('a \<Rightarrow> ('a + 'a) option) \<Rightarrow> 'a \<Rightarrow> 'a option" and body s t
    assume IH: "\<And>body s t. loop body s = Some t \<Longrightarrow> I s \<longrightarrow> (\<forall>s s'. I s \<longrightarrow> body s = Some (Inl s') \<longrightarrow> I s') \<longrightarrow>
        (\<forall>s t. I s \<longrightarrow> body s = Some (Inr t) \<longrightarrow> Q t) \<longrightarrow> Q t"
      and step: "(case body s of None \<Rightarrow> None | Some (Inl s') \<Rightarrow> loop body s' | Some (Inr s') \<Rightarrow> Some s') = Some t"
      and inv: "I s" "\<forall>s s'. I s \<longrightarrow> body s = Some (Inl s') \<longrightarrow> I s'" "\<forall>s t. I s \<longrightarrow> body s = Some (Inr t) \<longrightarrow> Q t"
    obtain r where r: "body s = Some r" using step by (cases "body s") auto
    show "Q t"
    proof (cases r)
      case (Inl s')
      then have "loop body s' = Some t" "I s'" using step r inv by auto
      then show ?thesis using IH inv(2,3) by blast
    next
      case (Inr s')
      then show ?thesis using step r inv by auto
    qed
  qed
  then show ?thesis using assms(2-4) by blast
qed

text \<open>
  A loop is monotone in its body: what a body that returns more often makes it return.
\<close>

lemma c_loop_Some_mono:
  assumes "c_loop B s = Some t" and "\<And>s r. B s = Some r \<Longrightarrow> C s = Some r"
  shows "c_loop C s = Some t"
proof -
  have "(\<forall>s r. B s = Some r \<longrightarrow> C s = Some r) \<longrightarrow> c_loop C s = Some t"
  proof (rule c_loop.raw_induct [OF _ assms(1)], intro impI)
    fix loop :: "('a \<Rightarrow> ('a + 'a) option) \<Rightarrow> 'a \<Rightarrow> 'a option" and body s t
    assume IH: "\<And>body s t. loop body s = Some t \<Longrightarrow> (\<forall>s r. body s = Some r \<longrightarrow> C s = Some r) \<longrightarrow> c_loop C s = Some t"
      and step: "(case body s of None \<Rightarrow> None | Some (Inl s') \<Rightarrow> loop body s' | Some (Inr s') \<Rightarrow> Some s') = Some t"
      and le: "\<forall>s r. body s = Some r \<longrightarrow> C s = Some r"
    obtain r where r: "body s = Some r" "C s = Some r" using step le by (cases "body s") auto
    then show "c_loop C s = Some t"
      using IH [of body] step le by (cases r) (simp_all add: c_loop.simps [of C s])
  qed
  then show ?thesis using assms(2) by blast
qed

lemma bind_Some_mono:
  "(\<And>y. x = Some y \<Longrightarrow> x' = Some y) \<Longrightarrow> Option.bind x k = Some r \<Longrightarrow> Option.bind x' k = Some r"
  by (cases x) auto

lemma bind_loop_mono:
  assumes "Option.bind x (c_loop B) = Some r" and "\<And>y. x = Some y \<Longrightarrow> x' = Some y"
    and "\<And>s t. B s = Some t \<Longrightarrow> C s = Some t"
  shows "Option.bind x' (c_loop C) = Some r"
  using assms(1,2) c_loop_Some_mono [of B _ r C, OF _ assms(3)] by (cases x) auto

lemma mono_optionI:
  assumes "\<And>f g r. (\<And>x y. f x = Some y \<Longrightarrow> g x = Some y) \<Longrightarrow> F f = Some r \<Longrightarrow> F g = Some r"
  shows "mono_option F"
proof (rule monotoneI)
  fix f g :: "'a \<Rightarrow> 'b option"
  assume "fun_ord option_ord f g"
  then have "\<And>x y. f x = Some y \<Longrightarrow> g x = Some y"
    unfolding fun_ord_def flat_ord_def by (metis option.distinct(1))
  from assms [OF this] show "option_ord (F f) (F g)"
    unfolding flat_ord_def by (cases "F f") auto
qed

section \<open>Masks of powers of two\<close>

unbundle bit_operations_syntax

text \<open>\<open>x & (n - 1)\<close> is \<open>x mod n\<close> when the table size \<open>n\<close> is a power of two.\<close>

lemma and_pow2_mask: "(x :: nat) AND (2 ^ k - 1) = x mod 2 ^ k"
  by (simp only: mask_eq_exp_minus_1 [symmetric] take_bit_eq_mask [symmetric] take_bit_eq_mod)

lemma unat_and_pow2_mask:
  fixes x :: "'a::len word"
  shows "unat (x AND of_nat (2 ^ k - 1)) = unat x mod 2 ^ k"
proof -
  have "(of_nat (2 ^ k - 1) :: 'a word) = mask k"
    by (simp add: mask_eq_exp_minus_1 of_nat_diff)
  then have "x AND of_nat (2 ^ k - 1) = take_bit k x" by (simp only: take_bit_eq_mask)
  then show ?thesis
    by (simp only: unsigned_take_bit_eq) (simp only: take_bit_eq_mod)
qed

section \<open>Generic list facts\<close>

lemma distinct_bounded_length:
  assumes "distinct xs" and "\<forall>x\<in>set xs. x < n"
  shows "length xs \<le> n"
proof -
  have "card (set xs) \<le> card {..<n}"
    using assms(2) by (intro card_mono) auto
  with assms(1) show ?thesis by (simp add: distinct_card)
qed

lemma distinct_full_set:
  assumes "distinct xs" and "\<forall>x\<in>set xs. x < n" and "length xs = n"
  shows "set xs = {..<n}"
proof (rule card_subset_eq)
  show "set xs \<subseteq> {..<n}" using assms(2) by auto
  show "card (set xs) = card {..<n}" using assms(1,3) by (simp add: distinct_card)
qed simp

text \<open>The first position of an element: the reference for every linear or hashed index lookup.\<close>

fun position :: "'a list \<Rightarrow> 'a \<Rightarrow> nat option" where
  "position [] y = None"
| "position (x # xs) y = (if x = y then Some 0 else map_option Suc (position xs y))"

lemma position_None [simp]: "position xs y = None \<longleftrightarrow> y \<notin> set xs"
  by (induction xs) auto

lemma position_None' [simp]: "None = position xs y \<longleftrightarrow> y \<notin> set xs"
  by (metis position_None)

lemma position_Some: "position xs y = Some i \<Longrightarrow> i < length xs \<and> xs ! i = y"
  by (induction xs arbitrary: i) (auto split: if_splits)

lemma position_distinct:
  "distinct xs \<Longrightarrow> i < length xs \<Longrightarrow> position xs (xs ! i) = Some i"
proof (induction xs arbitrary: i)
  case (Cons x xs)
  then show ?case by (cases i) (auto dest: nth_mem)
qed simp

lemma nth_list_update_if:
  "j < length xs \<Longrightarrow> xs[i := x] ! j = (if i = j then x else xs ! j)"
  by (simp add: nth_list_update)

section \<open>Reachable states\<close>

text \<open>
  The states that a component can reach by its operations, and the interface of an invariant: it
  holds at the start and every operation keeps it.
\<close>

inductive reach :: "('s \<Rightarrow> bool) \<Rightarrow> ('s \<Rightarrow> 's \<Rightarrow> bool) \<Rightarrow> 's \<Rightarrow> bool" for init step where
  reach_init: "init s \<Longrightarrow> reach init step s"
| reach_step: "reach init step s \<Longrightarrow> step s t \<Longrightarrow> reach init step t"

locale invariant_system =
  fixes init :: "'s \<Rightarrow> bool" and step :: "'s \<Rightarrow> 's \<Rightarrow> bool" and inv :: "'s \<Rightarrow> bool"
  assumes inv_init: "init s \<Longrightarrow> inv s"
    and inv_step: "step s t \<Longrightarrow> inv s \<Longrightarrow> inv t"
begin

lemma reach_inv: "reach init step s \<Longrightarrow> inv s"
  by (induction rule: reach.induct) (auto intro: inv_init inv_step)

lemma steps_inv: "step\<^sup>*\<^sup>* s t \<Longrightarrow> inv s \<Longrightarrow> inv t"
  by (induction rule: rtranclp_induct) (auto intro: inv_step)

end

end
