(* ===== verification/Json_Api.thy ===== *)
theory Json_Api
  imports Praktor_Prelude
begin

text \<open>
  The JSON values of the workflow engine live in a document model provided by a dependency
  (\<open>json_parser.h\<close> of SaltsUtils). Its operations are parameters: \<open>'j\<close> stands for the pointer
  type \<open>json_value_t *\<close>, and a record \<open>'j json_api\<close> holds the functions that the modelled code
  calls. What the proofs need of them is the named predicate \<open>json_laws\<close>. At the end a tree type
  with straightforward operations shows that the laws can hold; it instantiates the parameter in
  the witnesses.
\<close>

section \<open>The calls\<close>

datatype json_kind = JSON_NULL | JSON_BOOL | JSON_NUMBER | JSON_STRING | JSON_ARRAY | JSON_OBJECT

text \<open>
  \<open>json_string\<close> returns the bytes that \<open>json_string\<close> and \<open>json_string_len\<close> describe, \<open>None\<close> for a
  value that is no string; \<open>json_number_text\<close> the retained number token, if any; \<open>json_array\<close> the
  elements that \<open>json_array_size\<close> and \<open>json_array_get\<close> enumerate; \<open>json_members\<close> the members that
  \<open>json_object_size\<close>, \<open>json_object_key\<close> and \<open>json_object_value\<close> enumerate. The calls that allocate
  return \<open>None\<close> when they fail; \<open>json_object_add_n\<close> returns the updated object.
\<close>

record 'j json_api =
  json_type :: "'j \<Rightarrow> json_kind"
  json_string :: "'j \<Rightarrow> string option"
  json_number_text :: "'j \<Rightarrow> string option"
  json_array :: "'j \<Rightarrow> 'j list"
  json_members :: "'j \<Rightarrow> (string \<times> 'j) list"
  json_object_get :: "'j \<Rightarrow> string \<Rightarrow> 'j option"
  json_clone :: "'j \<Rightarrow> 'j option"
  json_create_object :: "'j option"
  json_object_add_n :: "'j \<Rightarrow> string \<Rightarrow> 'j \<Rightarrow> 'j option"

section \<open>JSON trees and the laws of the calls\<close>

datatype json =
    JNull
  | JBool bool
  | JNumber "string option"
  | JString string
  | JArray "json list"
  | JObject "(string \<times> json) list"

fun json_replace :: "string \<Rightarrow> json \<Rightarrow> (string \<times> json) list \<Rightarrow> (string \<times> json) list" where
  "json_replace k v [] = [(k, v)]"
| "json_replace k v ((k', v') # ms) =
     (if k' = k then (k, v) # ms else (k', v') # json_replace k v ms)"

lemma map_of_json_replace: "map_of (json_replace k v ms) = (map_of ms)(k \<mapsto> v)"
  by (induction ms) auto

fun tree_kind :: "json \<Rightarrow> json_kind" where
  "tree_kind JNull = JSON_NULL"
| "tree_kind (JBool _) = JSON_BOOL"
| "tree_kind (JNumber _) = JSON_NUMBER"
| "tree_kind (JString _) = JSON_STRING"
| "tree_kind (JArray _) = JSON_ARRAY"
| "tree_kind (JObject _) = JSON_OBJECT"

fun tree_members :: "json \<Rightarrow> (string \<times> json) list" where
  "tree_members (JObject ms) = ms"
| "tree_members _ = []"

fun tree_elements :: "json \<Rightarrow> json list" where
  "tree_elements (JArray js) = js"
| "tree_elements _ = []"

fun tree_text :: "json \<Rightarrow> string option" where
  "tree_text (JString s) = Some s"
| "tree_text _ = None"

fun tree_number :: "json \<Rightarrow> string option" where
  "tree_number (JNumber t) = t"
| "tree_number _ = None"

text \<open>
  \<open>view\<close> reads a pointer as the tree it denotes; a number carries its token when the document
  model retained one. The laws are the documented behaviour of the document model: the readers
  describe the tree, a clone denotes the same tree, a new object is empty, and adding a member
  replaces or appends it.
\<close>

definition json_laws :: "'j json_api \<Rightarrow> ('j \<Rightarrow> json) \<Rightarrow> bool" where
  "json_laws J view \<longleftrightarrow>
     (\<forall>j. json_type J j = tree_kind (view j)) \<and>
     (\<forall>j. json_string J j = tree_text (view j)) \<and>
     (\<forall>j. json_number_text J j = tree_number (view j)) \<and>
     (\<forall>j. map view (json_array J j) = tree_elements (view j)) \<and>
     (\<forall>j. map (\<lambda>(k, v). (k, view v)) (json_members J j) = tree_members (view j)) \<and>
     (\<forall>j k. map_option view (json_object_get J j k) = map_of (tree_members (view j)) k) \<and>
     (\<forall>j c. json_clone J j = Some c \<longrightarrow> view c = view j) \<and>
     (\<forall>c. json_create_object J = Some c \<longrightarrow> view c = JObject []) \<and>
     (\<forall>j ms k v c. view j = JObject ms \<longrightarrow> json_object_add_n J j k v = Some c \<longrightarrow>
        view c = JObject (json_replace k (view v) ms))"

lemma json_laws_read:
  assumes "json_laws J view"
  shows "json_type J j = tree_kind (view j)" and "json_string J j = tree_text (view j)"
    and "json_number_text J j = tree_number (view j)"
    and "map view (json_array J j) = tree_elements (view j)"
    and "map (\<lambda>(k, v). (k, view v)) (json_members J j) = tree_members (view j)"
    and "map_option view (json_object_get J j k) = map_of (tree_members (view j)) k"
  using assms by (simp_all add: json_laws_def)

lemma json_laws_clone: "json_laws J view \<Longrightarrow> json_clone J j = Some c \<Longrightarrow> view c = view j"
  by (simp add: json_laws_def)

lemma json_laws_create:
  "json_laws J view \<Longrightarrow> json_create_object J = Some c \<Longrightarrow> view c = JObject []"
  by (simp add: json_laws_def)

lemma json_laws_add:
  "json_laws J view \<Longrightarrow> view j = JObject ms \<Longrightarrow> json_object_add_n J j k v = Some c \<Longrightarrow>
   view c = JObject (json_replace k (view v) ms)"
  by (simp add: json_laws_def)

section \<open>A concrete instance\<close>

fun tree_add :: "json \<Rightarrow> string \<Rightarrow> json \<Rightarrow> json option" where
  "tree_add (JObject ms) k v = Some (JObject (json_replace k v ms))"
| "tree_add _ _ _ = None"

definition tree_api :: "json json_api" where
  "tree_api = \<lparr>json_type = tree_kind, json_string = tree_text, json_number_text = tree_number,
     json_array = tree_elements, json_members = tree_members,
     json_object_get = (\<lambda>j k. map_of (tree_members j) k),
     json_clone = Some, json_create_object = Some (JObject []), json_object_add_n = tree_add\<rparr>"

lemma tree_kind_object: "tree_kind j = JSON_OBJECT \<longleftrightarrow> (\<exists>ms. j = JObject ms)"
  by (cases j) auto

lemma tree_api_laws: "json_laws tree_api (\<lambda>j. j)"
  by (auto simp: json_laws_def tree_api_def map_option.id [unfolded id_def])

lemma tree_api_simps [simp]:
  "json_type tree_api = tree_kind"
  "json_string tree_api = tree_text"
  "json_number_text tree_api = tree_number"
  "json_array tree_api = tree_elements"
  "json_members tree_api = tree_members"
  "json_object_get tree_api j k = map_of (tree_members j) k"
  "json_clone tree_api j = Some j"
  "json_create_object tree_api = Some (JObject [])"
  "json_object_add_n tree_api = tree_add"
  by (simp_all add: tree_api_def)

end
