(* ===== verification/Workflow_Dependencies.thy ===== *)
theory Workflow_Dependencies
  imports Json_Api
begin

text \<open>
  The dependency graph of \<open>praktor/src/yml/workflow_dependencies.c\<close>: task names in an open
  addressing hash table, ordered edges threaded into one adjacency chain per predecessor, the
  four-phase constructor (names, trigger targets, edges, cycle check) and the read accessors.

  A call returns \<open>(diag + 'a) option\<close>: \<open>None\<close> when a probing or chain loop never ends, \<open>Inl\<close> the
  status and diagnostic of a refusal, \<open>Inr\<close> the result. The diagnostic is the text before
  \<open>snprintf\<close> cuts it to the caller's buffer.
\<close>

section \<open>Data\<close>

record dependency_name =
  bytes :: string
  first_outgoing :: "nat option"

record dependency_edge =
  predecessor :: nat
  dependent :: nat
  next_outgoing :: "nat option"

record workflow_dependencies =
  tasks :: "dependency_name list"
  edges :: "dependency_edge list"
  name_slots :: "nat option list"
  edge_capacity :: nat

definition max_tasks :: nat where "max_tasks = 4096"
definition max_edges :: nat where "max_edges = 16384"
definition max_name_bytes :: nat where "max_name_bytes = 1024 * 1024"

type_synonym diag = "salts_status \<times> string"
type_synonym 'a run = "(diag + 'a) option"

definition bind_run :: "'a run \<Rightarrow> ('a \<Rightarrow> 'b run) \<Rightarrow> 'b run" where
  "bind_run m k = (case m of None \<Rightarrow> None | Some (Inl e) \<Rightarrow> Some (Inl e) | Some (Inr x) \<Rightarrow> k x)"

text \<open>\<open>fail\<close> and \<open>formatted_error\<close>: the latter always reports \<open>SALTS_EINVAL\<close>.\<close>

definition fail :: "salts_status \<Rightarrow> string \<Rightarrow> 'a run" where
  "fail status reason = Some (Inl (status, reason))"

definition formatted_error :: "string \<Rightarrow> 'a run" where
  "formatted_error message = Some (Inl (SALTS_EINVAL, message))"

text \<open>The allocations of the constructor, in the order of the calls.\<close>

datatype dep_site =
    Site_graph | Site_tasks | Site_slots | Site_name nat | Site_edges nat | Site_degrees | Site_queue

section \<open>The name table\<close>

unbundle bit_operations_syntax

text \<open>FNV-1a over the bytes of the name, at the width of \<open>uint64_t\<close>.\<close>

definition name_hash :: "string \<Rightarrow> 64 word" where
  "name_hash name =
     fold (\<lambda>c result. (result XOR of_nat (of_char c)) * 1099511628211) name 14695981039346656037"

definition slot_count :: "workflow_dependencies \<Rightarrow> nat" where
  "slot_count g = length (name_slots g)"

definition slot_occupied_by_other :: "workflow_dependencies \<Rightarrow> string \<Rightarrow> nat \<Rightarrow> bool" where
  "slot_occupied_by_other g name index =
     (case name_slots g ! index of None \<Rightarrow> False | Some t \<Rightarrow> bytes (tasks g ! t) \<noteq> name)"

definition find_slot :: "workflow_dependencies \<Rightarrow> string \<Rightarrow> nat option" where
  "find_slot g name =
     while_option (slot_occupied_by_other g name)
       (\<lambda>index. (index + 1) AND (slot_count g - 1))
       (unat (name_hash name AND of_nat (slot_count g - 1)))"

definition name_index :: "workflow_dependencies \<Rightarrow> string \<Rightarrow> nat option option" where
  "name_index g name = map_option (\<lambda>slot. name_slots g ! slot) (find_slot g name)"

section \<open>Trigger targets\<close>

definition has_dynamic_marker :: "string \<Rightarrow> bool" where
  "has_dynamic_marker name =
     (\<exists>i\<in>set [1..<length name].
        name ! (i - 1) = CHR ''{'' \<and> name ! i = CHR ''{'' \<or>
        name ! (i - 1) = CHR ''}'' \<and> name ! i = CHR ''}'')"

definition check_trigger_name ::
  "workflow_dependencies \<Rightarrow> nat \<Rightarrow> string \<Rightarrow> string \<Rightarrow> unit run" where
  "check_trigger_name g task category target =
     (if target = [] \<or> has_dynamic_marker target then Some (Inr ())
      else case name_index g target of
        None \<Rightarrow> None
      | Some (Some _) \<Rightarrow> Some (Inr ())
      | Some None \<Rightarrow> formatted_error
          (''Task '' @ [CHR 0x27] @ c_text (bytes (tasks g ! task)) @ [CHR 0x27] @ '' trigger '' @ [CHR 0x27]
           @ category @ [CHR 0x27] @ '' references unknown task '' @ [CHR 0x27] @ c_text target @ [CHR 0x27]))"

fun check_trigger_values ::
  "'j json_api \<Rightarrow> workflow_dependencies \<Rightarrow> nat \<Rightarrow> string \<Rightarrow> 'j list \<Rightarrow> unit run" where
  "check_trigger_values J g task category [] = Some (Inr ())"
| "check_trigger_values J g task category (v # vs) =
     (case json_string J v of
        None \<Rightarrow> fail SALTS_EINVAL ''Invalid native workflow trigger metadata''
      | Some name \<Rightarrow>
          bind_run (check_trigger_name g task category name)
            (\<lambda>_. check_trigger_values J g task category vs))"

definition check_trigger_list ::
  "'j json_api \<Rightarrow> workflow_dependencies \<Rightarrow> nat \<Rightarrow> 'j option \<Rightarrow> string \<Rightarrow> unit run" where
  "check_trigger_list J g task triggers category =
     (case Option.bind triggers (\<lambda>t. json_object_get J t category) of
        None \<Rightarrow> Some (Inr ())
      | Some list \<Rightarrow> check_trigger_values J g task category (json_array J list))"

section \<open>Edges\<close>

text \<open>
  The edge array grows by doubling from 8, never beyond \<open>PRAKTOR_WORKFLOW_MAX_EDGES\<close>; the new edge
  becomes the head of its predecessor's chain.
\<close>

definition append_edge ::
  "dep_site allocator \<Rightarrow> workflow_dependencies \<Rightarrow> nat \<Rightarrow> nat \<Rightarrow> workflow_dependencies run" where
  "append_edge mem g pred dep =
     (if length (edges g) = max_edges
      then fail SALTS_EINVAL ''Workflow dependency edge limit exceeded''
      else
        let new_capacity =
              (if length (edges g) = edge_capacity g
               then min (if edge_capacity g \<noteq> 0 then edge_capacity g * 2 else 8) max_edges
               else edge_capacity g)
        in if length (edges g) = edge_capacity g \<and> \<not> mem (Site_edges (length (edges g)))
           then fail SALTS_ENOMEM ''Cannot allocate native workflow edges''
           else Some (Inr (g\<lparr>
             edge_capacity := new_capacity,
             edges := edges g @ [\<lparr>predecessor = pred, dependent = dep,
                next_outgoing = first_outgoing (tasks g ! pred)\<rparr>],
             tasks := (tasks g)[pred :=
                (tasks g ! pred)\<lparr>first_outgoing := Some (length (edges g))\<rparr>]\<rparr>)))"

section \<open>The cycle check\<close>

record kahn =
  degrees :: "nat list"
  queue :: "nat list"
  front :: nat
  visited :: nat

text \<open>One iteration of the inner loop: \<open>if (--degrees[dependent] == 0u) queue[back++] = dependent\<close>.\<close>

definition retire_edge :: "workflow_dependencies \<Rightarrow> nat \<Rightarrow> kahn \<Rightarrow> kahn" where
  "retire_edge g edge s =
     (let d = dependent (edges g ! edge);
          degree = size_dec (degrees s ! d)
      in s\<lparr>degrees := (degrees s)[d := degree],
           queue := (if degree = 0 then queue s @ [d] else queue s)\<rparr>)"

definition retire_outgoing :: "workflow_dependencies \<Rightarrow> nat \<Rightarrow> kahn \<Rightarrow> kahn option" where
  "retire_outgoing g task s =
     map_option snd
       (while_option (\<lambda>(edge, s). edge \<noteq> None)
          (\<lambda>(edge, s). (next_outgoing (edges g ! the edge), retire_edge g (the edge) s))
          (first_outgoing (tasks g ! task), s))"

partial_function (option) kahn_loop :: "workflow_dependencies \<Rightarrow> kahn \<Rightarrow> kahn option" where
  "kahn_loop g s =
     (if front s < length (queue s)
      then Option.bind
             (retire_outgoing g (queue s ! front s)
                (s\<lparr>front := Suc (front s), visited := Suc (visited s)\<rparr>))
             (kahn_loop g)
      else Some s)"

definition initial_degrees :: "workflow_dependencies \<Rightarrow> nat list" where
  "initial_degrees g =
     fold (\<lambda>e ds. ds[dependent e := Suc (ds ! dependent e)]) (edges g) (replicate (length (tasks g)) 0)"

definition kahn_start :: "workflow_dependencies \<Rightarrow> kahn" where
  "kahn_start g =
     \<lparr>degrees = initial_degrees g,
      queue = filter (\<lambda>i. initial_degrees g ! i = 0) [0..<length (tasks g)],
      front = 0, visited = 0\<rparr>"

definition check_cycles :: "dep_site allocator \<Rightarrow> workflow_dependencies \<Rightarrow> unit run" where
  "check_cycles mem g =
     (if \<not> mem Site_degrees \<or> \<not> mem Site_queue
      then fail SALTS_ENOMEM ''Cannot allocate native workflow cycle scratch''
      else case kahn_loop g (kahn_start g) of
        None \<Rightarrow> None
      | Some s \<Rightarrow>
          (if visited s = length (tasks g) then Some (Inr ())
           else fail SALTS_EINVAL ''Cycle detected in workflow dependencies''))"

section \<open>The constructor\<close>

text \<open>\<open>slot_count\<close> starts at 8 and doubles until it reaches twice the task count.\<close>

function grow_slots :: "nat \<Rightarrow> nat \<Rightarrow> nat" where
  "grow_slots count slots = (if 0 < slots \<and> slots < count * 2 then grow_slots count (slots * 2) else slots)"
  by pat_completeness auto
termination
  by (relation "measure (\<lambda>(count, slots). count * 2 - slots)") auto

declare grow_slots.simps [simp del]

definition empty_graph :: "nat \<Rightarrow> workflow_dependencies" where
  "empty_graph count =
     \<lparr>tasks = replicate count \<lparr>bytes = [], first_outgoing = None\<rparr>, edges = [],
      name_slots = replicate (grow_slots count 8) None, edge_capacity = 0\<rparr>"

definition task_name :: "'j json_api \<Rightarrow> 'j option \<Rightarrow> string option" where
  "task_name J metadata =
     Option.bind (Option.bind metadata (\<lambda>m. json_object_get J m ''name'')) (json_string J)"

text \<open>Phase one: names, duplicates and the byte budget.\<close>

fun add_names :: "'j json_api \<Rightarrow> dep_site allocator \<Rightarrow> nat \<Rightarrow> 'j option list \<Rightarrow> nat \<Rightarrow>
    workflow_dependencies \<Rightarrow> workflow_dependencies run" where
  "add_names J mem i [] name_bytes g = Some (Inr g)"
| "add_names J mem i (m # ms) name_bytes g =
     (case task_name J m of
        None \<Rightarrow> fail SALTS_EINVAL ''Invalid native workflow task name''
      | Some name \<Rightarrow>
          if name = [] then fail SALTS_EINVAL ''Invalid native workflow task name''
          else case find_slot g name of
            None \<Rightarrow> None
          | Some slot \<Rightarrow>
              if name_slots g ! slot \<noteq> None
              then formatted_error (''Duplicate task name: '' @ [CHR 0x27] @ c_text name @ [CHR 0x27])
              else if length name + 1 > max_name_bytes - name_bytes
              then fail SALTS_EINVAL ''Native workflow name byte limit exceeded''
              else if \<not> mem (Site_name i)
              then fail SALTS_ENOMEM ''Cannot copy native workflow task name''
              else add_names J mem (Suc i) ms (name_bytes + (length name + 1))
                     (g\<lparr>tasks := (tasks g)[i := (tasks g ! i)\<lparr>bytes := name\<rparr>],
                        name_slots := (name_slots g)[slot := Some i]\<rparr>))"

text \<open>Phase two: every static trigger target of every task, the \<open>finally\<close> target last.\<close>

definition trigger_groups :: "string list" where
  "trigger_groups = [''on_success'', ''on_failure'', ''on_complete'']"

fun check_groups ::
  "'j json_api \<Rightarrow> workflow_dependencies \<Rightarrow> nat \<Rightarrow> 'j option \<Rightarrow> string list \<Rightarrow> unit run" where
  "check_groups J g task triggers [] = Some (Inr ())"
| "check_groups J g task triggers (c # cs) =
     bind_run (check_trigger_list J g task triggers c) (\<lambda>_. check_groups J g task triggers cs)"

definition check_finally :: "'j json_api \<Rightarrow> workflow_dependencies \<Rightarrow> nat \<Rightarrow> 'j option \<Rightarrow> unit run" where
  "check_finally J g task finally_node =
     (case finally_node of
        None \<Rightarrow> Some (Inr ())
      | Some node \<Rightarrow>
          (case json_string J node of
             None \<Rightarrow> fail SALTS_EINVAL ''Invalid native workflow finally metadata''
           | Some target \<Rightarrow> check_trigger_name g task ''on_complete'' target))"

fun check_triggers ::
  "'j json_api \<Rightarrow> nat \<Rightarrow> 'j list \<Rightarrow> workflow_dependencies \<Rightarrow> unit run" where
  "check_triggers J i [] g = Some (Inr ())"
| "check_triggers J i (m # ms) g =
     bind_run (check_groups J g i (json_object_get J m ''triggers'') trigger_groups)
       (\<lambda>_. bind_run (check_finally J g i (json_object_get J m ''finally''))
              (\<lambda>_. check_triggers J (Suc i) ms g))"

text \<open>Phase three: one edge per \<open>depends_on\<close> entry, duplicates included, in declaration order.\<close>

fun add_task_edges :: "'j json_api \<Rightarrow> dep_site allocator \<Rightarrow> nat \<Rightarrow> 'j list \<Rightarrow>
    workflow_dependencies \<Rightarrow> workflow_dependencies run" where
  "add_task_edges J mem i [] g = Some (Inr g)"
| "add_task_edges J mem i (v # vs) g =
     (case json_string J v of
        None \<Rightarrow> fail SALTS_EINVAL ''Invalid native workflow dependency metadata''
      | Some name \<Rightarrow>
          (case name_index g name of
             None \<Rightarrow> None
           | Some None \<Rightarrow> formatted_error
               (''Task '' @ [CHR 0x27] @ c_text (bytes (tasks g ! i)) @ [CHR 0x27] @ '' depends on unknown task ''
                @ [CHR 0x27] @ c_text name @ [CHR 0x27])
           | Some (Some from) \<Rightarrow>
               bind_run (append_edge mem g from i) (add_task_edges J mem i vs)))"

definition depends_on :: "'j json_api \<Rightarrow> 'j \<Rightarrow> 'j list" where
  "depends_on J m =
     (case json_object_get J m ''depends_on'' of None \<Rightarrow> [] | Some deps \<Rightarrow> json_array J deps)"

fun add_edges :: "'j json_api \<Rightarrow> dep_site allocator \<Rightarrow> nat \<Rightarrow> 'j list \<Rightarrow>
    workflow_dependencies \<Rightarrow> workflow_dependencies run" where
  "add_edges J mem i [] g = Some (Inr g)"
| "add_edges J mem i (m # ms) g =
     bind_run (add_task_edges J mem i (depends_on J m) g) (add_edges J mem (Suc i) ms)"

definition workflow_dependencies_create ::
  "'j json_api \<Rightarrow> dep_site allocator \<Rightarrow> 'j option list \<Rightarrow> workflow_dependencies run" where
  "workflow_dependencies_create J mem task_metadata =
     (let count = length task_metadata in
      if count = 0 \<or> count > max_tasks
      then fail SALTS_EINVAL ''Invalid native workflow task metadata or task limit''
      else if \<not> mem Site_graph
      then fail SALTS_ENOMEM ''Cannot allocate native workflow projection''
      else if \<not> mem Site_tasks \<or> \<not> mem Site_slots
      then fail SALTS_ENOMEM ''Cannot allocate native workflow task names''
      else bind_run (add_names J mem 0 task_metadata 0 (empty_graph count))
        (\<lambda>g. bind_run (check_triggers J 0 (map the task_metadata) g)
          (\<lambda>_. bind_run (add_edges J mem 0 (map the task_metadata) g)
            (\<lambda>g. bind_run (check_cycles mem g) (\<lambda>_. Some (Inr g))))))"

section \<open>Accessors\<close>

definition dependencies_task_count :: "workflow_dependencies \<Rightarrow> nat" where
  "dependencies_task_count g = length (tasks g)"

definition dependencies_edge_count :: "workflow_dependencies \<Rightarrow> nat" where
  "dependencies_edge_count g = length (edges g)"

definition dependencies_task_name :: "workflow_dependencies \<Rightarrow> nat \<Rightarrow> salts_status + string" where
  "dependencies_task_name g index =
     (if index \<ge> length (tasks g) then Inl SALTS_ENOENT else Inr (bytes (tasks g ! index)))"

definition dependencies_edge_at ::
  "workflow_dependencies \<Rightarrow> nat \<Rightarrow> salts_status + (nat \<times> nat)" where
  "dependencies_edge_at g index =
     (if index \<ge> length (edges g) then Inl SALTS_ENOENT
      else Inr (predecessor (edges g ! index), dependent (edges g ! index)))"

definition dependencies_has_edge ::
  "workflow_dependencies \<Rightarrow> nat \<Rightarrow> nat \<Rightarrow> (salts_status + bool) option" where
  "dependencies_has_edge g pred dep =
     (if pred \<ge> length (tasks g) \<or> dep \<ge> length (tasks g) then Some (Inl SALTS_ENOENT)
      else map_option (\<lambda>edge. Inr (edge \<noteq> None))
        (while_option (\<lambda>edge. edge \<noteq> None \<and> \<not> dependent (edges g ! the edge) = dep)
           (\<lambda>edge. next_outgoing (edges g ! the edge))
           (first_outgoing (tasks g ! pred))))"

section \<open>The name table is a map from names to declaration indices\<close>

definition names :: "workflow_dependencies \<Rightarrow> string list" where
  "names g = map bytes (tasks g)"

definition home :: "workflow_dependencies \<Rightarrow> string \<Rightarrow> nat" where
  "home g name = unat (name_hash name) mod slot_count g"

text \<open>
  The table after the first \<open>i\<close> names: a power-of-two number of slots, at least twice the tasks;
  the slots hold exactly the indices below \<open>i\<close>; and every stored index is reached from its home
  slot through occupied slots.
\<close>

definition table_inv :: "nat \<Rightarrow> workflow_dependencies \<Rightarrow> bool" where
  "table_inv i g \<longleftrightarrow>
     i \<le> length (tasks g) \<and> (\<exists>k. slot_count g = 2 ^ k) \<and> length (tasks g) < slot_count g \<and>
     distinct (take i (names g)) \<and>
     set (name_slots g) \<subseteq> insert None (Some ` {..<i}) \<and>
     count_if (\<lambda>s. s \<noteq> None) (name_slots g) \<le> i \<and>
     (\<forall>t<i. \<exists>d. name_slots g ! ((home g (names g ! t) + d) mod slot_count g) = Some t \<and>
        (\<forall>d'<d. name_slots g ! ((home g (names g ! t) + d') mod slot_count g) \<noteq> None))"

lemma find_slot_mod:
  assumes "\<exists>k. slot_count g = 2 ^ k"
  shows "find_slot g name =
    while_option (slot_occupied_by_other g name) (\<lambda>i. (i + 1) mod slot_count g)
      (unat (name_hash name) mod slot_count g)"
  using assms unfolding find_slot_def by (elim exE) (simp only: and_pow2_mask unat_and_pow2_mask)

text \<open>A probe from any start meets a slot that is free, since fewer tasks than slots exist.\<close>

lemma table_has_free_slot:
  assumes "table_inv i g"
  shows "\<exists>d. name_slots g ! ((h + d) mod slot_count g) = None"
proof -
  from assms have "count_if (\<lambda>s. s \<noteq> None) (name_slots g) < length (name_slots g)"
    by (auto simp: table_inv_def slot_count_def)
  then have "\<not> (\<forall>s\<in>set (name_slots g). s \<noteq> None)"
    using count_if_all [of "\<lambda>s. s \<noteq> None" "name_slots g"] by linarith
  then obtain j where j: "j < slot_count g" "name_slots g ! j = None"
    by (metis in_set_conv_nth slot_count_def)
  have "(h + (j + slot_count g - h mod slot_count g)) mod slot_count g = j"
  proof -
    obtain q where q: "h = slot_count g * q + h mod slot_count g"
      by (metis mult_div_mod_eq)
    have "h mod slot_count g < slot_count g" using j(1) by simp
    with q have "h + (j + slot_count g - h mod slot_count g) = j + slot_count g * (q + 1)"
      by (simp only: add_mult_distrib2 mult_1_right)
    then show ?thesis using j(1) by (simp only: mod_mult_self2 mod_less)
  qed
  with j(2) show ?thesis by metis
qed

lemma find_slot_spec:
  assumes "table_inv i g"
  shows "\<exists>d. find_slot g name = Some ((home g name + d) mod slot_count g) \<and>
      \<not> slot_occupied_by_other g name ((home g name + d) mod slot_count g) \<and>
      (\<forall>d'<d. slot_occupied_by_other g name ((home g name + d') mod slot_count g))"
proof -
  let ?P = "slot_occupied_by_other g name"
  let ?at = "\<lambda>d. (unat (name_hash name) + d) mod slot_count g"
  obtain d0 where "name_slots g ! ?at d0 = None"
    using table_has_free_slot [OF assms] by blast
  then have "\<not> ?P (?at d0)" by (simp add: slot_occupied_by_other_def)
  then obtain d where d: "\<not> ?P (?at d)" "\<forall>d'<d. ?P (?at d')"
    using exists_least_iff [of "\<lambda>d. \<not> ?P (?at d)"] by blast
  then have "find_slot g name = Some (?at d)"
    using find_slot_mod while_probe assms unfolding table_inv_def by metis
  moreover have "?at d' = (home g name + d') mod slot_count g" for d'
    by (simp add: home_def mod_add_left_eq)
  ultimately show ?thesis using d by metis
qed

lemma slot_index_bounded:
  assumes "table_inv i g" and "name_slots g ! (x mod slot_count g) = Some t"
  shows "t < i"
proof -
  have "x mod slot_count g < length (name_slots g)"
    using assms(1) by (auto simp: table_inv_def slot_count_def)
  then have "name_slots g ! (x mod slot_count g) \<in> set (name_slots g)" by simp
  with assms show ?thesis by (auto simp: table_inv_def)
qed

lemma find_slot_lookup:
  assumes inv: "table_inv i g" and found: "find_slot g name = Some s"
  shows "s < slot_count g \<and> name_slots g ! s = position (take i (names g)) name"
proof -
  obtain d where s: "s = (home g name + d) mod slot_count g"
    and stop: "\<not> slot_occupied_by_other g name s"
    and path: "\<forall>d'<d. slot_occupied_by_other g name ((home g name + d') mod slot_count g)"
    using find_slot_spec [OF inv, of name] found by auto
  have bound: "s < slot_count g"
    using inv s by (auto simp: table_inv_def)
  have len: "length (names g) = length (tasks g)" and i: "i \<le> length (tasks g)"
    using inv by (simp_all add: table_inv_def names_def)
  show ?thesis
  proof (cases "name_slots g ! s")
    case (Some t)
    then have t: "t < i" using slot_index_bounded inv s by blast
    have "take i (names g) ! t = name"
      using Some stop t i by (auto simp: slot_occupied_by_other_def names_def)
    moreover have "distinct (take i (names g))" using inv by (simp add: table_inv_def)
    ultimately have "position (take i (names g)) name = Some t"
      using position_distinct [of "take i (names g)" t] t i len by simp
    with Some bound show ?thesis by simp
  next
    case None
    have "name \<notin> set (take i (names g))"
    proof
      assume "name \<in> set (take i (names g))"
      then obtain t where t: "t < i" "names g ! t = name"
        using i len by (auto simp: in_set_conv_nth)
      with inv obtain d2 where d2: "name_slots g ! ((home g name + d2) mod slot_count g) = Some t"
        "\<forall>d'<d2. name_slots g ! ((home g name + d') mod slot_count g) \<noteq> None"
        unfolding table_inv_def by blast
      have "\<not> slot_occupied_by_other g name ((home g name + d2) mod slot_count g)"
        using d2(1) t i len by (simp add: slot_occupied_by_other_def names_def)
      then have "\<not> d2 < d" using path by blast
      moreover have "\<not> d < d2" using d2(2) None s by blast
      moreover have "d \<noteq> d2" using d2(1) None s by auto
      ultimately show False by simp
    qed
    with None bound show ?thesis by simp
  qed
qed

lemma find_slot_total: "table_inv i g \<Longrightarrow> \<exists>s. find_slot g name = Some s"
  using find_slot_spec by blast

lemma table_insert:
  assumes inv: "table_inv i g" and i: "i < length (tasks g)"
    and found: "find_slot g name = Some s" and free: "name_slots g ! s = None"
  defines "g' \<equiv> g\<lparr>tasks := (tasks g)[i := (tasks g ! i)\<lparr>bytes := name\<rparr>],
                  name_slots := (name_slots g)[s := Some i]\<rparr>"
  shows "table_inv (Suc i) g' \<and> names g' = (names g)[i := name]"
proof -
  have names: "names g' = (names g)[i := name]"
    by (simp add: g'_def names_def map_update)
  have slots: "slot_count g' = slot_count g" by (simp add: g'_def slot_count_def)
  have homes: "home g' n = home g n" for n by (simp add: home_def slots)
  have s: "s < slot_count g" "position (take i (names g)) name = None"
    using find_slot_lookup [OF inv found] free by auto
  have len: "length (names g) = length (tasks g)" by (simp add: names_def)
  have "distinct (take (Suc i) (names g'))"
    using inv i len s(2) by (simp add: names take_Suc_conv_app_nth table_inv_def)
  moreover have "set (name_slots g') \<subseteq> insert None (Some ` {..<Suc i})"
    using inv set_update_subset_insert [of "name_slots g" s "Some i"]
    unfolding table_inv_def g'_def by fastforce
  moreover have "count_if (\<lambda>s. s \<noteq> None) (name_slots g') \<le> Suc i"
    using count_if_update [of s "name_slots g" "\<lambda>s. s \<noteq> None" "Some i"] inv free s(1)
    by (simp add: g'_def table_inv_def slot_count_def)
  moreover have "\<exists>d. name_slots g' ! ((home g' (names g' ! t) + d) mod slot_count g') = Some t \<and>
        (\<forall>d'<d. name_slots g' ! ((home g' (names g' ! t) + d') mod slot_count g') \<noteq> None)"
    if t: "t < Suc i" for t
  proof (cases "t = i")
    case True
    obtain d where d: "s = (home g name + d) mod slot_count g"
      "\<forall>d'<d. slot_occupied_by_other g name ((home g name + d') mod slot_count g)"
      using find_slot_spec [OF inv, of name] found by auto
    have "\<forall>d'<d. name_slots g ! ((home g name + d') mod slot_count g) \<noteq> None"
      using d(2) unfolding slot_occupied_by_other_def by (auto split: option.splits)
    then have "\<forall>d'<d. name_slots g' ! ((home g name + d') mod slot_count g) \<noteq> None"
      using s(1) by (auto simp: g'_def nth_list_update slot_count_def)
    moreover have "name_slots g' ! ((home g name + d) mod slot_count g) = Some i"
      using d(1) s(1) by (simp add: g'_def slot_count_def)
    ultimately show ?thesis using True i len by (auto simp: names homes slots)
  next
    case False
    with t have t': "t < i" by simp
    with inv obtain d where
      d: "name_slots g ! ((home g (names g ! t) + d) mod slot_count g) = Some t"
        "\<forall>d'<d. name_slots g ! ((home g (names g ! t) + d') mod slot_count g) \<noteq> None"
      unfolding table_inv_def by blast
    have "(home g (names g ! t) + d) mod slot_count g \<noteq> s" using d(1) free by auto
    then have "name_slots g' ! ((home g (names g ! t) + d) mod slot_count g) = Some t"
      using d(1) by (simp add: g'_def)
    moreover have "\<forall>d'<d. name_slots g' ! ((home g (names g ! t) + d') mod slot_count g) \<noteq> None"
      using d(2) s(1) by (auto simp: g'_def nth_list_update slot_count_def)
    ultimately show ?thesis using t' by (auto simp: names homes slots)
  qed
  ultimately show ?thesis
    using inv i names slots by (simp add: table_inv_def g'_def)
qed

lemma grow_slots_pow2: "\<exists>k. slots = 2 ^ k \<Longrightarrow> \<exists>k. grow_slots count slots = 2 ^ k"
proof (induction count slots rule: grow_slots.induct)
  case (1 count slots)
  then show ?case
    by (subst grow_slots.simps) (metis power_Suc mult.commute)
qed

lemma grow_slots_ge: "0 < slots \<Longrightarrow> count * 2 \<le> grow_slots count slots \<and> slots \<le> grow_slots count slots"
proof (induction count slots rule: grow_slots.induct)
  case (1 count slots)
  show ?case
  proof (cases "slots < count * 2")
    case True
    with 1 show ?thesis by (simp add: grow_slots.simps [of count slots])
  next
    case False
    then show ?thesis by (simp add: grow_slots.simps [of count slots])
  qed
qed

lemma table_inv_empty: "0 < count \<Longrightarrow> table_inv 0 (empty_graph count)"
proof -
  assume count: "0 < count"
  have "\<exists>k. (8::nat) = 2 ^ k" by (rule exI [of _ 3]) simp
  then have "\<exists>k. grow_slots count 8 = 2 ^ k" by (rule grow_slots_pow2)
  moreover have "count < grow_slots count 8"
    using grow_slots_ge [of 8 count] count by simp
  ultimately show ?thesis
    by (simp add: table_inv_def empty_graph_def slot_count_def)
qed

section \<open>Adjacency chains\<close>

definition edge_pairs :: "workflow_dependencies \<Rightarrow> (nat \<times> nat) list" where
  "edge_pairs g = map (\<lambda>e. (predecessor e, dependent e)) (edges g)"

definition outgoing :: "workflow_dependencies \<Rightarrow> nat \<Rightarrow> nat list" where
  "outgoing g t = rev (filter (\<lambda>i. predecessor (edges g ! i) = t) [0..<length (edges g)])"

text \<open>Every edge joins two tasks, and each task's chain runs through its edges, latest first.\<close>

definition edges_inv :: "workflow_dependencies \<Rightarrow> bool" where
  "edges_inv g \<longleftrightarrow>
     (\<forall>e\<in>set (edges g). predecessor e < length (tasks g) \<and> dependent e < length (tasks g)) \<and>
     (\<forall>t<length (tasks g).
        idx_chain (\<lambda>i. next_outgoing (edges g ! i)) (first_outgoing (tasks g ! t)) (outgoing g t))"

lemma edges_inv_bounds:
  assumes "edges_inv g" and "(u, v) \<in> set (edge_pairs g)"
  shows "u < length (tasks g)" and "v < length (tasks g)"
  using assms by (auto simp: edges_inv_def edge_pairs_def)

lemma edges_inv_chain:
  "edges_inv g \<Longrightarrow> t < length (tasks g) \<Longrightarrow>
   idx_chain (\<lambda>i. next_outgoing (edges g ! i)) (first_outgoing (tasks g ! t)) (outgoing g t)"
  by (simp add: edges_inv_def)

text \<open>The dependents met along the chain of \<open>t\<close>, with their multiplicities.\<close>

lemma count_outgoing:
  "count_if (\<lambda>i. dependent (edges g ! i) = v) (outgoing g t)
   = count_if (\<lambda>(u, w). w = v \<and> u = t) (edge_pairs g)"
proof -
  let ?is = "filter (\<lambda>i. predecessor (edges g ! i) = t) [0..<length (edges g)]"
  have "count_if (\<lambda>i. dependent (edges g ! i) = v) (outgoing g t)
      = count_if (\<lambda>e. dependent e = v) (map ((!) (edges g)) ?is)"
    by (simp add: outgoing_def rev_filter [symmetric] count_if_map)
  also have "\<dots> = count_if (\<lambda>e. dependent e = v) (filter (\<lambda>e. predecessor e = t) (edges g))"
    by (simp only: filter_by_index [where P = "\<lambda>e. predecessor e = t"])
  also have "\<dots> = count_if (\<lambda>(u, w). w = v \<and> u = t) (edge_pairs g)"
    by (simp add: edge_pairs_def filter_map o_def conj_commute)
  finally show ?thesis .
qed

lemma outgoing_bounds: "i \<in> set (outgoing g t) \<Longrightarrow> i < length (edges g)"
  by (auto simp: outgoing_def)

lemma outgoing_dependents:
  "(\<exists>i\<in>set (outgoing g t). dependent (edges g ! i) = v) \<longleftrightarrow> (t, v) \<in> set (edge_pairs g)"
proof -
  have "(\<exists>i\<in>set (outgoing g t). dependent (edges g ! i) = v) \<longleftrightarrow>
      (\<exists>i<length (edges g). predecessor (edges g ! i) = t \<and> dependent (edges g ! i) = v)"
    by (auto simp: outgoing_def)
  also have "\<dots> \<longleftrightarrow> (\<exists>e\<in>set (edges g). predecessor e = t \<and> dependent e = v)"
    by (metis in_set_conv_nth)
  finally show ?thesis by (auto simp: edge_pairs_def)
qed

section \<open>The cycle check decides acyclicity\<close>

definition pending_degree :: "workflow_dependencies \<Rightarrow> nat set \<Rightarrow> nat \<Rightarrow> nat" where
  "pending_degree g done v = count_if (\<lambda>(u, w). w = v \<and> u \<notin> done) (edge_pairs g)"

lemma pending_degree_insert:
  assumes "t \<notin> done"
  shows "pending_degree g (insert t done) v
       = pending_degree g done v - count_if (\<lambda>(u, w). w = v \<and> u = t) (edge_pairs g)"
    and "count_if (\<lambda>(u, w). w = v \<and> u = t) (edge_pairs g) \<le> pending_degree g done v"
proof -
  have "pending_degree g done v
      = count_if (\<lambda>x. (case x of (u, w) \<Rightarrow> w = v \<and> u \<notin> done) \<and> fst x = t) (edge_pairs g)
      + count_if (\<lambda>x. (case x of (u, w) \<Rightarrow> w = v \<and> u \<notin> done) \<and> \<not> fst x = t) (edge_pairs g)"
    unfolding pending_degree_def by (rule count_if_partition)
  moreover have "(\<lambda>x. (case x of (u, w) \<Rightarrow> w = v \<and> u \<notin> done) \<and> fst x = t)
      = (\<lambda>(u, w). w = v \<and> u = t)"
    using assms by (auto simp: fun_eq_iff)
  moreover have "(\<lambda>x. (case x of (u, w) \<Rightarrow> w = v \<and> u \<notin> done) \<and> \<not> fst x = t)
      = (\<lambda>(u, w). w = v \<and> u \<notin> insert t done)"
    by (auto simp: fun_eq_iff)
  ultimately have "pending_degree g done v
      = count_if (\<lambda>(u, w). w = v \<and> u = t) (edge_pairs g) + pending_degree g (insert t done) v"
    by (simp only: pending_degree_def)
  then show "pending_degree g (insert t done) v
       = pending_degree g done v - count_if (\<lambda>(u, w). w = v \<and> u = t) (edge_pairs g)"
    and "count_if (\<lambda>(u, w). w = v \<and> u = t) (edge_pairs g) \<le> pending_degree g done v"
    by simp_all
qed

lemma pending_degree_zero:
  "pending_degree g done v = 0 \<longleftrightarrow> (\<forall>u. (u, v) \<in> set (edge_pairs g) \<longrightarrow> u \<in> done)"
  unfolding pending_degree_def count_if_zero by auto

text \<open>
  \<open>queue\<close> is the array prefix \<open>[0, back)\<close>. The first \<open>front\<close> entries are retired; a degree counts
  the edges from tasks not yet retired; the queue holds exactly the tasks of degree zero; and a
  queued task's predecessors stand before it.
\<close>

definition kahn_inv :: "workflow_dependencies \<Rightarrow> kahn \<Rightarrow> bool" where
  "kahn_inv g s \<longleftrightarrow>
     length (degrees s) = length (tasks g) \<and> distinct (queue s) \<and>
     (\<forall>v\<in>set (queue s). v < length (tasks g)) \<and>
     front s \<le> length (queue s) \<and> visited s = front s \<and>
     (\<forall>v<length (tasks g). degrees s ! v = pending_degree g (set (take (front s) (queue s))) v) \<and>
     (\<forall>v<length (tasks g). v \<in> set (queue s) \<longleftrightarrow> degrees s ! v = 0) \<and>
     (\<forall>j<length (queue s). \<forall>u. (u, queue s ! j) \<in> set (edge_pairs g) \<longrightarrow> u \<in> set (take j (queue s)))"

text \<open>The inner loop, as a fold over the chain: degrees drop by multiplicity, zeros are queued.\<close>

lemma fold_retire_edge:
  assumes "\<forall>i\<in>set is. dependent (edges g ! i) < length (degrees s)"
    and "\<forall>v<length (degrees s). count_if (\<lambda>i. dependent (edges g ! i) = v) is \<le> degrees s ! v"
  shows "\<exists>new. fold (retire_edge g) is s
      = s\<lparr>degrees := degrees (fold (retire_edge g) is s), queue := queue s @ new\<rparr> \<and>
      length (degrees (fold (retire_edge g) is s)) = length (degrees s) \<and>
      (\<forall>v<length (degrees s). degrees (fold (retire_edge g) is s) ! v
         = degrees s ! v - count_if (\<lambda>i. dependent (edges g ! i) = v) is) \<and>
      distinct new \<and>
      set new = {v. v < length (degrees s) \<and> 0 < degrees s ! v \<and>
                    degrees s ! v = count_if (\<lambda>i. dependent (edges g ! i) = v) is}"
  using assms
proof (induction "is" arbitrary: s)
  case Nil
  then show ?case by (auto intro: exI [of _ "[]"])
next
  case (Cons i "is")
  let ?d = "dependent (edges g ! i)"
  let ?count = "\<lambda>v. count_if (\<lambda>i. dependent (edges g ! i) = v) is"
  define s1 where "s1 = retire_edge g i s"
  have d: "?d < length (degrees s)" using Cons.prems(1) by simp
  have pos: "Suc (?count ?d) \<le> degrees s ! ?d" using Cons.prems(2) d by force
  have s1: "degrees s1 = (degrees s)[?d := degrees s ! ?d - 1]"
    "queue s1 = (if degrees s ! ?d = 1 then queue s @ [?d] else queue s)"
    "s1 = s\<lparr>degrees := degrees s1, queue := queue s1\<rparr>"
    using pos by (auto simp: s1_def retire_edge_def Let_def)
  have len: "length (degrees s1) = length (degrees s)" by (simp add: s1(1))
  have "\<forall>v<length (degrees s1). ?count v \<le> degrees s1 ! v"
  proof (intro allI impI)
    fix v assume v: "v < length (degrees s1)"
    show "?count v \<le> degrees s1 ! v"
    proof (cases "v = ?d")
      case True
      then show ?thesis using pos d by (simp add: s1(1))
    next
      case False
      then have "degrees s1 ! v = degrees s ! v" by (simp add: s1(1))
      then show ?thesis using Cons.prems(2) v False len by (auto split: if_splits)
    qed
  qed
  moreover have "\<forall>i\<in>set is. dependent (edges g ! i) < length (degrees s1)"
    using Cons.prems(1) len by simp
  ultimately obtain new where new:
    "fold (retire_edge g) is s1 = s1\<lparr>degrees := degrees (fold (retire_edge g) is s1), queue := queue s1 @ new\<rparr>"
    "length (degrees (fold (retire_edge g) is s1)) = length (degrees s1)"
    "\<forall>v<length (degrees s1). degrees (fold (retire_edge g) is s1) ! v = degrees s1 ! v - ?count v"
    "distinct new"
    "set new = {v. v < length (degrees s1) \<and> 0 < degrees s1 ! v \<and> degrees s1 ! v = ?count v}"
    using Cons.IH by blast
  define fresh where "fresh = (if degrees s ! ?d = 1 then ?d # new else new)"
  have fold: "fold (retire_edge g) (i # is) s = fold (retire_edge g) is s1" by (simp add: s1_def)
  have "fold (retire_edge g) (i # is) s
      = s\<lparr>degrees := degrees (fold (retire_edge g) (i # is) s), queue := queue s @ fresh\<rparr>"
  proof -
    define F where "F = fold (retire_edge g) is s1"
    have "queue s1 @ new = queue s @ fresh" by (simp add: s1(2) fresh_def)
    with new(1) have "F = s1\<lparr>degrees := degrees F, queue := queue s @ fresh\<rparr>"
      by (simp only: F_def)
    also have "\<dots> = s\<lparr>degrees := degrees F, queue := queue s @ fresh\<rparr>"
      by (subst s1(3)) simp
    finally show ?thesis by (simp only: fold F_def)
  qed
  moreover have "\<forall>v<length (degrees s). degrees (fold (retire_edge g) (i # is) s) ! v
      = degrees s ! v - count_if (\<lambda>i. dependent (edges g ! i) = v) (i # is)"
    unfolding fold using new(3) len by (auto simp: s1(1) nth_list_update)
  moreover have "distinct fresh"
    using new(4,5) d by (auto simp: fresh_def s1(1))
  moreover have "set fresh = {v. v < length (degrees s) \<and> 0 < degrees s ! v \<and>
      degrees s ! v = count_if (\<lambda>i. dependent (edges g ! i) = v) (i # is)}"
  proof (rule set_eqI)
    fix v
    show "v \<in> set fresh \<longleftrightarrow> v \<in> {v. v < length (degrees s) \<and> 0 < degrees s ! v \<and>
      degrees s ! v = count_if (\<lambda>i. dependent (edges g ! i) = v) (i # is)}"
    proof (cases "v = ?d")
      case True
      have "v \<in> set new \<longleftrightarrow> 0 < degrees s ! v - 1 \<and> degrees s ! v - 1 = ?count v"
        using d True by (simp add: new(5) s1(1))
      then show ?thesis using True d pos by (auto simp: fresh_def)
    next
      case False
      have "v \<in> set new \<longleftrightarrow> v < length (degrees s) \<and> 0 < degrees s ! v \<and> degrees s ! v = ?count v"
        using False by (simp add: new(5) s1(1))
      then show ?thesis using False by (simp add: fresh_def)
    qed
  qed
  moreover have "length (degrees (fold (retire_edge g) (i # is) s)) = length (degrees s)"
    unfolding fold using new(2) len by simp
  ultimately show ?case by blast
qed

lemma retire_outgoing_fold:
  assumes "edges_inv g" and "t < length (tasks g)"
  shows "retire_outgoing g t s = Some (fold (retire_edge g) (outgoing g t) s)"
  unfolding retire_outgoing_def while_chain_fold [OF edges_inv_chain [OF assms], of "retire_edge g"]
  by simp

lemma kahn_step:
  assumes edges: "edges_inv g" and inv: "kahn_inv g s" and more: "front s < length (queue s)"
  shows "\<exists>s'. retire_outgoing g (queue s ! front s) (s\<lparr>front := Suc (front s), visited := Suc (visited s)\<rparr>) = Some s'
      \<and> kahn_inv g s' \<and> front s' = Suc (front s)"
proof -
  define t where "t = queue s ! front s"
  define R where "R = set (take (front s) (queue s))"
  define s1 where "s1 = s\<lparr>front := Suc (front s), visited := Suc (visited s)\<rparr>"
  define s' where "s' = fold (retire_edge g) (outgoing g t) s1"
  have "t \<in> set (queue s)" using more by (simp add: t_def)
  then have t: "t < length (tasks g)" using inv by (simp add: kahn_inv_def)
  have tR: "t \<notin> R"
    using inv more by (auto simp: kahn_inv_def t_def R_def in_set_conv_nth nth_eq_iff_index_eq)
  have R': "set (take (Suc (front s)) (queue s)) = insert t R"
    using more by (simp add: R_def t_def take_Suc_conv_app_nth)
  have deg: "degrees s ! v = pending_degree g R v" if "v < length (tasks g)" for v
    using inv that by (simp add: kahn_inv_def R_def)
  have len: "length (degrees s1) = length (tasks g)" using inv by (simp add: s1_def kahn_inv_def)
  have dep_bound: "\<forall>i\<in>set (outgoing g t). dependent (edges g ! i) < length (degrees s1)"
    using edges outgoing_bounds len by (auto simp: edges_inv_def)
  have count_le: "\<forall>v<length (degrees s1).
      count_if (\<lambda>i. dependent (edges g ! i) = v) (outgoing g t) \<le> degrees s1 ! v"
    using pending_degree_insert(2) [OF tR] deg len by (simp add: s1_def count_outgoing)
  obtain new where new:
    "s' = s1\<lparr>degrees := degrees s', queue := queue s1 @ new\<rparr>"
    "length (degrees s') = length (degrees s1)"
    "\<forall>v<length (degrees s1). degrees s' ! v
       = degrees s1 ! v - count_if (\<lambda>i. dependent (edges g ! i) = v) (outgoing g t)"
    "distinct new"
    "set new = {v. v < length (degrees s1) \<and> 0 < degrees s1 ! v \<and>
       degrees s1 ! v = count_if (\<lambda>i. dependent (edges g ! i) = v) (outgoing g t)}"
    unfolding s'_def using fold_retire_edge [OF dep_bound count_le] by blast
  have fields: "front s' = Suc (front s)" "visited s' = Suc (visited s)" "queue s' = queue s @ new"
    by (subst new(1), simp add: s1_def)+
  have deg': "degrees s' ! v = pending_degree g (insert t R) v" if "v < length (tasks g)" for v
    using new(3) that len deg by (simp add: s1_def count_outgoing pending_degree_insert(1) [OF tR])
  have new_set: "set new = {v. v < length (tasks g) \<and> degrees s ! v \<noteq> 0 \<and> degrees s' ! v = 0}"
    using new(3,5) len count_le by (fastforce simp: s1_def)
  have member: "v \<in> set (queue s') \<longleftrightarrow> degrees s' ! v = 0" if v: "v < length (tasks g)" for v
  proof -
    have "v \<in> set (queue s) \<longleftrightarrow> degrees s ! v = 0" using inv v by (simp add: kahn_inv_def)
    moreover have "degrees s ! v = 0 \<Longrightarrow> degrees s' ! v = 0"
      using deg [OF v] deg' [OF v] by (auto simp: pending_degree_zero)
    ultimately show ?thesis using v by (auto simp: fields(3) new_set)
  qed
  have order: "u \<in> set (take j (queue s'))"
    if j: "j < length (queue s')" and uv: "(u, queue s' ! j) \<in> set (edge_pairs g)" for j u
  proof (cases "j < length (queue s)")
    case True
    then show ?thesis using inv uv by (simp add: kahn_inv_def fields(3) nth_append)
  next
    case False
    have bound: "queue s' ! j < length (tasks g)" by (rule edges_inv_bounds(2) [OF edges uv])
    have "queue s' ! j \<in> set (queue s')" using j by (rule nth_mem)
    then have "pending_degree g (insert t R) (queue s' ! j) = 0"
      unfolding member [OF bound] deg' [OF bound] .
    then have "u \<in> insert t R" using uv unfolding pending_degree_zero by blast
    then have "u \<in> set (take (Suc (front s)) (queue s'))"
      using R' more by (simp add: fields(3))
    moreover have "Suc (front s) \<le> j" using False more by simp
    ultimately show ?thesis by (rule set_take_subset_set_take [THEN subsetD, rotated])
  qed
  have retired: "set (take (front s') (queue s')) = insert t R"
    using R' more by (simp add: fields)
  have "kahn_inv g s'"
    unfolding kahn_inv_def
  proof (intro conjI allI impI ballI)
    show "length (degrees s') = length (tasks g)" using new(2) len by simp
    show "distinct (queue s')" using inv new(4) new_set by (auto simp: fields(3) kahn_inv_def)
    show "v < length (tasks g)" if "v \<in> set (queue s')" for v
      using that inv new_set by (auto simp: fields(3) kahn_inv_def)
    show "front s' \<le> length (queue s')" using more by (simp add: fields)
    show "visited s' = front s'" using inv by (simp add: fields kahn_inv_def)
    show "degrees s' ! v = pending_degree g (set (take (front s') (queue s'))) v"
      if "v < length (tasks g)" for v
      unfolding retired by (rule deg' [OF that])
    show "v \<in> set (queue s') \<longleftrightarrow> degrees s' ! v = 0" if "v < length (tasks g)" for v
      by (rule member [OF that])
    show "u \<in> set (take j (queue s'))"
      if "j < length (queue s')" and "(u, queue s' ! j) \<in> set (edge_pairs g)" for j u
      by (rule order [OF that])
  qed
  moreover have "retire_outgoing g t s1 = Some s'"
    by (simp add: s'_def retire_outgoing_fold [OF edges t])
  ultimately show ?thesis using fields(1) by (auto simp: t_def s1_def)
qed

lemma kahn_loop_returns:
  assumes "edges_inv g" and "kahn_inv g s"
  shows "\<exists>s'. kahn_loop g s = Some s' \<and> kahn_inv g s' \<and> front s' = length (queue s')"
  using assms(2)
proof (induction "length (tasks g) - front s" arbitrary: s rule: less_induct)
  case less
  show ?case
  proof (cases "front s < length (queue s)")
    case True
    have "length (queue s) \<le> length (tasks g)"
      using less.prems by (intro distinct_bounded_length) (auto simp: kahn_inv_def)
    with True have "front s < length (tasks g)" by simp
    moreover obtain s' where s': "retire_outgoing g (queue s ! front s)
        (s\<lparr>front := Suc (front s), visited := Suc (visited s)\<rparr>) = Some s'"
      "kahn_inv g s'" "front s' = Suc (front s)"
      using kahn_step [OF assms(1) less.prems True] by blast
    ultimately have "\<exists>s''. kahn_loop g s' = Some s'' \<and> kahn_inv g s'' \<and> front s'' = length (queue s'')"
      by (intro less.hyps) simp_all
    then show ?thesis by (subst kahn_loop.simps) (simp add: True s'(1))
  next
    case False
    with less.prems have "front s = length (queue s)" by (simp add: kahn_inv_def)
    with False less.prems show ?thesis by (subst kahn_loop.simps) simp
  qed
qed

lemma initial_degrees_fold:
  assumes "\<forall>e\<in>set es. dependent e < length ds"
  shows "length (fold (\<lambda>e ds. ds[dependent e := Suc (ds ! dependent e)]) es ds) = length ds \<and>
    (\<forall>v<length ds. fold (\<lambda>e ds. ds[dependent e := Suc (ds ! dependent e)]) es ds ! v
       = ds ! v + count_if (\<lambda>e. dependent e = v) es)"
  using assms
proof (induction es arbitrary: ds)
  case (Cons e es)
  then show ?case
    using Cons.IH [of "ds[dependent e := Suc (ds ! dependent e)]"]
    by (auto simp: nth_list_update)
qed simp

lemma kahn_start_inv:
  assumes "edges_inv g"
  shows "kahn_inv g (kahn_start g)"
proof -
  have bounds: "\<forall>e\<in>set (edges g). dependent e < length (replicate (length (tasks g)) (0::nat))"
    using assms by (simp add: edges_inv_def)
  have len: "length (initial_degrees g) = length (tasks g)"
    using initial_degrees_fold [OF bounds] by (simp add: initial_degrees_def)
  have deg: "initial_degrees g ! v = pending_degree g {} v" if "v < length (tasks g)" for v
    using initial_degrees_fold [OF bounds] that
    by (simp add: initial_degrees_def pending_degree_def edge_pairs_def filter_map o_def)
  have "\<forall>j<length (queue (kahn_start g)). \<forall>u.
      (u, queue (kahn_start g) ! j) \<in> set (edge_pairs g) \<longrightarrow> u \<in> set (take j (queue (kahn_start g)))"
  proof (intro allI impI)
    fix j u
    assume j: "j < length (queue (kahn_start g))"
      and uv: "(u, queue (kahn_start g) ! j) \<in> set (edge_pairs g)"
    have "queue (kahn_start g) ! j \<in> set (queue (kahn_start g))" using j by simp
    then have "pending_degree g {} (queue (kahn_start g) ! j) = 0"
      using deg by (auto simp: kahn_start_def)
    with uv show "u \<in> set (take j (queue (kahn_start g)))" by (auto simp: pending_degree_zero)
  qed
  then show ?thesis using len deg by (auto simp: kahn_inv_def kahn_start_def)
qed

definition topological_order :: "workflow_dependencies \<Rightarrow> nat list \<Rightarrow> bool" where
  "topological_order g ts \<longleftrightarrow> distinct ts \<and> set ts = {..<length (tasks g)} \<and>
     (\<forall>j<length ts. \<forall>u. (u, ts ! j) \<in> set (edge_pairs g) \<longrightarrow> u \<in> set (take j ts))"

lemma topological_order_acyclic:
  assumes inv: "edges_inv g" and order: "topological_order g ts"
  shows "acyclic (set (edge_pairs g))"
proof -
  let ?rank = "\<lambda>v. the (position ts v)"
  have "(u, v) \<in> measure ?rank" if uv: "(u, v) \<in> set (edge_pairs g)" for u v
  proof -
    have "v \<in> set ts"
      using edges_inv_bounds(2) [OF inv uv] order by (simp add: topological_order_def)
    then obtain j where j: "j < length ts" "v = ts ! j" by (auto simp: in_set_conv_nth)
    then have "u \<in> set (take j ts)" using order uv by (simp add: topological_order_def)
    then obtain i where i: "i < j" "u = ts ! i" using j(1) by (auto simp: in_set_conv_nth)
    have "position ts u = Some i" "position ts v = Some j"
      using order i j by (simp_all add: topological_order_def position_distinct)
    with i show ?thesis by simp
  qed
  then have "set (edge_pairs g) \<subseteq> measure ?rank" by auto
  then show ?thesis using wf_acyclic [OF wf_measure] acyclic_subset by blast
qed

lemma kahn_final:
  assumes edges: "edges_inv g" and inv: "kahn_inv g s" and stop: "front s = length (queue s)"
  shows "visited s = length (tasks g) \<longleftrightarrow> acyclic (set (edge_pairs g))"
    and "visited s = length (tasks g) \<Longrightarrow> topological_order g (queue s)"
proof -
  have visited: "visited s = length (queue s)" using inv stop by (simp add: kahn_inv_def)
  have order: "topological_order g (queue s)" if "visited s = length (tasks g)"
  proof -
    have "distinct (queue s)" "\<forall>v\<in>set (queue s). v < length (tasks g)"
      using inv by (simp_all add: kahn_inv_def)
    then have "set (queue s) = {..<length (tasks g)}"
      using that visited by (intro distinct_full_set) simp_all
    then show ?thesis using inv by (simp add: kahn_inv_def topological_order_def)
  qed
  then show "visited s = length (tasks g) \<Longrightarrow> topological_order g (queue s)" .
  have "visited s = length (tasks g)" if acyc: "acyclic (set (edge_pairs g))"
  proof -
    have wf: "wf (set (edge_pairs g))" using acyc by (simp add: finite_acyclic_wf)
    have "{..<length (tasks g)} \<subseteq> set (queue s)"
    proof (rule ccontr)
      assume "\<not> ?thesis"
      then obtain z0 where "z0 \<in> {..<length (tasks g)} - set (queue s)" by blast
      then obtain z where z: "z \<in> {..<length (tasks g)} - set (queue s)"
        and min: "\<And>y. (y, z) \<in> set (edge_pairs g) \<Longrightarrow> y \<notin> {..<length (tasks g)} - set (queue s)"
        using wfE_min [OF wf] by metis
      have "pending_degree g (set (queue s)) z = 0"
        unfolding pending_degree_zero using min edges_inv_bounds(1) [OF edges] by blast
      moreover have "degrees s ! z = pending_degree g (set (queue s)) z"
        "z \<in> set (queue s) \<longleftrightarrow> degrees s ! z = 0"
        using inv z stop by (auto simp: kahn_inv_def)
      ultimately show False using z by simp
    qed
    then have "card {..<length (tasks g)} \<le> card (set (queue s))" by (intro card_mono) simp_all
    then have "length (tasks g) \<le> length (queue s)"
      using inv by (simp add: kahn_inv_def distinct_card)
    moreover have "length (queue s) \<le> length (tasks g)"
      using inv by (intro distinct_bounded_length) (auto simp: kahn_inv_def)
    ultimately show ?thesis using visited by simp
  qed
  then show "visited s = length (tasks g) \<longleftrightarrow> acyclic (set (edge_pairs g))"
    using order topological_order_acyclic [OF edges] by blast
qed

lemma check_cycles_decides:
  assumes "edges_inv g" and "mem Site_degrees" and "mem Site_queue"
  shows "check_cycles mem g =
    (if acyclic (set (edge_pairs g)) then Some (Inr ())
     else fail SALTS_EINVAL ''Cycle detected in workflow dependencies'')"
  using kahn_loop_returns [OF assms(1) kahn_start_inv [OF assms(1)]] kahn_final(1) [OF assms(1)] assms(2,3)
  by (auto simp: check_cycles_def)

section \<open>The interface of a name table\<close>

text \<open>
  What the trigger and edge phases need of the table: a lookup always returns, and returns the
  declaration index of the name.
\<close>

locale name_table =
  fixes lookup :: "'t \<Rightarrow> string \<Rightarrow> nat option option"
    and keys :: "'t \<Rightarrow> string list"
    and valid :: "'t \<Rightarrow> bool"
  assumes lookup_position: "valid t \<Longrightarrow> lookup t k = Some (position (keys t) k)"
begin

lemma lookup_miss: "valid t \<Longrightarrow> lookup t k = Some None \<longleftrightarrow> k \<notin> set (keys t)"
  by (simp add: lookup_position)

lemma lookup_hit: "valid t \<Longrightarrow> lookup t k = Some (Some i) \<Longrightarrow> i < length (keys t) \<and> keys t ! i = k"
  using position_Some [of "keys t" k i] by (simp add: lookup_position)

lemma lookup_cases:
  assumes "valid t"
  obtains (miss) "lookup t k = Some None" "k \<notin> set (keys t)"
  | (hit) i where "lookup t k = Some (Some i)" "k \<in> set (keys t)" "i < length (keys t)"
      "position (keys t) k = Some i"
proof (cases "position (keys t) k")
  case None
  with assms show ?thesis by (intro miss) (simp_all add: lookup_position)
next
  case (Some i)
  then have "k \<in> set (keys t)" by (metis option.distinct(1) position_None)
  with Some assms show ?thesis
    using position_Some [OF Some] by (intro hit) (simp_all add: lookup_position)
qed

end

abbreviation full_table :: "workflow_dependencies \<Rightarrow> bool" where
  "full_table g \<equiv> table_inv (length (tasks g)) g"

interpretation graph_names: name_table name_index names full_table
proof
  fix g k
  assume inv: "full_table g"
  obtain s where s: "find_slot g k = Some s" using find_slot_total [OF inv] by blast
  show "name_index g k = Some (position (names g) k)"
    using find_slot_lookup [OF inv s] s by (simp add: name_index_def names_def)
qed

section \<open>Phase one\<close>

definition task_names :: "'j json_api \<Rightarrow> 'j option list \<Rightarrow> string list" where
  "task_names J ms = map (\<lambda>m. the (task_name J m)) ms"

definition named :: "'j json_api \<Rightarrow> 'j option \<Rightarrow> bool" where
  "named J m \<longleftrightarrow> (\<exists>n. task_name J m = Some n \<and> n \<noteq> [])"

definition name_cost :: "string list \<Rightarrow> nat" where
  "name_cost ns = (\<Sum>n\<leftarrow>ns. length n + 1)"

text \<open>What naming leaves untouched.\<close>

definition same_edges :: "workflow_dependencies \<Rightarrow> workflow_dependencies \<Rightarrow> bool" where
  "same_edges g g' \<longleftrightarrow> edges g' = edges g \<and> edge_capacity g' = edge_capacity g \<and>
     map first_outgoing (tasks g') = map first_outgoing (tasks g)"

definition names_ok :: "'j json_api \<Rightarrow> string list \<Rightarrow> nat \<Rightarrow> 'j option list \<Rightarrow> bool" where
  "names_ok J before nb ms \<longleftrightarrow>
     (\<forall>m\<in>set ms. named J m) \<and> distinct (before @ task_names J ms) \<and>
     nb + name_cost (task_names J ms) \<le> max_name_bytes"

lemma add_names_spec:
  assumes "table_inv i g" and "i + length ms = length (tasks g)" and "nb \<le> max_name_bytes"
  shows "\<exists>r. add_names J mem i ms nb g = Some r \<and>
     (case r of Inl e \<Rightarrow> \<not> names_ok J (take i (names g)) nb ms \<or> (\<exists>k. \<not> mem (Site_name k))
      | Inr g' \<Rightarrow> names_ok J (take i (names g)) nb ms \<and> full_table g' \<and>
          names g' = take i (names g) @ task_names J ms \<and> same_edges g g')"
  using assms
proof (induction ms arbitrary: i nb g)
  case Nil
  then show ?case
    by (simp add: names_ok_def task_names_def name_cost_def same_edges_def names_def table_inv_def)
next
  case (Cons m ms)
  have i: "i < length (tasks g)" using Cons.prems(2) by simp
  show ?case
  proof (cases "task_name J m")
    case None
    then show ?thesis by (simp add: fail_def names_ok_def named_def)
  next
    case (Some name)
    obtain s where s: "find_slot g name = Some s" using find_slot_total [OF Cons.prems(1)] by blast
    have slot: "name_slots g ! s = position (take i (names g)) name"
      using find_slot_lookup [OF Cons.prems(1) s] by simp
    define g1 where "g1 = g\<lparr>tasks := (tasks g)[i := (tasks g ! i)\<lparr>bytes := name\<rparr>],
                          name_slots := (name_slots g)[s := Some i]\<rparr>"
    consider (empty) "name = []" | (duplicate) "name \<noteq> []" "name \<in> set (take i (names g))"
      | (long) "name \<noteq> []" "name \<notin> set (take i (names g))" "length name + 1 > max_name_bytes - nb"
      | (oom) "name \<noteq> []" "name \<notin> set (take i (names g))" "\<not> length name + 1 > max_name_bytes - nb"
          "\<not> mem (Site_name i)"
      | (good) "name \<noteq> []" "name \<notin> set (take i (names g))" "\<not> length name + 1 > max_name_bytes - nb"
          "mem (Site_name i)" by blast
    then show ?thesis
    proof cases
      case empty
      with Some show ?thesis by (simp add: fail_def names_ok_def named_def)
    next
      case duplicate
      then obtain j where "position (take i (names g)) name = Some j"
        by (metis not_None_eq position_None)
      with Some s slot duplicate show ?thesis
        by (simp add: formatted_error_def names_ok_def task_names_def)
    next
      case long
      then have "name_slots g ! s = None" using slot by simp
      with Some s long show ?thesis
        by (simp add: fail_def names_ok_def name_cost_def task_names_def)
    next
      case oom
      then have "name_slots g ! s = None" using slot by simp
      with Some s oom show ?thesis by (auto simp: fail_def)
    next
      case good
      then have free: "name_slots g ! s = None" using slot by simp
      have g1: "table_inv (Suc i) g1" "names g1 = (names g)[i := name]"
        using table_insert [OF Cons.prems(1) i s free] by (simp_all add: g1_def)
      have "map first_outgoing (tasks g1) = map first_outgoing (tasks g)"
        using i by (simp add: g1_def map_update list_update_same_conv)
      then have same: "same_edges g g1" by (simp add: same_edges_def g1_def)
      have prefix: "take (Suc i) (names g1) = take i (names g) @ [name]"
        unfolding g1(2) using i by (simp add: names_def take_Suc_conv_app_nth)
      have step: "add_names J mem i (m # ms) nb g = add_names J mem (Suc i) ms (nb + (length name + 1)) g1"
        using Some s good free by (simp add: g1_def)
      have "length (tasks g1) = length (tasks g)" by (simp add: g1_def)
      then obtain r where r: "add_names J mem (Suc i) ms (nb + (length name + 1)) g1 = Some r"
        "case r of Inl e \<Rightarrow> \<not> names_ok J (take (Suc i) (names g1)) (nb + (length name + 1)) ms \<or>
             (\<exists>k. \<not> mem (Site_name k))
         | Inr g' \<Rightarrow> names_ok J (take (Suc i) (names g1)) (nb + (length name + 1)) ms \<and>
             full_table g' \<and> names g' = take (Suc i) (names g1) @ task_names J ms \<and> same_edges g1 g'"
        using Cons.IH [OF g1(1), of "nb + (length name + 1)"] Cons.prems(2,3) good(3) by force
      have "names_ok J (take i (names g)) nb (m # ms) \<longleftrightarrow>
          names_ok J (take (Suc i) (names g1)) (nb + (length name + 1)) ms"
        using Some good(1,2) by (auto simp: prefix names_ok_def named_def task_names_def name_cost_def)
      moreover have "task_names J (m # ms) = name # task_names J ms" using Some by (simp add: task_names_def)
      ultimately show ?thesis
        using r same unfolding step prefix
        by (cases r) (auto simp: same_edges_def)
    qed
  qed
qed

section \<open>Phase two\<close>

definition target_ok :: "string list \<Rightarrow> string \<Rightarrow> bool" where
  "target_ok ns t \<longleftrightarrow> t = [] \<or> has_dynamic_marker t \<or> t \<in> set ns"

definition trigger_values :: "'j json_api \<Rightarrow> 'j option \<Rightarrow> string \<Rightarrow> 'j list" where
  "trigger_values J triggers category =
     (case Option.bind triggers (\<lambda>t. json_object_get J t category) of
        None \<Rightarrow> [] | Some list \<Rightarrow> json_array J list)"

definition value_ok :: "'j json_api \<Rightarrow> string list \<Rightarrow> 'j \<Rightarrow> bool" where
  "value_ok J ns v \<longleftrightarrow> (\<exists>n. json_string J v = Some n \<and> target_ok ns n)"

definition triggers_ok :: "'j json_api \<Rightarrow> string list \<Rightarrow> 'j \<Rightarrow> bool" where
  "triggers_ok J ns m \<longleftrightarrow>
     (\<forall>c\<in>set trigger_groups. \<forall>v\<in>set (trigger_values J (json_object_get J m ''triggers'') c). value_ok J ns v) \<and>
     (\<forall>v. json_object_get J m ''finally'' = Some v \<longrightarrow> value_ok J ns v)"

text \<open>A check that always returns, with success exactly under a condition.\<close>

definition decides :: "unit run \<Rightarrow> bool \<Rightarrow> bool" where
  "decides r P \<longleftrightarrow> (\<exists>x. r = Some x \<and> (x = Inr () \<longleftrightarrow> P))"

lemma decides_ok [simp]: "decides (Some (Inr ())) P \<longleftrightarrow> P"
  by (simp add: decides_def)

lemma decides_fail [simp]: "decides (fail s m) P \<longleftrightarrow> \<not> P" "decides (formatted_error m) P \<longleftrightarrow> \<not> P"
  by (simp_all add: decides_def fail_def formatted_error_def)

lemma decides_bind:
  assumes "decides r P" and "P \<Longrightarrow> decides (k ()) Q"
  shows "decides (bind_run r k) (P \<and> Q)"
proof -
  obtain x where x: "r = Some x" "x = Inr () \<longleftrightarrow> P" using assms(1) by (auto simp: decides_def)
  show ?thesis
  proof (cases x)
    case (Inl e)
    then show ?thesis using x by (simp add: bind_run_def decides_def)
  next
    case (Inr u)
    then have "P" using x by simp
    then show ?thesis using assms(2) x Inr by (simp add: bind_run_def)
  qed
qed

lemma decides_trigger_name:
  assumes "full_table g"
  shows "decides (check_trigger_name g task category target) (target_ok (names g) target)"
proof (cases "target = [] \<or> has_dynamic_marker target")
  case True
  then show ?thesis by (auto simp: check_trigger_name_def target_ok_def)
next
  case False
  show ?thesis
    using assms
  proof (cases rule: graph_names.lookup_cases [where k = target])
    case miss
    then show ?thesis using False by (simp add: check_trigger_name_def target_ok_def)
  next
    case (hit i)
    then show ?thesis using False by (simp add: check_trigger_name_def target_ok_def)
  qed
qed

lemma decides_trigger_values:
  assumes "full_table g"
  shows "decides (check_trigger_values J g task category vs) (\<forall>v\<in>set vs. value_ok J (names g) v)"
proof (induction vs)
  case (Cons v vs)
  show ?case
  proof (cases "json_string J v")
    case (Some n)
    with decides_bind [OF decides_trigger_name [OF assms] Cons.IH] show ?thesis
      by (simp add: value_ok_def)
  qed (simp add: value_ok_def)
qed simp

lemma decides_trigger_list:
  assumes "full_table g"
  shows "decides (check_trigger_list J g task triggers c)
    (\<forall>v\<in>set (trigger_values J triggers c). value_ok J (names g) v)"
  by (cases "Option.bind triggers (\<lambda>t. json_object_get J t c)")
    (simp_all add: check_trigger_list_def trigger_values_def decides_trigger_values [OF assms])

lemma decides_groups:
  assumes "full_table g"
  shows "decides (check_groups J g task triggers cs)
    (\<forall>c\<in>set cs. \<forall>v\<in>set (trigger_values J triggers c). value_ok J (names g) v)"
  by (induction cs) (simp_all add: decides_bind [OF decides_trigger_list [OF assms]])

lemma decides_finally:
  assumes "full_table g"
  shows "decides (check_finally J g task node) (\<forall>v. node = Some v \<longrightarrow> value_ok J (names g) v)"
  using decides_trigger_name [OF assms]
  by (simp add: check_finally_def value_ok_def split: option.split)

lemma decides_triggers:
  assumes "full_table g"
  shows "decides (check_triggers J i ms g) (\<forall>m\<in>set ms. triggers_ok J (names g) m)"
proof (induction ms arbitrary: i)
  case (Cons m ms)
  have "decides (check_triggers J i (m # ms) g)
     ((\<forall>c\<in>set trigger_groups. \<forall>v\<in>set (trigger_values J (json_object_get J m ''triggers'') c).
         value_ok J (names g) v) \<and>
      (\<forall>v. json_object_get J m ''finally'' = Some v \<longrightarrow> value_ok J (names g) v) \<and>
      (\<forall>m\<in>set ms. triggers_ok J (names g) m))"
    unfolding check_triggers.simps
    by (intro decides_bind decides_groups decides_finally Cons.IH assms)
  then show ?case by (simp add: triggers_ok_def conj_assoc)
qed simp

section \<open>Phase three\<close>

definition dep_ok :: "'j json_api \<Rightarrow> string list \<Rightarrow> 'j \<Rightarrow> bool" where
  "dep_ok J ns v \<longleftrightarrow> (\<exists>n. json_string J v = Some n \<and> n \<in> set ns)"

definition dep_index :: "'j json_api \<Rightarrow> string list \<Rightarrow> 'j \<Rightarrow> nat" where
  "dep_index J ns v = the (position ns (the (json_string J v)))"

text \<open>The edges that the declarations ask for, in declaration order and with duplicates.\<close>

fun declared_edges :: "'j json_api \<Rightarrow> string list \<Rightarrow> nat \<Rightarrow> 'j list \<Rightarrow> (nat \<times> nat) list" where
  "declared_edges J ns i [] = []"
| "declared_edges J ns i (m # ms) =
     map (\<lambda>v. (dep_index J ns v, i)) (depends_on J m) @ declared_edges J ns (Suc i) ms"

text \<open>
  The graph while edges are added: names in place, chains in order, and never more edges than the
  array holds or the budget admits.
\<close>

definition graph_inv :: "workflow_dependencies \<Rightarrow> bool" where
  "graph_inv g \<longleftrightarrow> full_table g \<and> edges_inv g \<and> length (edges g) \<le> max_edges \<and>
     length (edges g) \<le> edge_capacity g \<and> edge_capacity g \<le> max_edges"

lemma graph_inv_table [simp, intro]: "graph_inv g \<Longrightarrow> full_table g"
  by (simp add: graph_inv_def)

lemma outgoing_append:
  assumes "edges g' = edges g @ [e]"
  shows "outgoing g' t = (if predecessor e = t then length (edges g) # outgoing g t else outgoing g t)"
proof -
  have "filter (\<lambda>i. predecessor (edges g' ! i) = t) [0..<length (edges g)]
      = filter (\<lambda>i. predecessor (edges g ! i) = t) [0..<length (edges g)]"
    using assms by (intro filter_cong) (auto simp: nth_append)
  then show ?thesis using assms by (simp add: outgoing_def)
qed

lemma append_edge_cases:
  "append_edge mem g p d =
     (if length (edges g) = max_edges then fail SALTS_EINVAL ''Workflow dependency edge limit exceeded''
      else if length (edges g) = edge_capacity g \<and> \<not> mem (Site_edges (length (edges g)))
      then fail SALTS_ENOMEM ''Cannot allocate native workflow edges''
      else Some (Inr (g\<lparr>
        edge_capacity := (if length (edges g) = edge_capacity g
               then min (if edge_capacity g \<noteq> 0 then edge_capacity g * 2 else 8) max_edges
               else edge_capacity g),
        edges := edges g @ [\<lparr>predecessor = p, dependent = d, next_outgoing = first_outgoing (tasks g ! p)\<rparr>],
        tasks := (tasks g)[p := (tasks g ! p)\<lparr>first_outgoing := Some (length (edges g))\<rparr>]\<rparr>)))"
  by (simp add: append_edge_def Let_def)

lemma table_inv_cong:
  assumes "names g' = names g" and "name_slots g' = name_slots g"
  shows "table_inv i g' = table_inv i g"
proof -
  have "length (tasks g') = length (tasks g)" using assms(1) by (metis length_map names_def)
  then show ?thesis using assms by (simp add: table_inv_def slot_count_def home_def)
qed

lemma edges_inv_append:
  assumes inv: "edges_inv g" and p: "p < length (tasks g)" and d: "d < length (tasks g)"
    and e: "edges g' = edges g @ [\<lparr>predecessor = p, dependent = d, next_outgoing = first_outgoing (tasks g ! p)\<rparr>]"
    and t: "tasks g' = (tasks g)[p := (tasks g ! p)\<lparr>first_outgoing := Some (length (edges g))\<rparr>]"
  shows "edges_inv g'"
proof -
  let ?nxt' = "\<lambda>i. next_outgoing (edges g' ! i)"
  have old: "idx_chain ?nxt' (first_outgoing (tasks g ! v)) (outgoing g v)" if "v < length (tasks g)" for v
    using edges_inv_chain [OF inv that]
    by (rule idx_chain_cong) (simp add: e nth_append outgoing_bounds)
  have new: "idx_chain ?nxt' (Some (length (edges g))) (length (edges g) # outgoing g p)"
    using old [OF p] by (intro chain_next) (simp add: e nth_append)
  have "idx_chain ?nxt' (first_outgoing (tasks g' ! v)) (outgoing g' v)" if "v < length (tasks g')" for v
    using old [of v] new that p
    by (cases "p = v") (simp_all add: outgoing_append [OF e] t nth_list_update)
  then show ?thesis using inv p d by (auto simp: edges_inv_def e t)
qed

lemma append_edge_spec:
  assumes inv: "graph_inv g" and p: "p < length (tasks g)" and d: "d < length (tasks g)"
  shows "\<exists>r. append_edge mem g p d = Some r \<and>
     (case r of Inl e \<Rightarrow> length (edges g) = max_edges \<or> (\<exists>k. \<not> mem (Site_edges k))
      | Inr g' \<Rightarrow> length (edges g) < max_edges \<and> graph_inv g' \<and> names g' = names g \<and>
          edge_pairs g' = edge_pairs g @ [(p, d)])"
proof (cases "length (edges g) = max_edges \<or>
    length (edges g) = edge_capacity g \<and> \<not> mem (Site_edges (length (edges g)))")
  case True
  then show ?thesis by (auto simp: append_edge_cases fail_def)
next
  case False
  then have room: "length (edges g) \<noteq> max_edges"
    and mem: "\<not> (length (edges g) = edge_capacity g \<and> \<not> mem (Site_edges (length (edges g))))" by blast+
  define g' where "g' = g\<lparr>
        edge_capacity := (if length (edges g) = edge_capacity g
               then min (if edge_capacity g \<noteq> 0 then edge_capacity g * 2 else 8) max_edges
               else edge_capacity g),
        edges := edges g @ [\<lparr>predecessor = p, dependent = d, next_outgoing = first_outgoing (tasks g ! p)\<rparr>],
        tasks := (tasks g)[p := (tasks g ! p)\<lparr>first_outgoing := Some (length (edges g))\<rparr>]\<rparr>"
  have g': "append_edge mem g p d = Some (Inr g')"
    unfolding append_edge_cases if_not_P [OF room] if_not_P [OF mem] g'_def ..
  have e: "edges g' = edges g @ [\<lparr>predecessor = p, dependent = d, next_outgoing = first_outgoing (tasks g ! p)\<rparr>]"
    and t: "tasks g' = (tasks g)[p := (tasks g ! p)\<lparr>first_outgoing := Some (length (edges g))\<rparr>]"
    and slots: "name_slots g' = name_slots g"
    and c: "edge_capacity g' = (if length (edges g) = edge_capacity g
               then min (if edge_capacity g \<noteq> 0 then edge_capacity g * 2 else 8) max_edges
               else edge_capacity g)"
    by (simp_all add: g'_def)
  have names: "names g' = names g"
    using p by (simp add: names_def t map_update list_update_same_conv)
  have less: "length (edges g) < max_edges" using inv False by (auto simp: graph_inv_def)
  have "length (edges g') \<le> edge_capacity g' \<and> edge_capacity g' \<le> max_edges"
    using inv less by (auto simp: graph_inv_def e c max_edges_def)
  moreover have "full_table g'"
    unfolding table_inv_cong [OF names slots] using inv by (simp add: graph_inv_def t)
  moreover have "edges_inv g'"
    using inv by (intro edges_inv_append [OF _ p d e t]) (simp add: graph_inv_def)
  ultimately have "graph_inv g'" using less by (simp add: graph_inv_def e)
  then show ?thesis using g' less names by (simp add: edge_pairs_def e)
qed

lemma names_length: "length (names g) = length (tasks g)"
  by (simp add: names_def)

definition deps_ok :: "'j json_api \<Rightarrow> workflow_dependencies \<Rightarrow> 'j list \<Rightarrow> bool" where
  "deps_ok J g vs \<longleftrightarrow> (\<forall>v\<in>set vs. dep_ok J (names g) v) \<and> length (edges g) + length vs \<le> max_edges"

lemma add_task_edges_spec:
  assumes "graph_inv g" and "i < length (tasks g)"
  shows "\<exists>r. add_task_edges J mem i vs g = Some r \<and>
     (case r of Inl e \<Rightarrow> \<not> deps_ok J g vs \<or> (\<exists>k. \<not> mem (Site_edges k))
      | Inr g' \<Rightarrow> deps_ok J g vs \<and> graph_inv g' \<and> names g' = names g \<and>
          edge_pairs g' = edge_pairs g @ map (\<lambda>v. (dep_index J (names g) v, i)) vs)"
  using assms
proof (induction vs arbitrary: g)
  case Nil
  then show ?case by (simp add: deps_ok_def graph_inv_def)
next
  case (Cons v vs)
  show ?case
  proof (cases "json_string J v")
    case None
    then show ?thesis by (simp add: fail_def deps_ok_def dep_ok_def)
  next
    case (Some n)
    from Cons.prems(1) have "full_table g" by blast
    then show ?thesis
    proof (cases rule: graph_names.lookup_cases [where k = n])
      case miss
      with Some show ?thesis by (simp add: formatted_error_def deps_ok_def dep_ok_def)
    next
      case (hit p)
      obtain r where r: "append_edge mem g p i = Some r"
        "case r of Inl e \<Rightarrow> length (edges g) = max_edges \<or> (\<exists>k. \<not> mem (Site_edges k))
         | Inr g' \<Rightarrow> length (edges g) < max_edges \<and> graph_inv g' \<and> names g' = names g \<and>
             edge_pairs g' = edge_pairs g @ [(p, i)]"
        using append_edge_spec [OF Cons.prems(1), of p i mem] hit(3) Cons.prems(2) names_length by auto
      show ?thesis
      proof (cases r)
        case (Inl e)
        then show ?thesis using r Some hit by (auto simp: bind_run_def deps_ok_def)
      next
        case (Inr g1)
        then have g1: "length (edges g) < max_edges" "graph_inv g1" "names g1 = names g"
          "edge_pairs g1 = edge_pairs g @ [(p, i)]" using r(2) by simp_all
        have len: "length (edges g1) = Suc (length (edges g))"
          using arg_cong [OF g1(4), of length] by (simp add: edge_pairs_def)
        have "i < length (tasks g1)" using Cons.prems(2) g1(3) names_length by metis
        from Cons.IH [OF g1(2) this] obtain r' where r': "add_task_edges J mem i vs g1 = Some r'"
          "case r' of Inl e \<Rightarrow> \<not> deps_ok J g1 vs \<or> (\<exists>k. \<not> mem (Site_edges k))
           | Inr g' \<Rightarrow> deps_ok J g1 vs \<and> graph_inv g' \<and> names g' = names g1 \<and>
               edge_pairs g' = edge_pairs g1 @ map (\<lambda>v. (dep_index J (names g1) v, i)) vs" by blast
        have "deps_ok J g (v # vs) \<longleftrightarrow> deps_ok J g1 vs"
          using Some hit(2) by (auto simp: deps_ok_def dep_ok_def g1(3) len)
        moreover have "dep_index J (names g) v = p" using Some hit(4) by (simp add: dep_index_def)
        ultimately show ?thesis
          using r(1) r' Inr Some hit(1) g1(3,4) by (cases r') (simp_all add: bind_run_def)
      qed
    qed
  qed
qed

definition all_deps_ok :: "'j json_api \<Rightarrow> workflow_dependencies \<Rightarrow> 'j list \<Rightarrow> bool" where
  "all_deps_ok J g ms \<longleftrightarrow> (\<forall>m\<in>set ms. \<forall>v\<in>set (depends_on J m). dep_ok J (names g) v) \<and>
     length (edges g) + (\<Sum>m\<leftarrow>ms. length (depends_on J m)) \<le> max_edges"

lemma add_edges_spec:
  assumes "graph_inv g" and "i + length ms = length (tasks g)"
  shows "\<exists>r. add_edges J mem i ms g = Some r \<and>
     (case r of Inl e \<Rightarrow> \<not> all_deps_ok J g ms \<or> (\<exists>k. \<not> mem (Site_edges k))
      | Inr g' \<Rightarrow> all_deps_ok J g ms \<and> graph_inv g' \<and> names g' = names g \<and>
          edge_pairs g' = edge_pairs g @ declared_edges J (names g) i ms)"
  using assms
proof (induction ms arbitrary: g i)
  case Nil
  then show ?case by (simp add: all_deps_ok_def graph_inv_def)
next
  case (Cons m ms)
  have "i < length (tasks g)" using Cons.prems(2) by simp
  from add_task_edges_spec [OF Cons.prems(1) this, of J mem "depends_on J m"]
  obtain r where r: "add_task_edges J mem i (depends_on J m) g = Some r"
    "case r of Inl e \<Rightarrow> \<not> deps_ok J g (depends_on J m) \<or> (\<exists>k. \<not> mem (Site_edges k))
      | Inr g' \<Rightarrow> deps_ok J g (depends_on J m) \<and> graph_inv g' \<and> names g' = names g \<and>
          edge_pairs g' = edge_pairs g @ map (\<lambda>v. (dep_index J (names g) v, i)) (depends_on J m)" by blast
  show ?case
  proof (cases r)
    case (Inl e)
    then show ?thesis using r by (auto simp: bind_run_def deps_ok_def all_deps_ok_def)
  next
    case (Inr g1)
    then have g1: "deps_ok J g (depends_on J m)" "graph_inv g1" "names g1 = names g"
      "edge_pairs g1 = edge_pairs g @ map (\<lambda>v. (dep_index J (names g) v, i)) (depends_on J m)"
      using r(2) by simp_all
    have len: "length (edges g1) = length (edges g) + length (depends_on J m)"
      using arg_cong [OF g1(4), of length] by (simp add: edge_pairs_def)
    have "Suc i + length ms = length (tasks g1)"
      using Cons.prems(2) g1(3) names_length by (metis add_Suc_shift length_Cons)
    from Cons.IH [OF g1(2) this] obtain r' where r': "add_edges J mem (Suc i) ms g1 = Some r'"
      "case r' of Inl e \<Rightarrow> \<not> all_deps_ok J g1 ms \<or> (\<exists>k. \<not> mem (Site_edges k))
       | Inr g' \<Rightarrow> all_deps_ok J g1 ms \<and> graph_inv g' \<and> names g' = names g1 \<and>
           edge_pairs g' = edge_pairs g1 @ declared_edges J (names g1) (Suc i) ms" by blast
    have "all_deps_ok J g (m # ms) \<longleftrightarrow> all_deps_ok J g1 ms"
      using g1(1) by (auto simp: deps_ok_def all_deps_ok_def g1(3) len)
    then show ?thesis using r(1) r' Inr g1(3,4) by (cases r') (simp_all add: bind_run_def)
  qed
qed

section \<open>The constructor accepts exactly the admissible workflows\<close>

text \<open>Everything but acyclicity: the conditions of the first three phases.\<close>

definition well_declared :: "'j json_api \<Rightarrow> 'j option list \<Rightarrow> bool" where
  "well_declared J metas \<longleftrightarrow>
     0 < length metas \<and> length metas \<le> max_tasks \<and>
     (\<forall>m\<in>set metas. named J m) \<and> distinct (task_names J metas) \<and>
     name_cost (task_names J metas) \<le> max_name_bytes \<and>
     (\<forall>m\<in>set metas. triggers_ok J (task_names J metas) (the m)) \<and>
     (\<forall>m\<in>set metas. \<forall>v\<in>set (depends_on J (the m)). dep_ok J (task_names J metas) v) \<and>
     (\<Sum>m\<leftarrow>metas. length (depends_on J (the m))) \<le> max_edges"

abbreviation declared_graph :: "'j json_api \<Rightarrow> 'j option list \<Rightarrow> (nat \<times> nat) list" where
  "declared_graph J metas \<equiv> declared_edges J (task_names J metas) 0 (map the metas)"

definition admissible_workflow :: "'j json_api \<Rightarrow> 'j option list \<Rightarrow> bool" where
  "admissible_workflow J metas \<longleftrightarrow> well_declared J metas \<and> acyclic (set (declared_graph J metas))"

lemma bind_run_simps [simp]:
  "bind_run (Some (Inr x)) k = k x"
  "bind_run (Some (Inl e)) k = Some (Inl e)"
  "bind_run (fail s m) k = fail s m"
  by (simp_all add: bind_run_def fail_def)

lemma names_phase:
  assumes "0 < length metas"
  shows "\<exists>r. add_names J mem 0 metas 0 (empty_graph (length metas)) = Some r \<and>
     (case r of Inl e \<Rightarrow> \<not> names_ok J [] 0 metas \<or> (\<exists>k. \<not> mem (Site_name k))
      | Inr g \<Rightarrow> names_ok J [] 0 metas \<and> graph_inv g \<and> names g = task_names J metas \<and> edges g = [])"
proof -
  let ?g = "empty_graph (length metas)"
  have "table_inv 0 ?g" using assms by (rule table_inv_empty)
  moreover have "0 + length metas = length (tasks ?g)" by (simp add: empty_graph_def)
  ultimately obtain r where r: "add_names J mem 0 metas 0 ?g = Some r"
    "case r of Inl e \<Rightarrow> \<not> names_ok J [] 0 metas \<or> (\<exists>k. \<not> mem (Site_name k))
      | Inr g \<Rightarrow> names_ok J [] 0 metas \<and> full_table g \<and> names g = task_names J metas \<and> same_edges ?g g"
    using add_names_spec [of 0 ?g metas 0 J mem, unfolded take_0 append_Nil] by blast
  have "graph_inv g \<and> edges g = []" if "full_table g" and "same_edges ?g g" for g
  proof -
    have "first_outgoing (tasks g ! t) = None" if "t < length (tasks g)" for t
      using arg_cong [of _ _ "\<lambda>xs. xs ! t", OF \<open>same_edges ?g g\<close> [unfolded same_edges_def, THEN conjunct2, THEN conjunct2]]
        that \<open>same_edges ?g g\<close> by (metis length_map length_replicate empty_graph_def same_edges_def
          map_replicate nth_map nth_replicate dependency_name.select_convs(2) workflow_dependencies.select_convs(1))
    then show ?thesis using that
      by (simp add: graph_inv_def same_edges_def empty_graph_def edges_inv_def outgoing_def)
  qed
  with r show ?thesis by (cases r) auto
qed

lemma create_outcome:
  "\<exists>r. workflow_dependencies_create J mem metas = Some r \<and>
    (case r of Inl e \<Rightarrow> (\<not> admissible_workflow J metas \<or> (\<exists>s. \<not> mem s)) \<and>
         (well_declared J metas \<longrightarrow> (\<forall>s. mem s) \<longrightarrow>
            e = (SALTS_EINVAL, ''Cycle detected in workflow dependencies''))
     | Inr g \<Rightarrow> admissible_workflow J metas \<and> graph_inv g \<and> names g = task_names J metas \<and>
         edge_pairs g = declared_graph J metas)"
proof (cases "length metas = 0 \<or> length metas > max_tasks \<or> \<not> mem Site_graph \<or> \<not> mem Site_tasks \<or> \<not> mem Site_slots")
  case True
  then show ?thesis
    by (auto simp: workflow_dependencies_create_def Let_def fail_def admissible_workflow_def well_declared_def)
next
  case False
  then have pos: "0 < length metas" and le: "length metas \<le> max_tasks" by auto
  obtain r1 where r1: "add_names J mem 0 metas 0 (empty_graph (length metas)) = Some r1"
    "case r1 of Inl e \<Rightarrow> \<not> names_ok J [] 0 metas \<or> (\<exists>k. \<not> mem (Site_name k))
      | Inr g \<Rightarrow> names_ok J [] 0 metas \<and> graph_inv g \<and> names g = task_names J metas \<and> edges g = []"
    using names_phase [OF pos, of J mem] by blast
  have create: "workflow_dependencies_create J mem metas =
     bind_run (Some r1) (\<lambda>g. bind_run (check_triggers J 0 (map the metas) g)
          (\<lambda>_. bind_run (add_edges J mem 0 (map the metas) g)
            (\<lambda>g. bind_run (check_cycles mem g) (\<lambda>_. Some (Inr g)))))"
    using False r1(1) by (simp add: workflow_dependencies_create_def Let_def)
  show ?thesis
  proof (cases r1)
    case (Inl e)
    then show ?thesis using r1(2) create
      by (auto simp: admissible_workflow_def well_declared_def names_ok_def)
  next
    case (Inr g)
    then have g: "names_ok J [] 0 metas" "graph_inv g" "names g = task_names J metas" "edges g = []"
      using r1(2) by simp_all
    have count: "length (tasks g) = length metas"
      using g(3) names_length by (metis length_map task_names_def)
    obtain x where x: "check_triggers J 0 (map the metas) g = Some x"
      "x = Inr () \<longleftrightarrow> (\<forall>m\<in>set metas. triggers_ok J (task_names J metas) (the m))"
      using decides_triggers [OF graph_inv_table [OF g(2)], of J 0 "map the metas"] g(3)
      by (auto simp: decides_def)
    obtain r2 where r2: "add_edges J mem 0 (map the metas) g = Some r2"
      "case r2 of Inl e \<Rightarrow> \<not> all_deps_ok J g (map the metas) \<or> (\<exists>k. \<not> mem (Site_edges k))
        | Inr g' \<Rightarrow> all_deps_ok J g (map the metas) \<and> graph_inv g' \<and> names g' = names g \<and>
            edge_pairs g' = edge_pairs g @ declared_edges J (names g) 0 (map the metas)"
      using add_edges_spec [OF g(2), of 0 "map the metas" J mem] count by auto
    have deps: "well_declared J metas \<longleftrightarrow> x = Inr () \<and> all_deps_ok J g (map the metas)"
      using g(1,3,4) pos le x(2)
      by (auto simp: well_declared_def names_ok_def all_deps_ok_def comp_def)
    show ?thesis
    proof (cases "\<exists>e. x = Inl e \<or> r2 = Inl e")
      case True
      then show ?thesis using create Inr x r2 deps
        by (cases x; cases r2) (auto simp: admissible_workflow_def)
    next
      case False
      then obtain g' where x_ok: "x = Inr ()" and g': "r2 = Inr g'" by (metis old.unit.exhaust sum.exhaust)
      then have g'_facts: "graph_inv g'" "names g' = task_names J metas" "edge_pairs g' = declared_graph J metas"
        "well_declared J metas"
        using r2(2) g(3,4) deps by (simp_all add: edge_pairs_def)
      have run: "workflow_dependencies_create J mem metas = bind_run (check_cycles mem g') (\<lambda>_. Some (Inr g'))"
        using create Inr x(1) x_ok r2(1) g' by simp
      show ?thesis
      proof (cases "mem Site_degrees \<and> mem Site_queue")
        case True
        then show ?thesis using g'_facts run check_cycles_decides [of g' mem]
          by (auto simp: graph_inv_def admissible_workflow_def fail_def)
      next
        case False
        then show ?thesis using run by (auto simp: check_cycles_def fail_def)
      qed
    qed
  qed
qed


lemma create_cases:
  obtains (refused) e where "workflow_dependencies_create J mem metas = Some (Inl e)"
      "\<not> admissible_workflow J metas \<or> (\<exists>s. \<not> mem s)"
      "well_declared J metas \<Longrightarrow> (\<forall>s. mem s) \<Longrightarrow>
         e = (SALTS_EINVAL, ''Cycle detected in workflow dependencies'')"
  | (accepted) g where "workflow_dependencies_create J mem metas = Some (Inr g)"
      "admissible_workflow J metas" "graph_inv g" "names g = task_names J metas"
      "edge_pairs g = declared_graph J metas"
proof -
  from create_outcome [of J mem metas] obtain r where
    r: "workflow_dependencies_create J mem metas = Some r"
    "case r of Inl e \<Rightarrow> (\<not> admissible_workflow J metas \<or> (\<exists>s. \<not> mem s)) \<and>
         (well_declared J metas \<longrightarrow> (\<forall>s. mem s) \<longrightarrow>
            e = (SALTS_EINVAL, ''Cycle detected in workflow dependencies''))
     | Inr g \<Rightarrow> admissible_workflow J metas \<and> graph_inv g \<and> names g = task_names J metas \<and>
         edge_pairs g = declared_graph J metas" by blast
  show thesis
  proof (cases r)
    case (Inl e)
    then show ?thesis using r by (intro refused [of e]) simp_all
  next
    case (Inr g)
    then show ?thesis using r by (intro accepted [of g]) simp_all
  qed
qed

text \<open>
  C1. Absent allocation failure, the constructor accepts a list of task metadata exactly when it is
  admissible: between 1 and 4096 tasks, every name present, non-empty and unique within the byte
  budget, every static trigger target and every dependency known, at most 16384 edges, and no
  dependency cycle.
\<close>

theorem workflow_dependencies_create_accepts_iff:
  "(\<exists>g. workflow_dependencies_create J no_oom metas = Some (Inr g)) \<longleftrightarrow> admissible_workflow J metas"
  by (cases rule: create_cases [of J no_oom metas]) simp_all

text \<open>
  Whatever the allocator does, the constructor returns: the probing loops, the chain walks and
  the cycle check all end.
\<close>

theorem workflow_dependencies_create_returns:
  "\<exists>r. workflow_dependencies_create J mem metas = Some r"
  by (cases rule: create_cases [of J mem metas]) simp_all

text \<open>
  A graph that the constructor returns holds the task names in declaration order and exactly the
  declared edges, in declaration order and with their multiplicity; it is acyclic, and its name
  table, adjacency chains and edge array satisfy their invariants.
\<close>

theorem workflow_dependencies_create_result:
  assumes "workflow_dependencies_create J mem metas = Some (Inr g)"
  shows "names g = task_names J metas \<and> edge_pairs g = declared_graph J metas \<and>
    acyclic (set (edge_pairs g)) \<and> graph_inv g"
  using assms by (cases rule: create_cases [of J mem metas]) (simp_all add: admissible_workflow_def)

text \<open>
  A workflow whose declarations are all valid but whose dependencies form a cycle is refused
  with the cycle diagnostic, and with no other one.
\<close>

theorem workflow_dependencies_create_cycle:
  assumes "well_declared J metas" and "\<not> acyclic (set (declared_graph J metas))"
  shows "workflow_dependencies_create J no_oom metas
    = fail SALTS_EINVAL ''Cycle detected in workflow dependencies''"
  using assms
  by (cases rule: create_cases [of J no_oom metas]) (simp_all add: admissible_workflow_def fail_def)

text \<open>
  In a graph with its invariants, the adjacency walk of the edge query returns and answers
  whether the edge is in the edge list.
\<close>

theorem dependencies_has_edge_correct:
  assumes "graph_inv g" and "p < length (tasks g)" and "d < length (tasks g)"
  shows "dependencies_has_edge g p d = Some (Inr ((p, d) \<in> set (edge_pairs g)))"
proof -
  have "edges_inv g" using assms(1) by (simp add: graph_inv_def)
  from while_chain_search [OF edges_inv_chain [OF this assms(2)], of "\<lambda>i. dependent (edges g ! i) = d"]
  obtain r where
    "while_option (\<lambda>e. e \<noteq> None \<and> \<not> dependent (edges g ! the e) = d)
       (\<lambda>e. next_outgoing (edges g ! the e)) (first_outgoing (tasks g ! p)) = Some r"
    "r \<noteq> None \<longleftrightarrow> (\<exists>i\<in>set (outgoing g p). dependent (edges g ! i) = d)" by blast
  then show ?thesis using assms(2,3) by (simp add: dependencies_has_edge_def outgoing_dependents)
qed

text \<open>
  The open-addressing hash table refines the list of names: a lookup returns, and returns the
  declaration index of the name, or the sentinel when no task has it.
\<close>

theorem name_index_refines_position:
  assumes "graph_inv g"
  shows "name_index g name = Some (position (names g) name)"
  using assms by (intro graph_names.lookup_position) blast

text \<open>
  C2. Kahn's loop ends; it visits every task exactly when the edges are acyclic, its queue never
  outgrows the array of one slot per task, and when all tasks are visited the queue is a topological
  order of them.
\<close>

theorem kahn_loop_correct:
  assumes "graph_inv g"
  shows "\<exists>s. kahn_loop g (kahn_start g) = Some s \<and>
    (visited s = length (tasks g) \<longleftrightarrow> acyclic (set (edge_pairs g))) \<and>
    length (queue s) \<le> length (tasks g) \<and>
    (visited s \<noteq> length (tasks g) \<or> topological_order g (queue s))"
proof -
  have edges: "edges_inv g" using assms by (simp add: graph_inv_def)
  obtain s where s: "kahn_loop g (kahn_start g) = Some s" "kahn_inv g s" "front s = length (queue s)"
    using kahn_loop_returns [OF edges kahn_start_inv [OF edges]] by blast
  have "length (queue s) \<le> length (tasks g)"
    using s(2) by (intro distinct_bounded_length) (auto simp: kahn_inv_def)
  with s kahn_final [OF edges s(2,3)] show ?thesis by blast
qed

section \<open>The interface of an edge list\<close>

text \<open>
  What the readiness counter needs of the graph: \<open>edge_at\<close> enumerates a fixed list of pairs of task
  indices.
\<close>

locale edge_source =
  fixes edge_at :: "'g \<Rightarrow> nat \<Rightarrow> salts_status + (nat \<times> nat)"
    and edge_count :: "'g \<Rightarrow> nat"
    and task_count :: "'g \<Rightarrow> nat"
    and pairs :: "'g \<Rightarrow> (nat \<times> nat) list"
    and valid :: "'g \<Rightarrow> bool"
  assumes edge_count_pairs: "edge_count g = length (pairs g)"
    and edge_at_pairs: "i < length (pairs g) \<Longrightarrow> edge_at g i = Inr (pairs g ! i)"
    and pairs_bounded: "valid g \<Longrightarrow> (u, v) \<in> set (pairs g) \<Longrightarrow> u < task_count g \<and> v < task_count g"
begin

lemma edge_enumeration: "map (edge_at g) [0..<edge_count g] = map Inr (pairs g)"
  by (rule nth_equalityI) (simp_all add: edge_count_pairs edge_at_pairs)

end

interpretation graph_edges: edge_source dependencies_edge_at dependencies_edge_count
  dependencies_task_count edge_pairs graph_inv
proof
  show "dependencies_edge_count g = length (edge_pairs g)" for g
    by (simp add: dependencies_edge_count_def edge_pairs_def)
  show "dependencies_edge_at g i = Inr (edge_pairs g ! i)" if "i < length (edge_pairs g)" for g i
    using that by (simp add: dependencies_edge_at_def edge_pairs_def)
  show "u < dependencies_task_count g \<and> v < dependencies_task_count g"
    if "graph_inv g" and "(u, v) \<in> set (edge_pairs g)" for g u v
    using that edges_inv_bounds [of g u v] by (simp add: graph_inv_def dependencies_task_count_def)
qed

section \<open>A concrete workflow\<close>

definition example_task :: "string \<Rightarrow> string list \<Rightarrow> json option" where
  "example_task name deps =
     Some (JObject [(''name'', JString name), (''depends_on'', JArray (map JString deps))])"

definition example_metadata :: "json option list" where
  "example_metadata = [example_task ''a'' [], example_task ''b'' [''a''], example_task ''c'' [''a'', ''b'']]"

definition cyclic_metadata :: "json option list" where
  "cyclic_metadata = [example_task ''a'' [''b''], example_task ''b'' [''a'']]"

lemmas example_simps =
  example_task_def task_names_def task_name_def named_def name_cost_def triggers_ok_def
  trigger_values_def trigger_groups_def depends_on_def dep_ok_def dep_index_def
  max_tasks_def max_edges_def max_name_bytes_def

lemma example_well_declared: "well_declared tree_api example_metadata"
  by (simp add: well_declared_def example_metadata_def example_simps)

lemma example_edges: "declared_graph tree_api example_metadata = [(0, 1), (0, 2), (1, 2)]"
  by (simp add: example_metadata_def example_simps)

lemma example_names: "task_names tree_api example_metadata = [''a'', ''b'', ''c'']"
  by (simp add: example_metadata_def example_simps)

lemma example_acyclic: "acyclic {(0::nat, 1), (0, 2), (1, 2::nat)}"
  by (rule acyclic_subset [OF wf_acyclic [OF wf_less_than]]) auto

lemma example_accepted:
  "\<exists>g. workflow_dependencies_create tree_api no_oom example_metadata = Some (Inr g)"
proof -
  have "admissible_workflow tree_api example_metadata"
    using example_well_declared example_acyclic by (simp add: admissible_workflow_def example_edges)
  then show ?thesis by (cases rule: create_cases [of tree_api no_oom example_metadata]) simp_all
qed

theorem workflow_dependencies_create_result_witness:
  "\<exists>g. workflow_dependencies_create tree_api no_oom example_metadata = Some (Inr g) \<and>
     names g = [''a'', ''b'', ''c''] \<and> edge_pairs g = [(0, 1), (0, 2), (1, 2)] \<and>
     acyclic (set (edge_pairs g)) \<and> graph_inv g"
  using example_accepted workflow_dependencies_create_result [of tree_api no_oom example_metadata]
  by (metis example_edges example_names)

theorem workflow_dependencies_create_cycle_witness:
  "workflow_dependencies_create tree_api no_oom cyclic_metadata
    = fail SALTS_EINVAL ''Cycle detected in workflow dependencies''"
proof (rule workflow_dependencies_create_cycle)
  show "well_declared tree_api cyclic_metadata"
    by (simp add: well_declared_def cyclic_metadata_def example_simps)
  have edges: "declared_graph tree_api cyclic_metadata = [(1, 0), (0, 1)]"
    by (simp add: cyclic_metadata_def example_simps)
  have "(0::nat, 0) \<in> {(1, 0), (0, 1)}\<^sup>+"
    by (rule trancl_into_trancl [of _ 1]) auto
  then show "\<not> acyclic (set (declared_graph tree_api cyclic_metadata))"
    unfolding acyclic_def edges by auto
qed

lemma example_graph:
  obtains g where "workflow_dependencies_create tree_api no_oom example_metadata = Some (Inr g)"
    "graph_inv g" "names g = [''a'', ''b'', ''c'']" "edge_pairs g = [(0, 1), (0, 2), (1, 2)]"
    "length (tasks g) = 3"
proof (cases rule: create_cases [of tree_api no_oom example_metadata])
  case (refused e)
  then show ?thesis using example_accepted by simp
next
  case (accepted g)
  then have "length (tasks g) = 3" using names_length [of g] by (simp add: example_names)
  with accepted show ?thesis
    using accepted(4) [unfolded example_names] accepted(5) [unfolded example_edges] by (intro that [of g])
qed

theorem dependencies_has_edge_correct_witness:
  "\<exists>g. workflow_dependencies_create tree_api no_oom example_metadata = Some (Inr g) \<and>
     dependencies_has_edge g 0 2 = Some (Inr True) \<and> dependencies_has_edge g 2 0 = Some (Inr False)"
proof -
  obtain g where g: "workflow_dependencies_create tree_api no_oom example_metadata = Some (Inr g)"
    "graph_inv g" "edge_pairs g = [(0, 1), (0, 2), (1, 2)]" "length (tasks g) = 3" by (rule example_graph)
  show ?thesis
    using g dependencies_has_edge_correct [OF g(2), of 0 2] dependencies_has_edge_correct [OF g(2), of 2 0]
    by auto
qed

theorem name_index_refines_position_witness:
  "\<exists>g. workflow_dependencies_create tree_api no_oom example_metadata = Some (Inr g) \<and>
     name_index g ''b'' = Some (Some 1) \<and> name_index g ''z'' = Some None"
proof -
  obtain g where g: "workflow_dependencies_create tree_api no_oom example_metadata = Some (Inr g)"
    "graph_inv g" "names g = [''a'', ''b'', ''c'']" by (rule example_graph)
  show ?thesis
    using g name_index_refines_position [OF g(2)] by auto
qed

theorem kahn_loop_correct_witness:
  "\<exists>g s. workflow_dependencies_create tree_api no_oom example_metadata = Some (Inr g) \<and>
     kahn_loop g (kahn_start g) = Some s \<and> topological_order g (queue s)"
proof -
  obtain g where g: "workflow_dependencies_create tree_api no_oom example_metadata = Some (Inr g)"
    "graph_inv g" "edge_pairs g = [(0, 1), (0, 2), (1, 2)]" by (rule example_graph)
  then have "acyclic (set (edge_pairs g))" using example_acyclic by simp
  with g kahn_loop_correct [OF g(2)] show ?thesis by blast
qed

end
