(* ===== verification/Workflow_Dag_State.thy ===== *)
theory Workflow_Dag_State
  imports Workflow_Dependencies
begin

text \<open>
  The readiness counter of \<open>praktor/src/yml/workflow_dag_state.c\<close>: one entry per task with the
  number of unfinished incoming edges and a phase, counters of active and completed tasks, and the
  first terminal reason. The owner claims ready tasks, finishes or refuses each claim, and may stop
  the run. The lemmas give the invariant of these counters over every reachable state and derive
  from it what may be claimed, when the run is stuck and when it has succeeded.
\<close>

section \<open>Data\<close>

datatype dag_task_phase = DAG_TASK_PENDING | DAG_TASK_RESERVED | DAG_TASK_FINISHED | DAG_TASK_REFUSED

record dag_task_entry =
  remaining :: nat
  phase :: dag_task_phase

datatype dag_terminal =
    DAG_CONTINUE | DAG_FAILED | DAG_CANCELLED | DAG_DEADLINE | DAG_ADMISSION_REFUSED

text \<open>The enumeration's values, which \<open>praktor_workflow_dag_stop\<close> compares.\<close>

fun terminal_code :: "dag_terminal \<Rightarrow> nat" where
  "terminal_code DAG_CONTINUE = 0"
| "terminal_code DAG_FAILED = 1"
| "terminal_code DAG_CANCELLED = 2"
| "terminal_code DAG_DEADLINE = 3"
| "terminal_code DAG_ADMISSION_REFUSED = 4"

lemma terminal_code_inject: "terminal_code a = terminal_code b \<Longrightarrow> a = b"
  by (cases a; cases b) simp_all

instantiation dag_terminal :: linorder
begin

definition less_eq_dag_terminal :: "dag_terminal \<Rightarrow> dag_terminal \<Rightarrow> bool" where
  "a \<le> b \<longleftrightarrow> terminal_code a \<le> terminal_code b"

definition less_dag_terminal :: "dag_terminal \<Rightarrow> dag_terminal \<Rightarrow> bool" where
  "a < b \<longleftrightarrow> terminal_code a < terminal_code b"

instance
  by standard (auto simp: less_eq_dag_terminal_def less_dag_terminal_def intro: terminal_code_inject)

end

record dag_state =
  graph :: workflow_dependencies
  entries :: "dag_task_entry list"
  max_active :: nat
  active :: nat
  completed :: nat
  terminal :: dag_terminal

record dag_stats =
  stat_task_count :: nat
  stat_active :: nat
  stat_completed :: nat
  stat_ready :: nat
  stat_terminal :: dag_terminal
  quiescent :: bool
  all_succeeded :: bool

datatype dag_site = Site_dag_state | Site_dag_entries

section \<open>Operations\<close>

text \<open>The loop of the constructor over the edges: a bad edge destroys the state.\<close>

fun count_incoming :: "workflow_dependencies \<Rightarrow> nat list \<Rightarrow> dag_task_entry list \<Rightarrow>
    salts_status + dag_task_entry list" where
  "count_incoming g [] ts = Inr ts"
| "count_incoming g (i # is) ts =
     (case dependencies_edge_at g i of
        Inl _ \<Rightarrow> Inl SALTS_EINVAL
      | Inr (from, to) \<Rightarrow>
          if from \<ge> length ts \<or> to \<ge> length ts then Inl SALTS_EINVAL
          else count_incoming g is (ts[to := (ts ! to)\<lparr>remaining := Suc (remaining (ts ! to))\<rparr>]))"

definition dag_state_create ::
  "dag_site allocator \<Rightarrow> workflow_dependencies \<Rightarrow> nat \<Rightarrow> salts_status + dag_state" where
  "dag_state_create mem g limit =
     (let count = dependencies_task_count g; edge_total = dependencies_edge_count g in
      if limit = 0 then Inl SALTS_EINVAL
      else if count = 0 \<or> count > max_tasks \<or> edge_total > max_edges then Inl SALTS_EINVAL
      else if \<not> mem Site_dag_state then Inl SALTS_ENOMEM
      else if \<not> mem Site_dag_entries then Inl SALTS_ENOMEM
      else case count_incoming g [0..<edge_total]
                  (replicate count \<lparr>remaining = 0, phase = DAG_TASK_PENDING\<rparr>) of
        Inl e \<Rightarrow> Inl e
      | Inr ts \<Rightarrow> Inr \<lparr>graph = g, entries = ts, max_active = limit, active = 0, completed = 0,
                       terminal = DAG_CONTINUE\<rparr>)"

fun claim_scan :: "nat list \<Rightarrow> nat \<Rightarrow> dag_task_entry list \<Rightarrow> nat list \<Rightarrow>
    dag_task_entry list \<times> nat list" where
  "claim_scan [] limit ts out = (ts, out)"
| "claim_scan (i # is) limit ts out =
     (if length out < limit then
        (if phase (ts ! i) \<noteq> DAG_TASK_PENDING \<or> remaining (ts ! i) \<noteq> 0
         then claim_scan is limit ts out
         else claim_scan is limit (ts[i := (ts ! i)\<lparr>phase := DAG_TASK_RESERVED\<rparr>]) (out @ [i]))
      else (ts, out))"

text \<open>The third component is the filled part of the caller's index buffer.\<close>

definition dag_claim_ready :: "dag_state \<Rightarrow> nat \<Rightarrow> salts_status \<times> dag_state \<times> nat list" where
  "dag_claim_ready s capacity =
     (if capacity = 0 then (SALTS_EINVAL, s, [])
      else if terminal s \<noteq> DAG_CONTINUE then (SALTS_EBUSY, s, [])
      else if active s \<ge> max_active s then (SALTS_OK, s, [])
      else
        let limit = (if max_active s - active s > capacity then capacity else max_active s - active s);
            (ts, out) = claim_scan [0..<length (entries s)] limit (entries s) []
        in (SALTS_OK, s\<lparr>entries := ts, active := active s + length out\<rparr>, out))"

definition dag_is_reserved :: "dag_state \<Rightarrow> nat \<Rightarrow> salts_status + bool" where
  "dag_is_reserved s i =
     (if i \<ge> length (entries s) then Inl SALTS_EINVAL
      else Inr (phase (entries s ! i) = DAG_TASK_RESERVED))"

text \<open>The loop of \<open>finish\<close>; on an inconsistent edge it returns with the entries changed so far.\<close>

fun retire_incoming :: "workflow_dependencies \<Rightarrow> nat \<Rightarrow> nat list \<Rightarrow> dag_task_entry list \<Rightarrow>
    salts_status \<times> dag_task_entry list" where
  "retire_incoming g task [] ts = (SALTS_OK, ts)"
| "retire_incoming g task (i # is) ts =
     (case dependencies_edge_at g i of
        Inl _ \<Rightarrow> (SALTS_EINVAL, ts)
      | Inr (from, to) \<Rightarrow>
          if from \<ge> length ts \<or> to \<ge> length ts then (SALTS_EINVAL, ts)
          else if from = task then
            (if remaining (ts ! to) = 0 then (SALTS_EINVAL, ts)
             else retire_incoming g task is
                    (ts[to := (ts ! to)\<lparr>remaining := size_dec (remaining (ts ! to))\<rparr>]))
          else retire_incoming g task is ts)"

definition dag_finish :: "dag_state \<Rightarrow> nat \<Rightarrow> bool \<Rightarrow> salts_status \<times> dag_state" where
  "dag_finish s i success =
     (if i \<ge> length (entries s) \<or> phase (entries s ! i) \<noteq> DAG_TASK_RESERVED then (SALTS_EINVAL, s)
      else
        let s1 = s\<lparr>entries := (entries s)[i := (entries s ! i)\<lparr>phase := DAG_TASK_FINISHED\<rparr>],
                   active := size_dec (active s), completed := Suc (completed s),
                   terminal := (if \<not> success \<and> terminal s = DAG_CONTINUE then DAG_FAILED else terminal s)\<rparr>
        in if terminal s1 \<noteq> DAG_CONTINUE then (SALTS_OK, s1)
           else let (status, ts) = retire_incoming (graph s1) i
                      [0..<dependencies_edge_count (graph s1)] (entries s1)
                in (status, s1\<lparr>entries := ts\<rparr>))"

definition dag_refuse :: "dag_state \<Rightarrow> nat \<Rightarrow> salts_status \<times> dag_state" where
  "dag_refuse s i =
     (if i \<ge> length (entries s) \<or> phase (entries s ! i) \<noteq> DAG_TASK_RESERVED then (SALTS_EINVAL, s)
      else (SALTS_OK, s\<lparr>entries := (entries s)[i := (entries s ! i)\<lparr>phase := DAG_TASK_REFUSED\<rparr>],
              active := size_dec (active s),
              terminal := (if terminal s = DAG_CONTINUE then DAG_ADMISSION_REFUSED else terminal s)\<rparr>))"

definition dag_stop :: "dag_state \<Rightarrow> dag_terminal \<Rightarrow> salts_status \<times> dag_state" where
  "dag_stop s reason =
     (if reason < DAG_FAILED \<or> reason > DAG_ADMISSION_REFUSED then (SALTS_EINVAL, s)
      else (SALTS_OK, s\<lparr>terminal := (if terminal s = DAG_CONTINUE then reason else terminal s)\<rparr>))"

abbreviation entry_ready :: "dag_task_entry \<Rightarrow> bool" where
  "entry_ready t \<equiv> phase t = DAG_TASK_PENDING \<and> remaining t = 0"

definition dag_get_stats :: "dag_state \<Rightarrow> dag_stats" where
  "dag_get_stats s =
     \<lparr>stat_task_count = length (entries s), stat_active = active s, stat_completed = completed s,
      stat_ready = (if terminal s = DAG_CONTINUE then count_if entry_ready (entries s) else 0),
      stat_terminal = terminal s,
      quiescent = (active s = 0 \<and> (terminal s \<noteq> DAG_CONTINUE \<or> completed s = length (entries s))),
      all_succeeded = (terminal s = DAG_CONTINUE \<and> completed s = length (entries s) \<and> active s = 0)\<rparr>"

section \<open>The loops over the edges\<close>

lemma count_incoming_spec:
  assumes "map (dependencies_edge_at g) is = map Inr ps"
    and "\<forall>(u, v)\<in>set ps. u < length ts \<and> v < length ts"
  shows "\<exists>ts'. count_incoming g is ts = Inr ts' \<and> length ts' = length ts \<and>
     (\<forall>v<length ts. phase (ts' ! v) = phase (ts ! v) \<and>
        remaining (ts' ! v) = remaining (ts ! v) + count_if (\<lambda>(a, b). b = v) ps)"
  using assms
proof (induction "is" arbitrary: ps ts)
  case Nil
  then show ?case by simp
next
  case (Cons i "is")
  then obtain u v ps' where ps: "ps = (u, v) # ps'" and hd: "dependencies_edge_at g i = Inr (u, v)"
    and tl: "map (dependencies_edge_at g) is = map Inr ps'" by (cases ps) auto
  let ?ts = "ts[v := (ts ! v)\<lparr>remaining := Suc (remaining (ts ! v))\<rparr>]"
  have uv: "u < length ts" "v < length ts" using Cons.prems(2) ps by auto
  have "\<forall>(u, v)\<in>set ps'. u < length ?ts \<and> v < length ?ts" using Cons.prems(2) ps by auto
  from Cons.IH [OF tl this] obtain ts' where ts': "count_incoming g is ?ts = Inr ts'"
    "length ts' = length ts" "\<forall>w<length ts. phase (ts' ! w) = phase (?ts ! w) \<and>
        remaining (ts' ! w) = remaining (?ts ! w) + count_if (\<lambda>(a, b). b = w) ps'" by auto
  then show ?case using uv hd ps by (auto simp: nth_list_update)
qed

lemma retire_incoming_spec:
  assumes "map (dependencies_edge_at g) is = map Inr ps"
    and "\<forall>(u, v)\<in>set ps. u < length ts \<and> v < length ts"
    and "\<forall>v<length ts. count_if (\<lambda>(a, b). b = v \<and> a = task) ps \<le> remaining (ts ! v)"
  shows "\<exists>ts'. retire_incoming g task is ts = (SALTS_OK, ts') \<and> length ts' = length ts \<and>
     (\<forall>v<length ts. phase (ts' ! v) = phase (ts ! v) \<and>
        remaining (ts' ! v) = remaining (ts ! v) - count_if (\<lambda>(a, b). b = v \<and> a = task) ps)"
  using assms
proof (induction "is" arbitrary: ps ts)
  case Nil
  then show ?case by simp
next
  case (Cons i "is")
  then obtain u v ps' where ps: "ps = (u, v) # ps'" and hd: "dependencies_edge_at g i = Inr (u, v)"
    and tl: "map (dependencies_edge_at g) is = map Inr ps'" by (cases ps) auto
  have uv: "u < length ts" "v < length ts" using Cons.prems(2) ps by auto
  define ts1 where "ts1 = (if u = task then ts[v := (ts ! v)\<lparr>remaining := remaining (ts ! v) - 1\<rparr>] else ts)"
  have pos: "u = task \<Longrightarrow> 0 < remaining (ts ! v)"
    using Cons.prems(3) [rule_format, OF uv(2)] ps by simp
  have len: "length ts1 = length ts" by (simp add: ts1_def)
  have step: "retire_incoming g task (i # is) ts = retire_incoming g task is ts1"
    using hd uv pos by (cases "u = task") (simp_all add: ts1_def)
  have rem: "remaining (ts1 ! w) = remaining (ts ! w) - (if u = task \<and> v = w then 1 else 0)"
    and ph: "phase (ts1 ! w) = phase (ts ! w)" if "w < length ts" for w
    using that by (auto simp: ts1_def nth_list_update_if)
  have "\<forall>(u, v)\<in>set ps'. u < length ts1 \<and> v < length ts1" using Cons.prems(2) ps len by auto
  moreover have "\<forall>w<length ts1. count_if (\<lambda>(a, b). b = w \<and> a = task) ps' \<le> remaining (ts1 ! w)"
    using Cons.prems(3) rem ps len by (auto split: if_splits)
  ultimately obtain ts' where ts': "retire_incoming g task is ts1 = (SALTS_OK, ts')"
    "length ts' = length ts1" "\<forall>w<length ts1. phase (ts' ! w) = phase (ts1 ! w) \<and>
       remaining (ts' ! w) = remaining (ts1 ! w) - count_if (\<lambda>(a, b). b = w \<and> a = task) ps'"
    using Cons.IH [OF tl, of ts1] by blast
  show ?case unfolding step using ts' rem ph len ps by (intro exI [of _ ts']) auto
qed

section \<open>The claim scan\<close>

definition claimable :: "dag_task_entry list \<Rightarrow> nat list \<Rightarrow> nat list" where
  "claimable ts is = filter (\<lambda>i. entry_ready (ts ! i)) is"

definition reserve_all :: "nat set \<Rightarrow> dag_task_entry list \<Rightarrow> dag_task_entry list \<Rightarrow> bool" where
  "reserve_all I ts ts' \<longleftrightarrow> length ts' = length ts \<and>
     (\<forall>v<length ts. ts' ! v = (if v \<in> I then (ts ! v)\<lparr>phase := DAG_TASK_RESERVED\<rparr> else ts ! v))"

lemma claim_scan_spec:
  assumes "distinct is" and "\<forall>i\<in>set is. i < length ts"
  shows "\<exists>ts'. claim_scan is limit ts out = (ts', out @ take (limit - length out) (claimable ts is)) \<and>
     reserve_all (set (take (limit - length out) (claimable ts is))) ts ts' \<and>
     count_if (\<lambda>t. phase t = DAG_TASK_RESERVED) ts' =
       count_if (\<lambda>t. phase t = DAG_TASK_RESERVED) ts + length (take (limit - length out) (claimable ts is)) \<and>
     count_if (\<lambda>t. phase t = DAG_TASK_FINISHED) ts' = count_if (\<lambda>t. phase t = DAG_TASK_FINISHED) ts"
  using assms unfolding reserve_all_def claimable_def
proof (induction "is" arbitrary: ts out)
  case Nil
  then show ?case by simp
next
  case (Cons i "is")
  have i: "i < length ts" using Cons.prems(2) by simp
  show ?case
  proof (cases "length out < limit \<and> entry_ready (ts ! i)")
    case False
    show ?thesis
    proof (cases "length out < limit")
      case True
      with False have "\<not> entry_ready (ts ! i)" by simp
      with True Cons.IH [of ts out] Cons.prems show ?thesis by (auto simp del: length_take)
    next
      case full: False
      then show ?thesis by simp
    qed
  next
    case True
    let ?ts = "ts[i := (ts ! i)\<lparr>phase := DAG_TASK_RESERVED\<rparr>]"
    let ?rest = "take (limit - length (out @ [i])) (filter (\<lambda>i. entry_ready (ts ! i)) is)"
    have same: "filter (\<lambda>j. entry_ready (?ts ! j)) is = filter (\<lambda>j. entry_ready (ts ! j)) is"
      using Cons.prems by (intro filter_cong) (auto simp: nth_list_update)
    obtain ts' where ts': "claim_scan is limit ?ts (out @ [i]) = (ts', (out @ [i]) @ ?rest)"
      "length ts' = length ts"
      "\<forall>v<length ts. ts' ! v = (if v \<in> set ?rest then (?ts ! v)\<lparr>phase := DAG_TASK_RESERVED\<rparr> else ?ts ! v)"
      "count_if (\<lambda>t. phase t = DAG_TASK_RESERVED) ts' = count_if (\<lambda>t. phase t = DAG_TASK_RESERVED) ?ts + length ?rest"
      "count_if (\<lambda>t. phase t = DAG_TASK_FINISHED) ts' = count_if (\<lambda>t. phase t = DAG_TASK_FINISHED) ?ts"
      using Cons.IH [of ?ts "out @ [i]"] Cons.prems unfolding same by auto
    have ids: "take (limit - length out) (filter (\<lambda>i. entry_ready (ts ! i)) (i # is)) = i # ?rest"
      using True by (simp add: take_Cons' Suc_diff_Suc)
    have notin: "i \<notin> set ?rest" using Cons.prems(1) by (auto dest: in_set_takeD)
    have "count_if (\<lambda>t. phase t = DAG_TASK_RESERVED) ?ts = Suc (count_if (\<lambda>t. phase t = DAG_TASK_RESERVED) ts)"
      using count_if_update [OF i, of "\<lambda>t. phase t = DAG_TASK_RESERVED"] True by simp
    moreover have "count_if (\<lambda>t. phase t = DAG_TASK_FINISHED) ?ts = count_if (\<lambda>t. phase t = DAG_TASK_FINISHED) ts"
      using count_if_update [OF i, of "\<lambda>t. phase t = DAG_TASK_FINISHED"] True by simp
    moreover have "claim_scan (i # is) limit ts out = (ts', out @ i # ?rest)"
      using True ts'(1) by simp
    moreover have "\<forall>v<length ts. ts' ! v =
        (if v \<in> set (i # ?rest) then (ts ! v)\<lparr>phase := DAG_TASK_RESERVED\<rparr> else ts ! v)"
      using ts'(3) i notin by (auto simp: nth_list_update)
    ultimately show ?thesis unfolding ids using ts'(2,4,5) by auto
  qed
qed


section \<open>The invariant\<close>

definition finished :: "dag_state \<Rightarrow> nat set" where
  "finished s = {i. i < length (entries s) \<and> phase (entries s ! i) = DAG_TASK_FINISHED}"

text \<open>
  The counters count phases; while the run continues, each entry's \<open>remaining\<close> is the number of
  incoming edges from unfinished tasks; and a task that was ever claimed has all its predecessors
  finished, also after the run was stopped.
\<close>

definition dag_inv :: "dag_state \<Rightarrow> bool" where
  "dag_inv s \<longleftrightarrow> graph_inv (graph s) \<and> length (entries s) = length (tasks (graph s)) \<and>
     active s = count_if (\<lambda>t. phase t = DAG_TASK_RESERVED) (entries s) \<and>
     completed s = count_if (\<lambda>t. phase t = DAG_TASK_FINISHED) (entries s) \<and>
     active s \<le> max_active s \<and> 0 < max_active s \<and>
     (terminal s = DAG_CONTINUE \<longrightarrow> (\<forall>v<length (entries s).
        remaining (entries s ! v) = pending_degree (graph s) (finished s) v \<and>
        phase (entries s ! v) \<noteq> DAG_TASK_REFUSED)) \<and>
     (\<forall>v<length (entries s). phase (entries s ! v) \<noteq> DAG_TASK_PENDING \<longrightarrow>
        (\<forall>u. (u, v) \<in> set (edge_pairs (graph s)) \<longrightarrow> u \<in> finished s))"

lemma dag_inv_bounds:
  assumes "dag_inv s"
  shows "\<forall>(u, v)\<in>set (edge_pairs (graph s)). u < length (entries s) \<and> v < length (entries s)"
  using assms graph_edges.pairs_bounded by (auto simp: dag_inv_def dependencies_task_count_def)

lemma dag_inv_counts:
  assumes "dag_inv s"
  shows "active s = count_if (\<lambda>t. phase t = DAG_TASK_RESERVED) (entries s)"
    and "completed s = count_if (\<lambda>t. phase t = DAG_TASK_FINISHED) (entries s)"
    and "active s \<le> max_active s" and "0 < max_active s"
  using assms by (simp_all add: dag_inv_def)

lemma dag_inv_claimed:
  assumes inv: "dag_inv s" and edge: "(u, v) \<in> set (edge_pairs (graph s))"
    and claimed: "phase (entries s ! v) \<noteq> DAG_TASK_PENDING"
  shows "phase (entries s ! u) = DAG_TASK_FINISHED"
proof -
  have "v < length (entries s)" using dag_inv_bounds [OF inv] edge by blast
  then have "u \<in> finished s" using inv edge claimed by (simp add: dag_inv_def)
  then show ?thesis by (simp add: finished_def)
qed

lemma dag_inv_remaining_zero:
  assumes inv: "dag_inv s" and cont: "terminal s = DAG_CONTINUE" and i: "i < length (entries s)"
  shows "remaining (entries s ! i) = 0 \<longleftrightarrow>
    (\<forall>(u, v)\<in>set (edge_pairs (graph s)). v = i \<longrightarrow> phase (entries s ! u) = DAG_TASK_FINISHED)"
proof -
  have "remaining (entries s ! i) = pending_degree (graph s) (finished s) i"
    using inv cont i by (simp add: dag_inv_def)
  then have "remaining (entries s ! i) = 0 \<longleftrightarrow> (\<forall>u. (u, i) \<in> set (edge_pairs (graph s)) \<longrightarrow> u \<in> finished s)"
    by (simp add: pending_degree_zero)
  also have "\<dots> \<longleftrightarrow> (\<forall>u. (u, i) \<in> set (edge_pairs (graph s)) \<longrightarrow> phase (entries s ! u) = DAG_TASK_FINISHED)"
    using dag_inv_bounds [OF inv] unfolding finished_def by blast
  finally show ?thesis by auto
qed

lemma dag_inv_reserved_pos:
  assumes "dag_inv s" and "i < length (entries s)" and "phase (entries s ! i) = DAG_TASK_RESERVED"
  shows "0 < active s"
  using assms count_if_pos [of i "entries s" "\<lambda>t. phase t = DAG_TASK_RESERVED"]
  by (simp add: dag_inv_def)

lemma dag_create_spec:
  assumes "graph_inv g" and "tasks g \<noteq> []" and "length (tasks g) \<le> max_tasks" and "0 < limit"
  shows "\<exists>s. dag_state_create no_oom g limit = Inr s \<and> dag_inv s \<and> graph s = g \<and> finished s = {} \<and>
    max_active s = limit \<and> terminal s = DAG_CONTINUE"
proof -
  let ?zero = "replicate (length (tasks g)) \<lparr>remaining = 0, phase = DAG_TASK_PENDING\<rparr>"
  have bounds: "\<forall>(u, v)\<in>set (edge_pairs g). u < length ?zero \<and> v < length ?zero"
    using graph_edges.pairs_bounded [OF assms(1)] by (auto simp: dependencies_task_count_def)
  obtain ts where ts: "count_incoming g [0..<dependencies_edge_count g] ?zero = Inr ts"
    "length ts = length (tasks g)"
    "\<forall>v<length (tasks g). phase (ts ! v) = DAG_TASK_PENDING \<and>
       remaining (ts ! v) = count_if (\<lambda>(a, b). b = v) (edge_pairs g)"
    using count_incoming_spec [OF graph_edges.edge_enumeration bounds] by auto
  define s where "s = \<lparr>graph = g, entries = ts, max_active = limit, active = 0, completed = 0,
                       terminal = DAG_CONTINUE\<rparr>"
  have "dag_state_create no_oom g limit = Inr s"
    using assms ts(1) by (simp add: dag_state_create_def dependencies_task_count_def s_def
        dependencies_edge_count_def graph_inv_def)
  moreover have fin: "finished s = {}" using ts(2,3) by (auto simp: finished_def s_def)
  moreover have pend: "phase t = DAG_TASK_PENDING" if "t \<in> set ts" for t
    using that ts(2,3) by (auto simp: in_set_conv_nth)
  then have "dag_inv s"
    using assms ts(2,3) fin
    by (auto simp: dag_inv_def s_def pending_degree_def finished_def filter_empty_conv)
  ultimately show ?thesis by (auto simp: s_def)
qed

section \<open>Each operation keeps the invariant\<close>

definition claim_limit :: "dag_state \<Rightarrow> nat \<Rightarrow> nat" where
  "claim_limit s capacity = min (max_active s - active s) capacity"

definition ready_tasks :: "dag_state \<Rightarrow> nat list" where
  "ready_tasks s = claimable (entries s) [0..<length (entries s)]"

lemma claim_ready_spec:
  assumes inv: "dag_inv s" and continue: "terminal s = DAG_CONTINUE" and capacity: "0 < capacity"
  shows "\<exists>s'. dag_claim_ready s capacity = (SALTS_OK, s', take (claim_limit s capacity) (ready_tasks s)) \<and>
    reserve_all (set (take (claim_limit s capacity) (ready_tasks s))) (entries s) (entries s') \<and>
    count_if (\<lambda>t. phase t = DAG_TASK_FINISHED) (entries s') = completed s \<and>
    count_if (\<lambda>t. phase t = DAG_TASK_RESERVED) (entries s') = active s' \<and>
    s' = s\<lparr>entries := entries s', active := active s + length (take (claim_limit s capacity) (ready_tasks s))\<rparr>"
proof (cases "active s \<ge> max_active s")
  case True
  then show ?thesis using assms
    by (intro exI [of _ s]) (auto simp: dag_claim_ready_def claim_limit_def reserve_all_def dag_inv_def)
next
  case False
  let ?n = "claim_limit s capacity"
  have limit: "(if max_active s - active s > capacity then capacity else max_active s - active s) = ?n"
    by (auto simp: claim_limit_def)
  obtain ts where "claim_scan [0..<length (entries s)] ?n (entries s) [] = (ts, take ?n (ready_tasks s))"
    "reserve_all (set (take ?n (ready_tasks s))) (entries s) ts"
    "count_if (\<lambda>t. phase t = DAG_TASK_RESERVED) ts =
       count_if (\<lambda>t. phase t = DAG_TASK_RESERVED) (entries s) + length (take ?n (ready_tasks s))"
    "count_if (\<lambda>t. phase t = DAG_TASK_FINISHED) ts = count_if (\<lambda>t. phase t = DAG_TASK_FINISHED) (entries s)"
    using claim_scan_spec [of "[0..<length (entries s)]" "entries s" ?n "[]"]
    unfolding ready_tasks_def by auto
  then show ?thesis
    using False inv continue capacity unfolding dag_claim_ready_def Let_def limit
    by (auto simp: dag_inv_def)
qed

lemma ready_tasks_iff:
  "i \<in> set (ready_tasks s) \<longleftrightarrow> i < length (entries s) \<and> entry_ready (entries s ! i)"
  by (auto simp: ready_tasks_def claimable_def)

lemma ready_predecessors:
  assumes "dag_inv s" and "terminal s = DAG_CONTINUE" and "i \<in> set (ready_tasks s)"
    and "(u, i) \<in> set (edge_pairs (graph s))"
  shows "u \<in> finished s"
  using assms pending_degree_zero [of "graph s" "finished s" i] by (auto simp: dag_inv_def ready_tasks_iff)

lemma dag_claim_inv:
  assumes inv: "dag_inv s" and call: "dag_claim_ready s capacity = (st, s', out)"
  shows "dag_inv s'"
proof (cases "0 < capacity \<and> terminal s = DAG_CONTINUE")
  case False
  then show ?thesis using assms by (auto simp: dag_claim_ready_def split: if_splits)
next
  case True
  let ?ids = "take (claim_limit s capacity) (ready_tasks s)"
  from claim_ready_spec [OF inv, of capacity] True call
  have r: "reserve_all (set ?ids) (entries s) (entries s')"
    and c: "count_if (\<lambda>t. phase t = DAG_TASK_FINISHED) (entries s') = completed s"
      "count_if (\<lambda>t. phase t = DAG_TASK_RESERVED) (entries s') = active s'"
    and s': "s' = s\<lparr>entries := entries s', active := active s + length ?ids\<rparr>" by auto
  have sel: "graph s' = graph s" "max_active s' = max_active s" "completed s' = completed s"
    "terminal s' = terminal s" "active s' = active s + length ?ids" by (subst s', simp)+
  have ready: "v \<in> set (ready_tasks s)" if "v \<in> set ?ids" for v using that by (rule in_set_takeD)
  have len: "length (entries s') = length (entries s)" using r by (simp add: reserve_all_def)
  have row: "entries s' ! v = (if v \<in> set ?ids then (entries s ! v)\<lparr>phase := DAG_TASK_RESERVED\<rparr> else entries s ! v)"
    if "v < length (entries s)" for v using r that by (simp add: reserve_all_def)
  have fin: "finished s' = finished s"
    using len row ready by (auto simp: finished_def ready_tasks_iff split: if_splits)
  have "active s' \<le> max_active s'" using inv sel by (auto simp: claim_limit_def dag_inv_def)
  moreover have "u \<in> finished s" if "v < length (entries s)" "phase (entries s' ! v) \<noteq> DAG_TASK_PENDING"
    "(u, v) \<in> set (edge_pairs (graph s))" for u v
    using that row ready ready_predecessors [OF inv] inv True by (auto simp: dag_inv_def split: if_splits)
  ultimately show ?thesis
    using inv fin row sel c len unfolding dag_inv_def by (auto split: if_splits)
qed

lemma finish_spec:
  assumes inv: "dag_inv s" and i: "i < length (entries s)" "phase (entries s ! i) = DAG_TASK_RESERVED"
  shows "\<exists>s'. dag_finish s i success = (SALTS_OK, s') \<and> graph s' = graph s \<and>
    max_active s' = max_active s \<and> length (entries s') = length (entries s) \<and>
    active s' = active s - 1 \<and> completed s' = Suc (completed s) \<and>
    terminal s' = (if \<not> success \<and> terminal s = DAG_CONTINUE then DAG_FAILED else terminal s) \<and>
    map phase (entries s') = (map phase (entries s))[i := DAG_TASK_FINISHED] \<and>
    (terminal s' = DAG_CONTINUE \<longrightarrow> (\<forall>v<length (entries s).
       remaining (entries s' ! v) = pending_degree (graph s) (insert i (finished s)) v))"
proof -
  define ts where "ts = (entries s)[i := (entries s ! i)\<lparr>phase := DAG_TASK_FINISHED\<rparr>]"
  define t where "t = (if \<not> success \<and> terminal s = DAG_CONTINUE then DAG_FAILED else terminal s)"
  have pos: "0 < active s" using dag_inv_reserved_pos [OF inv i] .
  have len: "length ts = length (entries s)" by (simp add: ts_def)
  have phases: "map phase ts = (map phase (entries s))[i := DAG_TASK_FINISHED]"
    by (simp add: ts_def map_update)
  have rem: "remaining (ts ! v) = remaining (entries s ! v)" if "v < length (entries s)" for v
    using that by (auto simp: ts_def nth_list_update_if)
  show ?thesis
  proof (cases "t = DAG_CONTINUE")
    case False
    then show ?thesis using i pos phases len unfolding ts_def t_def
      by (simp add: dag_finish_def Let_def)
  next
    case True
    then have cont: "terminal s = DAG_CONTINUE" by (auto simp: t_def split: if_splits)
    have fresh: "i \<notin> finished s" using i by (simp add: finished_def)
    have b: "\<forall>(u, v)\<in>set (edge_pairs (graph s)). u < length ts \<and> v < length ts"
      using dag_inv_bounds [OF inv] len by simp
    have deg: "remaining (ts ! v) = pending_degree (graph s) (finished s) v" if "v < length ts" for v
      using that inv cont rem len by (simp add: dag_inv_def)
    then have c: "\<forall>v<length ts. count_if (\<lambda>(a, b). b = v \<and> a = i) (edge_pairs (graph s)) \<le> remaining (ts ! v)"
      using pending_degree_insert(2) [OF fresh] by simp
    obtain ts' where ts': "retire_incoming (graph s) i [0..<dependencies_edge_count (graph s)] ts = (SALTS_OK, ts')"
      "length ts' = length ts" "\<forall>v<length ts. phase (ts' ! v) = phase (ts ! v) \<and>
        remaining (ts' ! v) = remaining (ts ! v) - count_if (\<lambda>(a, b). b = v \<and> a = i) (edge_pairs (graph s))"
      using retire_incoming_spec [OF graph_edges.edge_enumeration b c] by blast
    have "map phase ts' = map phase ts" using ts'(2,3) by (intro nth_equalityI) auto
    moreover have "remaining (ts' ! v) = pending_degree (graph s) (insert i (finished s)) v"
      if "v < length ts" for v
      using that ts'(3) deg pending_degree_insert(1) [OF fresh] by simp
    ultimately show ?thesis
      using i pos True ts'(1,2) len phases cont unfolding ts_def [symmetric] t_def [symmetric]
      by (intro exI [of _ "s\<lparr>entries := ts', active := active s - 1, completed := Suc (completed s), terminal := t\<rparr>"])
        (simp add: dag_finish_def Let_def t_def ts_def [symmetric])
  qed
qed

lemma phase_count:
  "count_if (\<lambda>t. phase t = p) ts = count_if (\<lambda>q. q = p) (map phase ts)"
  by (simp add: filter_map o_def)

lemma finished_phases:
  "finished s = {i. i < length (map phase (entries s)) \<and> map phase (entries s) ! i = DAG_TASK_FINISHED}"
  by (auto simp: finished_def)

lemma dag_finish_inv:
  assumes inv: "dag_inv s" and call: "dag_finish s i success = (st, s')"
  shows "dag_inv s'"
proof (cases "i < length (entries s) \<and> phase (entries s ! i) = DAG_TASK_RESERVED")
  case False
  then show ?thesis using assms by (auto simp: dag_finish_def)
next
  case True
  let ?ps = "map phase (entries s)"
  from finish_spec [OF inv, of i success] True call
  have s': "graph s' = graph s" "max_active s' = max_active s" "length (entries s') = length (entries s)"
    "active s' = active s - 1" "completed s' = Suc (completed s)"
    "terminal s' = (if \<not> success \<and> terminal s = DAG_CONTINUE then DAG_FAILED else terminal s)"
    and phases: "map phase (entries s') = ?ps[i := DAG_TASK_FINISHED]"
    and rem: "terminal s' = DAG_CONTINUE \<Longrightarrow> \<forall>v<length (entries s).
       remaining (entries s' ! v) = pending_degree (graph s) (insert i (finished s)) v" by auto
  have i: "i < length ?ps" "?ps ! i = DAG_TASK_RESERVED" using True by auto
  have fin: "finished s' = insert i (finished s)"
    unfolding finished_phases phases using i by (auto simp: nth_list_update_if)
  have ph: "phase (entries s' ! v) = (if v = i then DAG_TASK_FINISHED else phase (entries s ! v))"
    if "v < length (entries s)" for v
    using that arg_cong [OF phases, of "\<lambda>l. l ! v"] s'(3) by (simp add: nth_list_update_if)
  have "active s' = count_if (\<lambda>t. phase t = DAG_TASK_RESERVED) (entries s')"
    unfolding s' phase_count phases
    using inv count_if_update_flip [OF i(1), of "\<lambda>q. q = DAG_TASK_RESERVED" DAG_TASK_FINISHED] i(2)
    by (simp add: dag_inv_def phase_count)
  moreover have "completed s' = count_if (\<lambda>t. phase t = DAG_TASK_FINISHED) (entries s')"
    unfolding s' phase_count phases
    using inv count_if_update_flip [OF i(1), of "\<lambda>q. q = DAG_TASK_FINISHED" DAG_TASK_FINISHED] i(2)
    by (simp add: dag_inv_def phase_count)
  moreover have "terminal s' = DAG_CONTINUE \<Longrightarrow> terminal s = DAG_CONTINUE" using s'(6) by (auto split: if_splits)
  moreover have "u \<in> finished s'" if "v < length (entries s)" "phase (entries s' ! v) \<noteq> DAG_TASK_PENDING"
    "(u, v) \<in> set (edge_pairs (graph s))" for u v
    using that inv True ph by (auto simp: fin dag_inv_def split: if_splits)
  ultimately show ?thesis using inv fin rem ph s'(1-4) by (auto simp: dag_inv_def)
qed

lemma dag_refuse_inv:
  assumes inv: "dag_inv s" and call: "dag_refuse s i = (st, s')"
  shows "dag_inv s'"
proof (cases "i < length (entries s) \<and> phase (entries s ! i) = DAG_TASK_RESERVED")
  case False
  then show ?thesis using assms by (auto simp: dag_refuse_def)
next
  case True
  have pos: "0 < active s" using dag_inv_reserved_pos [OF inv, of i] True by simp
  have s': "s' = s\<lparr>entries := (entries s)[i := (entries s ! i)\<lparr>phase := DAG_TASK_REFUSED\<rparr>],
     active := active s - 1,
     terminal := (if terminal s = DAG_CONTINUE then DAG_ADMISSION_REFUSED else terminal s)\<rparr>"
    using call True pos by (auto simp: dag_refuse_def)
  have fin: "finished s' = finished s" using True by (auto simp: finished_def s' nth_list_update_if split: if_splits)
  have "active s' = count_if (\<lambda>t. phase t = DAG_TASK_RESERVED) (entries s')"
    using inv count_if_update_flip [of i "entries s" "\<lambda>t. phase t = DAG_TASK_RESERVED"
        "(entries s ! i)\<lparr>phase := DAG_TASK_REFUSED\<rparr>"] True
    by (simp add: dag_inv_def s')
  moreover have "completed s' = count_if (\<lambda>t. phase t = DAG_TASK_FINISHED) (entries s')"
    using inv count_if_update_same [of i "entries s" "\<lambda>t. phase t = DAG_TASK_FINISHED"
        "(entries s ! i)\<lparr>phase := DAG_TASK_REFUSED\<rparr>"] True
    by (simp add: dag_inv_def s')
  moreover have "terminal s' \<noteq> DAG_CONTINUE" by (auto simp: s')
  moreover have "u \<in> finished s" if "v < length (entries s)" "phase (entries s' ! v) \<noteq> DAG_TASK_PENDING"
    "(u, v) \<in> set (edge_pairs (graph s))" for u v
    using that inv True by (auto simp: dag_inv_def s' nth_list_update_if split: if_splits)
  ultimately show ?thesis using inv fin by (auto simp: dag_inv_def s')
qed

lemma dag_stop_inv:
  assumes "dag_inv s" and "dag_stop s reason = (st, s')"
  shows "dag_inv s'"
proof -
  have "s' = s \<or> (s' = s\<lparr>terminal := reason\<rparr> \<and> reason \<noteq> DAG_CONTINUE)"
    using assms(2) by (auto simp: dag_stop_def less_dag_terminal_def split: if_splits)
  moreover have "finished (s\<lparr>terminal := reason\<rparr>) = finished s" by (simp add: finished_def)
  ultimately show ?thesis using assms(1) by (auto simp: dag_inv_def)
qed

section \<open>Reachable states\<close>

inductive dag_step :: "dag_state \<Rightarrow> dag_state \<Rightarrow> bool" where
  step_claim: "dag_claim_ready s capacity = (st, s', out) \<Longrightarrow> dag_step s s'"
| step_finish: "dag_finish s i success = (st, s') \<Longrightarrow> dag_step s s'"
| step_refuse: "dag_refuse s i = (st, s') \<Longrightarrow> dag_step s s'"
| step_stop: "dag_stop s reason = (st, s') \<Longrightarrow> dag_step s s'"

text \<open>A run starts from a state created for a graph that the graph's constructor returned.\<close>

definition dag_init :: "'j json_api \<Rightarrow> dag_state \<Rightarrow> bool" where
  "dag_init J s \<longleftrightarrow> (\<exists>mem mem' metas g limit.
     workflow_dependencies_create J mem metas = Some (Inr g) \<and> dag_state_create mem' g limit = Inr s)"

definition dag_wf :: "dag_state \<Rightarrow> bool" where
  "dag_wf s \<longleftrightarrow> dag_inv s \<and> acyclic (set (edge_pairs (graph s)))"

lemma dag_create_inv:
  assumes "graph_inv g" and "dag_state_create mem g limit = Inr s"
  shows "dag_inv s \<and> graph s = g \<and> finished s = {} \<and> max_active s = limit \<and> terminal s = DAG_CONTINUE"
proof -
  have "tasks g \<noteq> []" "length (tasks g) \<le> max_tasks" "0 < limit" "dag_state_create no_oom g limit = Inr s"
    using assms(2) by (auto simp: dag_state_create_def dependencies_task_count_def Let_def split: if_splits)
  with dag_create_spec [OF assms(1)] show ?thesis by (metis sum.inject(2))
qed

lemma dag_init_wf:
  assumes "dag_init J s"
  shows "dag_wf s"
proof -
  from assms obtain mem mem' metas g limit where
    g: "workflow_dependencies_create J mem metas = Some (Inr g)" and
    s: "dag_state_create mem' g limit = Inr s" by (auto simp: dag_init_def)
  from g have "graph_inv g" "acyclic (set (edge_pairs g))"
    by (cases rule: create_cases [of J mem metas]; simp add: admissible_workflow_def)+
  with dag_create_inv [OF _ s] show ?thesis by (auto simp: dag_wf_def)
qed

lemma dag_step_graph: "dag_step s t \<Longrightarrow> graph t = graph s"
  by (induction rule: dag_step.induct)
    (auto simp: dag_claim_ready_def dag_finish_def dag_refuse_def dag_stop_def Let_def split: if_splits prod.splits)

interpretation dag: invariant_system "dag_init J" dag_step dag_wf for J
proof
  show "dag_init J s \<Longrightarrow> dag_wf s" for s by (rule dag_init_wf)
  show "dag_step s t \<Longrightarrow> dag_wf s \<Longrightarrow> dag_wf t" for s t
  proof -
    assume step: "dag_step s t" and wf: "dag_wf s"
    from step wf have "dag_inv t"
      by (auto simp: dag_wf_def elim!: dag_step.cases
          intro: dag_claim_inv dag_finish_inv dag_refuse_inv dag_stop_inv)
    then show "dag_wf t" using wf dag_step_graph [OF step] by (simp add: dag_wf_def)
  qed
qed

section \<open>Properties\<close>

text \<open>
  C3. In every state that claims, completions, refusals and stops can reach from a fresh state of an
  accepted workflow, the counters count the phases, no more than \<open>max_active\<close> tasks are active, and
  every task that has been claimed has all its dependencies finished.
\<close>

theorem dag_reachable_invariant:
  assumes "reach (dag_init J) dag_step s"
  shows "active s = count_if (\<lambda>t. phase t = DAG_TASK_RESERVED) (entries s) \<and>
    completed s = count_if (\<lambda>t. phase t = DAG_TASK_FINISHED) (entries s) \<and>
    active s \<le> max_active s \<and>
    (\<forall>u v. (u, v) \<in> set (edge_pairs (graph s)) \<longrightarrow> phase (entries s ! v) \<noteq> DAG_TASK_PENDING \<longrightarrow>
       phase (entries s ! u) = DAG_TASK_FINISHED)"
proof -
  have inv: "dag_inv s" using dag.reach_inv [OF assms] by (simp add: dag_wf_def)
  show ?thesis using dag_inv_counts [OF inv] dag_inv_claimed [OF inv] by blast
qed

text \<open>
  C4. While the run continues, a claim returns exactly the first ready tasks in declaration order, as
  many as the free activity slots and the caller's buffer allow; a task is ready when it is pending
  and all its dependencies are finished. The claim reserves these tasks and no other.
\<close>

theorem dag_claim_ready_correct:
  assumes "reach (dag_init J) dag_step s" and "terminal s = DAG_CONTINUE" and "0 < capacity"
  shows "\<exists>s'. dag_claim_ready s capacity = (SALTS_OK, s', take (min (max_active s - active s) capacity)
      (filter (\<lambda>i. phase (entries s ! i) = DAG_TASK_PENDING \<and>
         (\<forall>(u, v)\<in>set (edge_pairs (graph s)). v = i \<longrightarrow> phase (entries s ! u) = DAG_TASK_FINISHED))
       [0..<length (entries s)])) \<and>
    reserve_all (set (snd (snd (dag_claim_ready s capacity)))) (entries s) (entries s')"
proof -
  have inv: "dag_inv s" using dag.reach_inv [OF assms(1)] by (simp add: dag_wf_def)
  have "ready_tasks s = filter (\<lambda>i. phase (entries s ! i) = DAG_TASK_PENDING \<and>
         (\<forall>(u, v)\<in>set (edge_pairs (graph s)). v = i \<longrightarrow> phase (entries s ! u) = DAG_TASK_FINISHED))
       [0..<length (entries s)]"
    unfolding ready_tasks_def claimable_def using dag_inv_remaining_zero [OF inv assms(2)]
    by (intro filter_cong) simp_all
  then show ?thesis using claim_ready_spec [OF inv assms(2,3)] by (auto simp: claim_limit_def)
qed

lemma acyclic_minimal:
  assumes acyc: "acyclic (set ps)" and bound: "\<And>u v. (u, v) \<in> set ps \<Longrightarrow> u < n"
    and open_task: "v < (n::nat)" "v \<notin> D"
  shows "\<exists>w<n. w \<notin> D \<and> (\<forall>u. (u, w) \<in> set ps \<longrightarrow> u \<in> D)"
proof -
  have "wf (set ps)" using acyc by (intro finite_acyclic_wf) auto
  moreover have "v \<in> {w. w < n \<and> w \<notin> D}" using open_task by simp
  ultimately obtain w where "w \<in> {w. w < n \<and> w \<notin> D}"
    "\<And>u. (u, w) \<in> set ps \<Longrightarrow> u \<notin> {w. w < n \<and> w \<notin> D}" by (rule wfE_min) blast
  then show ?thesis using bound by blast
qed

text \<open>
  C5. The scheduler cannot deadlock: in a reachable state that continues with nothing active and some
  task not completed, every claim admits at least one task.
\<close>

theorem dag_progress:
  assumes "reach (dag_init J) dag_step s" and "terminal s = DAG_CONTINUE" and "active s = 0"
    and "completed s < length (entries s)" and "0 < capacity"
  shows "\<exists>s' i out. dag_claim_ready s capacity = (SALTS_OK, s', i # out)"
proof -
  have inv: "dag_inv s" and acyc: "acyclic (set (edge_pairs (graph s)))"
    using dag.reach_inv [OF assms(1)] by (simp_all add: dag_wf_def)
  have "completed s = count_if (\<lambda>t. phase t = DAG_TASK_FINISHED) (entries s)" using inv by (simp add: dag_inv_def)
  then obtain t where "t \<in> set (entries s)" "phase t \<noteq> DAG_TASK_FINISHED"
    using assms(4) count_if_all [of "\<lambda>t. phase t = DAG_TASK_FINISHED" "entries s"] by auto
  then obtain v where v: "v < length (entries s)" "v \<notin> finished s"
    by (auto simp: in_set_conv_nth finished_def)
  obtain w where w: "w < length (entries s)" "w \<notin> finished s"
    "\<forall>u. (u, w) \<in> set (edge_pairs (graph s)) \<longrightarrow> u \<in> finished s"
    using acyclic_minimal [OF acyc _ v] dag_inv_bounds [OF inv] by blast
  have "count_if (\<lambda>t. phase t = DAG_TASK_RESERVED) (entries s) = 0" using inv assms(3) by (simp add: dag_inv_def)
  then have "phase (entries s ! w) \<noteq> DAG_TASK_RESERVED"
    using w(1) count_if_pos [of w "entries s" "\<lambda>t. phase t = DAG_TASK_RESERVED"] by auto
  then have "phase (entries s ! w) = DAG_TASK_PENDING"
    using w inv assms(2) by (cases "phase (entries s ! w)") (auto simp: finished_def dag_inv_def)
  moreover have "remaining (entries s ! w) = 0"
    using inv assms(2) w pending_degree_zero [of "graph s" "finished s" w] by (auto simp: dag_inv_def)
  ultimately have "ready_tasks s \<noteq> []" using w(1) ready_tasks_iff [of w s] by auto
  moreover have "0 < claim_limit s capacity" using assms(3,5) inv by (simp add: claim_limit_def dag_inv_def)
  ultimately have "take (claim_limit s capacity) (ready_tasks s) \<noteq> []" by simp
  then show ?thesis using claim_ready_spec [OF inv assms(2,5)] by (metis list.exhaust)
qed

text \<open>
  In a reachable state, finishing a task succeeds exactly when the task is reserved; the loop over
  the edges never meets an inconsistent counter.
\<close>

theorem dag_finish_status:
  assumes "reach (dag_init J) dag_step s"
  shows "(fst (dag_finish s i success) = SALTS_OK \<longleftrightarrow> dag_is_reserved s i = Inr True) \<and>
    (fst (dag_finish s i success) = SALTS_OK \<or> dag_finish s i success = (SALTS_EINVAL, s))"
proof (cases "i < length (entries s) \<and> phase (entries s ! i) = DAG_TASK_RESERVED")
  case True
  have "dag_inv s" using dag.reach_inv [OF assms] by (simp add: dag_wf_def)
  with True finish_spec [of s i success] show ?thesis by (auto simp: dag_is_reserved_def)
qed (auto simp: dag_finish_def dag_is_reserved_def)

lemma dag_step_terminal: "dag_step s t \<Longrightarrow> terminal s \<noteq> DAG_CONTINUE \<Longrightarrow> terminal t = terminal s"
  by (induction rule: dag_step.induct)
    (auto simp: dag_claim_ready_def dag_finish_def dag_refuse_def dag_stop_def Let_def split: if_splits prod.splits)

text \<open>
  The first terminal reason wins: once the run has a terminal reason no operation changes it, and
  no later claim admits a task.
\<close>

theorem dag_terminal_sticky:
  assumes "dag_step\<^sup>*\<^sup>* s t" and "terminal s \<noteq> DAG_CONTINUE" and "0 < capacity"
  shows "terminal t = terminal s \<and> dag_claim_ready t capacity = (SALTS_EBUSY, t, [])"
proof -
  from assms(1,2) have "terminal t = terminal s"
    by (induction rule: rtranclp_induct) (auto dest: dag_step_terminal)
  then show ?thesis using assms(2,3) by (simp add: dag_claim_ready_def)
qed

text \<open>
  The statistics of a reachable state: the run has succeeded exactly when it was not stopped and
  every task is finished, and it is quiescent exactly when no task is reserved and it was stopped or
  everything is finished.
\<close>

theorem dag_get_stats_correct:
  assumes "reach (dag_init J) dag_step s"
  shows "(all_succeeded (dag_get_stats s) \<longleftrightarrow>
      terminal s = DAG_CONTINUE \<and> (\<forall>t\<in>set (entries s). phase t = DAG_TASK_FINISHED)) \<and>
    (quiescent (dag_get_stats s) \<longleftrightarrow> (\<forall>t\<in>set (entries s). phase t \<noteq> DAG_TASK_RESERVED) \<and>
      (terminal s \<noteq> DAG_CONTINUE \<or> (\<forall>t\<in>set (entries s). phase t = DAG_TASK_FINISHED)))"
proof -
  have inv: "dag_inv s" using dag.reach_inv [OF assms] by (simp add: dag_wf_def)
  have act: "active s = 0 \<longleftrightarrow> (\<forall>t\<in>set (entries s). phase t \<noteq> DAG_TASK_RESERVED)"
    and comp: "completed s = length (entries s) \<longleftrightarrow> (\<forall>t\<in>set (entries s). phase t = DAG_TASK_FINISHED)"
    unfolding dag_inv_counts(1,2) [OF inv] by (rule count_if_zero count_if_all)+
  show ?thesis unfolding dag_get_stats_def by (auto simp: act comp)
qed

section \<open>A concrete run\<close>

lemma example_dag:
  obtains s where "reach (dag_init tree_api) dag_step s"
    "edge_pairs (graph s) = [(0, 1), (0, 2), (1, 2)]" "length (entries s) = 3" "max_active s = 2"
    "terminal s = DAG_CONTINUE" "active s = 0" "completed s = 0"
    "\<forall>i<3. phase (entries s ! i) = DAG_TASK_PENDING"
proof -
  obtain g where g: "workflow_dependencies_create tree_api no_oom example_metadata = Some (Inr g)"
    "graph_inv g" "edge_pairs g = [(0, 1), (0, 2), (1, 2)]" "length (tasks g) = 3" by (rule example_graph)
  then have "tasks g \<noteq> []" by auto
  with g obtain s where s: "dag_state_create no_oom g 2 = Inr s" "dag_inv s" "graph s = g" "finished s = {}"
    "max_active s = 2" "terminal s = DAG_CONTINUE"
    using dag_create_spec [of g 2] by (auto simp: max_tasks_def)
  have len: "length (entries s) = 3" using s(2,3) g(4) by (simp add: dag_inv_def)
  have "active s = 0 \<and> completed s = 0" using s(1)
    by (auto simp: dag_state_create_def Let_def split: if_splits sum.splits)
  moreover have "phase (entries s ! i) = DAG_TASK_PENDING" if "i < 3" for i
  proof -
    have "phase (entries s ! i) \<noteq> DAG_TASK_RESERVED" "phase (entries s ! i) \<noteq> DAG_TASK_FINISHED"
      using calculation that len dag_inv_counts(1,2) [OF s(2)] by (auto simp: filter_empty_conv)
    moreover have "phase (entries s ! i) \<noteq> DAG_TASK_REFUSED" using s(2,6) that len by (simp add: dag_inv_def)
    ultimately show ?thesis by (cases "phase (entries s ! i)") simp_all
  qed
  moreover have "dag_init tree_api s" using g(1) s(1) unfolding dag_init_def by blast
  ultimately show ?thesis using s g(3) len by (intro that [of s]) (auto intro: reach_init)
qed

theorem dag_claim_ready_correct_witness:
  "\<exists>s s'. reach (dag_init tree_api) dag_step s \<and> dag_claim_ready s 4 = (SALTS_OK, s', [0])"
proof -
  obtain s where s: "reach (dag_init tree_api) dag_step s"
    "edge_pairs (graph s) = [(0, 1), (0, 2), (1, 2)]" "length (entries s) = 3" "max_active s = 2"
    "terminal s = DAG_CONTINUE" "active s = 0" "\<forall>i<3. phase (entries s ! i) = DAG_TASK_PENDING"
    by (rule example_dag)
  have "[0..<3] = [0, 1, 2::nat]" by (simp add: upt_rec)
  then show ?thesis using dag_claim_ready_correct [OF s(1,5), of 4] s by auto
qed

lemma example_dag_claimed:
  obtains s where "reach (dag_init tree_api) dag_step s" "length (entries s) = 3"
    "edge_pairs (graph s) = [(0, 1), (0, 2), (1, 2)]"
    "phase (entries s ! 0) = DAG_TASK_RESERVED" "terminal s = DAG_CONTINUE"
proof -
  obtain s where s: "reach (dag_init tree_api) dag_step s"
    "edge_pairs (graph s) = [(0, 1), (0, 2), (1, 2)]" "length (entries s) = 3" "max_active s = 2"
    "terminal s = DAG_CONTINUE" "active s = 0" "\<forall>i<3. phase (entries s ! i) = DAG_TASK_PENDING"
    by (rule example_dag)
  have inv: "dag_inv s" using dag.reach_inv [OF s(1)] by (simp add: dag_wf_def)
  have "[0..<3] = [0, 1, 2::nat]" by (simp add: upt_rec)
  moreover have "remaining (entries s ! 0) = 0"
    using dag_inv_remaining_zero [OF inv s(5), of 0] s(2,3) by auto
  ultimately have "ready_tasks s = 0 # tl (ready_tasks s)"
    using s(3,7) by (simp add: ready_tasks_def claimable_def)
  moreover have "claim_limit s 1 = 1" using s(4,6) by (simp add: claim_limit_def)
  ultimately have "take (claim_limit s 1) (ready_tasks s) = [0]" by (metis take0 take_Suc_Cons One_nat_def)
  with claim_ready_spec [OF inv s(5), of 1] obtain s' where s': "dag_claim_ready s 1 = (SALTS_OK, s', [0])"
    "reserve_all {0} (entries s) (entries s')" "s' = s\<lparr>entries := entries s', active := active s + 1\<rparr>"
    by (auto simp del: length_take)
  have "reach (dag_init tree_api) dag_step s'" using s(1) step_claim [OF s'(1)] by (rule reach_step)
  moreover have "length (entries s') = 3" "phase (entries s' ! 0) = DAG_TASK_RESERVED"
    using s'(2) s(3) by (auto simp: reserve_all_def)
  moreover have "graph s' = graph s" "terminal s' = terminal s" by (subst s'(3), simp)+
  ultimately show ?thesis using s(2,5) by (intro that [of s']) simp_all
qed

theorem dag_reachable_invariant_witness:
  "\<exists>s. reach (dag_init tree_api) dag_step s \<and> phase (entries s ! 0) = DAG_TASK_RESERVED \<and>
     active s = count_if (\<lambda>t. phase t = DAG_TASK_RESERVED) (entries s) \<and> active s \<le> max_active s"
proof -
  obtain s where "reach (dag_init tree_api) dag_step s" "phase (entries s ! 0) = DAG_TASK_RESERVED"
    by (rule example_dag_claimed)
  then show ?thesis using dag_reachable_invariant [of tree_api s] by blast
qed

theorem dag_progress_witness:
  "\<exists>s s' i out. reach (dag_init tree_api) dag_step s \<and> dag_claim_ready s 1 = (SALTS_OK, s', i # out)"
proof -
  obtain s where s: "reach (dag_init tree_api) dag_step s" "length (entries s) = 3"
    "terminal s = DAG_CONTINUE" "active s = 0" "completed s = 0"
    by (rule example_dag)
  then show ?thesis using dag_progress [OF s(1), of 1] by force
qed

theorem dag_finish_status_witness:
  "\<exists>s. reach (dag_init tree_api) dag_step s \<and> fst (dag_finish s 0 True) = SALTS_OK \<and>
     dag_finish s 3 True = (SALTS_EINVAL, s)"
proof -
  obtain s where s: "reach (dag_init tree_api) dag_step s" "length (entries s) = 3"
    "phase (entries s ! 0) = DAG_TASK_RESERVED"
    by (rule example_dag_claimed)
  then show ?thesis using dag_finish_status [OF s(1), of 0 True] dag_finish_status [OF s(1), of 3 True]
    by (auto simp: dag_is_reserved_def)
qed

theorem dag_terminal_sticky_witness:
  "\<exists>s t. reach (dag_init tree_api) dag_step s \<and> dag_step\<^sup>*\<^sup>* s t \<and> s \<noteq> t \<and> terminal s = DAG_CANCELLED \<and>
     terminal t = DAG_CANCELLED \<and> dag_claim_ready t 1 = (SALTS_EBUSY, t, [])"
proof -
  obtain s where s: "reach (dag_init tree_api) dag_step s" "length (entries s) = 3"
    "phase (entries s ! 0) = DAG_TASK_RESERVED" "terminal s = DAG_CONTINUE"
    by (rule example_dag_claimed)
  define s1 where "s1 = s\<lparr>terminal := DAG_CANCELLED\<rparr>"
  define s2 where "s2 = snd (dag_finish s1 0 False)"
  have "dag_stop s DAG_CANCELLED = (SALTS_OK, s1)"
    using s(4) by (simp add: dag_stop_def s1_def less_dag_terminal_def)
  then have r1: "reach (dag_init tree_api) dag_step s1" using s(1) step_stop reach_step by metis
  have st: "dag_step s1 s2" unfolding s2_def by (rule step_finish) (rule surjective_pairing)
  have "completed s2 = Suc (completed s1)" using s by (simp add: s2_def s1_def dag_finish_def Let_def)
  then have "s1 \<noteq> s2" by auto
  moreover have "terminal s1 = DAG_CANCELLED" by (simp add: s1_def)
  moreover have "terminal s2 = terminal s1 \<and> dag_claim_ready s2 1 = (SALTS_EBUSY, s2, [])"
    using dag_terminal_sticky [of s1 s2 1] st by (auto simp: s1_def)
  ultimately show ?thesis using r1 st by (intro exI [of _ s1] exI [of _ s2]) auto
qed

theorem dag_get_stats_correct_witness:
  "\<exists>s. reach (dag_init tree_api) dag_step s \<and> \<not> quiescent (dag_get_stats s) \<and>
     \<not> all_succeeded (dag_get_stats s)"
proof -
  obtain s where s: "reach (dag_init tree_api) dag_step s" "length (entries s) = 3"
    "phase (entries s ! 0) = DAG_TASK_RESERVED"
    by (rule example_dag_claimed)
  then have "entries s ! 0 \<in> set (entries s)" by simp
  with s dag_get_stats_correct [OF s(1)] show ?thesis by force
qed

end
