(* ===== verification/Workflow_Task_Registry.thy ===== *)
theory Workflow_Task_Registry
  imports Workflow_Dependencies
begin

text \<open>
  The owner of task states and typed task outputs, \<open>praktor/src/yml/workflow_task_registry.c\<close>: one
  slot per task with a state, an output object, a failure reason and a 64-bit revision; the bounded
  admission of JSON values; single, merged and grouped publication of outputs. Outputs are values of
  the document model of \<open>Json_Api\<close>; \<open>'j\<close> equality is the pointer comparison of the stale gate.
  The lemmas show the state machine of a slot, that finalized slots are immutable until restarted,
  that every failing call leaves the registry as it was, that grouped publication is all or nothing,
  and what a reader sees after a publication.
\<close>

section \<open>Data\<close>

datatype task_state = TASK_PENDING | TASK_RUNNING | TASK_SUCCESS | TASK_FAILED | TASK_SKIPPED

definition max_outputs :: nat where "max_outputs = 128"
definition max_json_nodes :: nat where "max_json_nodes = 4096"
definition max_json_depth :: nat where "max_json_depth = 64"
definition max_json_bytes :: nat where "max_json_bytes = 1024 * 1024"
definition max_reason_bytes :: nat where "max_reason_bytes = 65536"

record 'j task_slot =
  slot_name :: string
  slot_state :: task_state
  slot_outputs :: "'j option"
  slot_reason :: "string option"
  slot_revision :: "64 word"

text \<open>\<open>address\<close> is the identity of the registry object, which a prepared group remembers.\<close>

record 'j task_registry =
  address :: nat
  slots :: "'j task_slot list"

datatype registry_site = Site_registry | Site_slot_array | Site_slot_name nat | Site_reason nat
  | Site_group | Site_group_entries

abbreviation (input) NUL :: char where
  "NUL \<equiv> CHR 0x00"

definition slot_for :: "'j task_registry \<Rightarrow> nat \<Rightarrow> 'j task_slot option" where
  "slot_for owner index = (if index < length (slots owner) then Some (slots owner ! index) else None)"

definition finalized :: "task_state \<Rightarrow> bool" where
  "finalized st \<longleftrightarrow> st = TASK_SUCCESS \<or> st = TASK_FAILED \<or> st = TASK_SKIPPED"

definition revision_available :: "'j task_slot \<Rightarrow> bool" where
  "revision_available slot \<longleftrightarrow> slot_revision slot \<noteq> - 1"

section \<open>Bounded admission of JSON values\<close>

record json_budget =
  nodes :: nat
  budget_used :: nat

definition budget_bytes :: "json_budget \<Rightarrow> nat \<Rightarrow> bool \<times> json_budget" where
  "budget_bytes b n =
     (if n > max_json_bytes - budget_used b then (False, b)
      else (True, b\<lparr>budget_used := budget_used b + n\<rparr>))"

text \<open>
  The three functions are the C function and its two loops. The depth test comes before the node
  counter is incremented, as the short-circuit order of the C condition has it.
\<close>

function (sequential) admissible_json :: "'j json_api \<Rightarrow> 'j \<Rightarrow> nat \<Rightarrow> json_budget \<Rightarrow> bool \<times> json_budget"
  and admissible_elements :: "'j json_api \<Rightarrow> 'j list \<Rightarrow> nat \<Rightarrow> json_budget \<Rightarrow> bool \<times> json_budget"
  and admissible_members :: "'j json_api \<Rightarrow> (string \<times> 'j) list \<Rightarrow> nat \<Rightarrow> json_budget \<Rightarrow> bool \<times> json_budget"
where
  "admissible_json J node depth b =
     (if depth > max_json_depth then (False, b)
      else let b1 = b\<lparr>nodes := Suc (nodes b)\<rparr> in
        if nodes b1 > max_json_nodes then (False, b1)
        else case json_type J node of
            JSON_NULL \<Rightarrow> budget_bytes b1 1
          | JSON_BOOL \<Rightarrow> budget_bytes b1 1
          | JSON_NUMBER \<Rightarrow> budget_bytes b1 (case json_number_text J node of Some t \<Rightarrow> length t | None \<Rightarrow> 32)
          | JSON_STRING \<Rightarrow> budget_bytes b1 (case json_string J node of Some t \<Rightarrow> length t | None \<Rightarrow> 0)
          | JSON_ARRAY \<Rightarrow> admissible_elements J (json_array J node) (depth + 1) b1
          | JSON_OBJECT \<Rightarrow> admissible_members J (json_members J node) (depth + 1) b1)"
| "admissible_elements J [] depth b = (True, b)"
| "admissible_elements J (x # xs) depth b =
     (case admissible_json J x depth b of
        (False, b1) \<Rightarrow> (False, b1)
      | (True, b1) \<Rightarrow> admissible_elements J xs depth b1)"
| "admissible_members J [] depth b = (True, b)"
| "admissible_members J ((key, x) # xs) depth b =
     (case budget_bytes b (length key) of
        (False, b1) \<Rightarrow> (False, b1)
      | (True, b1) \<Rightarrow>
          (case admissible_json J x depth b1 of
             (False, b2) \<Rightarrow> (False, b2)
           | (True, b2) \<Rightarrow> admissible_members J xs depth b2))"
  by pat_completeness auto

termination
  by (relation "inv_image (less_than <*lex*> less_than)
      (\<lambda>x. case x of
         Inl (J, node, depth, b) \<Rightarrow> (max_json_depth + 2 - depth, 0)
       | Inr (Inl (J, xs, depth, b)) \<Rightarrow> (max_json_depth + 2 - depth, Suc (length xs))
       | Inr (Inr (J, xs, depth, b)) \<Rightarrow> (max_json_depth + 2 - depth, Suc (length xs)))") auto

declare admissible_json.simps [simp del]

abbreviation empty_budget :: json_budget where
  "empty_budget \<equiv> \<lparr>nodes = 0, budget_used = 0\<rparr>"

abbreviation json_admitted :: "'j json_api \<Rightarrow> 'j \<Rightarrow> bool" where
  "json_admitted J v \<equiv> fst (admissible_json J v 1 empty_budget)"

section \<open>Construction and reading\<close>

text \<open>The loop that copies the task names; \<open>bytes\<close> is the budget used so far.\<close>

fun copy_names :: "registry_site allocator \<Rightarrow> workflow_dependencies \<Rightarrow> nat list \<Rightarrow> nat \<Rightarrow>
    'j task_slot list \<Rightarrow> salts_status + 'j task_slot list" where
  "copy_names mem g [] used acc = Inr acc"
| "copy_names mem g (i # is) used acc =
     (case dependencies_task_name g i of
        Inl e \<Rightarrow> Inl e
      | Inr name \<Rightarrow>
          if name = [] \<or> length name + 1 > max_name_bytes - used then Inl SALTS_EINVAL
          else if \<not> mem (Site_slot_name i) then Inl SALTS_ENOMEM
          else copy_names mem g is (used + length name + 1)
            (acc @ [\<lparr>slot_name = name, slot_state = TASK_PENDING, slot_outputs = None,
                     slot_reason = None, slot_revision = 0\<rparr>]))"

definition registry_create :: "registry_site allocator \<Rightarrow> nat \<Rightarrow> workflow_dependencies \<Rightarrow>
    salts_status + 'j task_registry" where
  "registry_create mem addr g =
     (let count = dependencies_task_count g in
      if count = 0 \<or> count > max_tasks then Inl SALTS_EINVAL
      else if \<not> mem Site_registry then Inl SALTS_ENOMEM
      else if \<not> mem Site_slot_array then Inl SALTS_ENOMEM
      else case copy_names mem g [0..<count] 0 [] of
        Inl e \<Rightarrow> Inl e
      | Inr ss \<Rightarrow> Inr \<lparr>address = addr, slots = ss\<rparr>)"

definition registry_count :: "'j task_registry \<Rightarrow> nat" where
  "registry_count owner = length (slots owner)"

definition registry_name :: "'j task_registry \<Rightarrow> nat \<Rightarrow> salts_status + string" where
  "registry_name owner index =
     (case slot_for owner index of None \<Rightarrow> Inl SALTS_ENOENT | Some slot \<Rightarrow> Inr (slot_name slot))"

definition registry_state :: "'j task_registry \<Rightarrow> nat \<Rightarrow> salts_status + task_state" where
  "registry_state owner index =
     (case slot_for owner index of None \<Rightarrow> Inl SALTS_ENOENT | Some slot \<Rightarrow> Inr (slot_state slot))"

definition get_output :: "'j json_api \<Rightarrow> 'j task_registry \<Rightarrow> nat \<Rightarrow> string \<Rightarrow> salts_status + 'j" where
  "get_output J owner index key =
     (if key = [] then Inl SALTS_EINVAL
      else case slot_for owner index of
        None \<Rightarrow> Inl SALTS_ENOENT
      | Some slot \<Rightarrow>
          if slot_state slot \<noteq> TASK_SUCCESS \<and> slot_state slot \<noteq> TASK_FAILED then Inl SALTS_EBUSY
          else case slot_outputs slot of
            None \<Rightarrow> Inl SALTS_ENOENT
          | Some outs \<Rightarrow>
              (case json_object_get J outs key of None \<Rightarrow> Inl SALTS_ENOENT | Some v \<Rightarrow> Inr v))"

definition get_outputs :: "'j task_registry \<Rightarrow> nat \<Rightarrow> salts_status + 'j" where
  "get_outputs owner index =
     (case slot_for owner index of
        None \<Rightarrow> Inl SALTS_ENOENT
      | Some slot \<Rightarrow>
          if slot_state slot \<noteq> TASK_SUCCESS \<and> slot_state slot \<noteq> TASK_FAILED then Inl SALTS_EBUSY
          else case slot_outputs slot of None \<Rightarrow> Inl SALTS_ENOENT | Some outs \<Rightarrow> Inr outs)"

text \<open>A slot in state \<open>FAILED\<close> has a reason, by the invariant below; \<open>None\<close> would be a NULL view.\<close>

definition failure_reason :: "'j task_registry \<Rightarrow> nat \<Rightarrow> salts_status + string option" where
  "failure_reason owner index =
     (case slot_for owner index of
        None \<Rightarrow> Inl SALTS_ENOENT
      | Some slot \<Rightarrow>
          if slot_state slot \<noteq> TASK_FAILED then Inl SALTS_ENOENT else Inr (slot_reason slot))"

section \<open>Transitions\<close>

abbreviation set_slot :: "'j task_registry \<Rightarrow> nat \<Rightarrow> 'j task_slot \<Rightarrow> 'j task_registry" where
  "set_slot owner index slot \<equiv> owner\<lparr>slots := (slots owner)[index := slot]\<rparr>"

definition registry_start :: "'j task_registry \<Rightarrow> nat \<Rightarrow> salts_status \<times> 'j task_registry" where
  "registry_start owner index =
     (case slot_for owner index of
        None \<Rightarrow> (SALTS_ENOENT, owner)
      | Some slot \<Rightarrow>
          if \<not> revision_available slot then (SALTS_EBUSY, owner)
          else (SALTS_OK, set_slot owner index (slot\<lparr>slot_outputs := None, slot_reason := None,
                  slot_state := TASK_RUNNING, slot_revision := slot_revision slot + 1\<rparr>)))"

definition registry_complete :: "'j task_registry \<Rightarrow> nat \<Rightarrow> salts_status \<times> 'j task_registry" where
  "registry_complete owner index =
     (case slot_for owner index of
        None \<Rightarrow> (SALTS_ENOENT, owner)
      | Some slot \<Rightarrow>
          if finalized (slot_state slot) \<or> \<not> revision_available slot then (SALTS_EBUSY, owner)
          else (SALTS_OK, set_slot owner index
                 (slot\<lparr>slot_state := TASK_SUCCESS, slot_revision := slot_revision slot + 1\<rparr>)))"

definition registry_fail :: "registry_site allocator \<Rightarrow> 'j task_registry \<Rightarrow> nat \<Rightarrow> string \<Rightarrow>
    salts_status \<times> 'j task_registry" where
  "registry_fail mem owner index reason =
     (case slot_for owner index of
        None \<Rightarrow> (SALTS_ENOENT, owner)
      | Some slot \<Rightarrow>
          if finalized (slot_state slot) \<or> \<not> revision_available slot then (SALTS_EBUSY, owner)
          else if length reason > max_reason_bytes \<or> NUL \<in> set reason then (SALTS_EINVAL, owner)
          else if \<not> mem (Site_reason index) then (SALTS_ENOMEM, owner)
          else (SALTS_OK, set_slot owner index (slot\<lparr>slot_reason := Some reason,
                 slot_state := TASK_FAILED, slot_revision := slot_revision slot + 1\<rparr>)))"

definition registry_skip :: "'j task_registry \<Rightarrow> nat \<Rightarrow> salts_status \<times> 'j task_registry" where
  "registry_skip owner index =
     (case slot_for owner index of
        None \<Rightarrow> (SALTS_ENOENT, owner)
      | Some slot \<Rightarrow>
          if finalized (slot_state slot) \<or> \<not> revision_available slot then (SALTS_EBUSY, owner)
          else (SALTS_OK, set_slot owner index
                 (slot\<lparr>slot_state := TASK_SKIPPED, slot_revision := slot_revision slot + 1\<rparr>)))"

section \<open>Publication of outputs\<close>

text \<open>The four statements that install a staged object, shared by the three publishing calls.\<close>

definition install_outputs :: "'j \<Rightarrow> 'j task_slot \<Rightarrow> 'j task_slot" where
  "install_outputs staged slot = slot\<lparr>slot_outputs := Some staged,
     slot_state := (if slot_state slot = TASK_PENDING then TASK_RUNNING else slot_state slot),
     slot_revision := slot_revision slot + 1\<rparr>"

definition staging_copy :: "'j json_api \<Rightarrow> 'j task_slot \<Rightarrow> 'j option" where
  "staging_copy J slot =
     (case slot_outputs slot of Some outs \<Rightarrow> json_clone J outs | None \<Rightarrow> json_create_object J)"

definition set_output :: "'j json_api \<Rightarrow> 'j task_registry \<Rightarrow> nat \<Rightarrow> string \<Rightarrow> 'j \<Rightarrow>
    salts_status \<times> 'j task_registry" where
  "set_output J owner index key v =
     (if key = [] then (SALTS_EINVAL, owner)
      else case slot_for owner index of
        None \<Rightarrow> (SALTS_ENOENT, owner)
      | Some slot \<Rightarrow>
          if finalized (slot_state slot) \<or> \<not> revision_available slot then (SALTS_EBUSY, owner)
          else if length key > max_json_bytes \<or> NUL \<in> set key then (SALTS_EINVAL, owner)
          else if \<not> json_admitted J v then (SALTS_EINVAL, owner)
          else case staging_copy J slot of
            None \<Rightarrow> (SALTS_ENOMEM, owner)
          | Some staged \<Rightarrow>
              (case json_clone J v of
                 None \<Rightarrow> (SALTS_ENOMEM, owner)
               | Some copy \<Rightarrow>
                   (case json_object_add_n J staged key copy of
                      None \<Rightarrow> (SALTS_ENOMEM, owner)
                    | Some staged' \<Rightarrow>
                        if length (json_members J staged') > max_outputs then (SALTS_EINVAL, owner)
                        else if \<not> json_admitted J staged' then (SALTS_EINVAL, owner)
                        else (SALTS_OK, set_slot owner index (install_outputs staged' slot)))))"

text \<open>The loop of \<open>stage_output_update\<close> over the members of the update object.\<close>

fun add_updates :: "'j json_api \<Rightarrow> (string \<times> 'j) list \<Rightarrow> 'j \<Rightarrow> salts_status + 'j" where
  "add_updates J [] staged = Inr staged"
| "add_updates J ((key, v) # ms) staged =
     (if key = [] \<or> NUL \<in> set key then Inl SALTS_EINVAL
      else case json_clone J v of
        None \<Rightarrow> Inl SALTS_ENOMEM
      | Some copy \<Rightarrow>
          (case json_object_add_n J staged key copy of
             None \<Rightarrow> Inl SALTS_ENOMEM
           | Some staged' \<Rightarrow> add_updates J ms staged'))"

definition stage_output_update :: "'j json_api \<Rightarrow> 'j task_slot \<Rightarrow> 'j \<Rightarrow> salts_status + 'j option" where
  "stage_output_update J slot updates =
     (if json_type J updates \<noteq> JSON_OBJECT then Inl SALTS_EINVAL
      else if \<not> json_admitted J updates \<or> length (json_members J updates) > max_outputs then Inl SALTS_EINVAL
      else if json_members J updates = [] then Inr None
      else case staging_copy J slot of
        None \<Rightarrow> Inl SALTS_ENOMEM
      | Some staged \<Rightarrow>
          (case add_updates J (json_members J updates) staged of
             Inl e \<Rightarrow> Inl e
           | Inr staged' \<Rightarrow>
               if length (json_members J staged') > max_outputs then Inl SALTS_EINVAL
               else if \<not> json_admitted J staged' then Inl SALTS_EINVAL
               else Inr (Some staged')))"

definition merge_outputs :: "'j json_api \<Rightarrow> 'j task_registry \<Rightarrow> nat \<Rightarrow> 'j \<Rightarrow>
    salts_status \<times> 'j task_registry" where
  "merge_outputs J owner index updates =
     (if json_type J updates \<noteq> JSON_OBJECT then (SALTS_EINVAL, owner)
      else case slot_for owner index of
        None \<Rightarrow> (SALTS_ENOENT, owner)
      | Some slot \<Rightarrow>
          if finalized (slot_state slot) \<or> \<not> revision_available slot then (SALTS_EBUSY, owner)
          else case stage_output_update J slot updates of
            Inl e \<Rightarrow> (e, owner)
          | Inr None \<Rightarrow> (SALTS_OK, owner)
          | Inr (Some staged) \<Rightarrow> (SALTS_OK, set_slot owner index (install_outputs staged slot)))"

section \<open>Grouped publication\<close>

record 'j staged_output_entry =
  entry_index :: nat
  staged_outputs :: "'j option"
  observed_outputs :: "'j option"
  observed_state :: task_state
  observed_revision :: "64 word"

record 'j output_group =
  group_owner :: nat
  group_entries :: "'j staged_output_entry list"

text \<open>The validation of the update array: every row is checked against the earlier rows.\<close>

fun check_updates :: "'j json_api \<Rightarrow> nat \<Rightarrow> (nat \<times> 'j) list \<Rightarrow> nat list \<Rightarrow> bool" where
  "check_updates J count [] seen = True"
| "check_updates J count ((index, updates) # rows) seen =
     (if index \<ge> count \<or> json_type J updates \<noteq> JSON_OBJECT then False
      else if index \<in> set seen then False
      else check_updates J count rows (seen @ [index]))"

fun stage_entries :: "'j json_api \<Rightarrow> 'j task_registry \<Rightarrow> (nat \<times> 'j) list \<Rightarrow>
    'j staged_output_entry list \<Rightarrow> salts_status + 'j staged_output_entry list" where
  "stage_entries J owner [] acc = Inr acc"
| "stage_entries J owner ((index, updates) # rows) acc =
     (let slot = slots owner ! index in
      if finalized (slot_state slot) \<or> \<not> revision_available slot then Inl SALTS_EBUSY
      else case stage_output_update J slot updates of
        Inl e \<Rightarrow> Inl e
      | Inr staged \<Rightarrow> stage_entries J owner rows
          (acc @ [\<lparr>entry_index = index, staged_outputs = staged, observed_outputs = slot_outputs slot,
                   observed_state = slot_state slot, observed_revision = slot_revision slot\<rparr>]))"

definition prepare_output_group :: "registry_site allocator \<Rightarrow> 'j json_api \<Rightarrow> 'j task_registry \<Rightarrow>
    (nat \<times> 'j) list \<Rightarrow> salts_status + 'j output_group" where
  "prepare_output_group mem J owner updates =
     (if updates = [] \<or> length updates > length (slots owner) then Inl SALTS_EINVAL
      else if \<not> check_updates J (length (slots owner)) updates [] then Inl SALTS_EINVAL
      else if \<not> mem Site_group then Inl SALTS_ENOMEM
      else if \<not> mem Site_group_entries then Inl SALTS_ENOMEM
      else case stage_entries J owner updates [] of
        Inl e \<Rightarrow> Inl e
      | Inr es \<Rightarrow> Inr \<lparr>group_owner = address owner, group_entries = es\<rparr>)"

definition entry_current :: "'j task_registry \<Rightarrow> 'j staged_output_entry \<Rightarrow> bool" where
  "entry_current owner entry \<longleftrightarrow>
     (let slot = slots owner ! entry_index entry in
      slot_state slot = observed_state entry \<and> slot_outputs slot = observed_outputs entry \<and>
      slot_revision slot = observed_revision entry \<and> revision_available slot)"

definition publish_entry :: "'j staged_output_entry \<Rightarrow> 'j task_registry \<Rightarrow> 'j task_registry" where
  "publish_entry entry owner =
     (case staged_outputs entry of
        None \<Rightarrow> owner
      | Some staged \<Rightarrow>
          set_slot owner (entry_index entry) (install_outputs staged (slots owner ! entry_index entry)))"

text \<open>The third component is the caller's group pointer afterwards: consumed or kept.\<close>

definition publish_output_group :: "'j task_registry \<Rightarrow> 'j output_group option \<Rightarrow>
    salts_status \<times> 'j task_registry \<times> 'j output_group option" where
  "publish_output_group owner prepared =
     (case prepared of
        None \<Rightarrow> (SALTS_EINVAL, owner, None)
      | Some grp \<Rightarrow>
          if group_owner grp \<noteq> address owner then (SALTS_EINVAL, owner, prepared)
          else if list_ex (\<lambda>entry. \<not> entry_current owner entry) (group_entries grp)
          then (SALTS_EBUSY, owner, prepared)
          else (SALTS_OK, fold publish_entry (group_entries grp) owner, None))"

section \<open>What the admission measures\<close>

text \<open>Nodes, retained bytes and height of a tree: the reference for \<open>admissible_json\<close>.\<close>

primrec json_size :: "json \<Rightarrow> nat" where
  "json_size JNull = 1"
| "json_size (JBool b) = 1"
| "json_size (JNumber t) = 1"
| "json_size (JString t) = 1"
| "json_size (JArray js) = Suc (sum_list (map json_size js))"
| "json_size (JObject ms) = Suc (sum_list (map (\<lambda>(k, n). n) (map (map_prod id json_size) ms)))"

primrec json_bytes :: "json \<Rightarrow> nat" where
  "json_bytes JNull = 1"
| "json_bytes (JBool b) = 1"
| "json_bytes (JNumber t) = (case t of Some t \<Rightarrow> length t | None \<Rightarrow> 32)"
| "json_bytes (JString t) = length t"
| "json_bytes (JArray js) = sum_list (map json_bytes js)"
| "json_bytes (JObject ms) = sum_list (map (\<lambda>(k, n). length k + n) (map (map_prod id json_bytes) ms))"

primrec json_height :: "json \<Rightarrow> nat" where
  "json_height JNull = 1"
| "json_height (JBool b) = 1"
| "json_height (JNumber t) = 1"
| "json_height (JString t) = 1"
| "json_height (JArray js) = Suc (fold max (map json_height js) 0)"
| "json_height (JObject ms) = Suc (fold max (map snd (map (map_prod id json_height) ms)) 0)"

lemma fold_max_le: "fold max xs a \<le> (n :: nat) \<longleftrightarrow> a \<le> n \<and> (\<forall>x\<in>set xs. x \<le> n)"
  by (induction xs arbitrary: a) auto

text \<open>The measures of an array's elements and of an object's members, and the budget they leave.\<close>

abbreviation within_nodes :: "json_budget \<Rightarrow> nat \<Rightarrow> bool" where
  "within_nodes b n \<equiv> nodes b + n \<le> max_json_nodes"

abbreviation within_bytes :: "json_budget \<Rightarrow> nat \<Rightarrow> bool" where
  "within_bytes b n \<equiv> budget_used b + n \<le> max_json_bytes"

definition spend :: "json_budget \<Rightarrow> nat \<Rightarrow> nat \<Rightarrow> json_budget" where
  "spend b n m = \<lparr>nodes = nodes b + n, budget_used = budget_used b + m\<rparr>"

definition measured :: "bool \<times> json_budget \<Rightarrow> bool \<Rightarrow> json_budget \<Rightarrow> nat \<Rightarrow> nat \<Rightarrow> bool" where
  "measured r shallow b n m \<longleftrightarrow>
     (fst r \<longleftrightarrow> shallow \<and> within_nodes b n \<and> within_bytes b m) \<and> (fst r \<longrightarrow> snd r = spend b n m)"

lemma spend_simps [simp]:
  "nodes (spend b n m) = nodes b + n" "budget_used (spend b n m) = budget_used b + m"
  "spend (spend b n m) n' m' = spend b (n + n') (m + m')" "spend b 0 0 = b"
  "b\<lparr>nodes := Suc (nodes b)\<rparr> = spend b (Suc 0) 0"
  by (simp_all add: spend_def)

lemma budget_bytes_measured:
  "within_bytes b 0 \<Longrightarrow> within_nodes b 0 \<Longrightarrow> measured (budget_bytes b n) True b 0 n"
  by (auto simp: measured_def budget_bytes_def spend_def)

lemma measured_seq:
  assumes "measured r1 s1 b n1 m1" and "r1 = (True, spend b n1 m1) \<Longrightarrow> within_nodes b n1 \<Longrightarrow> within_bytes b m1 \<Longrightarrow>
      measured (f (spend b n1 m1)) s2 (spend b n1 m1) n2 m2"
  shows "measured (case r1 of (False, b1) \<Rightarrow> (False, b1) | (True, b1) \<Rightarrow> f b1)
    (s1 \<and> s2) b (n1 + n2) (m1 + m2)"
  using assms by (cases r1; cases "fst r1") (auto simp: measured_def)


lemma json_height_pos: "1 \<le> json_height v"
  by (cases v) simp_all

lemma json_measures_Object:
  "json_size (JObject ms) = Suc (\<Sum>(k, v)\<leftarrow>ms. json_size v)"
  "json_bytes (JObject ms) = (\<Sum>(k, v)\<leftarrow>ms. length k + json_bytes v)"
  "json_height (JObject ms) \<le> Suc n \<longleftrightarrow> (\<forall>(k, v)\<in>set ms. json_height v \<le> n)"
  "json_height (JArray js) \<le> Suc n \<longleftrightarrow> (\<forall>v\<in>set js. json_height v \<le> n)"
  by (auto simp: fold_max_le split_def comp_def)

lemma admissible_measured:
  shows "json_laws J view \<Longrightarrow> within_nodes b 0 \<Longrightarrow> within_bytes b 0 \<Longrightarrow>
      measured (admissible_json J node d b) (d + json_height (view node) \<le> Suc max_json_depth) b
        (json_size (view node)) (json_bytes (view node))"
    and "json_laws J view \<Longrightarrow> within_nodes b 0 \<Longrightarrow> within_bytes b 0 \<Longrightarrow>
      measured (admissible_elements J xs d b) (\<forall>x\<in>set xs. d + json_height (view x) \<le> Suc max_json_depth) b
        (\<Sum>x\<leftarrow>xs. json_size (view x)) (\<Sum>x\<leftarrow>xs. json_bytes (view x))"
    and "json_laws J view \<Longrightarrow> within_nodes b 0 \<Longrightarrow> within_bytes b 0 \<Longrightarrow>
      measured (admissible_members J ms d b) (\<forall>(k, x)\<in>set ms. d + json_height (view x) \<le> Suc max_json_depth) b
        (\<Sum>(k, x)\<leftarrow>ms. json_size (view x)) (\<Sum>(k, x)\<leftarrow>ms. length k + json_bytes (view x))"
proof (induction J node d b and J xs d b and J ms d b rule: admissible_json_admissible_elements_admissible_members.induct)
  case (1 J node depth b)
  note laws = json_laws_read [OF 1(3)]
  have size_pos: "1 \<le> json_size (view node)" by (cases "view node") simp_all
  show ?case
  proof (cases "depth \<le> max_json_depth \<and> nodes (spend b (Suc 0) 0) \<le> max_json_nodes")
    case False
    then show ?thesis using json_height_pos [of "view node"] size_pos
      by (subst admissible_json.simps) (auto simp: measured_def Let_def simp del: One_nat_def)
  next
    case True
    let ?b = "spend b (Suc 0) 0"
    have b: "within_nodes ?b 0" "within_bytes ?b 0" using True 1(5) by auto
    have leaf: "measured (budget_bytes ?b n) (depth + 1 \<le> Suc max_json_depth) b (Suc 0) n" for n
      using budget_bytes_measured [OF b(2,1), of n] True by (auto simp: measured_def)
    have step: "admissible_json J node depth b = (case json_type J node of
            JSON_NULL \<Rightarrow> budget_bytes ?b 1
          | JSON_BOOL \<Rightarrow> budget_bytes ?b 1
          | JSON_NUMBER \<Rightarrow> budget_bytes ?b (case json_number_text J node of Some t \<Rightarrow> length t | None \<Rightarrow> 32)
          | JSON_STRING \<Rightarrow> budget_bytes ?b (case json_string J node of Some t \<Rightarrow> length t | None \<Rightarrow> 0)
          | JSON_ARRAY \<Rightarrow> admissible_elements J (json_array J node) (depth + 1) ?b
          | JSON_OBJECT \<Rightarrow> admissible_members J (json_members J node) (depth + 1) ?b)"
      using True by (subst admissible_json.simps) (simp add: Let_def)
    show ?thesis
    proof (cases "view node")
      case (JArray js)
      have js: "js = map view (json_array J node)" using JArray laws(4) [of node] by simp
      have "measured (admissible_elements J (json_array J node) (depth + 1) ?b)
         (\<forall>x\<in>set (json_array J node). depth + 1 + json_height (view x) \<le> Suc max_json_depth) ?b
         (\<Sum>x\<leftarrow>json_array J node. json_size (view x)) (\<Sum>x\<leftarrow>json_array J node. json_bytes (view x))"
        using 1(1) [of ?b] True laws(1) [of node] JArray 1(3) b by simp
      moreover have "depth + json_height (JArray js) \<le> Suc max_json_depth \<longleftrightarrow>
          (\<forall>x\<in>set (json_array J node). depth + 1 + json_height (view x) \<le> Suc max_json_depth)"
        using True json_measures_Object(4) [of js "max_json_depth - depth"] js by auto
      ultimately show ?thesis unfolding step using laws(1) [of node] JArray js
        by (simp add: measured_def comp_def)
    next
      case (JObject ms)
      have ms: "ms = map (\<lambda>(k, v). (k, view v)) (json_members J node)" using JObject laws(5) [of node] by simp
      have "measured (admissible_members J (json_members J node) (depth + 1) ?b)
         (\<forall>(k, x)\<in>set (json_members J node). depth + 1 + json_height (view x) \<le> Suc max_json_depth) ?b
         (\<Sum>(k, x)\<leftarrow>json_members J node. json_size (view x))
         (\<Sum>(k, x)\<leftarrow>json_members J node. length k + json_bytes (view x))"
        using 1(2) [of ?b] True laws(1) [of node] JObject 1(3) b by simp
      moreover have "depth + json_height (JObject ms) \<le> Suc max_json_depth \<longleftrightarrow>
          (\<forall>(k, x)\<in>set (json_members J node). depth + 1 + json_height (view x) \<le> Suc max_json_depth)"
        using True json_measures_Object(3) [of ms "max_json_depth - depth"] ms by fastforce
      moreover have "json_size (JObject ms) = Suc (\<Sum>(k, x)\<leftarrow>json_members J node. json_size (view x))"
        "json_bytes (JObject ms) = (\<Sum>(k, x)\<leftarrow>json_members J node. length k + json_bytes (view x))"
        unfolding json_measures_Object ms by (simp_all add: comp_def split_def)
      ultimately show ?thesis unfolding step using laws(1) [of node] JObject
        by (simp add: measured_def del: json_size.simps json_bytes.simps json_height.simps)
    qed (use leaf True in \<open>auto simp: step laws split: option.splits\<close>)
  qed
next
  case (2 J depth b)
  then show ?case by (simp add: measured_def)
next
  case (3 J x xs depth b)
  have "measured (case admissible_json J x depth b of (False, b1) \<Rightarrow> (False, b1)
      | (True, b1) \<Rightarrow> admissible_elements J xs depth b1)
     (depth + json_height (view x) \<le> Suc max_json_depth \<and>
      (\<forall>x\<in>set xs. depth + json_height (view x) \<le> Suc max_json_depth)) b
     (json_size (view x) + (\<Sum>x\<leftarrow>xs. json_size (view x))) (json_bytes (view x) + (\<Sum>x\<leftarrow>xs. json_bytes (view x)))"
    using 3(3-5) by (intro measured_seq 3(1) 3(2) [OF sym]) simp_all
  then show ?case by simp
next
  case (4 J depth b)
  then show ?case by (simp add: measured_def)
next
  case (5 J key x xs depth b)
  let ?f = "\<lambda>b1. case admissible_json J x depth b1 of (False, b2) \<Rightarrow> (False, b2)
      | (True, b2) \<Rightarrow> admissible_members J xs depth b2"
  let ?n = "\<Sum>(k, x)\<leftarrow>xs. json_size (view x)" and ?m = "\<Sum>(k, x)\<leftarrow>xs. length k + json_bytes (view x)"
  let ?b = "spend b 0 (length key)"
  have key: "measured (budget_bytes b (length key)) True b 0 (length key)"
    using budget_bytes_measured 5(4,5) by blast
  have "measured (?f ?b) (depth + json_height (view x) \<le> Suc max_json_depth \<and>
      (\<forall>(k, x)\<in>set xs. depth + json_height (view x) \<le> Suc max_json_depth)) ?b
      (json_size (view x) + ?n) (json_bytes (view x) + ?m)"
    if ok: "budget_bytes b (length key) = (True, ?b)" "within_nodes b 0" "within_bytes b (length key)"
    using 5(3) ok by (intro measured_seq 5(1) [OF ok(1) [symmetric]] 5(2) [OF ok(1) [symmetric] _ sym]) simp_all
  then have "measured (case budget_bytes b (length key) of (False, b1) \<Rightarrow> (False, b1) | (True, b1) \<Rightarrow> ?f b1)
     (True \<and> depth + json_height (view x) \<le> Suc max_json_depth \<and>
      (\<forall>(k, x)\<in>set xs. depth + json_height (view x) \<le> Suc max_json_depth)) b
     (0 + (json_size (view x) + ?n)) (length key + (json_bytes (view x) + ?m))"
    by (intro measured_seq [OF key]) auto
  then show ?case by (simp add: ac_simps)
qed

text \<open>
  C9. The admission of a JSON value, with its running budgets and early exits, accepts exactly the
  trees of height at most 64 with at most 4096 nodes and one MiB of retained text; it always returns.
\<close>

theorem admissible_json_correct:
  assumes "json_laws J view"
  shows "json_admitted J v \<longleftrightarrow> json_height (view v) \<le> max_json_depth \<and>
    json_size (view v) \<le> max_json_nodes \<and> json_bytes (view v) \<le> max_json_bytes"
  using admissible_measured(1) [OF assms, of empty_budget v 1] by (auto simp: measured_def)

section \<open>The calls as steps\<close>

text \<open>
  Every mutating call, with the status it returns. A published group may have been prepared earlier,
  on this registry or on another one; an address names one registry, whose slot count is fixed.
\<close>

inductive registry_call :: "'j json_api \<Rightarrow> 'j task_registry \<Rightarrow> salts_status \<Rightarrow> 'j task_registry \<Rightarrow> bool"
  for J :: "'j json_api" where
  call_start: "registry_start r i = (st, r') \<Longrightarrow> registry_call J r st r'"
| call_complete: "registry_complete r i = (st, r') \<Longrightarrow> registry_call J r st r'"
| call_fail: "registry_fail mem r i reason = (st, r') \<Longrightarrow> registry_call J r st r'"
| call_skip: "registry_skip r i = (st, r') \<Longrightarrow> registry_call J r st r'"
| call_set_output: "set_output J r i key v = (st, r') \<Longrightarrow> registry_call J r st r'"
| call_merge: "merge_outputs J r i updates = (st, r') \<Longrightarrow> registry_call J r st r'"
| call_publish: "prepare_output_group mem J r0 updates = Inr grp \<Longrightarrow>
    (address r0 = address r \<Longrightarrow> length (slots r0) = length (slots r)) \<Longrightarrow>
    publish_output_group r (Some grp) = (st, r', rest) \<Longrightarrow> registry_call J r st r'"

abbreviation registry_step :: "'j json_api \<Rightarrow> 'j task_registry \<Rightarrow> 'j task_registry \<Rightarrow> bool" where
  "registry_step J r r' \<equiv> \<exists>st. registry_call J r st r'"

text \<open>What one call may do to one slot.\<close>

inductive slot_move :: "('j \<Rightarrow> bool) \<Rightarrow> 'j task_slot \<Rightarrow> 'j task_slot \<Rightarrow> bool" for good where
  move_start: "revision_available s \<Longrightarrow>
     slot_move good s (s\<lparr>slot_outputs := None, slot_reason := None, slot_state := TASK_RUNNING,
       slot_revision := slot_revision s + 1\<rparr>)"
| move_finish: "\<not> finalized (slot_state s) \<Longrightarrow> revision_available s \<Longrightarrow> st = TASK_SUCCESS \<or> st = TASK_SKIPPED \<Longrightarrow>
     slot_move good s (s\<lparr>slot_state := st, slot_revision := slot_revision s + 1\<rparr>)"
| move_fail: "\<not> finalized (slot_state s) \<Longrightarrow> revision_available s \<Longrightarrow>
     length reason \<le> max_reason_bytes \<Longrightarrow>
     slot_move good s (s\<lparr>slot_reason := Some reason, slot_state := TASK_FAILED,
       slot_revision := slot_revision s + 1\<rparr>)"
| move_install: "\<not> finalized (slot_state s) \<Longrightarrow> revision_available s \<Longrightarrow> good staged \<Longrightarrow>
     slot_move good s (install_outputs staged s)"

definition slot_moves :: "('j \<Rightarrow> bool) \<Rightarrow> 'j task_registry \<Rightarrow> 'j task_registry \<Rightarrow> bool" where
  "slot_moves good r r' \<longleftrightarrow> address r' = address r \<and> length (slots r') = length (slots r) \<and>
     (\<forall>i<length (slots r). slots r' ! i = slots r ! i \<or> slot_move good (slots r ! i) (slots r' ! i))"

lemma slot_moves_refl [simp, intro]: "slot_moves good r r"
  by (simp add: slot_moves_def)

lemma slot_moves_set:
  assumes "i < length (slots r)" and "slot_move good (slots r ! i) s"
  shows "slot_moves good r (set_slot r i s)"
  using assms by (auto simp: slot_moves_def nth_list_update_if)

lemma slot_for_Some: "slot_for r i = Some s \<longleftrightarrow> i < length (slots r) \<and> s = slots r ! i"
  by (auto simp: slot_for_def)

text \<open>A staged object passed the admission, and has at most the allowed number of members.\<close>

definition output_ok :: "'j json_api \<Rightarrow> 'j \<Rightarrow> bool" where
  "output_ok J v \<longleftrightarrow> json_admitted J v \<and> length (json_members J v) \<le> max_outputs"

lemma stage_output_update_ok: "stage_output_update J slot u = Inr (Some staged) \<Longrightarrow> output_ok J staged"
  by (auto simp: stage_output_update_def output_ok_def split: if_splits option.splits sum.splits)

lemma single_call_moves:
  "registry_start r i = (st, r') \<Longrightarrow> slot_moves (output_ok J) r r'"
  "registry_complete r i = (st, r') \<Longrightarrow> slot_moves (output_ok J) r r'"
  "registry_fail mem r i reason = (st, r') \<Longrightarrow> slot_moves (output_ok J) r r'"
  "registry_skip r i = (st, r') \<Longrightarrow> slot_moves (output_ok J) r r'"
  "set_output J r i key v = (st, r') \<Longrightarrow> slot_moves (output_ok J) r r'"
  "merge_outputs J r i updates = (st, r') \<Longrightarrow> slot_moves (output_ok J) r r'"
  subgoal by (auto simp: registry_start_def slot_for_Some split: option.splits if_splits
        intro!: slot_moves_set move_start)
  subgoal by (auto simp: registry_complete_def slot_for_Some split: option.splits if_splits
        intro!: slot_moves_set move_finish)
  subgoal by (auto simp: registry_fail_def slot_for_Some split: option.splits if_splits
        intro!: slot_moves_set move_fail)
  subgoal by (auto simp: registry_skip_def slot_for_Some split: option.splits if_splits
        intro!: slot_moves_set move_finish)
  subgoal by (auto simp: set_output_def slot_for_Some output_ok_def split: option.splits if_splits
        intro!: slot_moves_set move_install)
  subgoal by (auto simp: merge_outputs_def slot_for_Some split: option.splits if_splits sum.splits
        intro!: slot_moves_set move_install stage_output_update_ok)
  done

section \<open>Grouped publication\<close>

definition group_ok :: "'j json_api \<Rightarrow> nat \<Rightarrow> 'j output_group \<Rightarrow> bool" where
  "group_ok J n grp \<longleftrightarrow> distinct (map entry_index (group_entries grp)) \<and>
     (\<forall>e\<in>set (group_entries grp). entry_index e < n \<and> \<not> finalized (observed_state e) \<and>
        (\<forall>staged. staged_outputs e = Some staged \<longrightarrow> output_ok J staged))"

lemma check_updates_spec:
  assumes "distinct seen"
  shows "check_updates J n rows seen \<longleftrightarrow> distinct (seen @ map fst rows) \<and>
    (\<forall>(i, u)\<in>set rows. i < n \<and> json_type J u = JSON_OBJECT)"
  using assms
proof (induction rows arbitrary: seen)
  case (Cons row rows)
  obtain i u where row: "row = (i, u)" by force
  show ?case
  proof (cases "i < n \<and> json_type J u = JSON_OBJECT \<and> i \<notin> set seen")
    case True
    then show ?thesis using Cons.IH [of "seen @ [i]"] Cons.prems by (auto simp: row)
  qed (auto simp: row)
qed simp

definition staged_entry :: "'j json_api \<Rightarrow> 'j task_registry \<Rightarrow> nat \<times> 'j \<Rightarrow> 'j staged_output_entry \<Rightarrow> bool" where
  "staged_entry J r row e \<longleftrightarrow> (let s = slots r ! fst row in
     entry_index e = fst row \<and> observed_outputs e = slot_outputs s \<and> observed_state e = slot_state s \<and>
     observed_revision e = slot_revision s \<and> \<not> finalized (slot_state s) \<and> revision_available s \<and>
     stage_output_update J s (snd row) = Inr (staged_outputs e))"

lemma stage_entries_spec:
  "stage_entries J r rows acc = Inr es \<Longrightarrow>
   \<exists>new. es = acc @ new \<and> list_all2 (staged_entry J r) rows new"
proof (induction rows arbitrary: acc)
  case (Cons row rows)
  obtain i u where row: "row = (i, u)" by force
  let ?s = "slots r ! i"
  from Cons.prems obtain staged where
    ok: "\<not> finalized (slot_state ?s)" "revision_available ?s" "stage_output_update J ?s u = Inr staged"
    and rest: "stage_entries J r rows (acc @ [\<lparr>entry_index = i, staged_outputs = staged,
        observed_outputs = slot_outputs ?s, observed_state = slot_state ?s,
        observed_revision = slot_revision ?s\<rparr>]) = Inr es"
    by (auto simp: row Let_def split: if_splits sum.splits)
  from Cons.IH [OF rest] obtain new where new: "es = acc @ \<lparr>entry_index = i, staged_outputs = staged,
        observed_outputs = slot_outputs ?s, observed_state = slot_state ?s,
        observed_revision = slot_revision ?s\<rparr> # new" "list_all2 (staged_entry J r) rows new" by auto
  have "staged_entry J r row \<lparr>entry_index = i, staged_outputs = staged,
        observed_outputs = slot_outputs ?s, observed_state = slot_state ?s,
        observed_revision = slot_revision ?s\<rparr>"
    using ok by (simp add: row staged_entry_def Let_def)
  with new show ?case by (intro exI conjI) (assumption, simp)
qed simp

lemma prepare_spec:
  assumes "prepare_output_group mem J r updates = Inr grp"
  shows "group_owner grp = address r" and "distinct (map fst updates)" and "updates \<noteq> []"
    and "\<forall>(i, u)\<in>set updates. i < length (slots r)"
    and "list_all2 (staged_entry J r) updates (group_entries grp)"
  using assms stage_entries_spec [of J r updates "[]"]
  by (auto simp: prepare_output_group_def check_updates_spec split: if_splits sum.splits)

lemma staged_indices: "list_all2 (staged_entry J r) rows es \<Longrightarrow> map entry_index es = map fst rows"
  by (induction rule: list_all2_induct) (simp_all add: staged_entry_def Let_def)

lemma prepare_group_ok:
  assumes "prepare_output_group mem J r updates = Inr grp"
  shows "group_ok J (length (slots r)) grp"
proof -
  note p = prepare_spec [OF assms]
  have "\<forall>e\<in>set (group_entries grp). \<exists>row\<in>set updates. staged_entry J r row e"
    using p(5) by (metis in_set_conv_nth list_all2_conv_all_nth)
  then have "\<forall>e\<in>set (group_entries grp). entry_index e < length (slots r) \<and> \<not> finalized (observed_state e) \<and>
        (\<forall>staged. staged_outputs e = Some staged \<longrightarrow> output_ok J staged)"
    using p(4) by (fastforce simp: staged_entry_def Let_def intro: stage_output_update_ok)
  then show ?thesis using p(2) staged_indices [OF p(5)] by (simp add: group_ok_def)
qed

text \<open>The slots after the publishing loop.\<close>

lemma fold_publish:
  assumes "distinct (map entry_index es)" and "\<forall>e\<in>set es. entry_index e < length (slots r)"
  shows "address (fold publish_entry es r) = address r \<and> length (slots (fold publish_entry es r)) = length (slots r) \<and>
    (\<forall>e\<in>set es. slots (fold publish_entry es r) ! entry_index e =
       (case staged_outputs e of None \<Rightarrow> slots r ! entry_index e
        | Some staged \<Rightarrow> install_outputs staged (slots r ! entry_index e))) \<and>
    (\<forall>i. i \<notin> entry_index ` set es \<longrightarrow> slots (fold publish_entry es r) ! i = slots r ! i)"
  using assms
proof (induction es arbitrary: r)
  case (Cons e es)
  let ?r = "publish_entry e r"
  have r: "address ?r = address r" "length (slots ?r) = length (slots r)"
    "slots ?r ! entry_index e = (case staged_outputs e of None \<Rightarrow> slots r ! entry_index e
        | Some staged \<Rightarrow> install_outputs staged (slots r ! entry_index e))"
    "\<And>i. i \<noteq> entry_index e \<Longrightarrow> slots ?r ! i = slots r ! i"
    using Cons.prems(2) by (auto simp: publish_entry_def split: option.splits)
  have "slots ?r ! entry_index e' = slots r ! entry_index e'" if "e' \<in> set es" for e'
    using that Cons.prems(1) by (intro r(4)) (metis distinct.simps(2) image_eqI list.simps(9) set_map)
  with Cons.IH [of ?r] Cons.prems r show ?case by (auto split: option.splits)
qed simp

lemma publish_moves:
  assumes ok: "group_ok J (length (slots r)) grp" and call: "publish_output_group r (Some grp) = (st, r', rest)"
  shows "slot_moves (output_ok J) r r'"
proof (cases "st = SALTS_OK")
  case False
  then show ?thesis using call by (auto simp: publish_output_group_def split: if_splits)
next
  case True
  let ?es = "group_entries grp"
  have r': "r' = fold publish_entry ?es r" and cur: "\<forall>e\<in>set ?es. entry_current r e"
    using True call by (auto simp: publish_output_group_def list_ex_iff split: if_splits)
  have dist: "distinct (map entry_index ?es)" and bound: "\<forall>e\<in>set ?es. entry_index e < length (slots r)"
    using ok by (auto simp: group_ok_def)
  note f = fold_publish [OF dist bound, folded r']
  have "slots r' ! i = slots r ! i \<or> slot_move (output_ok J) (slots r ! i) (slots r' ! i)"
    if "i < length (slots r)" for i
  proof (cases "i \<in> entry_index ` set ?es")
    case True
    then obtain e where e: "e \<in> set ?es" "i = entry_index e" by auto
    have "\<not> finalized (slot_state (slots r ! i))" "revision_available (slots r ! i)"
      using cur ok e by (auto simp: entry_current_def group_ok_def Let_def)
    moreover have "slots r' ! i = (case staged_outputs e of None \<Rightarrow> slots r ! i
        | Some staged \<Rightarrow> install_outputs staged (slots r ! i))" using f e by blast
    ultimately show ?thesis using ok e(1) by (cases "staged_outputs e") (auto simp: group_ok_def intro: move_install)
  qed (use f in blast)
  then show ?thesis using f by (simp add: slot_moves_def)
qed

lemma registry_call_moves: "registry_call J r st r' \<Longrightarrow> slot_moves (output_ok J) r r'"
proof (induction rule: registry_call.induct)
  case (call_publish mem r0 updates grp r st r' rest)
  show ?case
  proof (cases "address r0 = address r")
    case True
    then show ?thesis using call_publish prepare_group_ok publish_moves by metis
  next
    case False
    then show ?thesis using call_publish prepare_spec(1) [OF call_publish(1)]
      by (auto simp: publish_output_group_def)
  qed
qed (auto intro: single_call_moves)

lemma registry_call_failed: "registry_call J r st r' \<Longrightarrow> st \<noteq> SALTS_OK \<Longrightarrow> r' = r"
  by (induction rule: registry_call.induct)
    (auto simp: registry_start_def registry_complete_def registry_fail_def registry_skip_def
      set_output_def merge_outputs_def publish_output_group_def split: option.splits if_splits sum.splits)

section \<open>Revisions\<close>

lemma word_Suc_unat: "(w :: 64 word) \<noteq> - 1 \<Longrightarrow> unat (w + 1) = Suc (unat w)"
  by (metis add.commute add_eq_0_iff unatSuc)

lemma slot_move_revision: "slot_move good s t \<Longrightarrow> unat (slot_revision t) = Suc (unat (slot_revision s))"
  by (induction rule: slot_move.induct) (auto simp: revision_available_def install_outputs_def word_Suc_unat)

lemma slot_move_name: "slot_move good s t \<Longrightarrow> slot_name t = slot_name s"
  by (induction rule: slot_move.induct) (auto simp: install_outputs_def)

lemma slot_moves_star:
  assumes "(registry_step J)\<^sup>*\<^sup>* r r'" and "i < length (slots r)"
  shows "address r' = address r \<and> length (slots r') = length (slots r) \<and> slot_name (slots r' ! i) = slot_name (slots r ! i) \<and>
    unat (slot_revision (slots r ! i)) \<le> unat (slot_revision (slots r' ! i)) \<and>
    (slot_revision (slots r' ! i) = slot_revision (slots r ! i) \<longrightarrow> slots r' ! i = slots r ! i)"
  using assms
proof (induction rule: rtranclp_induct)
  case (step r1 r2)
  then obtain st where "registry_call J r1 st r2" by blast
  then have m: "slot_moves (output_ok J) r1 r2" by (rule registry_call_moves)
  show ?case
  proof (cases "slots r2 ! i = slots r1 ! i")
    case False
    with m step have mv: "slot_move (output_ok J) (slots r1 ! i) (slots r2 ! i)" by (auto simp: slot_moves_def)
    with slot_move_revision [OF mv] slot_move_name [OF mv] m step show ?thesis
      by (auto simp: slot_moves_def)
  qed (use m step in \<open>auto simp: slot_moves_def\<close>)
qed simp

section \<open>The invariant\<close>

definition slot_inv :: "'j json_api \<Rightarrow> 'j task_slot \<Rightarrow> bool" where
  "slot_inv J s \<longleftrightarrow> (slot_state s = TASK_PENDING \<longleftrightarrow> slot_revision s = 0) \<and>
     (slot_state s = TASK_PENDING \<longrightarrow> slot_outputs s = None) \<and>
     (slot_state s = TASK_FAILED \<longleftrightarrow> slot_reason s \<noteq> None) \<and>
     (\<forall>reason. slot_reason s = Some reason \<longrightarrow> length reason \<le> max_reason_bytes) \<and>
     (\<forall>v. slot_outputs s = Some v \<longrightarrow> output_ok J v)"

lemma slot_move_inv: "slot_move (output_ok J) s t \<Longrightarrow> slot_inv J s \<Longrightarrow> slot_inv J t"
proof -
  assume mv: "slot_move (output_ok J) s t" and inv: "slot_inv J s"
  have "slot_revision t \<noteq> 0" using slot_move_revision [OF mv] by auto
  with mv inv show ?thesis
    by (induction rule: slot_move.induct) (auto simp: slot_inv_def install_outputs_def finalized_def)
qed

definition registry_inv :: "'j json_api \<Rightarrow> 'j task_registry \<Rightarrow> bool" where
  "registry_inv J r \<longleftrightarrow> (\<forall>s\<in>set (slots r). slot_inv J s)"

definition registry_init :: "'j task_registry \<Rightarrow> bool" where
  "registry_init r \<longleftrightarrow> (\<exists>mem addr g. registry_create mem addr g = Inr r)"

lemma copy_names_spec:
  "copy_names mem g is used acc = Inr ss \<Longrightarrow>
   \<exists>ns. map (dependencies_task_name g) is = map Inr ns \<and>
     ss = acc @ map (\<lambda>n. \<lparr>slot_name = n, slot_state = TASK_PENDING, slot_outputs = None,
                     slot_reason = None, slot_revision = 0\<rparr>) ns"
proof (induction "is" arbitrary: used acc)
  case (Cons i "is")
  from Cons.prems obtain n where n: "dependencies_task_name g i = Inr n"
    and rest: "copy_names mem g is (used + length n + 1) (acc @ [\<lparr>slot_name = n, slot_state = TASK_PENDING,
       slot_outputs = None, slot_reason = None, slot_revision = 0\<rparr>]) = Inr ss"
    by (auto split: sum.splits if_splits)
  from Cons.IH [OF rest] obtain ns where "map (dependencies_task_name g) is = map Inr ns"
     "ss = (acc @ [\<lparr>slot_name = n, slot_state = TASK_PENDING, slot_outputs = None, slot_reason = None,
        slot_revision = 0\<rparr>]) @ map (\<lambda>n. \<lparr>slot_name = n, slot_state = TASK_PENDING, slot_outputs = None,
                     slot_reason = None, slot_revision = 0\<rparr>) ns" by blast
  with n show ?case by (intro exI [of _ "n # ns"]) simp
qed simp

lemma registry_create_spec:
  assumes "registry_create mem addr g = Inr r"
  shows "map slot_name (slots r) = names g" and "\<forall>s\<in>set (slots r). s = \<lparr>slot_name = slot_name s,
    slot_state = TASK_PENDING, slot_outputs = None, slot_reason = None, slot_revision = 0\<rparr>"
proof -
  let ?slot = "\<lambda>n. \<lparr>slot_name = n, slot_state = TASK_PENDING, slot_outputs = None,
                     slot_reason = None, slot_revision = 0\<rparr>"
  from assms obtain ss where ss: "copy_names mem g [0..<dependencies_task_count g] 0 [] = Inr ss" "slots r = ss"
    by (auto simp: registry_create_def Let_def split: if_splits sum.splits)
  then obtain ns where ns: "map (dependencies_task_name g) [0..<dependencies_task_count g] = map Inr ns"
    "ss = map ?slot ns" using copy_names_spec [OF ss(1)] by auto
  have "map (dependencies_task_name g) [0..<dependencies_task_count g] = map Inr (names g)"
    by (rule nth_equalityI) (simp_all add: dependencies_task_count_def dependencies_task_name_def names_def)
  then have "ns = names g" using ns(1) by (metis inj_Inr inj_map_eq_map)
  then show "map slot_name (slots r) = names g" using ss ns by (simp add: comp_def)
  show "\<forall>s\<in>set (slots r). s = ?slot (slot_name s)" using ss ns by auto
qed

interpretation registry: invariant_system registry_init "registry_step J" "registry_inv J" for J :: "'j json_api"
proof
  show "registry_inv J r" if "registry_init r" for r
  proof -
    from that obtain mem addr g where "registry_create mem addr g = Inr r" by (auto simp: registry_init_def)
    note fresh = registry_create_spec(2) [OF this]
    have "slot_inv J s" if "s \<in> set (slots r)" for s
      by (subst fresh [rule_format, OF that]) (simp add: slot_inv_def)
    then show ?thesis by (simp add: registry_inv_def)
  qed
  show "registry_inv J r'" if "registry_step J r r'" "registry_inv J r" for r r'
  proof -
    from that(1) have m: "slot_moves (output_ok J) r r'" using registry_call_moves by blast
    show ?thesis unfolding registry_inv_def all_set_conv_all_nth
    proof (intro allI impI)
      fix i assume "i < length (slots r')"
      then show "slot_inv J (slots r' ! i)"
        using m that(2) slot_move_inv by (fastforce simp: slot_moves_def registry_inv_def all_set_conv_all_nth)
    qed
  qed
qed

section \<open>What the outputs denote\<close>

definition is_object :: "('j \<Rightarrow> json) \<Rightarrow> 'j \<Rightarrow> bool" where
  "is_object view v \<longleftrightarrow> (\<exists>ms. view v = JObject ms)"

definition outputs_map :: "('j \<Rightarrow> json) \<Rightarrow> 'j task_slot \<Rightarrow> string \<rightharpoonup> json" where
  "outputs_map view s =
     (case slot_outputs s of None \<Rightarrow> Map.empty | Some v \<Rightarrow> map_of (tree_members (view v)))"

abbreviation outputs_object :: "('j \<Rightarrow> json) \<Rightarrow> 'j task_slot \<Rightarrow> bool" where
  "outputs_object view s \<equiv> \<forall>v. slot_outputs s = Some v \<longrightarrow> is_object view v"

lemma staging_copy_view:
  assumes "json_laws J view" and "staging_copy J s = Some staged" and "outputs_object view s"
  shows "is_object view staged" and "map_of (tree_members (view staged)) = outputs_map view s"
  using assms
  by (auto simp: staging_copy_def outputs_map_def is_object_def json_laws_create json_laws_clone split: option.splits)

lemma add_member_view:
  assumes "json_laws J view" and "is_object view staged" and "json_clone J v = Some copy"
    and "json_object_add_n J staged key copy = Some staged'"
  shows "is_object view staged'"
    and "map_of (tree_members (view staged')) = (map_of (tree_members (view staged)))(key \<mapsto> view v)"
proof -
  from assms(2) obtain ms where ms: "view staged = JObject ms" by (auto simp: is_object_def)
  have "view staged' = JObject (json_replace key (view v) ms)"
    using json_laws_add [OF assms(1) ms assms(4)] json_laws_clone [OF assms(1,3)] by simp
  then show "is_object view staged'"
    and "map_of (tree_members (view staged')) = (map_of (tree_members (view staged)))(key \<mapsto> view v)"
    by (simp_all add: is_object_def ms map_of_json_replace)
qed

lemma add_updates_view:
  assumes "json_laws J view" and "add_updates J ms staged = Inr staged'" and "is_object view staged"
  shows "is_object view staged' \<and> map_of (tree_members (view staged')) =
    map_of (tree_members (view staged)) ++ map_of (rev (map (\<lambda>(k, v). (k, view v)) ms))"
  using assms(2,3)
proof (induction ms arbitrary: staged)
  case (Cons m ms)
  obtain k v where m: "m = (k, v)" by force
  from Cons.prems(1) obtain copy staged1 where
    add: "json_clone J v = Some copy" "json_object_add_n J staged k copy = Some staged1"
      "add_updates J ms staged1 = Inr staged'"
    by (auto simp: m split: if_splits option.splits)
  note view = add_member_view [OF assms(1) Cons.prems(2) add(1,2)]
  have "A ++ map_of (rev (map f (m # ms))) = A(k \<mapsto> view v) ++ map_of (rev (map f ms))"
    if "f = (\<lambda>(k, v). (k, view v))" for A :: "string \<rightharpoonup> json" and f
    using that by (simp add: m map_add_assoc)
  with Cons.IH [OF add(3) view(1)] view(2) show ?case by (simp only:)
qed simp

lemma stage_output_update_view:
  assumes laws: "json_laws J view" and stage: "stage_output_update J s u = Inr (Some staged)"
    and obj: "outputs_object view s"
  shows "is_object view staged \<and> map_of (tree_members (view staged)) =
    outputs_map view s ++ map_of (rev (tree_members (view u)))"
proof -
  from stage obtain c where c: "staging_copy J s = Some c" "add_updates J (json_members J u) c = Inr staged"
    by (auto simp: stage_output_update_def split: if_splits option.splits sum.splits)
  show ?thesis
    using add_updates_view [OF laws c(2)] staging_copy_view [OF laws c(1) obj] json_laws_read(5) [OF laws, of u]
    by simp
qed

lemma stage_output_update_none:
  assumes "json_laws J view" and "stage_output_update J s u = Inr None"
  shows "tree_members (view u) = []"
  using assms json_laws_read(5) [OF assms(1), of u]
  by (auto simp: stage_output_update_def split: if_splits option.splits sum.splits)

lemma stage_output_update_cong:
  "slot_outputs s = slot_outputs s' \<Longrightarrow> stage_output_update J s u = stage_output_update J s' u"
  by (simp add: stage_output_update_def staging_copy_def)

lemma add_updates_status [simp]: "add_updates J ms staged \<noteq> Inl SALTS_OK"
  by (induction J ms staged rule: add_updates.induct) (auto split: option.splits)

lemma stage_output_update_status [simp]: "stage_output_update J s u \<noteq> Inl SALTS_OK"
  by (auto simp: stage_output_update_def dest: sym split: option.splits sum.splits)

section \<open>Published outputs are objects\<close>

definition registry_objects :: "('j \<Rightarrow> json) \<Rightarrow> 'j task_registry \<Rightarrow> bool" where
  "registry_objects view r \<longleftrightarrow> (\<forall>s\<in>set (slots r). outputs_object view s)"

lemma registry_objects_set:
  assumes "registry_objects view r" and "i < length (slots r) \<Longrightarrow> outputs_object view s"
  shows "registry_objects view (set_slot r i s)"
  using assms unfolding registry_objects_def all_set_conv_all_nth
  by (auto simp: nth_list_update_if)

lemma install_outputs_object: "is_object view v \<Longrightarrow> outputs_object view (install_outputs v s)"
  by (simp add: install_outputs_def)

lemma set_output_staged:
  assumes "set_output J r i key v = (SALTS_OK, r')"
  obtains c copy staged where "i < length (slots r)" "staging_copy J (slots r ! i) = Some c"
    "json_clone J v = Some copy" "json_object_add_n J c key copy = Some staged"
    "r' = set_slot r i (install_outputs staged (slots r ! i))"
  using assms by (auto simp: set_output_def slot_for_Some split: if_splits option.splits)

lemma merge_outputs_staged:
  assumes "merge_outputs J r i u = (SALTS_OK, r')"
  obtains staged where "i < length (slots r)" "stage_output_update J (slots r ! i) u = Inr staged"
    "r' = (case staged of None \<Rightarrow> r | Some v \<Rightarrow> set_slot r i (install_outputs v (slots r ! i)))"
  using assms
  by (auto simp: merge_outputs_def slot_for_Some split: if_splits option.splits sum.splits)

lemma publish_objects:
  assumes laws: "json_laws J view" and prep: "prepare_output_group mem J r0 updates = Inr grp"
    and size: "length (slots r0) = length (slots r)"
    and call: "publish_output_group r (Some grp) = (SALTS_OK, r', rest)" and obj: "registry_objects view r"
  shows "registry_objects view r'"
proof -
  let ?es = "group_entries grp"
  note p = prepare_spec [OF prep]
  have r': "r' = fold publish_entry ?es r" and cur: "\<forall>e\<in>set ?es. entry_current r e"
    using call by (auto simp: publish_output_group_def list_ex_iff split: if_splits)
  have ok: "group_ok J (length (slots r)) grp" using prepare_group_ok [OF prep] size by simp
  note f = fold_publish [of ?es r, folded r']
  have "outputs_object view (slots r' ! i)" if i: "i < length (slots r)" for i
  proof (cases "i \<in> entry_index ` set ?es")
    case True
    then obtain e where e: "e \<in> set ?es" "i = entry_index e" by auto
    then obtain row where row: "staged_entry J r0 row e"
      using p(5) by (metis in_set_conv_nth list_all2_conv_all_nth)
    have "slot_outputs (slots r0 ! i) = slot_outputs (slots r ! i)"
      using row cur e by (auto simp: staged_entry_def entry_current_def Let_def)
    then have stage: "stage_output_update J (slots r ! i) (snd row) = Inr (staged_outputs e)"
      using row e(2) stage_output_update_cong by (fastforce simp: staged_entry_def Let_def)
    have "slots r' ! i = (case staged_outputs e of None \<Rightarrow> slots r ! i
        | Some staged \<Rightarrow> install_outputs staged (slots r ! i))" using f ok e by (auto simp: group_ok_def)
    moreover have old: "outputs_object view (slots r ! i)" using obj i unfolding registry_objects_def by (meson nth_mem)
    ultimately show ?thesis using stage_output_update_view [OF laws, of "slots r ! i" "snd row"] stage
      by (cases "staged_outputs e") (auto simp: install_outputs_def)
  next
    case False
    then show ?thesis using f ok obj i by (auto simp: group_ok_def registry_objects_def)
  qed
  moreover have "length (slots r') = length (slots r)" using f ok by (auto simp: group_ok_def)
  ultimately show ?thesis by (simp add: registry_objects_def all_set_conv_all_nth)
qed

lemma registry_objects_slot: "registry_objects view r \<Longrightarrow> i < length (slots r) \<Longrightarrow> outputs_object view (slots r ! i)"
  unfolding registry_objects_def by (meson nth_mem)

lemma simple_call_objects:
  assumes "registry_objects view r"
  shows "registry_start r i = (st, r') \<Longrightarrow> registry_objects view r'"
    and "registry_complete r i = (st, r') \<Longrightarrow> registry_objects view r'"
    and "registry_fail mem r i reason = (st, r') \<Longrightarrow> registry_objects view r'"
    and "registry_skip r i = (st, r') \<Longrightarrow> registry_objects view r'"
  using assms registry_objects_slot [OF assms]
  by (auto simp: registry_start_def registry_complete_def registry_fail_def registry_skip_def slot_for_Some
      split: option.splits if_splits intro!: registry_objects_set)

lemma set_output_objects:
  assumes laws: "json_laws J view" and obj: "registry_objects view r"
    and call: "set_output J r i key v = (SALTS_OK, r')"
  shows "registry_objects view r'"
    and "outputs_map view (slots r' ! i) = (outputs_map view (slots r ! i))(key \<mapsto> view v)"
proof -
  obtain c copy staged where s: "i < length (slots r)" "staging_copy J (slots r ! i) = Some c"
    "json_clone J v = Some copy" "json_object_add_n J c key copy = Some staged"
    "r' = set_slot r i (install_outputs staged (slots r ! i))" by (rule set_output_staged [OF call])
  note c = staging_copy_view [OF laws s(2) registry_objects_slot [OF obj s(1)]]
  note m = add_member_view [OF laws c(1) s(3,4)]
  show "registry_objects view r'" unfolding s(5) using obj m(1)
    by (intro registry_objects_set) (simp_all add: install_outputs_object)
  show "outputs_map view (slots r' ! i) = (outputs_map view (slots r ! i))(key \<mapsto> view v)"
    using m(2) c(2) s(1) by (simp add: s(5) outputs_map_def install_outputs_def)
qed

lemma merge_outputs_objects:
  assumes laws: "json_laws J view" and obj: "registry_objects view r"
    and call: "merge_outputs J r i u = (SALTS_OK, r')"
  shows "registry_objects view r'"
    and "outputs_map view (slots r' ! i) = outputs_map view (slots r ! i) ++ map_of (rev (tree_members (view u)))"
proof -
  obtain staged where s: "i < length (slots r)" "stage_output_update J (slots r ! i) u = Inr staged"
    "r' = (case staged of None \<Rightarrow> r | Some v \<Rightarrow> set_slot r i (install_outputs v (slots r ! i)))"
    by (rule merge_outputs_staged [OF call])
  have "registry_objects view r' \<and> outputs_map view (slots r' ! i) =
    outputs_map view (slots r ! i) ++ map_of (rev (tree_members (view u)))"
  proof (cases staged)
    case None
    then show ?thesis using s obj stage_output_update_none [OF laws, of "slots r ! i" u] by simp
  next
    case (Some v)
    have "is_object view v \<and> map_of (tree_members (view v)) =
        outputs_map view (slots r ! i) ++ map_of (rev (tree_members (view u)))"
      using stage_output_update_view [OF laws _ registry_objects_slot [OF obj s(1)]] s(2) Some by simp
    moreover from this have "registry_objects view (set_slot r i (install_outputs v (slots r ! i)))"
      using obj by (intro registry_objects_set install_outputs_object) simp_all
    ultimately show ?thesis using s Some by (simp add: outputs_map_def install_outputs_def)
  qed
  then show "registry_objects view r'"
    and "outputs_map view (slots r' ! i) = outputs_map view (slots r ! i) ++ map_of (rev (tree_members (view u)))"
    by simp_all
qed

lemma registry_call_objects:
  assumes laws: "json_laws J view" and obj: "registry_objects view r" and call: "registry_call J r st r'"
  shows "registry_objects view r'"
proof (cases "st = SALTS_OK")
  case False
  then show ?thesis using registry_call_failed [OF call] obj by simp
next
  case True
  from call show ?thesis
  proof cases
    case (call_publish mem r0 updates grp rest)
    have "address r0 = address r"
      using prepare_spec(1) [OF call_publish(1)] call_publish(3) True
      by (auto simp: publish_output_group_def split: if_splits)
    then show ?thesis using publish_objects [OF laws call_publish(1) call_publish(2)] call_publish(3) True obj by blast
  next
    case (call_set_output i key v)
    then show ?thesis using True set_output_objects(1) [OF laws obj] by simp
  next
    case (call_merge i updates)
    then show ?thesis using True merge_outputs_objects(1) [OF laws obj] by simp
  qed (fact simple_call_objects [OF obj])+
qed

lemma registry_create_objects: "registry_init r \<Longrightarrow> registry_objects view r"
  using registry_create_spec(2) unfolding registry_init_def registry_objects_def
  by (metis option.distinct(1) task_slot.select_convs(3))

lemma registry_reach_objects:
  assumes "json_laws J view" and "reach registry_init (registry_step J) r"
  shows "registry_objects view r"
  using assms(2) by (induction rule: reach.induct) (auto intro: registry_create_objects registry_call_objects [OF assms(1)])

section \<open>Properties\<close>

text \<open>
  C8. In every reachable registry a slot is pending exactly while its revision is zero and then has no
  outputs; it has a failure reason, of bounded length, exactly when it has failed; and every published
  output object passed the admission and has at most 128 members.
\<close>

theorem registry_reachable_invariant:
  assumes "reach registry_init (registry_step J) r" and "s \<in> set (slots r)"
  shows "(slot_state s = TASK_PENDING \<longleftrightarrow> slot_revision s = 0) \<and>
     (slot_state s = TASK_PENDING \<longrightarrow> slot_outputs s = None) \<and>
     (slot_state s = TASK_FAILED \<longleftrightarrow> slot_reason s \<noteq> None) \<and>
     (\<forall>reason. slot_reason s = Some reason \<longrightarrow> length reason \<le> max_reason_bytes) \<and>
     (\<forall>v. slot_outputs s = Some v \<longrightarrow> json_admitted J v \<and> length (json_members J v) \<le> max_outputs)"
  using registry.reach_inv [OF assms(1)] assms(2) by (simp add: registry_inv_def slot_inv_def output_ok_def)

text \<open>
  C7. A call that returns an error leaves the whole registry unchanged; and whatever a call returns, a
  finalized slot is unchanged by it or was explicitly restarted, which clears its outputs and reason.
\<close>

theorem registry_call_atomic:
  assumes "registry_call J r st r'"
  shows "(st \<noteq> SALTS_OK \<longrightarrow> r' = r) \<and>
    (\<forall>i<length (slots r). finalized (slot_state (slots r ! i)) \<longrightarrow> slots r' ! i = slots r ! i \<or>
       slots r' ! i = (slots r ! i)\<lparr>slot_outputs := None, slot_reason := None, slot_state := TASK_RUNNING,
         slot_revision := slot_revision (slots r ! i) + 1\<rparr>)"
proof -
  have "slots r' ! i = slots r ! i \<or> slot_move (output_ok J) (slots r ! i) (slots r' ! i)"
    if "i < length (slots r)" for i
    using registry_call_moves [OF assms] that by (simp add: slot_moves_def)
  then show ?thesis using registry_call_failed [OF assms] by (auto elim!: slot_move.cases)
qed

text \<open>
  A revision never decreases and never wraps, and it detects every change: if after any sequence of
  calls a slot has the revision it had before, the slot is the same, its outputs pointer included.
\<close>

theorem registry_revision_detects_changes:
  assumes "(registry_step J)\<^sup>*\<^sup>* r r'" and "i < length (slots r)"
  shows "unat (slot_revision (slots r ! i)) \<le> unat (slot_revision (slots r' ! i)) \<and>
    (slot_revision (slots r' ! i) = slot_revision (slots r ! i) \<longleftrightarrow> slots r' ! i = slots r ! i)"
  using slot_moves_star [OF assms] by auto

lemma entry_current_iff:
  assumes steps: "(registry_step J)\<^sup>*\<^sup>* r r'" and i: "fst row < length (slots r)" and e: "staged_entry J r row e"
  shows "entry_current r' e \<longleftrightarrow> slots r' ! fst row = slots r ! fst row"
  using slot_moves_star [OF steps i] e by (auto simp: entry_current_def staged_entry_def Let_def)

lemma prepared_rows:
  assumes "prepare_output_group mem J r updates = Inr grp" and "(i, u) \<in> set updates"
  obtains e where "e \<in> set (group_entries grp)" "staged_entry J r (i, u) e"
proof -
  note p = prepare_spec [OF assms(1)]
  from assms(2) obtain j where "j < length updates" "updates ! j = (i, u)" by (auto simp: in_set_conv_nth)
  then show ?thesis using p(5) that by (metis list_all2_conv_all_nth nth_mem)
qed

lemma prepared_entries:
  assumes "prepare_output_group mem J r updates = Inr grp" and "e \<in> set (group_entries grp)"
  obtains i u where "(i, u) \<in> set updates" "staged_entry J r (i, u) e" "i < length (slots r)"
proof -
  note p = prepare_spec [OF assms(1)]
  from assms(2) p(5) obtain row where "row \<in> set updates" "staged_entry J r row e"
    by (metis in_set_conv_nth list_all2_conv_all_nth)
  then show ?thesis using p(4) that [of "fst row" "snd row"] by auto
qed

lemma group_current_iff:
  assumes prep: "prepare_output_group mem J r updates = Inr grp" and steps: "(registry_step J)\<^sup>*\<^sup>* r r'"
  shows "(\<forall>e\<in>set (group_entries grp). entry_current r' e) \<longleftrightarrow>
    (\<forall>(i, u)\<in>set updates. slots r' ! i = slots r ! i)"
proof (intro iffI ballI, unfold split_paired_all split_conv)
  fix i u assume cur: "\<forall>e\<in>set (group_entries grp). entry_current r' e" and iu: "(i, u) \<in> set updates"
  obtain e where "e \<in> set (group_entries grp)" "staged_entry J r (i, u) e" by (rule prepared_rows [OF prep iu])
  moreover have "i < length (slots r)" using prepare_spec(4) [OF prep] iu by blast
  ultimately show "slots r' ! i = slots r ! i" using cur entry_current_iff [OF steps, of "(i, u)" e] by simp
next
  fix e assume same: "\<forall>(i, u)\<in>set updates. slots r' ! i = slots r ! i" and e: "e \<in> set (group_entries grp)"
  obtain i u where "(i, u) \<in> set updates" "staged_entry J r (i, u) e" "i < length (slots r)"
    by (rule prepared_entries [OF prep e])
  then show "entry_current r' e" using same entry_current_iff [OF steps, of "(i, u)" e] by auto
qed

lemma steps_shape:
  assumes "prepare_output_group mem J r updates = Inr grp" and "(registry_step J)\<^sup>*\<^sup>* r r'"
  shows "address r' = address r \<and> length (slots r') = length (slots r)"
proof -
  obtain i u where "(i, u) \<in> set updates" using prepare_spec(3) [OF assms(1)] by (cases updates) auto
  then have "i < length (slots r)" using prepare_spec(4) [OF assms(1)] by blast
  then show ?thesis using slot_moves_star [OF assms(2)] by blast
qed

lemma publish_slots:
  assumes prep: "prepare_output_group mem J r updates = Inr grp" and len: "length (slots r') = length (slots r)"
    and same: "\<forall>(i, u)\<in>set updates. slots r' ! i = slots r ! i"
  shows "(i, u) \<in> set updates \<Longrightarrow> \<exists>staged. stage_output_update J (slots r ! i) u = Inr staged \<and>
         slots (fold publish_entry (group_entries grp) r') ! i =
           (case staged of None \<Rightarrow> slots r ! i | Some v \<Rightarrow> install_outputs v (slots r ! i))"
    and "k \<notin> fst ` set updates \<Longrightarrow> slots (fold publish_entry (group_entries grp) r') ! k = slots r' ! k"
proof -
  let ?es = "group_entries grp"
  note p = prepare_spec [OF prep]
  have dist: "distinct (map entry_index ?es)" using staged_indices [OF p(5)] p(2) by simp
  have "\<forall>e\<in>set ?es. entry_index e < length (slots r')"
    using len prepare_group_ok [OF prep] by (simp add: group_ok_def)
  note f = fold_publish [OF dist this]
  have "fst ` set updates = entry_index ` set ?es" using staged_indices [OF p(5)] by (metis set_map)
  then show "k \<notin> fst ` set updates \<Longrightarrow> slots (fold publish_entry ?es r') ! k = slots r' ! k"
    using f by simp
  assume iu: "(i, u) \<in> set updates"
  obtain e where e: "e \<in> set ?es" "staged_entry J r (i, u) e" by (rule prepared_rows [OF prep iu])
  have "slots (fold publish_entry ?es r') ! entry_index e = (case staged_outputs e of
          None \<Rightarrow> slots r' ! entry_index e | Some v \<Rightarrow> install_outputs v (slots r' ! entry_index e))"
    using f e(1) by blast
  moreover have "entry_index e = i" "slots r' ! i = slots r ! i"
    "stage_output_update J (slots r ! i) u = Inr (staged_outputs e)"
    using e(2) same iu by (auto simp: staged_entry_def Let_def)
  ultimately show "\<exists>staged. stage_output_update J (slots r ! i) u = Inr staged \<and>
         slots (fold publish_entry ?es r') ! i =
           (case staged of None \<Rightarrow> slots r ! i | Some v \<Rightarrow> install_outputs v (slots r ! i))"
    by (intro exI [of _ "staged_outputs e"]) (simp cong: option.case_cong)
qed

lemma publish_group_cases:
  assumes prep: "prepare_output_group mem J r updates = Inr grp" and steps: "(registry_step J)\<^sup>*\<^sup>* r r'"
  shows "if \<forall>(i, u)\<in>set updates. slots r' ! i = slots r ! i
    then \<exists>r''. publish_output_group r' (Some grp) = (SALTS_OK, r'', None) \<and>
      (\<forall>(i, u)\<in>set updates. \<exists>staged. stage_output_update J (slots r ! i) u = Inr staged \<and>
         slots r'' ! i = (case staged of None \<Rightarrow> slots r ! i | Some v \<Rightarrow> install_outputs v (slots r ! i))) \<and>
      (\<forall>i. i \<notin> fst ` set updates \<longrightarrow> slots r'' ! i = slots r' ! i)
    else publish_output_group r' (Some grp) = (SALTS_EBUSY, r', Some grp)"
proof -
  note cur = group_current_iff [OF prep steps] and shape = steps_shape [OF prep steps]
    and own = prepare_spec(1) [OF prep]
  show ?thesis
  proof (cases "\<forall>(i, u)\<in>set updates. slots r' ! i = slots r ! i")
    case True
    have "publish_output_group r' (Some grp) = (SALTS_OK, fold publish_entry (group_entries grp) r', None)"
      using True cur shape own by (auto simp: publish_output_group_def list_ex_iff)
    then show ?thesis unfolding if_P [OF True] using publish_slots [OF prep _ True] shape by blast
  next
    case False
    then show ?thesis using cur shape own by (auto simp: publish_output_group_def list_ex_iff)
  qed
qed

text \<open>
  C6. Grouped publication: a group prepared on a registry and published after any calls in between
  succeeds exactly when none of its slots changed meanwhile. It then installs every staged object,
  leaves all other slots alone and consumes the group; otherwise it changes nothing, group included.
\<close>

theorem publish_output_group_correct:
  assumes prep: "prepare_output_group mem J r updates = Inr grp" and steps: "(registry_step J)\<^sup>*\<^sup>* r r'"
  shows "if \<forall>(i, u)\<in>set updates. slots r' ! i = slots r ! i
    then \<exists>r''. publish_output_group r' (Some grp) = (SALTS_OK, r'', None) \<and>
      (\<forall>(i, u)\<in>set updates. \<exists>staged. stage_output_update J (slots r ! i) u = Inr staged \<and>
         slots r'' ! i = (case staged of None \<Rightarrow> slots r ! i | Some v \<Rightarrow> install_outputs v (slots r ! i))) \<and>
      (\<forall>i. i \<notin> fst ` set updates \<longrightarrow> slots r'' ! i = slots r' ! i)
    else publish_output_group r' (Some grp) = (SALTS_EBUSY, r', Some grp)"
  by (rule publish_group_cases [OF assms])

lemma get_output_view:
  assumes "json_laws J view" and "i < length (slots r)" and "slot_state (slots r ! i) = TASK_SUCCESS" and "key \<noteq> []"
  shows "map_sum id view (get_output J r i key) =
    (case outputs_map view (slots r ! i) key of None \<Rightarrow> Inl SALTS_ENOENT | Some x \<Rightarrow> Inr x)"
proof (cases "slot_outputs (slots r ! i)")
  case None
  then show ?thesis using assms by (simp add: get_output_def slot_for_def outputs_map_def)
next
  case (Some v)
  have "map_option view (json_object_get J v key) = map_of (tree_members (view v)) key"
    by (rule json_laws_read(6) [OF assms(1)])
  then show ?thesis using assms(2-4) Some
    by (cases "json_object_get J v key") (auto simp: get_output_def slot_for_def outputs_map_def dest: sym)
qed

text \<open>
  Read after write: once a reachable task's output has been set and the task completed, a reader of
  any key sees the tree that was set under this key, and under every other key what it held before.
\<close>

theorem set_output_get_output:
  assumes laws: "json_laws J view" and run: "reach registry_init (registry_step J) r"
    and set: "set_output J r i key v = (SALTS_OK, r1)" and complete: "registry_complete r1 i = (SALTS_OK, r2)"
    and key': "key' \<noteq> []"
  shows "map_sum id view (get_output J r2 i key') =
    (case ((outputs_map view (slots r ! i))(key \<mapsto> view v)) key' of
       None \<Rightarrow> Inl SALTS_ENOENT | Some x \<Rightarrow> Inr x)"
proof -
  note obj = registry_reach_objects [OF laws run]
  have r2: "i < length (slots r2)" "slot_state (slots r2 ! i) = TASK_SUCCESS"
    "slot_outputs (slots r2 ! i) = slot_outputs (slots r1 ! i)"
    using complete by (auto simp: registry_complete_def slot_for_Some split: option.splits if_splits)
  then have "outputs_map view (slots r2 ! i) = outputs_map view (slots r1 ! i)" by (simp add: outputs_map_def)
  then show ?thesis using get_output_view [OF laws r2(1,2) key'] set_output_objects(2) [OF laws obj set] by simp
qed

text \<open>
  Merging an object of outputs overrides exactly its keys, the last binding of a repeated key
  winning, and keeps every other output.
\<close>

theorem merge_outputs_overrides:
  assumes "json_laws J view" and "reach registry_init (registry_step J) r"
    and "merge_outputs J r i u = (SALTS_OK, r')"
  shows "outputs_map view (slots r' ! i) = outputs_map view (slots r ! i) ++ map_of (rev (tree_members (view u)))"
  by (rule merge_outputs_objects(2) [OF assms(1) registry_reach_objects [OF assms(1,2)] assms(3)])

section \<open>A concrete registry\<close>

definition fresh_slot :: "string \<Rightarrow> json task_slot" where
  "fresh_slot n = \<lparr>slot_name = n, slot_state = TASK_PENDING, slot_outputs = None, slot_reason = None,
     slot_revision = 0\<rparr>"

definition example_registry :: "json task_registry" where
  "example_registry = \<lparr>address = 7, slots = [fresh_slot ''a'', fresh_slot ''b'', fresh_slot ''c'']\<rparr>"

lemma example_registry_reach: "reach registry_init (registry_step tree_api) example_registry"
proof (rule reach_init)
  obtain g where g: "names g = [''a'', ''b'', ''c'']" "length (tasks g) = 3" by (rule example_graph)
  have name: "dependencies_task_name g i = Inr (names g ! i)" if "i < 3" for i
    using that g(2) by (simp add: dependencies_task_name_def names_def)
  have "registry_create no_oom 7 g = Inr example_registry"
    using name [of 0] name [of 1] name [of 2] g
    by (simp add: registry_create_def dependencies_task_count_def max_tasks_def max_name_bytes_def
        upt_rec example_registry_def fresh_slot_def numeral_2_eq_2)
  then show "registry_init example_registry" unfolding registry_init_def by blast
qed

abbreviation example_updates :: "(nat \<times> json) list" where
  "example_updates \<equiv> [(0, JObject [(''x'', JString ''1'')]), (2, JObject [])]"

lemmas registry_eval = example_registry_def fresh_slot_def slot_for_def finalized_def revision_available_def
  admissible_json.simps budget_bytes_def max_json_depth_def max_json_nodes_def max_json_bytes_def
  max_outputs_def max_reason_bytes_def staging_copy_def install_outputs_def stage_output_update_def

theorem admissible_json_correct_witness:
  "json_admitted tree_api (JObject [(''x'', JArray [JNull, JString ''ab''])]) \<longleftrightarrow>
     json_height (JObject [(''x'', JArray [JNull, JString ''ab''])]) \<le> max_json_depth \<and>
     json_size (JObject [(''x'', JArray [JNull, JString ''ab''])]) \<le> max_json_nodes \<and>
     json_bytes (JObject [(''x'', JArray [JNull, JString ''ab''])]) \<le> max_json_bytes"
  by (rule admissible_json_correct [OF tree_api_laws])

theorem registry_reachable_invariant_witness:
  "slot_state (fresh_slot ''a'') = TASK_PENDING \<and> slot_revision (fresh_slot ''a'') = 0 \<and>
   slot_reason (fresh_slot ''a'') = None"
  using registry_reachable_invariant [OF example_registry_reach, of "fresh_slot ''a''"]
  by (auto simp: example_registry_def fresh_slot_def)

theorem registry_call_atomic_witness:
  "\<exists>r. registry_call tree_api example_registry SALTS_ENOENT r \<and> r = example_registry"
proof -
  have "registry_call tree_api example_registry SALTS_ENOENT example_registry"
    by (rule call_start [of _ 9]) (simp add: registry_start_def registry_eval)
  from registry_call_atomic [OF this] this show ?thesis by blast
qed

theorem registry_revision_detects_changes_witness:
  "\<exists>r. registry_step tree_api example_registry r \<and>
     slot_revision (slots r ! 0) \<noteq> slot_revision (slots example_registry ! 0) \<and>
     slots r ! 1 = slots example_registry ! 1"
proof -
  obtain r where r: "registry_start example_registry 0 = (SALTS_OK, r)"
    by (simp add: registry_start_def registry_eval)
  then have step: "registry_step tree_api example_registry r" by (blast intro: call_start)
  have "slots r ! 0 \<noteq> slots example_registry ! 0" "slot_revision (slots r ! 1) = slot_revision (slots example_registry ! 1)"
    using r by (auto simp: registry_start_def registry_eval)
  then show ?thesis
    using step registry_revision_detects_changes [OF r_into_rtranclp [of "registry_step tree_api", OF step], of 0]
      registry_revision_detects_changes [OF r_into_rtranclp [of "registry_step tree_api", OF step], of 1]
    by (auto simp: example_registry_def)
qed

theorem publish_output_group_correct_witness:
  "\<exists>grp r. prepare_output_group no_oom tree_api example_registry example_updates = Inr grp \<and>
     publish_output_group example_registry (Some grp) = (SALTS_OK, r, None) \<and>
     slots r ! 1 = slots example_registry ! 1"
proof -
  obtain grp where grp: "prepare_output_group no_oom tree_api example_registry example_updates = Inr grp"
    by (simp add: prepare_output_group_def registry_eval Let_def)
  show ?thesis
    using grp publish_output_group_correct [OF grp rtranclp.rtrancl_refl] by (auto split: if_splits)
qed

theorem set_output_get_output_witness:
  "\<exists>r1 r2. set_output tree_api example_registry 1 ''k'' (JString ''v'') = (SALTS_OK, r1) \<and>
     registry_complete r1 1 = (SALTS_OK, r2) \<and> get_output tree_api r2 1 ''k'' = Inr (JString ''v'')"
proof -
  obtain r1 where r1: "set_output tree_api example_registry 1 ''k'' (JString ''v'') = (SALTS_OK, r1)"
    by (simp add: set_output_def registry_eval Let_def)
  then obtain r2 where r2: "registry_complete r1 1 = (SALTS_OK, r2)"
    by (auto simp: set_output_def registry_complete_def registry_eval Let_def)
  have "map_sum id (\<lambda>j. j) (get_output tree_api r2 1 ''k'') = Inr (JString ''v'')"
    using set_output_get_output [OF tree_api_laws example_registry_reach r1 r2, of "''k''"] by simp
  then have "get_output tree_api r2 1 ''k'' = Inr (JString ''v'')"
    by (cases "get_output tree_api r2 1 ''k''") simp_all
  then show ?thesis using r1 r2 by blast
qed

theorem merge_outputs_overrides_witness:
  "\<exists>r. merge_outputs tree_api example_registry 0 (JObject [(''x'', JNull)]) = (SALTS_OK, r) \<and>
     outputs_map (\<lambda>j. j) (slots r ! 0) = [''x'' \<mapsto> JNull]"
proof -
  obtain r where r: "merge_outputs tree_api example_registry 0 (JObject [(''x'', JNull)]) = (SALTS_OK, r)"
    by (simp add: merge_outputs_def registry_eval Let_def)
  show ?thesis
    using r merge_outputs_overrides [OF tree_api_laws example_registry_reach r]
    by (simp add: outputs_map_def example_registry_def fresh_slot_def)
qed

end
