(* ===== verification/Value_Store.thy ===== *)
theory Value_Store
  imports Praktor_Prelude
begin

text \<open>
  The bounded string store of \<open>actions/c11/value_store.c\<close>: a fixed array of entries with fixed
  maximal key and value sizes, allocated once. The lemmas show that the store refines a map of
  bounded domain: every call returns the status that the map and the bounds determine, an error
  changes nothing, and \<open>set_many\<close> publishes all its writes or none.

  A C string argument is the list of its bytes; reading past the list reads the terminator. A handle
  (\<open>store->impl\<close>) is an option, \<open>None\<close> for an uninitialized store.
\<close>

section \<open>Data\<close>

datatype value_status =
    VALUE_OK | VALUE_EINVAL | VALUE_ENOMEM | VALUE_ENOSPC | VALUE_ENOBUFS | VALUE_ENOTFOUND | VALUE_ECONFLICT

text \<open>\<open>value_size\<close> is the length of \<open>evalue\<close>; the zeroed buffers of a free entry are empty strings.\<close>

record value_entry =
  ekey :: string
  evalue :: string
  occupied :: bool

record value_store =
  capacity :: nat
  max_key_bytes :: nat
  max_value_bytes :: nat
  used :: nat
  store_entries :: "value_entry list"

datatype store_site = Site_store_impl | Site_store_entries | Site_key_storage | Site_value_storage

definition sizeof_value_entry :: nat where "sizeof_value_entry = 32"

definition free_entry :: value_entry where
  "free_entry = \<lparr>ekey = [], evalue = [], occupied = False\<rparr>"

section \<open>Operations\<close>

definition byte_at :: "string \<Rightarrow> nat \<Rightarrow> char" where
  "byte_at text i = (if i < length text then text ! i else CHR 0x00)"

text \<open>The loop of \<open>bounded_length\<close> from a given length.\<close>

function bounded_length_from :: "string \<Rightarrow> nat \<Rightarrow> nat \<Rightarrow> nat" where
  "bounded_length_from text max_bytes n =
     (if n \<le> max_bytes \<and> byte_at text n \<noteq> CHR 0x00 then bounded_length_from text max_bytes (Suc n) else n)"
  by pat_completeness auto
termination
  by (relation "measure (\<lambda>(text, max_bytes, n). Suc max_bytes - n)") auto

declare bounded_length_from.simps [simp del]

definition bounded_length :: "string \<Rightarrow> nat \<Rightarrow> nat" where
  "bounded_length text max_bytes = bounded_length_from text max_bytes 0"

definition find_entry :: "value_store \<Rightarrow> string \<Rightarrow> nat option" where
  "find_entry p key =
     List.find (\<lambda>i. occupied (store_entries p ! i) \<and> ekey (store_entries p ! i) = key) [0..<capacity p]"

definition value_store_init :: "store_site allocator \<Rightarrow> value_store option \<Rightarrow> nat \<Rightarrow> nat \<Rightarrow> nat \<Rightarrow>
    value_status \<times> value_store option" where
  "value_store_init mem h cap kmax vmax =
     (if h \<noteq> None \<or> cap = 0 \<or> kmax = 0 \<or> vmax = 0 \<or> kmax = size_max \<or> vmax = size_max \<or>
         cap > size_max div sizeof_value_entry \<or> cap > size_max div (kmax + 1) \<or> cap > size_max div (vmax + 1)
      then (VALUE_EINVAL, h)
      else if \<not> mem Site_store_impl then (VALUE_ENOMEM, h)
      else if \<not> mem Site_store_entries \<or> \<not> mem Site_key_storage \<or> \<not> mem Site_value_storage
      then (VALUE_ENOMEM, h)
      else (VALUE_OK, Some \<lparr>capacity = cap, max_key_bytes = kmax, max_value_bytes = vmax, used = 0,
              store_entries = replicate cap free_entry\<rparr>))"

definition copy_entry :: "value_entry \<Rightarrow> nat \<Rightarrow> value_store \<Rightarrow> value_store" where
  "copy_entry from i dst =
     (if \<not> occupied from then dst
      else dst\<lparr>store_entries := (store_entries dst)[i := \<lparr>ekey = ekey from, evalue = evalue from, occupied = True\<rparr>],
               used := Suc (used dst)\<rparr>)"

definition value_store_clone :: "store_site allocator \<Rightarrow> value_store option \<Rightarrow> value_store option \<Rightarrow>
    value_status \<times> value_store option" where
  "value_store_clone mem destination source =
     (case source of
        None \<Rightarrow> (VALUE_EINVAL, destination)
      | Some src \<Rightarrow>
          if destination \<noteq> None then (VALUE_EINVAL, destination)
          else case value_store_init mem destination (capacity src) (max_key_bytes src) (max_value_bytes src) of
            (VALUE_OK, Some dst) \<Rightarrow>
              (VALUE_OK, Some (fold (\<lambda>i. copy_entry (store_entries src ! i) i) [0..<capacity src] dst))
          | (_, h) \<Rightarrow> (VALUE_ENOMEM, h))"

text \<open>\<open>same\<close> says whether the two handles are the same object.\<close>

definition value_store_replace_clone :: "store_site allocator \<Rightarrow> bool \<Rightarrow> value_store option \<Rightarrow>
    value_store option \<Rightarrow> value_status \<times> value_store option" where
  "value_store_replace_clone mem same destination source =
     (case (destination, source) of
        (Some dst, Some src) \<Rightarrow>
          if same \<or> capacity dst \<noteq> capacity src \<or> max_key_bytes dst \<noteq> max_key_bytes src \<or>
             max_value_bytes dst \<noteq> max_value_bytes src
          then (VALUE_EINVAL, destination)
          else (case value_store_clone mem None source of
             (VALUE_OK, staging) \<Rightarrow> (VALUE_OK, staging)
           | (status, _) \<Rightarrow> (status, destination))
      | _ \<Rightarrow> (VALUE_EINVAL, destination))"

definition first_free :: "value_store \<Rightarrow> nat option" where
  "first_free p = List.find (\<lambda>i. \<not> occupied (store_entries p ! i)) [0..<capacity p]"

definition value_store_set :: "value_store option \<Rightarrow> string \<Rightarrow> string \<Rightarrow> value_status \<times> value_store option" where
  "value_store_set h key v =
     (case h of
        None \<Rightarrow> (VALUE_EINVAL, h)
      | Some p \<Rightarrow>
          let key_size = bounded_length key (max_key_bytes p);
              value_size = bounded_length v (max_value_bytes p)
          in if key_size = 0 then (VALUE_EINVAL, h)
             else if key_size > max_key_bytes p \<or> value_size > max_value_bytes p then (VALUE_ENOBUFS, h)
             else case find_entry p (take key_size key) of
               Some i \<Rightarrow> (VALUE_OK, Some (p\<lparr>store_entries :=
                   (store_entries p)[i := (store_entries p ! i)\<lparr>evalue := take value_size v\<rparr>]\<rparr>))
             | None \<Rightarrow>
                 (case first_free p of
                    None \<Rightarrow> (VALUE_ENOSPC, h)
                  | Some i \<Rightarrow> (VALUE_OK, Some (p\<lparr>store_entries :=
                      (store_entries p)[i := \<lparr>ekey = take key_size key, evalue = take value_size v,
                                              occupied = True\<rparr>],
                      used := Suc (used p)\<rparr>))))"

text \<open>
  The validation loop of \<open>set_many\<close>: \<open>Inl\<close> an early return, \<open>Inr\<close> the number of new slots needed. A
  write is a pair of the key and value pointers, which may be NULL.
\<close>

fun check_writes :: "value_store \<Rightarrow> (string option \<times> string option) list \<Rightarrow> string list \<Rightarrow> nat \<Rightarrow>
    value_status + nat" where
  "check_writes p [] seen needed = Inr needed"
| "check_writes p ((Some key, Some v) # ws) seen needed =
     (let key_size = bounded_length key (max_key_bytes p);
          value_size = bounded_length v (max_value_bytes p)
      in if key_size = 0 then Inl VALUE_EINVAL
         else if key_size > max_key_bytes p \<or> value_size > max_value_bytes p then Inl VALUE_ENOBUFS
         else if c_text key \<in> c_text ` set seen then Inl VALUE_EINVAL
         else check_writes p ws (seen @ [key])
                (if find_entry p (take key_size key) = None then Suc needed else needed))"
| "check_writes p (_ # ws) seen needed = Inl VALUE_EINVAL"

definition value_store_set_many :: "value_store option \<Rightarrow> (string option \<times> string option) list \<Rightarrow>
    value_status \<times> value_store option" where
  "value_store_set_many h writes =
     (case h of
        None \<Rightarrow> (VALUE_EINVAL, h)
      | Some p \<Rightarrow>
          if length writes > capacity p then (VALUE_ENOSPC, h)
          else case check_writes p writes [] 0 of
            Inl status \<Rightarrow> (status, h)
          | Inr needed \<Rightarrow>
              if needed > capacity p - used p then (VALUE_ENOSPC, h)
              else (VALUE_OK, fold (\<lambda>w h. snd (value_store_set h (the (fst w)) (the (snd w)))) writes h))"

text \<open>
  \<open>get\<close> returns the status, the value of \<open>*out_size\<close> if it is written, and the bytes copied if any; the
  output buffer is its capacity, \<open>None\<close> for a NULL buffer.
\<close>

definition value_store_get :: "value_store option \<Rightarrow> string \<Rightarrow> nat option \<Rightarrow>
    value_status \<times> nat option \<times> string option" where
  "value_store_get h key out =
     (case h of
        None \<Rightarrow> (VALUE_EINVAL, None, None)
      | Some p \<Rightarrow>
          let key_size = bounded_length key (max_key_bytes p)
          in if key_size = 0 \<or> key_size > max_key_bytes p then (VALUE_EINVAL, None, None)
             else case find_entry p (take key_size key) of
               None \<Rightarrow> (VALUE_ENOTFOUND, None, None)
             | Some i \<Rightarrow>
                 let v = evalue (store_entries p ! i)
                 in (case out of
                       None \<Rightarrow> (VALUE_ENOBUFS, Some (length v), None)
                     | Some out_capacity \<Rightarrow>
                         if out_capacity \<le> length v then (VALUE_ENOBUFS, Some (length v), None)
                         else (VALUE_OK, Some (length v), Some v)))"

definition value_store_contains :: "value_store option \<Rightarrow> string \<Rightarrow> value_status + bool" where
  "value_store_contains h key =
     (case h of
        None \<Rightarrow> Inl VALUE_EINVAL
      | Some p \<Rightarrow>
          let key_size = bounded_length key (max_key_bytes p)
          in if key_size = 0 \<or> key_size > max_key_bytes p then Inl VALUE_EINVAL
             else Inr (find_entry p (take key_size key) \<noteq> None))"

definition value_store_erase :: "value_store option \<Rightarrow> string \<Rightarrow> value_status \<times> value_store option" where
  "value_store_erase h key =
     (case h of
        None \<Rightarrow> (VALUE_EINVAL, h)
      | Some p \<Rightarrow>
          let key_size = bounded_length key (max_key_bytes p)
          in if key_size = 0 \<or> key_size > max_key_bytes p then (VALUE_EINVAL, h)
             else case find_entry p (take key_size key) of
               None \<Rightarrow> (VALUE_ENOTFOUND, h)
             | Some i \<Rightarrow> (VALUE_OK, Some (p\<lparr>store_entries := (store_entries p)[i := free_entry],
                            used := size_dec (used p)\<rparr>)))"

definition value_store_size :: "value_store option \<Rightarrow> nat" where
  "value_store_size h = (case h of None \<Rightarrow> 0 | Some p \<Rightarrow> used p)"

section \<open>C strings\<close>

lemma c_text_append: "CHR 0x00 \<notin> set xs \<Longrightarrow> c_text (xs @ ys) = xs @ c_text ys"
  by (auto simp: c_text_def intro!: takeWhile_append2)

lemma c_text_id [simp]: "CHR 0x00 \<notin> set xs \<Longrightarrow> c_text xs = xs"
  by (auto simp: c_text_def takeWhile_eq_all_conv)

lemma c_text_no_nul [simp]: "CHR 0x00 \<notin> set (c_text xs)"
  by (auto simp: c_text_def dest: set_takeWhileD)

lemma take_c_text [simp]: "take (length (c_text xs)) xs = c_text xs"
  by (simp add: c_text_def takeWhile_eq_take [symmetric])

lemma byte_at_nul: "byte_at s n = CHR 0x00 \<Longrightarrow> n \<le> length s \<Longrightarrow> c_text (drop n s) = []"
  by (cases "drop n s") (auto simp: byte_at_def c_text_def drop_eq_Nil2 nth_via_drop split: if_splits)

lemma byte_at_more: "byte_at s n \<noteq> CHR 0x00 \<Longrightarrow>
    c_text (drop n s) = s ! n # c_text (drop (Suc n) s) \<and> n < length s"
  by (auto simp: byte_at_def c_text_def Cons_nth_drop_Suc [symmetric] split: if_splits)

lemma bounded_length_from_spec:
  assumes "n \<le> Suc max_bytes" and "n \<le> length s"
  shows "bounded_length_from s max_bytes n = min (n + length (c_text (drop n s))) (Suc max_bytes)"
  using assms
proof (induction s max_bytes n rule: bounded_length_from.induct)
  case (1 s max_bytes n)
  show ?case
  proof (cases "n \<le> max_bytes \<and> byte_at s n \<noteq> CHR 0x00")
    case True
    then show ?thesis using 1 byte_at_more [of s n]
      by (subst bounded_length_from.simps) simp
  next
    case False
    then show ?thesis using 1(2,3) byte_at_nul [of s n]
      by (subst bounded_length_from.simps) auto
  qed
qed

lemma bounded_length_spec: "bounded_length s m = min (length (c_text s)) (Suc m)"
  using bounded_length_from_spec [of 0 m s] by (simp add: bounded_length_def)

lemma bounded_length_simps [simp]:
  "bounded_length s m = 0 \<longleftrightarrow> c_text s = []"
  "m < bounded_length s m \<longleftrightarrow> m < length (c_text s)"
  by (auto simp: bounded_length_spec min_def split: if_splits)

lemma bounded_take [simp]: "\<not> m < length (c_text s) \<Longrightarrow> take (bounded_length s m) s = c_text s"
  by (simp add: bounded_length_spec min_absorb1)

section \<open>The map that a store denotes\<close>

definition contents :: "value_store \<Rightarrow> string \<rightharpoonup> string" where
  "contents p k = map_option (\<lambda>i. evalue (store_entries p ! i)) (find_entry p k)"

definition init_ok :: "nat \<Rightarrow> nat \<Rightarrow> nat \<Rightarrow> bool" where
  "init_ok cap kmax vmax \<longleftrightarrow> cap \<noteq> 0 \<and> kmax \<noteq> 0 \<and> vmax \<noteq> 0 \<and> kmax \<noteq> size_max \<and> vmax \<noteq> size_max \<and>
     cap \<le> size_max div sizeof_value_entry \<and> cap \<le> size_max div (kmax + 1) \<and> cap \<le> size_max div (vmax + 1)"

definition entry_ok :: "value_store \<Rightarrow> value_entry \<Rightarrow> bool" where
  "entry_ok p e \<longleftrightarrow> ekey e \<noteq> [] \<and> length (ekey e) \<le> max_key_bytes p \<and> CHR 0x00 \<notin> set (ekey e) \<and>
     length (evalue e) \<le> max_value_bytes p \<and> CHR 0x00 \<notin> set (evalue e)"

definition store_inv :: "value_store \<Rightarrow> bool" where
  "store_inv p \<longleftrightarrow> init_ok (capacity p) (max_key_bytes p) (max_value_bytes p) \<and>
     length (store_entries p) = capacity p \<and> used p = count_if occupied (store_entries p) \<and>
     (\<forall>i<capacity p. occupied (store_entries p ! i) \<longrightarrow> entry_ok p (store_entries p ! i)) \<and>
     (\<forall>i<capacity p. \<forall>j<capacity p. occupied (store_entries p ! i) \<longrightarrow> occupied (store_entries p ! j) \<longrightarrow>
        ekey (store_entries p ! i) = ekey (store_entries p ! j) \<longrightarrow> i = j)"

lemma find_upt_None: "List.find P [0..<n] = None \<longleftrightarrow> (\<forall>i<n. \<not> P i)"
  by (auto simp: find_None_iff)

lemma find_upt_Some: "List.find P [0..<n] = Some i \<Longrightarrow> i < n \<and> P i"
  by (auto simp: find_Some_iff)

lemma find_entry_None:
  "find_entry p k = None \<longleftrightarrow> (\<forall>i<capacity p. occupied (store_entries p ! i) \<longrightarrow> ekey (store_entries p ! i) \<noteq> k)"
  by (auto simp: find_entry_def find_upt_None)

lemma find_entry_Some:
  assumes "store_inv p"
  shows "find_entry p k = Some i \<longleftrightarrow> i < capacity p \<and> occupied (store_entries p ! i) \<and> ekey (store_entries p ! i) = k"
proof
  assume i: "i < capacity p \<and> occupied (store_entries p ! i) \<and> ekey (store_entries p ! i) = k"
  then obtain j where j: "find_entry p k = Some j" using find_entry_None [of p k] by fastforce
  then have "j < capacity p \<and> occupied (store_entries p ! j) \<and> ekey (store_entries p ! j) = k"
    unfolding find_entry_def by (rule find_upt_Some)
  then have "j = i" using assms i by (simp add: store_inv_def)
  with j show "find_entry p k = Some i" by simp
qed (auto simp: find_entry_def dest: find_upt_Some)

lemma contents_None [simp]: "contents p k = None \<longleftrightarrow> find_entry p k = None"
  by (simp add: contents_def)

lemma contents_Some:
  assumes "store_inv p"
  shows "contents p k = Some v \<longleftrightarrow> (\<exists>i<capacity p. occupied (store_entries p ! i) \<and>
    ekey (store_entries p ! i) = k \<and> evalue (store_entries p ! i) = v)"
  using find_entry_Some [OF assms, of k] by (auto simp: contents_def)

lemma dom_contents: "store_inv p \<Longrightarrow>
    dom (contents p) = (\<lambda>i. ekey (store_entries p ! i)) ` {i. i < capacity p \<and> occupied (store_entries p ! i)}"
  by (auto simp: dom_def contents_def find_entry_Some image_iff)

lemma card_contents:
  assumes "store_inv p"
  shows "card (dom (contents p)) = used p"
proof -
  have "inj_on (\<lambda>i. ekey (store_entries p ! i)) {i. i < capacity p \<and> occupied (store_entries p ! i)}"
    using assms by (auto simp: inj_on_def store_inv_def)
  then show ?thesis using assms dom_contents [OF assms]
    by (simp add: card_image store_inv_def length_filter_conv_card)
qed

lemma used_le_capacity: "store_inv p \<Longrightarrow> used p \<le> capacity p"
  by (metis count_if_le store_inv_def)

lemma finite_contents [simp]: "store_inv p \<Longrightarrow> finite (dom (contents p))"
  by (simp add: dom_contents)

lemma contents_bounds:
  assumes "store_inv p" and "contents p k = Some v"
  shows "k \<noteq> []" "length k \<le> max_key_bytes p" "CHR 0x00 \<notin> set k" "length v \<le> max_value_bytes p" "CHR 0x00 \<notin> set v"
  using assms by (auto simp: contents_Some store_inv_def entry_ok_def)

lemma first_free_None: "store_inv p \<Longrightarrow> first_free p = None \<longleftrightarrow> used p = capacity p"
proof -
  assume inv: "store_inv p"
  then have "used p = capacity p \<longleftrightarrow> count_if occupied (store_entries p) = length (store_entries p)"
    by (simp add: store_inv_def)
  also have "\<dots> \<longleftrightarrow> (\<forall>i<capacity p. occupied (store_entries p ! i))"
    using inv unfolding count_if_all all_set_conv_all_nth by (simp add: store_inv_def)
  finally show ?thesis by (auto simp: first_free_def find_upt_None)
qed

lemma contentsI:
  assumes "store_inv p"
    and "\<And>k v. m k = Some v \<longleftrightarrow> (\<exists>i<capacity p. occupied (store_entries p ! i) \<and>
      ekey (store_entries p ! i) = k \<and> evalue (store_entries p ! i) = v)"
  shows "contents p = m"
proof
  fix k
  show "contents p k = m k"
    using contents_Some [OF assms(1), of k] assms(2) [of k] by (cases "contents p k"; cases "m k") auto
qed

lemma store_invD:
  assumes "store_inv p"
  shows "length (store_entries p) = capacity p" "used p = count_if occupied (store_entries p)"
    "\<And>i. i < capacity p \<Longrightarrow> occupied (store_entries p ! i) \<Longrightarrow> entry_ok p (store_entries p ! i)"
    "\<And>i j. i < capacity p \<Longrightarrow> j < capacity p \<Longrightarrow> occupied (store_entries p ! i) \<Longrightarrow>
       occupied (store_entries p ! j) \<Longrightarrow> ekey (store_entries p ! i) = ekey (store_entries p ! j) \<Longrightarrow> i = j"
  using assms by (simp_all add: store_inv_def)

text \<open>Every mutation of a store replaces one entry.\<close>

lemma replace_entry:
  assumes inv: "store_inv p" and i: "i < capacity p"
    and p': "p' = p\<lparr>store_entries := (store_entries p)[i := e], used := n\<rparr>"
    and n: "n = count_if occupied ((store_entries p)[i := e])"
    and ok: "occupied e \<Longrightarrow> entry_ok p e"
    and fresh: "\<And>j. occupied e \<Longrightarrow> j < capacity p \<Longrightarrow> j \<noteq> i \<Longrightarrow> occupied (store_entries p ! j) \<Longrightarrow>
      ekey (store_entries p ! j) \<noteq> ekey e"
  shows "store_inv p'" and "contents p' = (\<lambda>k. if occupied e \<and> k = ekey e then Some (evalue e)
      else if occupied (store_entries p ! i) \<and> k = ekey (store_entries p ! i) then None else contents p k)"
proof -
  note D = store_invD [OF inv]
  have row: "store_entries p' ! j = (if j = i then e else store_entries p ! j)"
    if "j < capacity p" for j using that D(1) by (simp add: p' nth_list_update_if)
  have same: "capacity p' = capacity p" "length (store_entries p') = capacity p"
    "init_ok (capacity p) (max_key_bytes p') (max_value_bytes p')"
    "used p' = count_if occupied (store_entries p')" "entry_ok p' = entry_ok p"
    using inv n by (simp_all add: p' store_inv_def entry_ok_def fun_eq_iff)
  have "entry_ok p (store_entries p' ! j)" if "j < capacity p" "occupied (store_entries p' ! j)" for j
    using that row ok D(3) by (auto split: if_splits)
  moreover have "j = l" if "j < capacity p" "l < capacity p" "occupied (store_entries p' ! j)"
    "occupied (store_entries p' ! l)" "ekey (store_entries p' ! j) = ekey (store_entries p' ! l)" for j l
  proof (rule ccontr)
    assume "j \<noteq> l"
    then consider "j = i" "l \<noteq> i" | "j \<noteq> i" "l = i" | "j \<noteq> i" "l \<noteq> i" by auto
    then show False
      using that row [OF that(1)] row [OF that(2)] fresh [of j] fresh [of l] D(4) [of j l] \<open>j \<noteq> l\<close>
      by cases auto
  qed
  ultimately show inv': "store_inv p'" unfolding store_inv_def using same by auto
  have old: "contents p k = Some v \<longleftrightarrow> (\<exists>j<capacity p. occupied (store_entries p ! j) \<and>
      ekey (store_entries p ! j) = k \<and> evalue (store_entries p ! j) = v)" for k v
    by (rule contents_Some [OF inv])
  show "contents p' = (\<lambda>k. if occupied e \<and> k = ekey e then Some (evalue e)
      else if occupied (store_entries p ! i) \<and> k = ekey (store_entries p ! i) then None else contents p k)"
  proof (rule contentsI [OF inv'], unfold same(1))
    fix k v
    have new: "(\<exists>j<capacity p. occupied (store_entries p' ! j) \<and> ekey (store_entries p' ! j) = k \<and>
        evalue (store_entries p' ! j) = v) \<longleftrightarrow> occupied e \<and> ekey e = k \<and> evalue e = v \<or>
      (\<exists>j<capacity p. j \<noteq> i \<and> occupied (store_entries p ! j) \<and> ekey (store_entries p ! j) = k \<and>
        evalue (store_entries p ! j) = v)"
    proof -
      have "(\<exists>j<capacity p. P (store_entries p' ! j)) \<longleftrightarrow>
          (\<exists>j<capacity p. P (if j = i then e else store_entries p ! j))" for P
        using row by (simp cong: conj_cong)
      from this [of "\<lambda>x. occupied x \<and> ekey x = k \<and> evalue x = v"] show ?thesis
        using i by (auto split: if_splits)
    qed
    show "((if occupied e \<and> k = ekey e then Some (evalue e)
      else if occupied (store_entries p ! i) \<and> k = ekey (store_entries p ! i) then None else contents p k) = Some v) \<longleftrightarrow>
      (\<exists>j<capacity p. occupied (store_entries p' ! j) \<and> ekey (store_entries p' ! j) = k \<and>
        evalue (store_entries p' ! j) = v)"
      unfolding new using old [of k v] fresh D(4) [of _ i] i by auto
  qed
qed

lemma overwrite_entry:
  assumes inv: "store_inv p" and i: "find_entry p k = Some i"
    and v: "length v \<le> max_value_bytes p" "CHR 0x00 \<notin> set v"
    and p': "p' = p\<lparr>store_entries := (store_entries p)[i := (store_entries p ! i)\<lparr>evalue := v\<rparr>]\<rparr>"
  shows "store_inv p'" and "contents p' = (contents p)(k \<mapsto> v)"
proof -
  note D = store_invD [OF inv]
  have i': "i < capacity p" "occupied (store_entries p ! i)" "ekey (store_entries p ! i) = k"
    using find_entry_Some [OF inv] i by auto
  let ?e = "(store_entries p ! i)\<lparr>evalue := v\<rparr>"
  have "p' = p\<lparr>store_entries := (store_entries p)[i := ?e], used := used p\<rparr>" by (simp add: p')
  moreover have "used p = count_if occupied ((store_entries p)[i := ?e])"
    using D(1,2) i' by (simp add: count_if_update_same)
  moreover have "entry_ok p ?e" using D(3) [OF i'(1,2)] v by (simp add: entry_ok_def)
  moreover have "ekey (store_entries p ! j) \<noteq> ekey ?e"
    if "j < capacity p" "j \<noteq> i" "occupied (store_entries p ! j)" for j
    using D(4) [OF that(1) i'(1) that(3) i'(2)] that(2) by auto
  ultimately have "store_inv p' \<and> contents p' = (\<lambda>l. if occupied ?e \<and> l = ekey ?e then Some (evalue ?e)
      else if occupied (store_entries p ! i) \<and> l = ekey (store_entries p ! i) then None else contents p l)"
    using replace_entry [OF inv i'(1), where e = ?e and n = "used p" and p' = p'] by blast
  then show "store_inv p'" "contents p' = (contents p)(k \<mapsto> v)" using i' by auto
qed

lemma insert_entry:
  assumes inv: "store_inv p" and new: "find_entry p k = None" and i: "i < capacity p" "\<not> occupied (store_entries p ! i)"
    and e: "entry_ok p \<lparr>ekey = k, evalue = v, occupied = True\<rparr>"
    and p': "p' = p\<lparr>store_entries := (store_entries p)[i := \<lparr>ekey = k, evalue = v, occupied = True\<rparr>], used := Suc (used p)\<rparr>"
  shows "store_inv p'" and "contents p' = (contents p)(k \<mapsto> v)"
proof -
  note D = store_invD [OF inv]
  have n: "Suc (used p) = count_if occupied ((store_entries p)[i := \<lparr>ekey = k, evalue = v, occupied = True\<rparr>])"
    using D(1,2) i by (simp add: count_if_update_flip)
  show "store_inv p'" "contents p' = (contents p)(k \<mapsto> v)"
    using replace_entry [OF inv i(1) p' n] e new i(2) by (auto simp: find_entry_None)
qed

lemma remove_entry:
  assumes inv: "store_inv p" and i: "find_entry p k = Some i"
    and p': "p' = p\<lparr>store_entries := (store_entries p)[i := free_entry], used := size_dec (used p)\<rparr>"
  shows "store_inv p'" and "contents p' = (contents p)(k := None)"
proof -
  note D = store_invD [OF inv]
  have i': "i < capacity p" "occupied (store_entries p ! i)" "ekey (store_entries p ! i) = k"
    using find_entry_Some [OF inv] i by auto
  have free: "\<not> occupied free_entry" by (simp add: free_entry_def)
  have "0 < used p" using i' D(1,2) count_if_pos [of i "store_entries p" occupied] by simp
  then have n: "size_dec (used p) = count_if occupied ((store_entries p)[i := free_entry])"
    using D(1,2) i' free by (simp add: count_if_update_flip)
  show "store_inv p'" "contents p' = (contents p)(k := None)"
    using replace_entry [OF inv i'(1) p' n] i' free by auto
qed

section \<open>Each call against the map\<close>

text \<open>Which strings a store of these bounds can hold as key and value.\<close>

definition key_ok :: "value_store \<Rightarrow> string \<Rightarrow> bool" where
  "key_ok p key \<longleftrightarrow> c_text key \<noteq> [] \<and> length (c_text key) \<le> max_key_bytes p"

definition write_ok :: "value_store \<Rightarrow> string \<Rightarrow> string \<Rightarrow> bool" where
  "write_ok p key v \<longleftrightarrow> key_ok p key \<and> length (c_text v) \<le> max_value_bytes p"

abbreviation same_bounds :: "value_store \<Rightarrow> value_store \<Rightarrow> bool" where
  "same_bounds p p' \<equiv> capacity p' = capacity p \<and> max_key_bytes p' = max_key_bytes p \<and>
     max_value_bytes p' = max_value_bytes p"

lemma set_spec:
  assumes inv: "store_inv p" and ok: "write_ok p key v"
    and room: "contents p (c_text key) \<noteq> None \<or> card (dom (contents p)) < capacity p"
  shows "\<exists>p'. value_store_set (Some p) key v = (VALUE_OK, Some p') \<and> store_inv p' \<and> same_bounds p p' \<and>
    contents p' = (contents p)(c_text key \<mapsto> c_text v)"
proof -
  have sizes: "bounded_length key (max_key_bytes p) \<noteq> 0" "\<not> max_key_bytes p < bounded_length key (max_key_bytes p)"
    "\<not> max_value_bytes p < bounded_length v (max_value_bytes p)"
    "take (bounded_length key (max_key_bytes p)) key = c_text key"
    "take (bounded_length v (max_value_bytes p)) v = c_text v"
    using ok by (auto simp: write_ok_def key_ok_def)
  show ?thesis
  proof (cases "find_entry p (c_text key)")
    case (Some i)
    define p' where "p' = p\<lparr>store_entries := (store_entries p)[i := (store_entries p ! i)\<lparr>evalue := c_text v\<rparr>]\<rparr>"
    have "value_store_set (Some p) key v = (VALUE_OK, Some p')"
      unfolding value_store_set_def using Some sizes by (simp add: p'_def Let_def del: bounded_length_simps)
    moreover have "same_bounds p p'" by (simp add: p'_def)
    ultimately show ?thesis
      using overwrite_entry [OF inv Some _ _ p'_def] ok by (auto simp: write_ok_def)
  next
    case None
    then have "used p < capacity p" using room card_contents [OF inv] by simp
    then obtain i where i: "first_free p = Some i" using first_free_None [OF inv] by fastforce
    then have free: "i < capacity p" "\<not> occupied (store_entries p ! i)"
      unfolding first_free_def by (auto dest: find_upt_Some)
    define p' where "p' = p\<lparr>store_entries := (store_entries p)[i := \<lparr>ekey = c_text key, evalue = c_text v,
      occupied = True\<rparr>], used := Suc (used p)\<rparr>"
    have "value_store_set (Some p) key v = (VALUE_OK, Some p')"
      unfolding value_store_set_def using None sizes i by (simp add: p'_def Let_def del: bounded_length_simps)
    moreover have "same_bounds p p'" by (simp add: p'_def)
    moreover have "entry_ok p \<lparr>ekey = c_text key, evalue = c_text v, occupied = True\<rparr>"
      using ok by (auto simp: entry_ok_def write_ok_def key_ok_def)
    ultimately show ?thesis
      using insert_entry [OF inv None free _ p'_def] by blast
  qed
qed

lemma set_errors:
  assumes "store_inv p"
  shows "c_text key = [] \<Longrightarrow> value_store_set (Some p) key v = (VALUE_EINVAL, Some p)"
    and "c_text key \<noteq> [] \<Longrightarrow> \<not> write_ok p key v \<Longrightarrow> value_store_set (Some p) key v = (VALUE_ENOBUFS, Some p)"
    and "write_ok p key v \<Longrightarrow> contents p (c_text key) = None \<Longrightarrow> card (dom (contents p)) = capacity p \<Longrightarrow>
      value_store_set (Some p) key v = (VALUE_ENOSPC, Some p)"
  using first_free_None [OF assms] card_contents [OF assms]
  by (auto simp: value_store_set_def Let_def write_ok_def key_ok_def)

lemma erase_spec:
  assumes inv: "store_inv p" and ok: "key_ok p key" and present: "contents p (c_text key) \<noteq> None"
  shows "\<exists>p'. value_store_erase (Some p) key = (VALUE_OK, Some p') \<and> store_inv p' \<and> same_bounds p p' \<and>
    contents p' = (contents p)(c_text key := None)"
proof -
  from present obtain i where i: "find_entry p (c_text key) = Some i" by auto
  define p' where "p' = p\<lparr>store_entries := (store_entries p)[i := free_entry], used := size_dec (used p)\<rparr>"
  have "value_store_erase (Some p) key = (VALUE_OK, Some p')"
    using i ok by (simp add: value_store_erase_def Let_def key_ok_def p'_def)
  moreover have "same_bounds p p'" by (simp add: p'_def)
  ultimately show ?thesis using remove_entry [OF inv i p'_def] by blast
qed

lemma erase_errors:
  assumes "store_inv p"
  shows "\<not> key_ok p key \<Longrightarrow> value_store_erase (Some p) key = (VALUE_EINVAL, Some p)"
    and "key_ok p key \<Longrightarrow> contents p (c_text key) = None \<Longrightarrow>
      value_store_erase (Some p) key = (VALUE_ENOTFOUND, Some p)"
  by (auto simp: value_store_erase_def Let_def key_ok_def)

lemma contains_spec:
  "value_store_contains (Some p) key =
     (if key_ok p key then Inr (contents p (c_text key) \<noteq> None) else Inl VALUE_EINVAL)"
  by (auto simp: value_store_contains_def Let_def key_ok_def)

lemma init_spec:
  assumes "init_ok cap kmax vmax"
  shows "\<exists>p. value_store_init no_oom None cap kmax vmax = (VALUE_OK, Some p) \<and> store_inv p \<and>
    capacity p = cap \<and> max_key_bytes p = kmax \<and> max_value_bytes p = vmax \<and> contents p = Map.empty"
proof -
  define p where "p = \<lparr>capacity = cap, max_key_bytes = kmax, max_value_bytes = vmax, used = 0,
              store_entries = replicate cap free_entry\<rparr>"
  have "value_store_init no_oom None cap kmax vmax = (VALUE_OK, Some p)"
    using assms unfolding value_store_init_def init_ok_def p_def by auto
  moreover have "store_inv p" using assms by (auto simp: store_inv_def p_def free_entry_def)
  moreover have "find_entry p k = None" for k by (simp add: find_entry_None p_def free_entry_def)
  then have "contents p = Map.empty" by (simp add: fun_eq_iff)
  ultimately show ?thesis by (auto simp: p_def)
qed

section \<open>Cloning\<close>

lemma fold_copy_entry:
  assumes "n \<le> length es" and "length (store_entries dst) = length es" "store_entries dst = replicate (length es) free_entry" "used dst = 0"
  defines "dst' \<equiv> fold (\<lambda>i. copy_entry (es ! i) i) [0..<n] dst"
  shows "same_bounds dst dst' \<and> length (store_entries dst') = length es \<and> used dst' = count_if occupied (take n es) \<and>
    (\<forall>i<length es. store_entries dst' ! i = (if i < n \<and> occupied (es ! i) then es ! i else free_entry))"
  using assms(1) unfolding dst'_def
proof (induction n)
  case 0
  then show ?case using assms by simp
next
  case (Suc n)
  define d where "d = fold (\<lambda>i. copy_entry (es ! i) i) [0..<n] dst"
  have IH: "same_bounds dst d" "length (store_entries d) = length es" "used d = count_if occupied (take n es)"
    "\<forall>i<length es. store_entries d ! i = (if i < n \<and> occupied (es ! i) then es ! i else free_entry)"
    using Suc by (auto simp: d_def)
  have step: "fold (\<lambda>i. copy_entry (es ! i) i) [0..<Suc n] dst = copy_entry (es ! n) n d"
    by (simp add: d_def)
  have tk: "take (Suc n) es = take n es @ [es ! n]" using Suc.prems by (simp add: take_Suc_conv_app_nth)
  have eq: "occupied (es ! n) \<Longrightarrow> \<lparr>ekey = ekey (es ! n), evalue = evalue (es ! n), occupied = True\<rparr> = es ! n"
    by (cases "es ! n") simp
  show ?case unfolding step using IH Suc.prems eq
    by (auto simp: copy_entry_def tk nth_list_update_if less_Suc_eq)
qed

lemma clone_spec:
  assumes inv: "store_inv p" and ok: "value_store_clone mem None (Some p) = (VALUE_OK, h)"
  shows "\<exists>p'. h = Some p' \<and> store_inv p' \<and> same_bounds p p' \<and> contents p' = contents p"
proof -
  let ?es = "store_entries p"
  let ?d = "\<lparr>capacity = capacity p, max_key_bytes = max_key_bytes p, max_value_bytes = max_value_bytes p, used = 0,
              store_entries = replicate (capacity p) free_entry\<rparr>"
  define q where "q = fold (\<lambda>i. copy_entry (?es ! i) i) [0..<length ?es] ?d"
  note D = store_invD [OF inv]
  have h: "h = Some q" using ok D(1)
    by (auto simp: value_store_clone_def value_store_init_def q_def split: if_splits)
  have q: "same_bounds p q" "length (store_entries q) = capacity p" "used q = used p"
    "\<And>i. i < capacity p \<Longrightarrow> store_entries q ! i = (if occupied (?es ! i) then ?es ! i else free_entry)"
    using fold_copy_entry [of "length ?es" ?es ?d] D(1,2) unfolding q_def by auto
  have occ: "i < capacity p \<Longrightarrow> occupied (store_entries q ! i) = occupied (?es ! i)" for i
    using q(4) by (auto simp: free_entry_def)
  have "count_if occupied (store_entries q) = count_if occupied ?es"
    unfolding length_filter_conv_card using occ q(2) D(1) by (metis (no_types, lifting))
  then have inv': "store_inv q"
    using inv q D(2-4) occ unfolding store_inv_def by (auto simp: entry_ok_def)
  have "contents q = contents p"
  proof (rule contentsI [OF inv'])
    show "contents p k = Some v \<longleftrightarrow> (\<exists>i<capacity q. occupied (store_entries q ! i) \<and>
        ekey (store_entries q ! i) = k \<and> evalue (store_entries q ! i) = v)" for k v
      using q(1,4) occ contents_Some [OF inv, of k v] by (simp cong: conj_cong) 
  qed
  with h inv' q(1) show ?thesis by blast
qed

lemma clone_status:
  assumes "store_inv p"
  shows "fst (value_store_clone mem None (Some p)) = VALUE_OK \<or>
      value_store_clone mem None (Some p) = (VALUE_ENOMEM, None)"
    and "fst (value_store_clone no_oom None (Some p)) = VALUE_OK"
  using assms by (auto simp: value_store_clone_def value_store_init_def store_inv_def init_ok_def)

section \<open>The interface of a bounded map\<close>

text \<open>
  What \<open>set_many\<close> and the transactions need of a store: \<open>put\<close> binds one key while there is room, and
  refuses without an effect when there is none.
\<close>

fun put_all :: "('s \<Rightarrow> string \<Rightarrow> string \<Rightarrow> value_status \<times> 's) \<Rightarrow> 's \<Rightarrow> (string \<times> string) list \<Rightarrow>
    value_status \<times> 's" where
  "put_all put s [] = (VALUE_OK, s)"
| "put_all put s ((k, v) # ws) =
     (case put s k v of (VALUE_OK, s') \<Rightarrow> put_all put s' ws | (e, s') \<Rightarrow> (e, s'))"

definition text_pairs :: "(string \<times> string) list \<Rightarrow> (string \<times> string) list" where
  "text_pairs ws = map (\<lambda>(k, v). (c_text k, c_text v)) ws"

lemma text_pairs_simps [simp]:
  "text_pairs [] = []" "text_pairs ((k, v) # ws) = (c_text k, c_text v) # text_pairs ws"
  by (simp_all add: text_pairs_def)

locale bounded_map =
  fixes inv :: "'s \<Rightarrow> bool"
    and content :: "'s \<Rightarrow> string \<rightharpoonup> string"
    and cap :: "'s \<Rightarrow> nat"
    and ok :: "'s \<Rightarrow> string \<Rightarrow> string \<Rightarrow> bool"
    and put :: "'s \<Rightarrow> string \<Rightarrow> string \<Rightarrow> value_status \<times> 's"
  assumes finite_content: "inv s \<Longrightarrow> finite (dom (content s))"
    and content_bound: "inv s \<Longrightarrow> card (dom (content s)) \<le> cap s"
    and put_ok: "inv s \<Longrightarrow> ok s k v \<Longrightarrow>
      content s (c_text k) \<noteq> None \<or> card (dom (content s)) < cap s \<Longrightarrow>
      \<exists>s'. put s k v = (VALUE_OK, s') \<and> inv s' \<and> cap s' = cap s \<and> ok s' = ok s \<and>
        content s' = (content s)(c_text k \<mapsto> c_text v)"
    and put_full: "inv s \<Longrightarrow> ok s k v \<Longrightarrow> content s (c_text k) = None \<Longrightarrow>
      card (dom (content s)) = cap s \<Longrightarrow> put s k v = (VALUE_ENOSPC, s)"
begin


lemma put_all_ok:
  assumes "inv s" and "\<forall>(k, v)\<in>set ws. ok s k v"
    and "card (dom (content s ++ map_of (rev (text_pairs ws)))) \<le> cap s"
  shows "\<exists>s'. put_all put s ws = (VALUE_OK, s') \<and> inv s' \<and> cap s' = cap s \<and> ok s' = ok s \<and>
    content s' = content s ++ map_of (rev (text_pairs ws))"
  using assms
proof (induction ws arbitrary: s)
  case (Cons w ws)
  obtain k v where w: "w = (k, v)" by force
  let ?m = "(content s)(c_text k \<mapsto> c_text v)"
  have step: "content s ++ map_of (rev (text_pairs (w # ws))) = ?m ++ map_of (rev (text_pairs ws))"
    by (simp add: w map_add_assoc)
  have "card (dom ?m) \<le> card (dom (?m ++ map_of (rev (text_pairs ws))))"
    using finite_content [OF Cons.prems(1)] by (intro card_mono) (auto simp: finite_dom_map_of)
  then have le: "card (dom ?m) \<le> cap s" using Cons.prems(3) step by simp
  have "content s (c_text k) \<noteq> None \<or> card (dom (content s)) < cap s"
  proof (cases "content s (c_text k)")
    case None
    then show ?thesis using le finite_content [OF Cons.prems(1)] by (simp add: card_insert_if domIff)
  qed simp
  with put_ok [OF Cons.prems(1), of k v] Cons.prems(2) w obtain s1 where
    s1: "put s k v = (VALUE_OK, s1)" "inv s1" "cap s1 = cap s" "ok s1 = ok s" "content s1 = ?m" by auto
  have card: "card (dom (content s1 ++ map_of (rev (text_pairs ws)))) \<le> cap s1"
    using Cons.prems(3) unfolding step s1(3,5) .
  have oks: "\<forall>(k, v)\<in>set ws. ok s1 k v" using Cons.prems(2) s1(4) by simp
  from Cons.IH [OF s1(2) oks card] show ?case
    unfolding step unfolding w put_all.simps s1(1) prod.case value_status.case s1(3,4,5) .
qed simp

lemma put_all_full:
  assumes "inv s" and "\<forall>(k, v)\<in>set ws. ok s k v"
    and "card (dom (content s ++ map_of (rev (text_pairs ws)))) > cap s"
  shows "\<exists>s'. put_all put s ws = (VALUE_ENOSPC, s')"
  using assms
proof (induction ws arbitrary: s)
  case Nil
  then show ?case using content_bound [of s] by simp
next
  case (Cons w ws)
  obtain k v where w: "w = (k, v)" by force
  have ok: "ok s k v" using Cons.prems(2) w by simp
  show ?case
  proof (cases "content s (c_text k) \<noteq> None \<or> card (dom (content s)) < cap s")
    case True
    with put_ok [OF Cons.prems(1) ok] obtain s1 where
      s1: "put s k v = (VALUE_OK, s1)" "inv s1" "cap s1 = cap s" "ok s1 = ok s"
        "content s1 = (content s)(c_text k \<mapsto> c_text v)" by blast
    have step: "content s ++ map_of (rev (text_pairs (w # ws))) = content s1 ++ map_of (rev (text_pairs ws))"
      by (simp add: w map_add_assoc s1(5))
    have card: "cap s1 < card (dom (content s1 ++ map_of (rev (text_pairs ws))))"
      using Cons.prems(3) unfolding step s1(3) .
    have oks: "\<forall>(k, v)\<in>set ws. ok s1 k v" using Cons.prems(2) s1(4) by simp
    from Cons.IH [OF s1(2) oks card] show ?thesis by (simp add: w s1(1))
  next
    case False
    then have "put s k v = (VALUE_ENOSPC, s)"
      using put_full [OF Cons.prems(1) ok] content_bound [OF Cons.prems(1)] by simp
    then show ?thesis by (simp add: w)
  qed
qed

end

abbreviation handle_inv :: "value_store option \<Rightarrow> bool" where
  "handle_inv h \<equiv> h \<noteq> None \<and> store_inv (the h)"

interpretation store: bounded_map handle_inv "\<lambda>h. contents (the h)" "\<lambda>h. capacity (the h)"
  "\<lambda>h. write_ok (the h)" value_store_set
proof
  fix h k v
  assume inv: "handle_inv h"
  then obtain p where p: "h = Some p" "store_inv p" by auto
  show "finite (dom (contents (the h)))" using p by simp
  show "card (dom (contents (the h))) \<le> capacity (the h)" using p card_contents used_le_capacity by simp
  assume ok: "write_ok (the h) k v"
  show "\<exists>s'. value_store_set h k v = (VALUE_OK, s') \<and> handle_inv s' \<and> capacity (the s') = capacity (the h) \<and>
      write_ok (the s') = write_ok (the h) \<and> contents (the s') = (contents (the h))(c_text k \<mapsto> c_text v)"
    if room: "contents (the h) (c_text k) \<noteq> None \<or> card (dom (contents (the h))) < capacity (the h)"
  proof -
    obtain p' where "value_store_set h k v = (VALUE_OK, Some p')" "store_inv p'" "same_bounds p p'"
      "contents p' = (contents p)(c_text k \<mapsto> c_text v)"
      using set_spec [OF p(2) ok [unfolded p(1) option.sel] room [unfolded p(1) option.sel]] p(1) by blast
    moreover from this have "write_ok p' = write_ok p" by (simp add: write_ok_def key_ok_def fun_eq_iff)
    ultimately show ?thesis using p(1) by auto
  qed
  show "value_store_set h k v = (VALUE_ENOSPC, h)"
    if "contents (the h) (c_text k) = None" "card (dom (contents (the h))) = capacity (the h)"
    using set_errors(3) [OF p(2), of k v] ok that p(1) by simp
qed

section \<open>All-or-nothing publication\<close>

lemma fold_set_put_all:
  "put_all value_store_set h ws = (VALUE_OK, h') \<Longrightarrow>
   fold (\<lambda>w h. snd (value_store_set h (the (fst w)) (the (snd w)))) (map (map_prod Some Some) ws) h = h'"
  by (induction value_store_set h ws rule: put_all.induct) (auto split: prod.splits value_status.splits)

text \<open>The validation succeeds exactly on well-formed writes of distinct keys, and counts the new keys.\<close>

definition writes_ok :: "value_store \<Rightarrow> (string \<times> string) list \<Rightarrow> bool" where
  "writes_ok p ws \<longleftrightarrow> (\<forall>(k, v)\<in>set ws. write_ok p k v) \<and> distinct (map fst (text_pairs ws))"

lemma check_writes_ok:
  assumes "\<forall>(k, v)\<in>set ws. write_ok p k v" and "distinct (map c_text seen @ map fst (text_pairs ws))"
  shows "check_writes p (map (map_prod Some Some) ws) seen n =
    Inr (n + count_if (\<lambda>(k, v). contents p k = None) (text_pairs ws))"
  using assms
proof (induction ws arbitrary: seen n)
  case (Cons w ws)
  obtain k v where w: "w = (k, v)" by force
  have k: "c_text k \<noteq> []" "\<not> max_key_bytes p < length (c_text k)" "\<not> max_value_bytes p < length (c_text v)"
    using Cons.prems(1) by (auto simp: w write_ok_def key_ok_def)
  have new: "c_text k \<notin> c_text ` set seen" using Cons.prems(2) by (auto simp: w)
  have d: "distinct (map c_text (seen @ [k]) @ map fst (text_pairs ws))" using Cons.prems(2) by (simp add: w)
  have ws: "\<forall>(k, v)\<in>set ws. write_ok p k v" using Cons.prems(1) by simp
  show ?case using k new Cons.IH [OF ws d] by (simp add: w Let_def)
qed simp

lemma check_writes_bad:
  assumes "check_writes p writes seen n = Inr m" and "distinct (map c_text seen)"
  shows "\<exists>ws. writes = map (map_prod Some Some) ws \<and> (\<forall>(k, v)\<in>set ws. write_ok p k v) \<and>
    distinct (map c_text seen @ map fst (text_pairs ws))"
  using assms
proof (induction p writes seen n rule: check_writes.induct)
  case (2 p key v ws seen needed)
  then have k: "c_text key \<noteq> []" "\<not> max_key_bytes p < length (c_text key)"
    "\<not> max_value_bytes p < length (c_text v)" "c_text key \<notin> c_text ` set seen"
    by (auto simp: Let_def split: if_splits)
  then obtain ws' where ws': "ws = map (map_prod Some Some) ws'" "\<forall>(k, v)\<in>set ws'. write_ok p k v"
    "distinct (map c_text (seen @ [key]) @ map fst (text_pairs ws'))"
    using 2 by (fastforce simp: Let_def)
  then show ?case using k by (intro exI [of _ "(key, v) # ws'"]) (auto simp: write_ok_def key_ok_def)
qed (auto intro: exI [of _ "[]"])

lemma card_dom_map_add:
  assumes "finite (dom m)" and "distinct (map fst ws)"
  shows "card (dom (m ++ map_of ws)) = card (dom m) + count_if (\<lambda>(k, v). m k = None) ws"
proof -
  have new: "fst ` set (filter (\<lambda>(k, v). m k = None) ws) = fst ` set ws - dom m" by force
  have "distinct (map fst (filter (\<lambda>(k, v). m k = None) ws))" using assms(2) by (rule distinct_map_filter)
  then have "count_if (\<lambda>(k, v). m k = None) ws = card (fst ` set ws - dom m)"
    using new distinct_card by (metis length_map set_map)
  moreover have "dom (m ++ map_of ws) = dom m \<union> (fst ` set ws - dom m)" by (auto simp: dom_map_of_conv_image_fst)
  moreover have "card (dom m \<union> (fst ` set ws - dom m)) = card (dom m) + card (fst ` set ws - dom m)"
    using assms(1) by (intro card_Un_disjoint) auto
  ultimately show ?thesis by (simp only:)
qed

lemma map_of_rev_distinct: "distinct (map fst ws) \<Longrightarrow> map_of (rev ws) = map_of ws"
  by (simp add: map_of_inject_set rev_map [symmetric])

lemma set_many_ok:
  assumes inv: "store_inv p" and ok: "writes_ok p ws"
  shows "value_store_set_many (Some p) (map (map_prod Some Some) ws) =
    (if card (dom (contents p ++ map_of (text_pairs ws))) \<le> capacity p
     then (VALUE_OK, snd (put_all value_store_set (Some p) ws)) else (VALUE_ENOSPC, Some p))"
proof -
  have d: "distinct (map fst (text_pairs ws))" and w: "\<forall>(k, v)\<in>set ws. write_ok p k v"
    using ok by (auto simp: writes_ok_def)
  let ?n = "count_if (\<lambda>(k, v). contents p k = None) (text_pairs ws)"
  have card: "card (dom (contents p ++ map_of (text_pairs ws))) = used p + ?n"
    using card_dom_map_add [OF finite_contents [OF inv] d] card_contents [OF inv] by simp
  have len: "length ws \<le> card (dom (contents p ++ map_of (text_pairs ws)))"
  proof -
    have "length ws = card (dom (map_of (text_pairs ws)))"
      using distinct_card [OF d] by (simp add: dom_map_of_conv_image_fst text_pairs_def image_image)
    also have "\<dots> \<le> card (dom (contents p ++ map_of (text_pairs ws)))"
      using finite_contents [OF inv] by (intro card_mono) (auto simp: finite_dom_map_of)
    finally show ?thesis .
  qed
  have check: "check_writes p (map (map_prod Some Some) ws) [] 0 = Inr ?n"
    using check_writes_ok [OF w, of "[]" 0] d by simp
  show ?thesis
  proof (cases "card (dom (contents p ++ map_of (text_pairs ws))) \<le> capacity p")
    case True
    obtain h where h: "put_all value_store_set (Some p) ws = (VALUE_OK, h)"
      using store.put_all_ok [of "Some p" ws] inv w True map_of_rev_distinct [OF d] by auto
    then show ?thesis using True len card check fold_set_put_all [OF h]
      by (simp add: value_store_set_many_def)
  next
    case False
    then have "capacity p - used p < ?n" using card used_le_capacity [OF inv] by linarith
    with False check show ?thesis by (simp add: value_store_set_many_def)
  qed
qed

lemma set_many_bad:
  assumes "\<nexists>ws. writes = map (map_prod Some Some) ws \<and> writes_ok p ws"
  shows "\<exists>st. st \<noteq> VALUE_OK \<and> value_store_set_many (Some p) writes = (st, Some p)"
proof (cases "check_writes p writes [] 0")
  case (Inr n)
  then show ?thesis using check_writes_bad [OF Inr] assms by (auto simp: writes_ok_def)
next
  case (Inl st)
  moreover have "st \<noteq> VALUE_OK" if "check_writes p writes seen n = Inl st" for seen n
    using that by (induction p writes seen n rule: check_writes.induct) (auto simp: Let_def split: if_splits)
  ultimately show ?thesis by (auto simp: value_store_set_many_def)
qed

section \<open>Properties\<close>

text \<open>
  C13. Setting a key of a consistent store behaves as an update of a map of bounded size, on every
  branch: an empty key is invalid, an oversized key or value is refused, a new key needs a free slot,
  and otherwise the key is bound to the value and nothing else changes; every refusal leaves the
  store as it was.
\<close>

theorem value_store_set_correct:
  assumes "store_inv p"
  shows "if c_text key = [] then value_store_set (Some p) key v = (VALUE_EINVAL, Some p)
    else if length (c_text key) > max_key_bytes p \<or> length (c_text v) > max_value_bytes p
    then value_store_set (Some p) key v = (VALUE_ENOBUFS, Some p)
    else if contents p (c_text key) = None \<and> card (dom (contents p)) = capacity p
    then value_store_set (Some p) key v = (VALUE_ENOSPC, Some p)
    else \<exists>p'. value_store_set (Some p) key v = (VALUE_OK, Some p') \<and> store_inv p' \<and>
      contents p' = (contents p)(c_text key \<mapsto> c_text v) \<and> value_store_size (Some p') = card (dom (contents p'))"
proof (cases "write_ok p key v")
  case False
  then show ?thesis using set_errors(1,2) [OF assms, of key v] by (auto simp: write_ok_def key_ok_def)
next
  case True
  show ?thesis
  proof (cases "contents p (c_text key) = None \<and> card (dom (contents p)) = capacity p")
    case full: True
    then show ?thesis using set_errors(3) [OF assms True] True by (simp add: write_ok_def key_ok_def)
  next
    case False
    then have "contents p (c_text key) \<noteq> None \<or> card (dom (contents p)) < capacity p"
      using card_contents [OF assms] used_le_capacity [OF assms] by auto
    from set_spec [OF assms True this] obtain p' where p': "value_store_set (Some p) key v = (VALUE_OK, Some p')"
      "store_inv p'" "contents p' = (contents p)(c_text key \<mapsto> c_text v)" by blast
    moreover have "value_store_size (Some p') = card (dom (contents p'))"
      using card_contents [OF p'(2)] by (simp add: value_store_size_def)
    ultimately show ?thesis using True False unfolding write_ok_def key_ok_def by (auto simp del: contents_None)
  qed
qed

text \<open>
  \<open>set_many\<close> is all or nothing: when every write is well formed, the keys are distinct and the
  resulting map fits the capacity, all writes are published; in every other case, including a NULL
  pointer in any row, the call returns an error and the store is unchanged.
\<close>

theorem value_store_set_many_atomic:
  assumes "store_inv p"
  shows "if \<exists>ws. writes = map (map_prod Some Some) ws \<and> writes_ok p ws \<and>
        card (dom (contents p ++ map_of (text_pairs ws))) \<le> capacity p
    then \<exists>ws p'. writes = map (map_prod Some Some) ws \<and>
      value_store_set_many (Some p) writes = (VALUE_OK, Some p') \<and> store_inv p' \<and>
      contents p' = contents p ++ map_of (text_pairs ws)
    else \<exists>st. st \<noteq> VALUE_OK \<and> value_store_set_many (Some p) writes = (st, Some p)"
proof (cases "\<exists>ws. writes = map (map_prod Some Some) ws \<and> writes_ok p ws")
  case False
  then show ?thesis using set_many_bad [OF False] by (simp only: if_False) auto
next
  case True
  then obtain ws where ws: "writes = map (map_prod Some Some) ws" "writes_ok p ws" by blast
  have inj: "ws' = ws" if "writes = map (map_prod Some Some) ws'" for ws'
    using that ws(1) by (metis inj_Some inj_map_eq_map prod.inj_map)
  have "distinct (map fst (text_pairs ws))" and w: "\<forall>(k, v)\<in>set ws. write_ok p k v"
    using ws(2) by (auto simp: writes_ok_def)
  note d = map_of_rev_distinct [OF this(1)]
  show ?thesis
  proof (cases "card (dom (contents p ++ map_of (text_pairs ws))) \<le> capacity p")
    case fits: True
    obtain p' where "put_all value_store_set (Some p) ws = (VALUE_OK, Some p')" "store_inv p'"
      "contents p' = contents p ++ map_of (text_pairs ws)"
      using store.put_all_ok [of "Some p" ws] assms w fits d by auto
    then show ?thesis using fits ws set_many_ok [OF assms ws(2)] by auto
  next
    case full: False
    then have "value_store_set_many (Some p) writes = (VALUE_ENOSPC, Some p)"
      using set_many_ok [OF assms ws(2)] ws(1) by simp
    moreover have "\<nexists>ws'. writes = map (map_prod Some Some) ws' \<and> writes_ok p ws' \<and>
        card (dom (contents p ++ map_of (text_pairs ws'))) \<le> capacity p"
      using inj full by blast
    ultimately show ?thesis by (simp only: if_False) auto
  qed
qed

text \<open>
  Reading and erasing a key: \<open>get\<close> reports the size of a present value, copies it exactly when the
  buffer also has room for the terminator, and never reads an absent or invalid key; \<open>erase\<close> removes
  exactly the key, and refuses an absent or invalid one without an effect.
\<close>

theorem value_store_get_erase_correct:
  assumes "store_inv p"
  shows "(\<not> key_ok p key \<longrightarrow> value_store_get (Some p) key out = (VALUE_EINVAL, None, None) \<and>
       value_store_erase (Some p) key = (VALUE_EINVAL, Some p)) \<and>
    (key_ok p key \<longrightarrow> (case contents p (c_text key) of
       None \<Rightarrow> value_store_get (Some p) key out = (VALUE_ENOTFOUND, None, None) \<and>
         value_store_erase (Some p) key = (VALUE_ENOTFOUND, Some p)
     | Some v \<Rightarrow>
         value_store_get (Some p) key out = (case out of
            None \<Rightarrow> (VALUE_ENOBUFS, Some (length v), None)
          | Some n \<Rightarrow> if length v < n then (VALUE_OK, Some (length v), Some v)
                      else (VALUE_ENOBUFS, Some (length v), None)) \<and>
         (\<exists>p'. value_store_erase (Some p) key = (VALUE_OK, Some p') \<and> store_inv p' \<and>
            contents p' = (contents p)(c_text key := None))))"
proof (cases "key_ok p key")
  case False
  then show ?thesis using erase_errors(1) [OF assms False]
    by (auto simp: value_store_get_def Let_def key_ok_def)
next
  case True
  show ?thesis
  proof (cases "find_entry p (c_text key)")
    case None
    then show ?thesis using True erase_errors(2) [OF assms True]
      by (auto simp: value_store_get_def Let_def key_ok_def contents_def)
  next
    case (Some i)
    then have "\<exists>p'. value_store_erase (Some p) key = (VALUE_OK, Some p') \<and> store_inv p' \<and>
        contents p' = (contents p)(c_text key := None)"
      using erase_spec [OF assms True] by auto
    moreover have "contents p (c_text key) = Some (evalue (store_entries p ! i))"
      using Some by (simp add: contents_def)
    ultimately show ?thesis using True Some
      by (auto simp: value_store_get_def Let_def key_ok_def split: option.splits)
  qed
qed

text \<open>
  A clone with memory available is a consistent store of the same bounds and the same contents;
  replacing a store by a clone of another one needs distinct stores of equal bounds, and either
  installs the contents of the source or leaves the destination alone.
\<close>

theorem value_store_clone_correct:
  assumes "store_inv p" and "store_inv q"
  shows "(\<exists>p'. value_store_clone no_oom None (Some p) = (VALUE_OK, Some p') \<and> store_inv p' \<and>
      same_bounds p p' \<and> contents p' = contents p) \<and>
    (case value_store_replace_clone mem same (Some q) (Some p) of
       (VALUE_OK, h) \<Rightarrow> \<not> same \<and> same_bounds q p \<and> (\<exists>q'. h = Some q' \<and> store_inv q' \<and> contents q' = contents p)
     | (st, h) \<Rightarrow> h = Some q)"
proof -
  obtain h where h: "value_store_clone no_oom None (Some p) = (VALUE_OK, h)"
    using clone_status(2) [OF assms(1)] by (cases "value_store_clone no_oom None (Some p)") auto
  from clone_spec [OF assms(1) h] h have c: "\<exists>p'. value_store_clone no_oom None (Some p) = (VALUE_OK, Some p') \<and>
    store_inv p' \<and> same_bounds p p' \<and> contents p' = contents p" by blast
  obtain st g where g: "value_store_clone mem None (Some p) = (st, g)" by (cases "value_store_clone mem None (Some p)")
  have "case value_store_replace_clone mem same (Some q) (Some p) of
       (VALUE_OK, h) \<Rightarrow> \<not> same \<and> same_bounds q p \<and> (\<exists>q'. h = Some q' \<and> store_inv q' \<and> contents q' = contents p)
     | (st, h) \<Rightarrow> h = Some q"
    using clone_spec [OF assms(1), of mem g] g
    by (cases st) (auto simp: value_store_replace_clone_def split: value_status.splits)
  with c show ?thesis by blast
qed

section \<open>A concrete store\<close>

definition example_store :: value_store where
  "example_store = \<lparr>capacity = 2, max_key_bytes = 4, max_value_bytes = 8, used = 1,
     store_entries = [free_entry, \<lparr>ekey = ''a'', evalue = ''1'', occupied = True\<rparr>]\<rparr>"

lemma example_store_inv: "store_inv example_store"
proof -
  have "init_ok 2 4 8" by (simp add: init_ok_def size_max_def sizeof_value_entry_def)
  then show ?thesis
    by (simp add: store_inv_def example_store_def free_entry_def entry_ok_def less_Suc_eq numeral_2_eq_2)
qed

lemma example_find: "find_entry example_store k = (if k = ''a'' then Some 1 else None)"
  by (simp add: find_entry_def example_store_def free_entry_def upt_rec)

lemma example_contents: "contents example_store = [''a'' \<mapsto> ''1'']"
  by (auto simp: contents_def example_find fun_eq_iff) (simp add: example_store_def)

theorem value_store_set_correct_witness:
  "\<exists>p'. value_store_set (Some example_store) ''b'' ''22'' = (VALUE_OK, Some p') \<and> store_inv p' \<and>
     contents p' = [''a'' \<mapsto> ''1'', ''b'' \<mapsto> ''22'']"
  using value_store_set_correct [OF example_store_inv, of "''b''" "''22''"]
  by (auto simp: example_contents example_store_def [THEN arg_cong [where f = capacity]]
      example_store_def [THEN arg_cong [where f = max_key_bytes]]
      example_store_def [THEN arg_cong [where f = max_value_bytes]] c_text_def simp del: contents_None)

theorem value_store_set_many_atomic_witness:
  "\<exists>st. st \<noteq> VALUE_OK \<and>
     value_store_set_many (Some example_store) [(Some ''b'', Some ''2''), (Some ''c'', None)] = (st, Some example_store)"
  using value_store_set_many_atomic [OF example_store_inv, of "[(Some ''b'', Some ''2''), (Some ''c'', None)]"]
  by (auto split: if_splits simp: map_prod_def)

theorem value_store_get_erase_correct_witness:
  "value_store_get (Some example_store) ''a'' (Some 2) = (VALUE_OK, Some 1, Some ''1'') \<and>
   value_store_get (Some example_store) ''a'' (Some 1) = (VALUE_ENOBUFS, Some 1, None)"
  using value_store_get_erase_correct [OF example_store_inv, of "''a''" "Some 2"]
    value_store_get_erase_correct [OF example_store_inv, of "''a''" "Some 1"]
  by (simp add: example_contents key_ok_def c_text_def) (simp add: example_store_def)

theorem value_store_clone_correct_witness:
  "\<exists>p'. value_store_clone no_oom None (Some example_store) = (VALUE_OK, Some p') \<and> contents p' = [''a'' \<mapsto> ''1'']"
  using value_store_clone_correct [OF example_store_inv example_store_inv, where mem = no_oom and same = True]
  by (auto simp: example_contents)

end
