(* ===== verification/Value_Txn.thy ===== *)
theory Value_Txn
  imports Value_Store
begin

text \<open>
  The optimistic transactions of \<open>actions/c11/value_store.c\<close> over the bounded store: \<open>begin\<close> captures a
  baseline and a private working copy, \<open>set\<close> and \<open>erase\<close> change the working copy and record the keys
  they touch, \<open>commit\<close> publishes the touched keys unless the target changed under one of them, and
  \<open>commit_group\<close> publishes several disjoint transactions at once.

  Stores that transactions target are shared, so they live in a heap of handles; a transaction holds
  the address of its target. A transaction handle is an option, \<open>None\<close> when it is not active.
\<close>

section \<open>Data\<close>

type_synonym store_heap = "nat \<Rightarrow> value_store option"

text \<open>The recorded baseline of an operation: \<open>baseline_exists\<close> and \<open>baseline_value\<close> as one option.\<close>

record txn_op =
  op_key :: string
  op_baseline :: "string option"

record value_txn =
  txn_target :: nat
  txn_baseline :: value_store
  txn_working :: value_store
  op_capacity :: nat
  txn_ops :: "txn_op list"

text \<open>The allocations of a transaction: its own arrays, and those of each store that it clones.\<close>

datatype txn_site = Site_txn | Site_txn_arrays | Site_clone nat store_site | Site_items

abbreviation clone_mem :: "txn_site allocator \<Rightarrow> nat \<Rightarrow> store_site allocator" where
  "clone_mem mem n \<equiv> \<lambda>s. mem (Site_clone n s)"

section \<open>Building a transaction\<close>

text \<open>\<open>same_key\<close> compares what two stores bind to a key; \<open>find_entry_const\<close> is \<open>find_entry\<close>.\<close>

definition same_key :: "value_store \<Rightarrow> value_store \<Rightarrow> string \<Rightarrow> bool" where
  "same_key a b k =
     (case (find_entry a k, find_entry b k) of
        (Some i, Some j) \<Rightarrow> evalue (store_entries a ! i) = evalue (store_entries b ! j)
      | (None, None) \<Rightarrow> True
      | _ \<Rightarrow> False)"

definition txn_find_op :: "value_txn \<Rightarrow> string \<Rightarrow> txn_op option" where
  "txn_find_op t k = List.find (\<lambda>op. op_key op = k) (txn_ops t)"

definition txn_record :: "value_txn \<Rightarrow> string \<Rightarrow> value_status \<times> value_txn" where
  "txn_record t k =
     (if txn_find_op t k \<noteq> None then (VALUE_OK, t)
      else if length (txn_ops t) \<ge> op_capacity t then (VALUE_ENOSPC, t)
      else (VALUE_OK, t\<lparr>txn_ops := txn_ops t @ [\<lparr>op_key = k, op_baseline =
              map_option (\<lambda>i. evalue (store_entries (txn_baseline t) ! i)) (find_entry (txn_baseline t) k)\<rparr>]\<rparr>))"

definition value_txn_begin :: "txn_site allocator \<Rightarrow> store_heap \<Rightarrow> value_txn option \<Rightarrow> nat \<Rightarrow>
    value_status \<times> value_txn option" where
  "value_txn_begin mem heap t target =
     (case heap target of
        None \<Rightarrow> (VALUE_EINVAL, t)
      | Some base \<Rightarrow>
          if t \<noteq> None then (VALUE_EINVAL, t)
          else if \<not> mem Site_txn then (VALUE_ENOMEM, t)
          else if \<not> mem Site_txn_arrays then (VALUE_ENOMEM, t)
          else case value_store_clone (clone_mem mem 0) None (Some base) of
            (VALUE_OK, Some b) \<Rightarrow>
              (case value_store_clone (clone_mem mem 1) None (Some base) of
                 (VALUE_OK, Some w) \<Rightarrow>
                   (VALUE_OK, Some \<lparr>txn_target = target, txn_baseline = b, txn_working = w,
                      op_capacity = capacity base, txn_ops = []\<rparr>)
               | (r, _) \<Rightarrow> (r, t))
          | (r, _) \<Rightarrow> (r, t))"

definition value_txn_set :: "value_txn option \<Rightarrow> string \<Rightarrow> string \<Rightarrow> value_status \<times> value_txn option" where
  "value_txn_set h k v =
     (case h of
        None \<Rightarrow> (VALUE_EINVAL, h)
      | Some t \<Rightarrow>
          let w = txn_working t;
              kn = bounded_length k (max_key_bytes w);
              vn = bounded_length v (max_value_bytes w)
          in if kn = 0 then (VALUE_EINVAL, h)
             else if kn > max_key_bytes w \<or> vn > max_value_bytes w then (VALUE_ENOBUFS, h)
             else if find_entry w (take kn k) = None \<and> used w \<ge> capacity w then (VALUE_ENOSPC, h)
             else case txn_record t (take kn k) of
               (VALUE_OK, t1) \<Rightarrow>
                 (case value_store_set (Some (txn_working t1)) k v of
                    (r, Some w') \<Rightarrow> (r, Some (t1\<lparr>txn_working := w'\<rparr>))
                  | (r, None) \<Rightarrow> (r, Some t1))
             | (r, t1) \<Rightarrow> (r, Some t1))"

definition value_txn_erase :: "value_txn option \<Rightarrow> string \<Rightarrow> value_status \<times> value_txn option" where
  "value_txn_erase h k =
     (case h of
        None \<Rightarrow> (VALUE_EINVAL, h)
      | Some t \<Rightarrow>
          let w = txn_working t;
              kn = bounded_length k (max_key_bytes w)
          in if kn = 0 \<or> kn > max_key_bytes w then (VALUE_EINVAL, h)
             else if find_entry w (take kn k) = None then (VALUE_ENOTFOUND, h)
             else case txn_record t (take kn k) of
               (VALUE_OK, t1) \<Rightarrow>
                 (case value_store_erase (Some (txn_working t1)) k of
                    (r, Some w') \<Rightarrow> (r, Some (t1\<lparr>txn_working := w'\<rparr>))
                  | (r, None) \<Rightarrow> (r, Some t1))
             | (r, t1) \<Rightarrow> (r, Some t1))"

section \<open>Committing\<close>

text \<open>\<open>contains\<close> followed by \<open>erase\<close> when present: how both commits delete a key.\<close>

definition erase_if_present :: "value_store option \<Rightarrow> string \<Rightarrow> value_status \<times> value_store option" where
  "erase_if_present staged k =
     (case value_store_contains staged k of
        Inl r \<Rightarrow> (r, staged)
      | Inr present \<Rightarrow> if present then value_store_erase staged k else (VALUE_OK, staged))"

text \<open>The loop of \<open>commit\<close> over the operations, in the order in which they were first recorded.\<close>

fun apply_ops :: "value_store \<Rightarrow> txn_op list \<Rightarrow> value_store option \<Rightarrow> value_status \<times> value_store option" where
  "apply_ops w [] staged = (VALUE_OK, staged)"
| "apply_ops w (op # ops) staged =
     (case (case find_entry w (op_key op) of
              Some i \<Rightarrow> value_store_set staged (op_key op) (evalue (store_entries w ! i))
            | None \<Rightarrow> erase_if_present staged (op_key op)) of
        (VALUE_OK, staged') \<Rightarrow> apply_ops w ops staged'
      | (r, staged') \<Rightarrow> (r, staged'))"

definition value_txn_commit :: "txn_site allocator \<Rightarrow> store_heap \<Rightarrow> value_txn option \<Rightarrow>
    value_status \<times> store_heap \<times> value_txn option" where
  "value_txn_commit mem heap h =
     (case h of
        None \<Rightarrow> (VALUE_EINVAL, heap, h)
      | Some t \<Rightarrow>
          (case heap (txn_target t) of
             None \<Rightarrow> (VALUE_EINVAL, heap, h)
           | Some target \<Rightarrow>
               if \<exists>op\<in>set (txn_ops t). \<not> same_key target (txn_baseline t) (op_key op)
               then (VALUE_ECONFLICT, heap, h)
               else case value_store_clone (clone_mem mem 0) None (Some target) of
                 (VALUE_OK, staged) \<Rightarrow>
                   (case apply_ops (txn_working t) (txn_ops t) staged of
                      (VALUE_OK, staged') \<Rightarrow> (VALUE_OK, heap(txn_target t := staged'), None)
                    | (r, _) \<Rightarrow> (r, heap, h))
               | (r, _) \<Rightarrow> (r, heap, h)))"

definition value_txn_abort :: "value_txn option \<Rightarrow> value_txn option" where
  "value_txn_abort h = None"

text \<open>
  The group commit takes the array of transaction objects. Each row carries the identity of its
  implementation object, which the duplicate check compares. \<open>items_ok\<close> is the validating loop.
\<close>

fun items_ok :: "store_heap \<Rightarrow> (nat \<times> value_txn option) list \<Rightarrow> nat list \<Rightarrow> nat option \<Rightarrow> bool" where
  "items_ok heap [] seen target = True"
| "items_ok heap ((ident, None) # rows) seen target = False"
| "items_ok heap ((ident, Some t) # rows) seen target =
     (if heap (txn_target t) = None \<or> (target \<noteq> None \<and> target \<noteq> Some (txn_target t)) then False
      else if ident \<in> set seen then False
      else items_ok heap rows (seen @ [ident]) (Some (txn_target t)))"

text \<open>The conflict loops: stale keys against the target, and keys shared with a later transaction.\<close>

fun group_conflict :: "value_store \<Rightarrow> value_txn list \<Rightarrow> bool" where
  "group_conflict target [] = False"
| "group_conflict target (t # ts) =
     ((\<exists>a\<in>set (txn_ops t). \<not> same_key target (txn_baseline t) (op_key a) \<or>
         (\<exists>u\<in>set ts. \<exists>b\<in>set (txn_ops u). op_key a = op_key b)) \<or>
      group_conflict target ts)"

text \<open>All operations of the group with their working stores, in array order.\<close>

definition group_ops :: "value_txn list \<Rightarrow> (value_store \<times> string) list" where
  "group_ops ts = concat (map (\<lambda>t. map (\<lambda>op. (txn_working t, op_key op)) (txn_ops t)) ts)"

fun group_delete :: "(value_store \<times> string) list \<Rightarrow> value_store option \<Rightarrow> value_status \<times> value_store option" where
  "group_delete [] staged = (VALUE_OK, staged)"
| "group_delete ((w, k) # ops) staged =
     (if find_entry w k = None then
        (case erase_if_present staged k of
           (VALUE_OK, staged') \<Rightarrow> group_delete ops staged'
         | (r, staged') \<Rightarrow> (r, staged'))
      else group_delete ops staged)"

fun group_write :: "(value_store \<times> string) list \<Rightarrow> value_store option \<Rightarrow> value_status \<times> value_store option" where
  "group_write [] staged = (VALUE_OK, staged)"
| "group_write ((w, k) # ops) staged =
     (case find_entry w k of
        Some i \<Rightarrow>
          (case value_store_set staged k (evalue (store_entries w ! i)) of
             (VALUE_OK, staged') \<Rightarrow> group_write ops staged'
           | (r, staged') \<Rightarrow> (r, staged'))
      | None \<Rightarrow> group_write ops staged)"

definition value_txn_commit_group :: "txn_site allocator \<Rightarrow> store_heap \<Rightarrow> (nat \<times> value_txn option) list \<Rightarrow>
    value_status \<times> store_heap \<times> value_txn option list" where
  "value_txn_commit_group mem heap rows =
     (if rows = [] \<or> length rows > size_max div 8 then (VALUE_EINVAL, heap, map snd rows)
      else if \<not> mem Site_items then (VALUE_ENOMEM, heap, map snd rows)
      else if \<not> items_ok heap rows [] None then (VALUE_EINVAL, heap, map snd rows)
      else
        let ts = map (the \<circ> snd) rows; a = txn_target (hd ts); target = the (heap a)
        in if group_conflict target ts then (VALUE_ECONFLICT, heap, map snd rows)
           else case value_store_clone (clone_mem mem 0) None (Some target) of
             (VALUE_OK, staged) \<Rightarrow>
               (case group_delete (group_ops ts) staged of
                  (VALUE_OK, staged1) \<Rightarrow>
                    (case group_write (group_ops ts) staged1 of
                       (VALUE_OK, staged2) \<Rightarrow> (VALUE_OK, heap(a := staged2), map (value_txn_abort \<circ> snd) rows)
                     | (r, _) \<Rightarrow> (r, heap, map snd rows))
                | (r, _) \<Rightarrow> (r, heap, map snd rows))
           | (r, _) \<Rightarrow> (r, heap, map snd rows))"

section \<open>The invariant of a transaction\<close>

lemma same_key_contents: "same_key a b k \<longleftrightarrow> contents a k = contents b k"
  by (auto simp: same_key_def contents_def split: option.splits)

abbreviation touched :: "value_txn \<Rightarrow> string set" where
  "touched t \<equiv> op_key ` set (txn_ops t)"

definition txn_inv :: "value_store \<Rightarrow> value_txn \<Rightarrow> bool" where
  "txn_inv base t \<longleftrightarrow> store_inv (txn_baseline t) \<and> store_inv (txn_working t) \<and>
     same_bounds base (txn_baseline t) \<and> same_bounds base (txn_working t) \<and>
     contents (txn_baseline t) = contents base \<and>
     distinct (map op_key (txn_ops t)) \<and> length (txn_ops t) \<le> op_capacity t \<and> op_capacity t = capacity base \<and>
     (\<forall>k\<in>touched t. key_ok base k \<and> CHR 0x00 \<notin> set k) \<and>
     (\<forall>k. k \<notin> touched t \<longrightarrow> contents (txn_working t) k = contents base k)"

lemma txn_find_op_None: "txn_find_op t k = None \<longleftrightarrow> k \<notin> touched t"
  by (auto simp: txn_find_op_def find_None_iff)

lemma txn_record_cases:
  obtains "txn_record t k = (VALUE_OK, t)" "k \<in> touched t"
  | "txn_record t k = (VALUE_ENOSPC, t)" "k \<notin> touched t" "length (txn_ops t) \<ge> op_capacity t"
  | op where "txn_record t k = (VALUE_OK, t\<lparr>txn_ops := txn_ops t @ [op]\<rparr>)" "op_key op = k"
      "k \<notin> touched t" "length (txn_ops t) < op_capacity t"
proof (cases "k \<in> touched t")
  case True
  then show ?thesis using that(1) txn_find_op_None [of t k] by (simp add: txn_record_def)
next
  case False
  show ?thesis
  proof (cases "length (txn_ops t) \<ge> op_capacity t")
    case True
    then show ?thesis using that(2) False txn_find_op_None [of t k] by (simp add: txn_record_def)
  next
    case room: False
    then show ?thesis using that(3) [of "\<lparr>op_key = k, op_baseline =
        map_option (\<lambda>i. evalue (store_entries (txn_baseline t) ! i)) (find_entry (txn_baseline t) k)\<rparr>"]
        False txn_find_op_None [of t k] by (simp add: txn_record_def)
  qed
qed

text \<open>Recording a valid key and changing the working copy there keeps the invariant.\<close>

lemma txn_inv_update:
  assumes inv: "txn_inv base t" and rec: "txn_record t k = (VALUE_OK, t1)"
    and k: "key_ok base k" "CHR 0x00 \<notin> set k"
    and w: "store_inv w" "same_bounds base w" "\<And>l. l \<noteq> k \<Longrightarrow> contents w l = contents (txn_working t) l"
  shows "txn_inv base (t1\<lparr>txn_working := w\<rparr>)"
proof (cases rule: txn_record_cases [of t k])
  case 1
  have "contents w l = contents base l" if "l \<notin> touched t" for l
  proof -
    have "l \<noteq> k" using that 1(2) by auto
    then show ?thesis using w(3) that inv by (simp add: txn_inv_def)
  qed
  then show ?thesis using assms(1,2,4-7) 1(1) by (auto simp: txn_inv_def)
next
  case (3 op)
  then have "t1 = t\<lparr>txn_ops := txn_ops t @ [op]\<rparr>" using rec by simp
  then show ?thesis using inv k w 3 by (auto simp: txn_inv_def)
qed (use rec in simp)

lemma txn_record_parts:
  assumes "txn_record t k = (r, t1)"
  shows "txn_target t1 = txn_target t" "txn_working t1 = txn_working t" "txn_baseline t1 = txn_baseline t"
    "op_capacity t1 = op_capacity t" "r = VALUE_OK \<or> (r = VALUE_ENOSPC \<and> t1 = t)"
  using assms by (auto simp: txn_record_def split: if_splits)

lemma txn_set_inv:
  assumes inv: "txn_inv base t" and call: "value_txn_set (Some t) k v = (r, h)"
  shows "\<exists>t'. h = Some t' \<and> txn_inv base t' \<and> txn_target t' = txn_target t \<and> (r \<noteq> VALUE_OK \<longrightarrow> t' = t)"
proof -
  let ?w = "txn_working t"
  have winv: "store_inv ?w" and wb: "same_bounds base ?w" using inv by (auto simp: txn_inv_def)
  show ?thesis
  proof (cases "write_ok ?w k v \<and> (contents ?w (c_text k) \<noteq> None \<or> used ?w < capacity ?w)")
    case False
    then show ?thesis using call inv by (auto simp: value_txn_set_def Let_def write_ok_def key_ok_def split: if_splits)
  next
    case True
    then obtain w' where w': "value_store_set (Some ?w) k v = (VALUE_OK, Some w')" "store_inv w'"
      "same_bounds ?w w'" "contents w' = (contents ?w)(c_text k \<mapsto> c_text v)"
      using set_spec [OF winv] card_contents [OF winv] by metis
    obtain r1 t1 where t1: "txn_record t (c_text k) = (r1, t1)" by (cases "txn_record t (c_text k)")
    note parts = txn_record_parts [OF t1]
    have kk: "key_ok base (c_text k)" using True wb by (auto simp: write_ok_def key_ok_def)
    have eq: "value_txn_set (Some t) k v =
      (case (r1, t1) of (VALUE_OK, t1) \<Rightarrow> (VALUE_OK, Some (t1\<lparr>txn_working := w'\<rparr>)) | (r, t1) \<Rightarrow> (r, Some t1))"
      using True t1 parts(2) w'(1)
      by (auto simp: value_txn_set_def Let_def write_ok_def key_ok_def split: value_status.splits)
    show ?thesis
    proof (cases "r1 = VALUE_OK")
      case ok: True
      have "txn_inv base (t1\<lparr>txn_working := w'\<rparr>)"
        using w' wb by (intro txn_inv_update [OF inv t1 [unfolded ok] kk]) auto
      then show ?thesis using eq call ok parts(1) by auto
    next
      case False
      then show ?thesis using parts(5) eq call inv by auto
    qed
  qed
qed

lemma txn_erase_inv:
  assumes inv: "txn_inv base t" and call: "value_txn_erase (Some t) k = (r, h)"
  shows "\<exists>t'. h = Some t' \<and> txn_inv base t' \<and> txn_target t' = txn_target t \<and> (r \<noteq> VALUE_OK \<longrightarrow> t' = t)"
proof -
  let ?w = "txn_working t"
  have winv: "store_inv ?w" and wb: "same_bounds base ?w" using inv by (auto simp: txn_inv_def)
  show ?thesis
  proof (cases "key_ok ?w k \<and> contents ?w (c_text k) \<noteq> None")
    case False
    then show ?thesis using call inv by (auto simp: value_txn_erase_def Let_def key_ok_def split: if_splits)
  next
    case True
    then obtain w' where w': "value_store_erase (Some ?w) k = (VALUE_OK, Some w')" "store_inv w'"
      "same_bounds ?w w'" "contents w' = (contents ?w)(c_text k := None)"
      using erase_spec [OF winv] by metis
    obtain r1 t1 where t1: "txn_record t (c_text k) = (r1, t1)" by (cases "txn_record t (c_text k)")
    note parts = txn_record_parts [OF t1]
    have kk: "key_ok base (c_text k)" using True wb by (auto simp: key_ok_def)
    have eq: "value_txn_erase (Some t) k =
      (case (r1, t1) of (VALUE_OK, t1) \<Rightarrow> (VALUE_OK, Some (t1\<lparr>txn_working := w'\<rparr>)) | (r, t1) \<Rightarrow> (r, Some t1))"
      using True t1 parts(2) w'(1)
      by (auto simp: value_txn_erase_def Let_def key_ok_def split: value_status.splits)
    show ?thesis
    proof (cases "r1 = VALUE_OK")
      case ok: True
      have "txn_inv base (t1\<lparr>txn_working := w'\<rparr>)"
        using w' wb by (intro txn_inv_update [OF inv t1 [unfolded ok] kk]) auto
      then show ?thesis using eq call ok parts(1) by auto
    next
      case False
      then show ?thesis using parts(5) eq call inv by auto
    qed
  qed
qed

lemma txn_begin_inv:
  assumes base: "store_inv base" "heap a = Some base" and call: "value_txn_begin mem heap None a = (VALUE_OK, h)"
  shows "\<exists>t. h = Some t \<and> txn_inv base t \<and> txn_target t = a \<and> txn_ops t = [] \<and> contents (txn_working t) = contents base"
proof -
  obtain b w where bw: "value_store_clone (clone_mem mem 0) None (Some base) = (VALUE_OK, Some b)"
    "value_store_clone (clone_mem mem 1) None (Some base) = (VALUE_OK, Some w)"
    "h = Some \<lparr>txn_target = a, txn_baseline = b, txn_working = w, op_capacity = capacity base, txn_ops = []\<rparr>"
    using call base(2)
    by (auto simp: value_txn_begin_def split: if_splits prod.splits value_status.splits option.splits
        dest: clone_spec [OF base(1)])
  show ?thesis using clone_spec [OF base(1) bw(1)] clone_spec [OF base(1) bw(2)] bw(3) by (auto simp: txn_inv_def)
qed

declare contents_None [simp del]

section \<open>Publishing operations into a store\<close>

text \<open>The map that a list of operations leaves: each key takes the value of its working store.\<close>

definition publish_map :: "(value_store \<times> string) list \<Rightarrow> (string \<rightharpoonup> string) \<Rightarrow> string \<rightharpoonup> string" where
  "publish_map ops m = fold (\<lambda>(w, k) m. m(k := contents w k)) ops m"

lemma publish_map_simps [simp]:
  "publish_map [] m = m"
  "publish_map ((w, k) # ops) m = publish_map ops (m(k := contents w k))"
  by (simp_all add: publish_map_def)

lemma publish_map_out: "k \<notin> snd ` set ops \<Longrightarrow> publish_map ops m k = m k"
  by (induction ops arbitrary: m) auto

lemma publish_map_in:
  "distinct (map snd ops) \<Longrightarrow> (w, k) \<in> set ops \<Longrightarrow> publish_map ops m k = contents w k"
proof (induction ops arbitrary: m)
  case (Cons op ops)
  show ?case
  proof (cases "(w, k) = op")
    case True
    then show ?thesis using Cons.prems(1) publish_map_out [of k ops] by (auto simp: fun_upd_same)
  next
    case False
    then show ?thesis using Cons.prems Cons.IH by (cases op) auto
  qed
qed simp

definition ops_ok :: "value_store \<Rightarrow> (value_store \<times> string) list \<Rightarrow> bool" where
  "ops_ok p ops \<longleftrightarrow> (\<forall>(w, k)\<in>set ops. store_inv w \<and> same_bounds p w \<and> key_ok p k \<and> CHR 0x00 \<notin> set k)"

lemma ops_ok_Cons [simp]: "ops_ok p ((w, k) # ops) \<longleftrightarrow>
    store_inv w \<and> same_bounds p w \<and> key_ok p k \<and> CHR 0x00 \<notin> set k \<and> ops_ok p ops"
  by (auto simp: ops_ok_def)

lemma ops_ok_bounds: "same_bounds p p' \<Longrightarrow> ops_ok p' ops = ops_ok p ops"
  by (auto simp: ops_ok_def key_ok_def)

lemma erase_if_present_spec:
  assumes inv: "store_inv p" and k: "key_ok p k" "CHR 0x00 \<notin> set k"
  shows "\<exists>p'. erase_if_present (Some p) k = (VALUE_OK, Some p') \<and> store_inv p' \<and> same_bounds p p' \<and>
    contents p' = (contents p)(k := None)"
proof (cases "contents p k = None")
  case True
  then show ?thesis using inv k by (auto simp: erase_if_present_def contains_spec fun_eq_iff)
next
  case False
  then show ?thesis using erase_spec [OF inv k(1)] k by (auto simp: erase_if_present_def contains_spec)
qed

lemma working_value:
  assumes "find_entry w k = Some i" and "store_inv w" and "same_bounds p w" and "key_ok p k" and "CHR 0x00 \<notin> set k"
  shows "contents w k = Some (evalue (store_entries w ! i))" and "write_ok p k (evalue (store_entries w ! i))"
    and "c_text (evalue (store_entries w ! i)) = evalue (store_entries w ! i)"
proof -
  show v: "contents w k = Some (evalue (store_entries w ! i))" using assms(1) by (simp add: contents_def)
  note b = contents_bounds [OF assms(2) v]
  then show "c_text (evalue (store_entries w ! i)) = evalue (store_entries w ! i)" by simp
  with b assms(3,4) show "write_ok p k (evalue (store_entries w ! i))" by (simp add: write_ok_def)
qed

lemma group_delete_spec:
  assumes "store_inv p" and "ops_ok p ops"
  shows "\<exists>p'. group_delete ops (Some p) = (VALUE_OK, Some p') \<and> store_inv p' \<and> same_bounds p p' \<and>
    contents p' = (\<lambda>k. if \<exists>w. (w, k) \<in> set ops \<and> contents w k = None then None else contents p k)"
  using assms
proof (induction ops arbitrary: p)
  case (Cons op ops)
  obtain w k where op: "op = (w, k)" by force
  show ?case
  proof (cases "find_entry w k")
    case None
    then obtain p1 where p1: "erase_if_present (Some p) k = (VALUE_OK, Some p1)" "store_inv p1" "same_bounds p p1"
      "contents p1 = (contents p)(k := None)"
      using erase_if_present_spec [OF Cons.prems(1), of k] Cons.prems(2) op by auto
    obtain p' where "group_delete ops (Some p1) = (VALUE_OK, Some p')" "store_inv p'" "same_bounds p1 p'"
      "contents p' = (\<lambda>k. if \<exists>w. (w, k) \<in> set ops \<and> contents w k = None then None else contents p1 k)"
      using Cons.IH [OF p1(2)] Cons.prems(2) ops_ok_bounds [OF p1(3)] op by auto
    moreover have "(\<lambda>l. if \<exists>w. (w, l) \<in> set ops \<and> contents w l = None then None else contents p1 l)
      = (\<lambda>l. if \<exists>w'. (w', l) \<in> set (op # ops) \<and> contents w' l = None then None else contents p l)"
      using None p1(4) by (auto simp: op fun_eq_iff contents_None)
    ultimately show ?thesis using None p1 by (simp add: op)
  next
    case (Some i)
    then have "contents w k \<noteq> None" by (simp add: contents_None)
    then have same: "(\<lambda>l. if \<exists>w'. (w', l) \<in> set (op # ops) \<and> contents w' l = None then None else contents p l)
        = (\<lambda>l. if \<exists>w'. (w', l) \<in> set ops \<and> contents w' l = None then None else contents p l)"
      by (auto simp: op fun_eq_iff)
    show ?thesis unfolding same using Cons.IH [OF Cons.prems(1)] Cons.prems(2) Some by (simp add: op)
  qed
qed simp

definition group_writes :: "(value_store \<times> string) list \<Rightarrow> (string \<times> string) list" where
  "group_writes ops = concat (map (\<lambda>(w, k). case contents w k of None \<Rightarrow> [] | Some v \<Rightarrow> [(k, v)]) ops)"

lemma group_writes_simps [simp]:
  "group_writes [] = []"
  "group_writes ((w, k) # ops) = (case contents w k of None \<Rightarrow> [] | Some v \<Rightarrow> [(k, v)]) @ group_writes ops"
  by (simp_all add: group_writes_def)

lemma group_write_put_all: "group_write ops h = put_all value_store_set h (group_writes ops)"
  by (induction ops h rule: group_write.induct)
    (auto simp: contents_def split: option.splits prod.splits value_status.splits)

lemma set_group_writes: "(k, v) \<in> set (group_writes ops) \<longleftrightarrow> (\<exists>w. (w, k) \<in> set ops \<and> contents w k = Some v)"
proof (induction ops)
  case (Cons op ops)
  obtain w l where "op = (w, l)" by force
  then show ?case using Cons.IH by (cases "contents w l") auto
qed simp

lemma distinct_group_writes: "distinct (map snd ops) \<Longrightarrow> distinct (map fst (group_writes ops))"
proof (induction ops)
  case (Cons op ops)
  have "fst ` set (group_writes ops) \<subseteq> snd ` set ops" using set_group_writes by force
  with Cons show ?case by (cases op) (auto simp del: contents_None split: option.splits)
qed simp

lemma group_writes_ok:
  assumes "ops_ok p ops"
  shows "\<forall>(k, v)\<in>set (group_writes ops). write_ok p k v" and "text_pairs (group_writes ops) = group_writes ops"
proof -
  have *: "write_ok p k v \<and> c_text k = k \<and> c_text v = v" if kv: "(k, v) \<in> set (group_writes ops)" for k v
  proof -
    obtain w where w: "(w, k) \<in> set ops" "contents w k = Some v" using kv set_group_writes by blast
    then have o: "store_inv w" "same_bounds p w" "key_ok p k" "CHR 0x00 \<notin> set k" using assms by (auto simp: ops_ok_def)
    from w(2) obtain i where i: "find_entry w k = Some i" "v = evalue (store_entries w ! i)" by (auto simp: contents_def)
    show ?thesis using working_value [OF i(1) o] i(2) o(4) by simp
  qed
  then show "\<forall>(k, v)\<in>set (group_writes ops). write_ok p k v" by blast
  show "text_pairs (group_writes ops) = group_writes ops"
    unfolding text_pairs_def using * by (intro map_idI) auto
qed

lemma publish_map_split:
  assumes "distinct (map snd ops)"
  shows "(\<lambda>k. if \<exists>w. (w, k) \<in> set ops \<and> contents w k = None then None else m k) ++ map_of (group_writes ops)
       = publish_map ops m"
proof
  fix k
  note d = distinct_group_writes [OF assms]
  show "((\<lambda>k. if \<exists>w. (w, k) \<in> set ops \<and> contents w k = None then None else m k) ++ map_of (group_writes ops)) k
      = publish_map ops m k"
  proof (cases "k \<in> snd ` set ops")
    case False
    then have "map_of (group_writes ops) k = None" using set_group_writes [of k _ ops]
      by (auto simp: map_of_eq_None_iff) force
    then show ?thesis using False publish_map_out [OF False, of m] by (force simp: map_add_def)
  next
    case True
    then obtain w where w: "(w, k) \<in> set ops" by auto
    have uniq: "w' = w" if "(w', k) \<in> set ops" for w' using assms that w
      by (metis distinct_map inj_on_def snd_conv prod.inject)
    show ?thesis
    proof (cases "contents w k")
      case None
      then have "map_of (group_writes ops) k = None"
        using set_group_writes uniq by (metis map_of_SomeD not_None_eq)
      then show ?thesis using None w publish_map_in [OF assms w, of m] by (auto simp: map_add_def)
    next
      case (Some v)
      then have "map_of (group_writes ops) k = Some v" using d w set_group_writes by (metis map_of_is_SomeI)
      then show ?thesis using Some publish_map_in [OF assms w, of m] by (simp add: map_add_def)
    qed
  qed
qed

lemma put_all_bounds:
  "put_all value_store_set (Some p) ws = (r, h) \<Longrightarrow> \<exists>p'. h = Some p' \<and> same_bounds p p'"
proof (induction ws arbitrary: p)
  case (Cons w ws)
  obtain k v where w: "w = (k, v)" by force
  obtain r1 h1 where set: "value_store_set (Some p) k v = (r1, h1)" by (cases "value_store_set (Some p) k v")
  then obtain p1 where p1: "h1 = Some p1" "same_bounds p p1"
    by (auto simp: value_store_set_def Let_def split: if_splits option.splits)
  show ?case
  proof (cases "r1 = VALUE_OK")
    case True
    then show ?thesis using Cons.IH [of p1] Cons.prems w set p1 by auto
  next
    case False
    then have "h = h1" using Cons.prems w set by (auto split: value_status.splits)
    then show ?thesis using p1 by simp
  qed
qed auto

text \<open>Deletions first, then writes: the group succeeds exactly when the resulting map fits.\<close>

lemma group_publish:
  assumes inv: "store_inv p" and ok: "ops_ok p ops" and dist: "distinct (map snd ops)"
    and del: "group_delete ops (Some p) = (VALUE_OK, h)"
  shows "if card (dom (publish_map ops (contents p))) \<le> capacity p
    then \<exists>p'. group_write ops h = (VALUE_OK, Some p') \<and> store_inv p' \<and> same_bounds p p' \<and>
      contents p' = publish_map ops (contents p)
    else \<exists>h'. group_write ops h = (VALUE_ENOSPC, h')"
proof -
  obtain p1 where p1: "h = Some p1" "store_inv p1" "same_bounds p p1"
    "contents p1 = (\<lambda>k. if \<exists>w. (w, k) \<in> set ops \<and> contents w k = None then None else contents p k)"
    using group_delete_spec [OF inv ok] del by auto
  have w: "\<forall>(k, v)\<in>set (group_writes ops). write_ok p1 k v" and t: "text_pairs (group_writes ops) = group_writes ops"
    using group_writes_ok [of p1 ops] ok ops_ok_bounds [OF p1(3)] by auto
  have final: "contents p1 ++ map_of (rev (text_pairs (group_writes ops))) = publish_map ops (contents p)"
    using publish_map_split [OF dist, of "contents p"] map_of_rev_distinct [OF distinct_group_writes [OF dist]] t p1(4)
    by simp
  note ok = store.put_all_ok [of "Some p1" "group_writes ops", unfolded option.sel, unfolded final]
  note full = store.put_all_full [of "Some p1" "group_writes ops", unfolded option.sel, unfolded final]
  show ?thesis
  proof (cases "card (dom (publish_map ops (contents p))) \<le> capacity p")
    case True
    then obtain h' where h': "group_write ops h = (VALUE_OK, h')" "handle_inv h'" "capacity (the h') = capacity p1"
      "write_ok (the h') = write_ok p1" "contents (the h') = publish_map ops (contents p)"
      using ok w p1 by (auto simp: group_write_put_all)
    have "\<exists>p'. h' = Some p' \<and> same_bounds p1 p'"
      using put_all_bounds [of p1 "group_writes ops"] h'(1) p1(1) by (simp add: group_write_put_all)
    then show ?thesis using True h' p1(3) by auto
  next
    case False
    then show ?thesis using full w p1 by (auto simp: group_write_put_all)
  qed
qed

section \<open>The single commit\<close>

definition single_ops :: "value_txn \<Rightarrow> (value_store \<times> string) list" where
  "single_ops t = map (\<lambda>op. (txn_working t, op_key op)) (txn_ops t)"

lemma group_ops_single: "group_ops [t] = single_ops t"
  by (simp add: group_ops_def single_ops_def)

text \<open>
  Operations in recording order either reach the published map or stop for lack of room; \<open>S\<close> bounds
  the keys that may be present on the way.
\<close>

lemma apply_ops_spec:
  assumes "store_inv p" and "ops_ok p (map (\<lambda>op. (w, op_key op)) ops)"
  shows "(\<exists>p'. apply_ops w ops (Some p) = (VALUE_OK, Some p') \<and> store_inv p' \<and> same_bounds p p' \<and>
      contents p' = publish_map (map (\<lambda>op. (w, op_key op)) ops) (contents p)) \<or>
    ((\<exists>h. apply_ops w ops (Some p) = (VALUE_ENOSPC, h)) \<and>
     (\<forall>S. finite S \<longrightarrow> dom (contents p) \<subseteq> S \<longrightarrow> (\<forall>op\<in>set ops. contents w (op_key op) \<noteq> None \<longrightarrow> op_key op \<in> S)
        \<longrightarrow> capacity p < card S))"
  using assms
proof (induction ops arbitrary: p)
  case (Cons op ops)
  let ?k = "op_key op"
  have o: "store_inv w" "same_bounds p w" "key_ok p ?k" "CHR 0x00 \<notin> set ?k" and
    rest: "ops_ok p (map (\<lambda>op. (w, op_key op)) ops)" using Cons.prems(2) by auto
  let ?step = "case find_entry w ?k of Some i \<Rightarrow> value_store_set (Some p) ?k (evalue (store_entries w ! i))
            | None \<Rightarrow> erase_if_present (Some p) ?k"
  have step: "(\<exists>p1. ?step = (VALUE_OK, Some p1) \<and> store_inv p1 \<and> same_bounds p p1 \<and>
      contents p1 = (contents p)(?k := contents w ?k)) \<or>
    (?step = (VALUE_ENOSPC, Some p) \<and> contents w ?k \<noteq> None \<and> contents p ?k = None \<and>
      card (dom (contents p)) = capacity p)"
  proof (cases "find_entry w ?k")
    case None
    then have "contents w ?k = None" by (simp add: contents_None)
    with None show ?thesis using erase_if_present_spec [OF Cons.prems(1) o(3,4)] by auto
  next
    case (Some i)
    note v = working_value [OF Some o]
    show ?thesis
    proof (cases "contents p ?k \<noteq> None \<or> card (dom (contents p)) < capacity p")
      case True
      then show ?thesis using set_spec [OF Cons.prems(1) v(2)] o(4) v Some by auto
    next
      case False
      then have "card (dom (contents p)) = capacity p"
        using card_contents [OF Cons.prems(1)] used_le_capacity [OF Cons.prems(1)] by simp
      then show ?thesis using set_errors(3) [OF Cons.prems(1) v(2)] False o(4) v Some by auto
    qed
  qed
  then show ?case
  proof
    assume "\<exists>p1. ?step = (VALUE_OK, Some p1) \<and> store_inv p1 \<and> same_bounds p p1 \<and>
      contents p1 = (contents p)(?k := contents w ?k)"
    then obtain p1 where p1: "?step = (VALUE_OK, Some p1)" "store_inv p1" "same_bounds p p1"
      "contents p1 = (contents p)(?k := contents w ?k)" by blast
    have eq: "apply_ops w (op # ops) (Some p) = apply_ops w ops (Some p1)" using p1(1) by simp
    have dom: "dom (contents p1) \<subseteq> S" if "dom (contents p) \<subseteq> S" "contents w ?k \<noteq> None \<longrightarrow> ?k \<in> S" for S
      using that p1(4) by (auto split: if_splits)
    have rest1: "ops_ok p1 (map (\<lambda>op. (w, op_key op)) ops)" using ops_ok_bounds [OF p1(3)] rest by simp
    have cap: "capacity p1 = capacity p" "publish_map (map (\<lambda>op. (w, op_key op)) (op # ops)) (contents p) =
        publish_map (map (\<lambda>op. (w, op_key op)) ops) (contents p1)" using p1(3,4) by simp_all
    from Cons.IH [OF p1(2) rest1] show ?thesis unfolding eq cap(2)
    proof (rule disj_forward)
      assume "\<exists>p'. apply_ops w ops (Some p1) = (VALUE_OK, Some p') \<and> store_inv p' \<and> same_bounds p1 p' \<and>
          contents p' = publish_map (map (\<lambda>op. (w, op_key op)) ops) (contents p1)"
      then show "\<exists>p'. apply_ops w ops (Some p1) = (VALUE_OK, Some p') \<and> store_inv p' \<and> same_bounds p p' \<and>
          contents p' = publish_map (map (\<lambda>op. (w, op_key op)) ops) (contents p1)" using p1(3) by metis
    qed (use dom cap(1) in simp)
  next
    assume full: "?step = (VALUE_ENOSPC, Some p) \<and> contents w ?k \<noteq> None \<and> contents p ?k = None \<and>
      card (dom (contents p)) = capacity p"
    have "capacity p < card S" if S: "finite S" "dom (contents p) \<subseteq> S" "contents w ?k \<noteq> None \<longrightarrow> ?k \<in> S" for S
    proof -
      have "insert ?k (dom (contents p)) \<subseteq> S" using S full by auto
      then have "card (insert ?k (dom (contents p))) \<le> card S" using S(1) by (intro card_mono) auto
      then show ?thesis using full finite_contents [OF Cons.prems(1)] by (simp add: domIff)
    qed
    moreover have "apply_ops w (op # ops) (Some p) = (VALUE_ENOSPC, Some p)" using full by simp
    ultimately show ?thesis by simp
  qed
qed simp

lemma txn_ops_ok:
  assumes "txn_inv base t" and "same_bounds base p"
  shows "ops_ok p (single_ops t)" and "distinct (map snd (single_ops t))"
  using assms by (auto simp: txn_inv_def ops_ok_def single_ops_def key_ok_def comp_def)

lemma single_ops_keys: "snd ` set (single_ops t) = touched t"
  by (auto simp: single_ops_def image_image)

lemma publish_single:
  assumes "txn_inv base t"
  shows "publish_map (single_ops t) m = (\<lambda>k. if k \<in> touched t then contents (txn_working t) k else m k)"
proof
  fix k
  have d: "distinct (map snd (single_ops t))" using txn_ops_ok(2) [OF assms] by simp
  show "publish_map (single_ops t) m k = (if k \<in> touched t then contents (txn_working t) k else m k)"
  proof (cases "k \<in> touched t")
    case True
    then have "(txn_working t, k) \<in> set (single_ops t)" by (auto simp: single_ops_def)
    then show ?thesis using publish_map_in [OF d] True by simp
  next
    case False
    then show ?thesis using publish_map_out [of k "single_ops t" m] by (simp add: single_ops_keys)
  qed
qed

section \<open>Transactions as they are built\<close>

text \<open>
  \<open>txn_built base a t\<close>: transaction \<open>t\<close> was begun on the store \<open>base\<close> at address \<open>a\<close> and then changed by
  any sequence of \<open>set\<close> and \<open>erase\<close> calls, whatever they returned.
\<close>

inductive txn_built :: "value_store \<Rightarrow> nat \<Rightarrow> value_txn \<Rightarrow> bool" for base a where
  built_begin: "store_inv base \<Longrightarrow> heap a = Some base \<Longrightarrow>
     value_txn_begin mem heap None a = (VALUE_OK, Some t) \<Longrightarrow> txn_built base a t"
| built_set: "txn_built base a t \<Longrightarrow> value_txn_set (Some t) k v = (r, Some t') \<Longrightarrow> txn_built base a t'"
| built_erase: "txn_built base a t \<Longrightarrow> value_txn_erase (Some t) k = (r, Some t') \<Longrightarrow> txn_built base a t'"

lemma txn_built_inv: "txn_built base a t \<Longrightarrow> txn_inv base t \<and> txn_target t = a"
proof (induction rule: txn_built.induct)
  case (built_begin heap mem t)
  then show ?case using txn_begin_inv [OF built_begin(1,2,3)] by auto
qed (auto dest: txn_set_inv txn_erase_inv)

section \<open>Properties\<close>

text \<open>
  Isolation and bounds of an open transaction: however it was built, its working copy differs from
  the store it was begun on only at the keys it has recorded, each once and never more than the store
  has slots; and a refused \<open>set\<close> or \<open>erase\<close> leaves the transaction as it was.
\<close>

theorem value_txn_isolated:
  assumes "txn_built base a t"
  shows "(\<forall>k. k \<notin> touched t \<longrightarrow> contents (txn_working t) k = contents base k) \<and>
    distinct (map op_key (txn_ops t)) \<and> length (txn_ops t) \<le> capacity base \<and> store_inv (txn_working t) \<and>
    (\<forall>k v r t'. value_txn_set (Some t) k v = (r, Some t') \<longrightarrow> r \<noteq> VALUE_OK \<longrightarrow> t' = t) \<and>
    (\<forall>k r t'. value_txn_erase (Some t) k = (r, Some t') \<longrightarrow> r \<noteq> VALUE_OK \<longrightarrow> t' = t)"
proof -
  have inv: "txn_inv base t" using txn_built_inv [OF assms] by simp
  have "t' = t" if "value_txn_set (Some t) k v = (r, Some t')" "r \<noteq> VALUE_OK" for k v r t'
    using txn_set_inv [OF inv that(1)] that(2) by auto
  moreover have "t' = t" if "value_txn_erase (Some t) k = (r, Some t')" "r \<noteq> VALUE_OK" for k r t'
    using txn_erase_inv [OF inv that(1)] that(2) by auto
  ultimately show ?thesis using inv unfolding txn_inv_def by metis
qed

text \<open>The cases of a single commit.\<close>

lemma commit_cases:
  assumes built: "txn_built base a t" and target: "heap a = Some p" "store_inv p" "same_bounds base p"
  shows "if \<exists>k\<in>touched t. contents p k \<noteq> contents base k
    then value_txn_commit no_oom heap (Some t) = (VALUE_ECONFLICT, heap, Some t)
    else (\<exists>p'. value_txn_commit no_oom heap (Some t) = (VALUE_OK, heap(a \<mapsto> p'), None) \<and> store_inv p' \<and> same_bounds p p' \<and>
        contents p' = (\<lambda>k. if k \<in> touched t then contents (txn_working t) k else contents p k)) \<or>
      (value_txn_commit no_oom heap (Some t) = (VALUE_ENOSPC, heap, Some t) \<and>
       capacity p < card (dom (contents p) \<union> (touched t \<inter> dom (contents (txn_working t)))))"
proof -
  have inv: "txn_inv base t" and a: "txn_target t = a" using txn_built_inv [OF built] by auto
  have conflict: "(\<exists>op\<in>set (txn_ops t). \<not> same_key p (txn_baseline t) (op_key op)) \<longleftrightarrow>
      (\<exists>k\<in>touched t. contents p k \<noteq> contents base k)"
    using inv by (auto simp: same_key_contents txn_inv_def)
  obtain q where q: "value_store_clone (clone_mem no_oom 0) None (Some p) = (VALUE_OK, Some q)" "store_inv q"
    "same_bounds p q" "contents q = contents p"
    using clone_spec [OF target(2)] clone_status(2) [OF target(2)] by (metis prod.collapse)
  have b: "same_bounds base q" using q(3) target(3) by simp
  note ap = apply_ops_spec [OF q(2) txn_ops_ok(1) [OF inv b, unfolded single_ops_def], folded single_ops_def]
  show ?thesis
  proof (cases "\<exists>k\<in>touched t. contents p k \<noteq> contents base k")
    case True
    then show ?thesis using conflict a target(1) by (simp add: value_txn_commit_def)
  next
    case False
    let ?S = "dom (contents p) \<union> (touched t \<inter> dom (contents (txn_working t)))"
    have commit: "value_txn_commit no_oom heap (Some t) = (case apply_ops (txn_working t) (txn_ops t) (Some q) of
        (VALUE_OK, staged') \<Rightarrow> (VALUE_OK, heap(a := staged'), None) | (r, _) \<Rightarrow> (r, heap, Some t))"
      using False conflict target(1) q(1)
      by (simp add: value_txn_commit_def a split: prod.splits value_status.splits)
    from ap show ?thesis
    proof
      assume "\<exists>p'. apply_ops (txn_working t) (txn_ops t) (Some q) = (VALUE_OK, Some p') \<and> store_inv p' \<and>
        same_bounds q p' \<and> contents p' = publish_map (single_ops t) (contents q)"
      then show ?thesis using False commit publish_single [OF inv] q(3,4) by auto
    next
      assume full: "(\<exists>h. apply_ops (txn_working t) (txn_ops t) (Some q) = (VALUE_ENOSPC, h)) \<and>
        (\<forall>S. finite S \<longrightarrow> dom (contents q) \<subseteq> S \<longrightarrow>
          (\<forall>op\<in>set (txn_ops t). contents (txn_working t) (op_key op) \<noteq> None \<longrightarrow> op_key op \<in> S) \<longrightarrow> capacity q < card S)"
      have "finite ?S" using finite_contents [OF target(2)] by simp
      moreover have "\<forall>op\<in>set (txn_ops t). contents (txn_working t) (op_key op) \<noteq> None \<longrightarrow> op_key op \<in> ?S" by auto
      ultimately have "capacity q < card ?S" using full q(4) by (metis Un_upper1)
      then have "capacity p < card ?S" using q(3) by simp
      then show ?thesis using False commit full by auto
    qed
  qed
qed

text \<open>
  C11. Committing a transaction whose target still has its bounds: a touched key whose value in the
  target differs from the baseline is a conflict; otherwise the commit publishes exactly the touched
  keys, keeping concurrent changes of all other keys, or lacks room. A commit that fails leaves the
  heap and the transaction unchanged. It does not lack room when the keys of the target and of the
  result together fit.
\<close>

theorem value_txn_commit_correct:
  assumes built: "txn_built base a t" and target: "heap a = Some p" "store_inv p" "same_bounds base p"
  shows "if \<exists>k\<in>touched t. contents p k \<noteq> contents base k
    then value_txn_commit no_oom heap (Some t) = (VALUE_ECONFLICT, heap, Some t)
    else (\<exists>p'. value_txn_commit no_oom heap (Some t) = (VALUE_OK, heap(a \<mapsto> p'), None) \<and> store_inv p' \<and>
        contents p' = (\<lambda>k. if k \<in> touched t then contents (txn_working t) k else contents p k)) \<or>
      (value_txn_commit no_oom heap (Some t) = (VALUE_ENOSPC, heap, Some t) \<and>
       capacity p < card (dom (contents p) \<union> (touched t \<inter> dom (contents (txn_working t)))))"
  using commit_cases [where heap = heap, OF assms] by (auto split: if_splits)

section \<open>The group commit\<close>

text \<open>The map that a group of disjoint transactions publishes.\<close>

definition group_result :: "value_txn list \<Rightarrow> (string \<rightharpoonup> string) \<Rightarrow> string \<rightharpoonup> string" where
  "group_result ts m k =
     (case List.find (\<lambda>t. k \<in> touched t) ts of Some t \<Rightarrow> contents (txn_working t) k | None \<Rightarrow> m k)"

fun disjoint_txns :: "value_txn list \<Rightarrow> bool" where
  "disjoint_txns [] = True"
| "disjoint_txns (t # ts) = ((\<forall>u\<in>set ts. touched t \<inter> touched u = {}) \<and> disjoint_txns ts)"

abbreviation stale :: "value_store \<Rightarrow> value_txn \<Rightarrow> bool" where
  "stale p t \<equiv> \<exists>k\<in>touched t. contents p k \<noteq> contents (txn_baseline t) k"

lemma group_conflict_iff: "group_conflict p ts \<longleftrightarrow> (\<exists>t\<in>set ts. stale p t) \<or> \<not> disjoint_txns ts"
proof (induction ts)
  case (Cons t ts)
  have head: "(\<exists>a\<in>set (txn_ops t). \<not> same_key p (txn_baseline t) (op_key a) \<or>
         (\<exists>u\<in>set ts. \<exists>b\<in>set (txn_ops u). op_key a = op_key b)) \<longleftrightarrow>
      stale p t \<or> (\<exists>u\<in>set ts. touched t \<inter> touched u \<noteq> {})"
    unfolding same_key_contents by blast
  show ?case unfolding group_conflict.simps head Cons.IH by auto
qed simp

lemma group_ops_Cons: "group_ops (t # ts) = single_ops t @ group_ops ts"
  by (simp add: group_ops_def single_ops_def)

lemma group_ops_keys: "snd ` set (group_ops ts) = (\<Union>t\<in>set ts. touched t)"
  by (induction ts) (simp_all add: group_ops_Cons single_ops_keys image_Un, simp add: group_ops_def)

lemma group_ops_distinct:
  assumes "disjoint_txns ts" and "\<forall>t\<in>set ts. distinct (map op_key (txn_ops t))"
  shows "distinct (map snd (group_ops ts))"
  using assms
proof (induction ts)
  case (Cons t ts)
  have "distinct (map snd (single_ops t))" using Cons.prems(2) by (simp add: single_ops_def comp_def)
  moreover have "snd ` set (single_ops t) \<inter> snd ` set (group_ops ts) = {}"
    using Cons.prems(1) by (auto simp: single_ops_keys group_ops_keys)
  ultimately show ?case using Cons by (auto simp: group_ops_Cons)
qed (simp add: group_ops_def)

lemma group_ops_member: "t \<in> set ts \<Longrightarrow> k \<in> touched t \<Longrightarrow> (txn_working t, k) \<in> set (group_ops ts)"
  by (auto simp: group_ops_def)

lemma publish_group:
  assumes "distinct (map snd (group_ops ts))"
  shows "publish_map (group_ops ts) m = group_result ts m"
proof
  fix k
  show "publish_map (group_ops ts) m k = group_result ts m k"
  proof (cases "List.find (\<lambda>t. k \<in> touched t) ts")
    case None
    then have "k \<notin> snd ` set (group_ops ts)" by (auto simp: group_ops_keys find_None_iff)
    then show ?thesis using None publish_map_out by (simp add: group_result_def)
  next
    case (Some t)
    then have "t \<in> set ts" "k \<in> touched t" by (auto simp: find_Some_iff in_set_conv_nth)
    then show ?thesis using Some publish_map_in [OF assms group_ops_member] by (simp add: group_result_def)
  qed
qed

lemma items_ok_group:
  assumes "heap a \<noteq> None" and "\<forall>t\<in>set ts. txn_target t = a" and "length ids = length ts"
    and "distinct (seen @ ids)" and "target = None \<or> target = Some a"
  shows "items_ok heap (zip ids (map Some ts)) seen target"
  using assms(2-)
proof (induction ts arbitrary: ids seen target)
  case (Cons t ts)
  then obtain i ids' where ids: "ids = i # ids'" by (cases ids) auto
  have "items_ok heap (zip ids' (map Some ts)) (seen @ [i]) (Some a)"
    using Cons.prems ids by (intro Cons.IH) auto
  then show ?case using Cons.prems assms(1) by (auto simp: ids)
qed simp

lemma group_ops_ok:
  assumes "\<forall>t\<in>set ts. \<exists>base. txn_inv base t \<and> same_bounds base p"
  shows "ops_ok p (group_ops ts)"
  using assms
proof (induction ts)
  case (Cons t ts)
  obtain base where "txn_inv base t" "same_bounds base p" using Cons.prems by auto
  then have "ops_ok p (single_ops t)" by (rule txn_ops_ok(1))
  moreover have "ops_ok p (group_ops ts)" using Cons by simp
  ultimately show ?case unfolding group_ops_Cons ops_ok_def set_append by blast
qed (simp add: group_ops_def ops_ok_def)

lemma commit_group_cases:
  assumes built: "\<forall>t\<in>set ts. \<exists>base. txn_built base a t \<and> same_bounds base p"
    and target: "heap a = Some p" "store_inv p"
    and rows: "ts \<noteq> []" "length ts \<le> size_max div 8" "length ids = length ts" "distinct ids"
  shows "if (\<exists>t\<in>set ts. stale p t) \<or> \<not> disjoint_txns ts
    then value_txn_commit_group no_oom heap (zip ids (map Some ts)) = (VALUE_ECONFLICT, heap, map Some ts)
    else if card (dom (group_result ts (contents p))) \<le> capacity p
    then \<exists>p'. value_txn_commit_group no_oom heap (zip ids (map Some ts)) =
        (VALUE_OK, heap(a \<mapsto> p'), map (\<lambda>_. None) ts) \<and> store_inv p' \<and> contents p' = group_result ts (contents p)
    else value_txn_commit_group no_oom heap (zip ids (map Some ts)) = (VALUE_ENOSPC, heap, map Some ts)"
proof -
  let ?rows = "zip ids (map Some ts)"
  have tgt: "\<forall>t\<in>set ts. txn_target t = a" and inv: "\<forall>t\<in>set ts. \<exists>base. txn_inv base t \<and> same_bounds base p"
    using built txn_built_inv by blast+
  have map_rows: "map snd ?rows = map Some ts" "map (the \<circ> snd) ?rows = ts" "?rows \<noteq> []"
    using rows by (auto simp: comp_def map_snd_zip zip_eq_Nil_iff intro!: nth_equalityI)
  have aborted: "map (value_txn_abort \<circ> snd) ?rows = map (\<lambda>_. None) ts"
    using rows(3) by (auto simp: value_txn_abort_def intro!: nth_equalityI)
  have ok: "items_ok heap ?rows [] None" using items_ok_group [OF _ tgt, of heap ids "[]" None] target(1) rows by auto
  have ids: "ids \<noteq> []" using rows by auto
  have hd: "txn_target (hd ts) = a" using tgt rows(1) by simp
  obtain q where q: "value_store_clone (clone_mem no_oom 0) None (Some p) = (VALUE_OK, Some q)" "store_inv q"
    "same_bounds p q" "contents q = contents p"
    using clone_spec [OF target(2)] clone_status(2) [OF target(2)] by (metis prod.collapse)
  have call: "value_txn_commit_group no_oom heap ?rows =
    (if group_conflict p ts then (VALUE_ECONFLICT, heap, map Some ts)
     else case group_delete (group_ops ts) (Some q) of
       (VALUE_OK, h) \<Rightarrow> (case group_write (group_ops ts) h of
           (VALUE_OK, h') \<Rightarrow> (VALUE_OK, heap(a := h'), map (\<lambda>_. None) ts)
         | (r, _) \<Rightarrow> (r, heap, map Some ts))
     | (r, _) \<Rightarrow> (r, heap, map Some ts))"
    using rows(2,3) ok q(1) target(1) unfolding value_txn_commit_group_def Let_def map_rows(1,2) aborted hd
    by (simp add: zip_eq_Nil_iff ids rows(1) split: prod.splits value_status.splits)
  show ?thesis
  proof (cases "group_conflict p ts")
    case True
    then show ?thesis using call group_conflict_iff [of p ts] by simp
  next
    case False
    have oks: "ops_ok q (group_ops ts)" using group_ops_ok [OF inv] ops_ok_bounds [OF q(3)] by simp
    have dist: "distinct (map snd (group_ops ts))"
      using False inv by (intro group_ops_distinct) (auto simp: group_conflict_iff txn_inv_def)
    obtain h where h: "group_delete (group_ops ts) (Some q) = (VALUE_OK, h)"
      using group_delete_spec [OF q(2) oks] by blast
    have "value_txn_commit_group no_oom heap ?rows = (case group_write (group_ops ts) h of
           (VALUE_OK, h') \<Rightarrow> (VALUE_OK, heap(a := h'), map (\<lambda>_. None) ts)
         | (r, _) \<Rightarrow> (r, heap, map Some ts))" using call False h by simp
    then show ?thesis using group_publish [OF q(2) oks dist h] publish_group [OF dist] q(3,4) False
      by (auto simp: group_conflict_iff split: if_splits)
  qed
qed

text \<open>
  C10. Group commit: transactions on one target, each begun and built in any way, are published all or
  not at all. They conflict exactly when a touched key of one of them is stale in the target or two of
  them touch the same key. Without a conflict, and because deletions go first, the group succeeds
  exactly when the resulting map fits the capacity: it binds every touched key as in the transaction
  that touched it and every other key as before. A failure changes neither the heap nor a transaction.
\<close>

theorem value_txn_commit_group_correct:
  assumes built: "\<forall>t\<in>set ts. \<exists>base. txn_built base a t \<and> same_bounds base p"
    and target: "heap a = Some p" "store_inv p"
    and rows: "ts \<noteq> []" "length ts \<le> size_max div 8" "length ids = length ts" "distinct ids"
  shows "if (\<exists>t\<in>set ts. stale p t) \<or> \<not> disjoint_txns ts
    then value_txn_commit_group no_oom heap (zip ids (map Some ts)) = (VALUE_ECONFLICT, heap, map Some ts)
    else if card (dom (group_result ts (contents p))) \<le> capacity p
    then \<exists>p'. value_txn_commit_group no_oom heap (zip ids (map Some ts)) =
        (VALUE_OK, heap(a \<mapsto> p'), map (\<lambda>_. None) ts) \<and> store_inv p' \<and> contents p' = group_result ts (contents p)
    else value_txn_commit_group no_oom heap (zip ids (map Some ts)) = (VALUE_ENOSPC, heap, map Some ts)"
  using assms by (intro commit_group_cases)

text \<open>
  C12. The group commit of a single transaction does whatever its single commit does, and more: both
  report a conflict in the same cases, a single commit that succeeds has a group commit that succeeds
  with the same contents, and only the single commit can lack room for a result that fits.
\<close>

theorem group_commit_subsumes_single:
  assumes built: "txn_built base a t" and target: "heap a = Some p" "store_inv p" "same_bounds base p"
  shows "case value_txn_commit no_oom heap (Some t) of (st, h, u) \<Rightarrow>
    case value_txn_commit_group no_oom heap [(i, Some t)] of (gst, gh, gu) \<Rightarrow>
      (st = VALUE_ECONFLICT \<longleftrightarrow> gst = VALUE_ECONFLICT) \<and> (gst = VALUE_ENOSPC \<longrightarrow> st = VALUE_ENOSPC) \<and>
      (if st = VALUE_OK
       then gst = VALUE_OK \<and> gu = [u] \<and> (\<exists>p' q'. h = heap(a \<mapsto> p') \<and> gh = heap(a \<mapsto> q') \<and> contents q' = contents p')
       else h = heap \<and> u = Some t)"
proof -
  have inv: "txn_inv base t" using txn_built_inv [OF built] by auto
  have stale: "stale p t \<longleftrightarrow> (\<exists>k\<in>touched t. contents p k \<noteq> contents base k)" using inv by (auto simp: txn_inv_def)
  have result: "group_result [t] (contents p) = (\<lambda>k. if k \<in> touched t then contents (txn_working t) k else contents p k)"
    by (auto simp: group_result_def)
  have one: "length [t] \<le> size_max div 8" by (simp add: size_max_def)
  have group: "if stale p t then value_txn_commit_group no_oom heap [(i, Some t)] = (VALUE_ECONFLICT, heap, [Some t])
    else if card (dom (group_result [t] (contents p))) \<le> capacity p
    then \<exists>p'. value_txn_commit_group no_oom heap [(i, Some t)] = (VALUE_OK, heap(a \<mapsto> p'), [None]) \<and> contents p' = group_result [t] (contents p)
    else value_txn_commit_group no_oom heap [(i, Some t)] = (VALUE_ENOSPC, heap, [Some t])"
  proof -
    have "\<forall>t'\<in>set [t]. \<exists>base. txn_built base a t' \<and> same_bounds base p" using built target(3) by auto
    from commit_group_cases [where heap = heap and ids = "[i]", OF this target(1,2) _ one]
    show ?thesis by (auto split: if_splits)
  qed
  show ?thesis
  proof (cases "stale p t")
    case True
    then show ?thesis using group commit_cases [where heap = heap, OF assms] stale by simp
  next
    case False
    then have "(\<exists>p'. value_txn_commit no_oom heap (Some t) = (VALUE_OK, heap(a \<mapsto> p'), None) \<and> store_inv p' \<and> same_bounds p p' \<and>
        contents p' = group_result [t] (contents p)) \<or> value_txn_commit no_oom heap (Some t) = (VALUE_ENOSPC, heap, Some t)"
      using commit_cases [where heap = heap, OF assms] stale unfolding result by auto
    then show ?thesis
    proof (elim disjE exE conjE)
      fix p' assume ok: "value_txn_commit no_oom heap (Some t) = (VALUE_OK, heap(a \<mapsto> p'), None)" "store_inv p'"
        "capacity p' = capacity p" "contents p' = group_result [t] (contents p)"
      have "card (dom (group_result [t] (contents p))) \<le> capacity p" using card_contents [OF ok(2)] used_le_capacity [OF ok(2)] ok(3,4) by simp
      then obtain q' where "value_txn_commit_group no_oom heap [(i, Some t)] = (VALUE_OK, heap(a \<mapsto> q'), [None])"
        "contents q' = group_result [t] (contents p)" using group False by auto
      then have "(\<exists>p'' q''. heap(a \<mapsto> p') = heap(a \<mapsto> p'') \<and> heap(a \<mapsto> q') = heap(a \<mapsto> q'') \<and> contents q'' = contents p'')"
        using ok(4) by metis
      with \<open>value_txn_commit_group no_oom heap [(i, Some t)] = _\<close> show ?thesis using ok(1) by simp
    qed (use group False in \<open>auto split: if_splits\<close>)
  qed
qed

section \<open>A concrete run\<close>

text \<open>A store of three slots holding a, b and x.\<close>

definition full_store :: value_store where
  "full_store = \<lparr>capacity = 3, max_key_bytes = 4, max_value_bytes = 4, used = 3, store_entries =
     [\<lparr>ekey = ''a'', evalue = ''1'', occupied = True\<rparr>, \<lparr>ekey = ''b'', evalue = ''2'', occupied = True\<rparr>,
      \<lparr>ekey = ''x'', evalue = ''3'', occupied = True\<rparr>]\<rparr>"

definition full_heap :: store_heap where
  "full_heap = (\<lambda>_. None)(5 := Some full_store)"

text \<open>Calls in sequence on one transaction handle; the status of each call is dropped.\<close>

definition txn_script :: "value_txn option" where
  "txn_script = (let t0 = snd (value_txn_begin no_oom full_heap None 5);
     t1 = snd (value_txn_erase t0 ''a''); t2 = snd (value_txn_set t1 ''c'' ''7'');
     t3 = snd (value_txn_erase t2 ''c''); t4 = snd (value_txn_set t3 ''a'' ''8'');
     t5 = snd (value_txn_erase t4 ''b'') in snd (value_txn_set t5 ''c'' ''9''))"

lemmas store_eval = value_store_set_def value_store_erase_def value_store_contains_def erase_if_present_def
  bounded_length_spec c_text_def find_entry_def first_free_def free_entry_def Let_def

lemma upt_0_3: "[0..<3] = [0, 1, 2::nat]"
  by (simp add: upt_rec)

lemma full_store_clone: "value_store_clone no_oom None (Some full_store) = (VALUE_OK, Some full_store)"
proof -
  have "value_store_init no_oom None 3 4 4 = (VALUE_OK, Some \<lparr>capacity = 3, max_key_bytes = 4,
      max_value_bytes = 4, used = 0, store_entries = [free_entry, free_entry, free_entry]\<rparr>)"
  proof -
    have "init_ok 3 4 4" by (simp add: init_ok_def size_max_def sizeof_value_entry_def)
    moreover have "replicate 3 free_entry = [free_entry, free_entry, free_entry]" by (simp add: eval_nat_numeral)
    ultimately show ?thesis unfolding value_store_init_def init_ok_def by auto
  qed
  then show ?thesis
    by (simp add: value_store_clone_def full_store_def copy_entry_def upt_0_3 numeral_2_eq_2)
qed

abbreviation script_working :: value_store where
  "script_working \<equiv> \<lparr>capacity = 3, max_key_bytes = 4, max_value_bytes = 4, used = 3, store_entries =
       [\<lparr>ekey = ''a'', evalue = ''8'', occupied = True\<rparr>, \<lparr>ekey = ''c'', evalue = ''9'', occupied = True\<rparr>,
        \<lparr>ekey = ''x'', evalue = ''3'', occupied = True\<rparr>]\<rparr>"

lemmas txn_eval = value_txn_set_def value_txn_erase_def txn_record_def txn_find_op_def store_eval

lemma script_values:
  "txn_script = Some \<lparr>txn_target = 5, txn_baseline = full_store, txn_working = script_working,
     op_capacity = 3, txn_ops = [\<lparr>op_key = ''a'', op_baseline = Some ''1''\<rparr>, \<lparr>op_key = ''c'', op_baseline = None\<rparr>,
       \<lparr>op_key = ''b'', op_baseline = Some ''2''\<rparr>]\<rparr>"
proof -
  have "value_txn_begin no_oom full_heap None 5 = (VALUE_OK, Some \<lparr>txn_target = 5, txn_baseline = full_store,
      txn_working = full_store, op_capacity = 3, txn_ops = []\<rparr>)"
    by (simp add: value_txn_begin_def full_heap_def full_store_clone) (simp add: full_store_def)
  then show ?thesis
    by (simp add: txn_script_def txn_eval full_store_def upt_0_3 numeral_2_eq_2)
qed


lemma full_store_inv: "store_inv full_store"
proof -
  have "init_ok 3 4 4" by (simp add: init_ok_def size_max_def sizeof_value_entry_def)
  then show ?thesis
    by (simp add: store_inv_def full_store_def entry_ok_def less_Suc_eq numeral_3_eq_3)
qed

lemma full_contents: "contents full_store = [''a'' \<mapsto> ''1'', ''b'' \<mapsto> ''2'', ''x'' \<mapsto> ''3'']"
  by (auto simp: fun_eq_iff contents_def find_entry_def full_store_def upt_0_3)

lemma script_contents: "contents script_working = [''a'' \<mapsto> ''8'', ''c'' \<mapsto> ''9'', ''x'' \<mapsto> ''3'']"
  by (auto simp: fun_eq_iff contents_def find_entry_def upt_0_3)

lemma script_parts:
  assumes "txn_script = Some t"
  shows "touched t = {''a'', ''b'', ''c''}" "txn_working t = script_working" "txn_baseline t = full_store"
  using assms [unfolded script_values] by auto

lemma built_set_step:
  assumes "txn_built base a t"
  shows "\<exists>t'. snd (value_txn_set (Some t) k v) = Some t' \<and> txn_built base a t'"
proof -
  obtain r h where call: "value_txn_set (Some t) k v = (r, h)" by (cases "value_txn_set (Some t) k v")
  then obtain t' where "h = Some t'" using txn_set_inv txn_built_inv [OF assms] by blast
  then show ?thesis using call built_set [OF assms] by auto
qed

lemma built_erase_step:
  assumes "txn_built base a t"
  shows "\<exists>t'. snd (value_txn_erase (Some t) k) = Some t' \<and> txn_built base a t'"
proof -
  obtain r h where call: "value_txn_erase (Some t) k = (r, h)" by (cases "value_txn_erase (Some t) k")
  then obtain t' where "h = Some t'" using txn_erase_inv txn_built_inv [OF assms] by blast
  then show ?thesis using call built_erase [OF assms] by auto
qed

lemma script_built: "\<exists>t. txn_script = Some t \<and> txn_built full_store 5 t"
proof -
  obtain t0 where t0: "value_txn_begin no_oom full_heap None 5 = (VALUE_OK, Some t0)"
    by (simp add: value_txn_begin_def full_heap_def full_store_clone)
  have b0: "txn_built full_store 5 t0" by (rule built_begin [OF full_store_inv _ t0]) (simp add: full_heap_def)
  obtain t1 where t1: "snd (value_txn_erase (Some t0) ''a'') = Some t1" "txn_built full_store 5 t1"
    using built_erase_step [OF b0] by blast
  obtain t2 where t2: "snd (value_txn_set (Some t1) ''c'' ''7'') = Some t2" "txn_built full_store 5 t2"
    using built_set_step [OF t1(2)] by blast
  obtain t3 where t3: "snd (value_txn_erase (Some t2) ''c'') = Some t3" "txn_built full_store 5 t3"
    using built_erase_step [OF t2(2)] by blast
  obtain t4 where t4: "snd (value_txn_set (Some t3) ''a'' ''8'') = Some t4" "txn_built full_store 5 t4"
    using built_set_step [OF t3(2)] by blast
  obtain t5 where t5: "snd (value_txn_erase (Some t4) ''b'') = Some t5" "txn_built full_store 5 t5"
    using built_erase_step [OF t4(2)] by blast
  obtain t6 where t6: "snd (value_txn_set (Some t5) ''c'' ''9'') = Some t6" "txn_built full_store 5 t6"
    using built_set_step [OF t5(2)] by blast
  show ?thesis using t0 t1(1) t2(1) t3(1) t4(1) t5(1) t6 by (simp add: txn_script_def Let_def)
qed

theorem value_txn_isolated_witness:
  "\<exists>t. txn_script = Some t \<and> contents (txn_working t) ''x'' = contents full_store ''x'' \<and>
     length (txn_ops t) \<le> capacity full_store"
proof -
  obtain t where t: "txn_script = Some t" "txn_built full_store 5 t" using script_built by blast
  then have "''x'' \<notin> touched t" using script_parts [OF t(1)] by simp
  then show ?thesis using t(1) value_txn_isolated [OF t(2)] by auto
qed

theorem value_txn_commit_correct_witness:
  "\<exists>t. txn_script = Some t \<and> (fst (value_txn_commit no_oom full_heap (Some t)) = VALUE_OK \<or>
     value_txn_commit no_oom full_heap (Some t) = (VALUE_ENOSPC, full_heap, Some t))"
proof -
  obtain t where t: "txn_script = Some t" "txn_built full_store 5 t" using script_built by blast
  have heap: "full_heap 5 = Some full_store" by (simp add: full_heap_def)
  show ?thesis using t(1) value_txn_commit_correct [of full_store 5 t full_heap full_store] t(2) heap full_store_inv by (auto split: if_splits)
qed

theorem value_txn_commit_group_correct_witness:
  "\<exists>t p'. txn_script = Some t \<and>
     value_txn_commit_group no_oom full_heap [(0, Some t)] = (VALUE_OK, full_heap(5 \<mapsto> p'), [None]) \<and>
     contents p' = [''a'' \<mapsto> ''8'', ''c'' \<mapsto> ''9'', ''x'' \<mapsto> ''3'']"
proof -
  obtain t where t: "txn_script = Some t" "txn_built full_store 5 t" using script_built by blast
  have heap: "full_heap 5 = Some full_store" by (simp add: full_heap_def)
  have built: "\<forall>u\<in>set [t]. \<exists>base. txn_built base 5 u \<and> same_bounds base full_store" using t(2) by auto
  note parts = script_parts [OF t(1)]
  have res: "group_result [t] (contents full_store) = [''a'' \<mapsto> ''8'', ''c'' \<mapsto> ''9'', ''x'' \<mapsto> ''3'']"
    by (auto simp: fun_eq_iff group_result_def parts script_contents full_contents)
  have fits: "card (dom (group_result [t] (contents full_store))) \<le> capacity full_store"
    unfolding res by (simp add: full_store_def)
  have free: "\<not> ((\<exists>u\<in>set [t]. stale full_store u) \<or> \<not> disjoint_txns [t])" by (simp add: parts)
  have one: "length [t] \<le> size_max div 8" by (simp add: size_max_def)
  note group = value_txn_commit_group_correct [of "[t]" 5 full_store full_heap "[0]", OF built heap full_store_inv _ one]
  have "\<exists>p'. value_txn_commit_group no_oom full_heap [(0, Some t)] = (VALUE_OK, full_heap(5 \<mapsto> p'), [None]) \<and>
     contents p' = [''a'' \<mapsto> ''8'', ''c'' \<mapsto> ''9'', ''x'' \<mapsto> ''3'']"
    using group free fits res by (simp, blast)
  with t(1) show ?thesis by blast
qed

theorem group_commit_subsumes_single_witness:
  "\<exists>t. txn_script = Some t \<and> fst (value_txn_commit_group no_oom full_heap [(0, Some t)]) = VALUE_OK \<and>
     fst (value_txn_commit no_oom full_heap (Some t)) \<noteq> VALUE_ECONFLICT"
proof -
  obtain t where t: "txn_script = Some t" "txn_built full_store 5 t" using script_built by blast
  have heap: "full_heap 5 = Some full_store" by (simp add: full_heap_def)
  have "fst (value_txn_commit_group no_oom full_heap [(0, txn_script)]) = VALUE_OK"
    by (simp add: script_values value_txn_commit_group_def full_heap_def full_store_clone same_key_contents size_max_def group_ops_def)
      (simp add: full_store_def store_eval upt_0_3 numeral_2_eq_2 group_ops_def)
  then show ?thesis using t group_commit_subsumes_single [of full_store 5 t full_heap full_store 0] heap full_store_inv
    by (auto split: prod.splits)
qed

text \<open>
  The single commit applies operations in the order of their first recording, not deletions first: the
  transaction of the example, whose target nobody else changed, fails for lack of room, while its group
  commit succeeds.
\<close>

lemma value_txn_commit_order_sensitive:
  "fst (value_txn_commit no_oom full_heap txn_script) = VALUE_ENOSPC \<and>
   fst (value_txn_commit_group no_oom full_heap [(0, txn_script)]) = VALUE_OK"
proof
  show "fst (value_txn_commit no_oom full_heap txn_script) = VALUE_ENOSPC"
    by (simp add: script_values value_txn_commit_def full_heap_def full_store_clone same_key_contents)
      (simp add: full_store_def store_eval upt_0_3 numeral_2_eq_2)
  obtain t where t: "txn_script = Some t" "txn_built full_store 5 t" using script_built by blast
  show "fst (value_txn_commit_group no_oom full_heap [(0, txn_script)]) = VALUE_OK"
    by (simp add: script_values value_txn_commit_group_def full_heap_def full_store_clone same_key_contents
        size_max_def group_ops_def)
      (simp add: full_store_def store_eval upt_0_3 numeral_2_eq_2 group_ops_def)
qed

end
