(* ===== verification/Workflow_Parallel.thy ===== *)
theory Workflow_Parallel
  imports Workflow_Task_Registry Value_Txn
begin

text \<open>
  The publication of a parallel cohort: \<open>actions/c11/workflow_parallel_commit.c\<close>, which stages the
  task outputs in the registry, commits the value transactions as one group and then publishes the
  outputs, and \<open>workflow_parallel_process_guard.c\<close>, which allows that only after the worker callbacks
  have settled and every native process has been reaped. The lemmas show that a commit publishes
  everything or nothing, that the guard opens only when all its conditions hold, and that the
  recovery gate never forgets an error, an owner or a publication.

  The executor and the process retainers belong to the Salts libraries. What one call observes of
  them is a parameter: the executor's statistics and its idle acknowledgment, and for every retainer
  the status, the number of reaped and the number of pending processes.
\<close>

section \<open>The commit\<close>

datatype parallel_status =
    PARALLEL_OK | PARALLEL_INVALID | PARALLEL_CONFLICT | PARALLEL_CAPACITY | PARALLEL_MEMORY
  | PARALLEL_BUSY | PARALLEL_INVARIANT | PARALLEL_RECOVERY | PARALLEL_CANCELLED | PARALLEL_FAILED

fun registry_status :: "salts_status \<Rightarrow> parallel_status" where
  "registry_status SALTS_OK = PARALLEL_OK"
| "registry_status SALTS_ENOMEM = PARALLEL_MEMORY"
| "registry_status SALTS_EBUSY = PARALLEL_BUSY"
| "registry_status _ = PARALLEL_INVALID"

fun value_parallel_status :: "value_status \<Rightarrow> parallel_status" where
  "value_parallel_status VALUE_OK = PARALLEL_OK"
| "value_parallel_status VALUE_ECONFLICT = PARALLEL_CONFLICT"
| "value_parallel_status VALUE_ENOSPC = PARALLEL_CAPACITY"
| "value_parallel_status VALUE_ENOBUFS = PARALLEL_CAPACITY"
| "value_parallel_status VALUE_ENOMEM = PARALLEL_MEMORY"
| "value_parallel_status _ = PARALLEL_INVALID"

text \<open>
  What a commit changes: the registry, the value stores, and the caller's transactions, each with the
  identity of its implementation object.
\<close>

record 'j cohort_state =
  co_registry :: "'j task_registry"
  co_heap :: store_heap
  co_txns :: "(nat \<times> value_txn option) list"

text \<open>The allocators of the registry and of the transactions.\<close>

record commit_mem =
  registry_mem :: "registry_site allocator"
  txn_mem :: "txn_site allocator"

abbreviation set_handles :: "(nat \<times> value_txn option) list \<Rightarrow> value_txn option list \<Rightarrow> (nat \<times> value_txn option) list" where
  "set_handles rows hs \<equiv> zip (map fst rows) hs"

text \<open>\<open>branch_count\<close> is the number of transactions; that many rows of the update array are read.\<close>

definition parallel_commit ::
  "commit_mem \<Rightarrow> 'j json_api \<Rightarrow> (nat \<times> 'j) list \<Rightarrow> 'j cohort_state \<Rightarrow> parallel_status \<times> 'j cohort_state" where
  "parallel_commit mem J updates w =
     (let n = length (co_txns w) in
      if n = 0 \<or> n > registry_count (co_registry w) then (PARALLEL_INVALID, w)
      else case prepare_output_group (registry_mem mem) J (co_registry w) (take n updates) of
        Inl st \<Rightarrow> (registry_status st, w)
      | Inr staged \<Rightarrow>
          (case value_txn_commit_group (txn_mem mem) (co_heap w) (co_txns w) of (vst, heap', hs) \<Rightarrow>
            let w1 = w\<lparr>co_heap := heap', co_txns := set_handles (co_txns w) hs\<rparr> in
            if vst \<noteq> VALUE_OK then (value_parallel_status vst, w1)
            else case publish_output_group (co_registry w) (Some staged) of (st, r', grp) \<Rightarrow>
              if st \<noteq> SALTS_OK then (PARALLEL_INVARIANT, w1\<lparr>co_registry := r'\<rparr>)
              else (PARALLEL_OK, w1\<lparr>co_registry := r'\<rparr>)))"

section \<open>The recovery gate\<close>

definition COHORT_MAX_RETAINERS :: nat where "COHORT_MAX_RETAINERS = 32"
definition COHORT_GATE_MARKER :: nat where "COHORT_GATE_MARKER = 0x50435231"

text \<open>
  \<open>last_pending\<close> is \<open>None\<close> for \<open>SIZE_MAX\<close>, not yet observed; \<open>bound_owners\<close> holds the bound
  wrappers with their implementations, so that \<open>bound_count\<close> is its length.
\<close>

record process_gate =
  marker :: nat
  first_native_error :: salts_status
  last_pending :: "nat option"
  sealed :: bool
  bound_owners :: "(nat \<times> nat) list"

text \<open>A retainer pointer is \<open>None\<close> for NULL, else the wrapper's address and its implementation.\<close>

type_synonym retainer = "(nat \<times> nat option) option"

definition recovery_init :: "process_gate \<Rightarrow> parallel_status \<times> process_gate" where
  "recovery_init gate =
     (if marker gate \<noteq> 0 \<or> first_native_error gate \<noteq> SALTS_OK then (PARALLEL_INVALID, gate)
      else (PARALLEL_OK, gate\<lparr>marker := COHORT_GATE_MARKER, sealed := False, last_pending := None\<rparr>))"

definition valid_cohort_gate :: "process_gate \<Rightarrow> bool" where
  "valid_cohort_gate gate \<longleftrightarrow> marker gate = COHORT_GATE_MARKER"

text \<open>The loop of \<open>validate_retainer_group\<close>, with the owners seen so far.\<close>

fun owners_distinct :: "retainer list \<Rightarrow> (nat \<times> nat) list \<Rightarrow> bool" where
  "owners_distinct [] seen = True"
| "owners_distinct (None # os) seen = False"
| "owners_distinct (Some (a, None) # os) seen = False"
| "owners_distinct (Some (a, Some i) # os) seen =
     (if a \<in> fst ` set seen \<or> i \<in> snd ` set seen then False else owners_distinct os (seen @ [(a, i)]))"

definition validate_retainer_group :: "retainer list \<Rightarrow> nat \<Rightarrow> bool" where
  "validate_retainer_group owners max_steps \<longleftrightarrow>
     owners \<noteq> [] \<and> max_steps \<noteq> 0 \<and> length owners \<le> COHORT_MAX_RETAINERS \<and> owners_distinct owners []"

text \<open>The identity of a validated retainer.\<close>

definition identity :: "retainer \<Rightarrow> nat \<times> nat" where
  "identity r = (case r of Some (a, Some i) \<Rightarrow> (a, i) | _ \<Rightarrow> (0, 0))"

definition validate_bound_owners :: "process_gate \<Rightarrow> retainer list \<Rightarrow> bool" where
  "validate_bound_owners gate owners \<longleftrightarrow> bound_owners gate = [] \<or> bound_owners gate = map identity owners"

definition bind_cohort_owners :: "process_gate \<Rightarrow> retainer list \<Rightarrow> process_gate option" where
  "bind_cohort_owners gate owners =
     (if \<not> validate_bound_owners gate owners then None
      else if bound_owners gate \<noteq> [] then Some gate
      else Some (gate\<lparr>bound_owners := map identity owners\<rparr>))"

text \<open>What the retainers do: status, reaped and pending of \<open>cflow_process_retainer_run_ready\<close>.\<close>

type_synonym run_ready = "nat \<times> nat \<Rightarrow> nat \<Rightarrow> salts_status \<times> nat \<times> nat"

record sweep =
  sw_gate :: process_gate
  sw_pending :: nat
  sw_reaped :: nat
  sw_result :: parallel_status

definition sweep_status :: "salts_status \<Rightarrow> nat \<Rightarrow> sweep \<Rightarrow> sweep" where
  "sweep_status st pending s =
     (if st \<noteq> SALTS_OK \<and> st \<noteq> SALTS_EBUSY
      then s\<lparr>sw_gate := (if first_native_error (sw_gate s) = SALTS_OK
                         then (sw_gate s)\<lparr>first_native_error := st\<rparr> else sw_gate s),
             sw_result := PARALLEL_RECOVERY\<rparr>
      else if sw_result s = PARALLEL_OK \<and> (st = SALTS_EBUSY \<or> pending \<noteq> 0)
      then s\<lparr>sw_result := PARALLEL_BUSY\<rparr>
      else s)"

text \<open>The sweep over the owners; \<open>Inl\<close> is the early return on an overflowing total.\<close>

fun sweep_owners :: "run_ready \<Rightarrow> nat \<Rightarrow> retainer list \<Rightarrow> sweep \<Rightarrow> process_gate + sweep" where
  "sweep_owners run max_steps [] s = Inr s"
| "sweep_owners run max_steps (r # rs) s =
     (case run (identity r) max_steps of (st, reaped, pending) \<Rightarrow>
        if pending > size_max - sw_pending s \<or> reaped > size_max - sw_reaped s then Inl (sw_gate s)
        else sweep_owners run max_steps rs (sweep_status st pending
               (s\<lparr>sw_pending := sw_pending s + pending, sw_reaped := sw_reaped s + reaped\<rparr>)))"

text \<open>The status, the gate, the pending count and the reaped count; \<open>None\<close> pending is \<open>SIZE_MAX\<close>.\<close>

definition observed_pending :: "process_gate \<Rightarrow> nat option" where
  "observed_pending gate = (if valid_cohort_gate gate then last_pending gate else None)"

definition drain_process_retainers ::
  "run_ready \<Rightarrow> process_gate \<Rightarrow> retainer list \<Rightarrow> nat \<Rightarrow> parallel_status \<times> process_gate \<times> nat option \<times> nat" where
  "drain_process_retainers run gate owners max_steps =
     (if \<not> valid_cohort_gate gate \<or> sealed gate \<or> \<not> validate_retainer_group owners max_steps
      then (PARALLEL_INVALID, gate, observed_pending gate, 0)
      else case bind_cohort_owners gate owners of
        None \<Rightarrow> (PARALLEL_INVALID, gate, observed_pending gate, 0)
      | Some bound \<Rightarrow>
          (case sweep_owners run max_steps owners
                  \<lparr>sw_gate = bound, sw_pending = 0, sw_reaped = 0, sw_result = PARALLEL_OK\<rparr> of
             Inl g \<Rightarrow> (PARALLEL_INVALID, g, observed_pending gate, 0)
           | Inr s \<Rightarrow>
               let g = (sw_gate s)\<lparr>last_pending := Some (sw_pending s)\<rparr> in
               (if first_native_error g \<noteq> SALTS_OK then PARALLEL_RECOVERY else sw_result s,
                g, Some (sw_pending s), sw_reaped s)))"

section \<open>The executor\<close>

datatype executor_lifecycle = EXECUTOR_OPEN | EXECUTOR_CLOSING | EXECUTOR_CLOSED
datatype wait_status = WAIT_IDLE | WAIT_PENDING | WAIT_WOULD_BLOCK | WAIT_ERROR

record executor_stats =
  accepted :: nat
  rejected_full :: nat
  rejected_closed :: nat
  rejected_would_block :: nat
  cancelled :: nat
  es_completed :: nat
  queued :: nat
  running :: nat
  lifecycle :: executor_lifecycle

text \<open>What one call observes of the executor: its statistics, when it gives them, then its idle status.\<close>

record executor_view =
  get_stats :: "executor_stats option"
  wait_idle :: wait_status

text \<open>\<open>PARALLEL_OK\<close> when the callbacks of all branches have settled successfully.\<close>

definition executor_settled :: "executor_view \<Rightarrow> nat \<Rightarrow> parallel_status" where
  "executor_settled ex branch_count =
     (case get_stats ex of
        None \<Rightarrow> PARALLEL_INVALID
      | Some st \<Rightarrow>
          if accepted st \<noteq> branch_count \<or> rejected_full st \<noteq> 0 \<or> rejected_closed st \<noteq> 0 \<or> rejected_would_block st \<noteq> 0
          then PARALLEL_INVALID
          else if cancelled st \<noteq> 0 then PARALLEL_CANCELLED
          else if lifecycle st \<noteq> EXECUTOR_CLOSED \<or> queued st \<noteq> 0 \<or> running st \<noteq> 0 \<or> es_completed st \<noteq> accepted st
          then PARALLEL_BUSY
          else if wait_idle ex = WAIT_PENDING \<or> wait_idle ex = WAIT_WOULD_BLOCK then PARALLEL_BUSY
          else if wait_idle ex \<noteq> WAIT_IDLE then PARALLEL_INVALID
          else PARALLEL_OK)"

section \<open>Guarded commits\<close>

text \<open>With one retainer; the third component is \<open>*out_pending\<close>.\<close>

definition commit_after_process_drain ::
  "commit_mem \<Rightarrow> 'j json_api \<Rightarrow> run_ready \<Rightarrow> (nat \<times> 'j) list \<Rightarrow> retainer \<Rightarrow> nat \<Rightarrow> 'j cohort_state \<Rightarrow>
     parallel_status \<times> 'j cohort_state \<times> nat" where
  "commit_after_process_drain mem J run updates owner max_steps w =
     (if co_txns w = [] \<or> \<not> owners_distinct [owner] [] \<or> max_steps = 0 then (PARALLEL_INVALID, w, 0)
      else case run (identity owner) max_steps of (st, reaped, pending) \<Rightarrow>
        if st \<noteq> SALTS_OK \<and> st \<noteq> SALTS_EBUSY then (PARALLEL_RECOVERY, w, pending)
        else if st = SALTS_EBUSY \<or> pending \<noteq> 0 then (PARALLEL_BUSY, w, pending)
        else (case parallel_commit mem J updates w of (r, w') \<Rightarrow> (r, w', pending)))"

definition commit_after_cflow_and_process_drain ::
  "commit_mem \<Rightarrow> 'j json_api \<Rightarrow> run_ready \<Rightarrow> executor_view \<Rightarrow> (nat \<times> 'j) list \<Rightarrow> retainer \<Rightarrow> nat \<Rightarrow> 'j cohort_state \<Rightarrow>
     parallel_status \<times> 'j cohort_state \<times> nat" where
  "commit_after_cflow_and_process_drain mem J run ex updates owner max_steps w =
     (if co_txns w = [] \<or> \<not> owners_distinct [owner] [] \<or> max_steps = 0 then (PARALLEL_INVALID, w, 0)
      else case executor_settled ex (length (co_txns w)) of
        PARALLEL_OK \<Rightarrow> commit_after_process_drain mem J run updates owner max_steps w
      | st \<Rightarrow> (st, w, 0))"

text \<open>With one retainer per branch and the recovery gate.\<close>

definition commit_after_drains ::
  "commit_mem \<Rightarrow> 'j json_api \<Rightarrow> run_ready \<Rightarrow> executor_view \<Rightarrow> (nat \<times> 'j) list \<Rightarrow> bool list \<Rightarrow> retainer list \<Rightarrow> nat \<Rightarrow>
     process_gate \<Rightarrow> 'j cohort_state \<Rightarrow> parallel_status \<times> process_gate \<times> 'j cohort_state \<times> nat option" where
  "commit_after_drains mem J run ex updates succeeded owners max_steps gate w =
     (let n = length (co_txns w) in
      if n = 0 \<or> \<not> valid_cohort_gate gate \<or> sealed gate \<or> n \<noteq> length owners \<or>
         \<not> validate_retainer_group owners max_steps \<or> \<not> validate_bound_owners gate owners
      then (PARALLEL_INVALID, gate, w, observed_pending gate)
      else case executor_settled ex n of
        PARALLEL_OK \<Rightarrow>
          if first_native_error gate \<noteq> SALTS_OK then (PARALLEL_RECOVERY, gate, w, observed_pending gate)
          else if False \<in> set (take n succeeded) then (PARALLEL_FAILED, gate, w, observed_pending gate)
          else (case drain_process_retainers run gate owners max_steps of (drained, gate1, pending, reaped) \<Rightarrow>
            if drained \<noteq> PARALLEL_OK then (drained, gate1, w, pending)
            else case parallel_commit mem J updates w of (st, w') \<Rightarrow>
              (st, if st = PARALLEL_OK \<or> st = PARALLEL_INVARIANT then gate1\<lparr>sealed := True\<rparr> else gate1, w', pending))
      | st \<Rightarrow> (st, gate, w, observed_pending gate))"

section \<open>The commit is all or nothing\<close>

lemma commit_group_failed:
  "value_txn_commit_group mem heap rows = (vst, heap', hs) \<Longrightarrow> vst \<noteq> VALUE_OK \<Longrightarrow> heap' = heap \<and> hs = map snd rows"
  by (auto simp: value_txn_commit_group_def Let_def split: if_splits prod.splits value_status.splits)

lemma set_handles_same [simp]: "set_handles rows (map snd rows) = rows"
  by (simp add: zip_map_fst_snd)

lemma cohort_same [simp]: "w\<lparr>co_heap := co_heap w, co_txns := co_txns w\<rparr> = w"
  by simp

lemma stage_entries_status [simp]: "stage_entries J r rows acc \<noteq> Inl SALTS_OK"
  by (induction J r rows acc rule: stage_entries.induct) (auto simp: Let_def dest: sym split: sum.splits)

lemma prepare_error: "prepare_output_group mem J r updates = Inl st \<Longrightarrow> st \<noteq> SALTS_OK"
  by (auto simp: prepare_output_group_def split: if_splits sum.splits)

text \<open>What the publication of a staged group leaves in the registry.\<close>

definition outputs_published :: "'j json_api \<Rightarrow> (nat \<times> 'j) list \<Rightarrow> 'j task_registry \<Rightarrow> 'j task_registry \<Rightarrow> bool" where
  "outputs_published J updates r r' \<longleftrightarrow> length (slots r') = length (slots r) \<and>
     (\<forall>(i, u)\<in>set updates. \<exists>staged. stage_output_update J (slots r ! i) u = Inr staged \<and>
        slots r' ! i = (case staged of None \<Rightarrow> slots r ! i | Some v \<Rightarrow> install_outputs v (slots r ! i))) \<and>
     (\<forall>i. i \<notin> fst ` set updates \<longrightarrow> slots r' ! i = slots r ! i)"

lemma publish_length: "length (slots (fold publish_entry es r)) = length (slots r)"
  by (induction es arbitrary: r) (auto simp: publish_entry_def split: option.splits)

lemma publish_now:
  assumes "prepare_output_group mem J r updates = Inr grp"
  shows "\<exists>r'. publish_output_group r (Some grp) = (SALTS_OK, r', None) \<and> outputs_published J updates r r'"
proof -
  have "length (slots r') = length (slots r)" if "publish_output_group r (Some grp) = (SALTS_OK, r', None)" for r'
    using that by (auto simp: publish_output_group_def publish_length split: if_splits)
  then show ?thesis
    using publish_group_cases [OF assms rtranclp.rtrancl_refl] unfolding outputs_published_def by (auto split: if_splits)
qed

lemma parallel_commit_cases:
  obtains (refused) st where "parallel_commit mem J updates w = (st, w)" "st \<noteq> PARALLEL_OK" "st \<noteq> PARALLEL_INVARIANT"
  | (committed) grp heap' hs r' where "parallel_commit mem J updates w =
        (PARALLEL_OK, w\<lparr>co_registry := r', co_heap := heap', co_txns := set_handles (co_txns w) hs\<rparr>)"
      and "prepare_output_group (registry_mem mem) J (co_registry w) (take (length (co_txns w)) updates) = Inr grp"
      and "value_txn_commit_group (txn_mem mem) (co_heap w) (co_txns w) = (VALUE_OK, heap', hs)"
      and "outputs_published J (take (length (co_txns w)) updates) (co_registry w) r'"
proof (cases "co_txns w = [] \<or> length (co_txns w) > registry_count (co_registry w)")
  case True
  then show thesis by (intro refused [of PARALLEL_INVALID]) (auto simp: parallel_commit_def)
next
  case False
  let ?updates = "take (length (co_txns w)) updates"
  show thesis
  proof (cases "prepare_output_group (registry_mem mem) J (co_registry w) ?updates")
    case (Inl st)
    have "st \<noteq> SALTS_OK" using Inl by (rule prepare_error)
    then have "registry_status st \<noteq> PARALLEL_OK \<and> registry_status st \<noteq> PARALLEL_INVARIANT" by (cases st) simp_all
    then show thesis using False Inl by (intro refused [of "registry_status st"]) (auto simp: parallel_commit_def)
  next
    case (Inr grp)
    obtain vst heap' hs where group: "value_txn_commit_group (txn_mem mem) (co_heap w) (co_txns w) = (vst, heap', hs)"
      by (metis prod_cases3)
    obtain r' where pub: "publish_output_group (co_registry w) (Some grp) = (SALTS_OK, r', None)"
      "outputs_published J ?updates (co_registry w) r'"
      using publish_now [OF Inr] by blast
    show thesis
    proof (cases "vst = VALUE_OK")
      case True
      have "parallel_commit mem J updates w =
        (PARALLEL_OK, w\<lparr>co_registry := r', co_heap := heap', co_txns := set_handles (co_txns w) hs\<rparr>)"
        using False True Inr group pub(1) by (auto simp: parallel_commit_def)
      then show thesis using Inr group pub(2) True by (intro committed) simp_all
    next
      case vfail: False
      have "value_parallel_status vst \<noteq> PARALLEL_OK \<and> value_parallel_status vst \<noteq> PARALLEL_INVARIANT"
        using vfail by (cases vst) simp_all
      then show thesis
        using False vfail Inr group commit_group_failed [OF group vfail]
        by (intro refused [of "value_parallel_status vst"]) (auto simp: parallel_commit_def)
    qed
  qed
qed

lemma parallel_commit_published:
  assumes "parallel_commit mem J updates w = (PARALLEL_OK, w')"
  shows "outputs_published J (take (length (co_txns w)) updates) (co_registry w) (co_registry w')"
proof (cases rule: parallel_commit_cases [of mem J updates w])
  case (committed grp heap' hs r')
  then show ?thesis using assms by auto
qed (use assms in simp)

text \<open>The rows that a caller passes: transactions begun on the store at one address.\<close>

definition cohort_ready :: "nat \<Rightarrow> value_store \<Rightarrow> nat list \<Rightarrow> value_txn list \<Rightarrow> 'j cohort_state \<Rightarrow> bool" where
  "cohort_ready a p ids ts w \<longleftrightarrow> co_txns w = zip ids (map Some ts) \<and> co_heap w a = Some p \<and> store_inv p \<and>
     (\<forall>t\<in>set ts. \<exists>base. txn_built base a t \<and> same_bounds base p) \<and>
     ts \<noteq> [] \<and> length ts \<le> size_max div 8 \<and> length ids = length ts \<and> distinct ids"

lemma commit_group_ready:
  assumes "cohort_ready a p ids ts w" "txn_mem mem = no_oom"
  shows "if (\<exists>t\<in>set ts. stale p t) \<or> \<not> disjoint_txns ts
    then value_txn_commit_group (txn_mem mem) (co_heap w) (co_txns w) = (VALUE_ECONFLICT, co_heap w, map Some ts)
    else if card (dom (group_result ts (contents p))) \<le> capacity p
    then \<exists>p'. value_txn_commit_group (txn_mem mem) (co_heap w) (co_txns w) =
        (VALUE_OK, (co_heap w)(a \<mapsto> p'), map (\<lambda>_. None) ts) \<and> store_inv p' \<and> contents p' = group_result ts (contents p)
    else value_txn_commit_group (txn_mem mem) (co_heap w) (co_txns w) = (VALUE_ENOSPC, co_heap w, map Some ts)"
  using assms commit_group_cases [of ts a p "co_heap w" ids] unfolding cohort_ready_def by metis

lemma ready_handles:
  assumes "cohort_ready a p ids ts w"
  shows "length (co_txns w) = length ts" "ts \<noteq> []" "co_txns w \<noteq> []" "set_handles (co_txns w) (map Some ts) = co_txns w"
    "set_handles (co_txns w) (map (\<lambda>_. None) ts) = zip ids (map (\<lambda>_. None) ts)"
  using assms by (auto simp: cohort_ready_def zip_eq_Nil_iff)

text \<open>
  A cohort commit is all or nothing, whichever allocation fails and whatever the updates and the
  transactions are: it either reports success, having staged and published every output and committed
  the group of transactions, or it leaves registry, stores and transactions as they were. The status
  that would report a half-published cohort is never returned.\<close>

theorem parallel_commit_atomic:
  "case parallel_commit mem J updates w of (st, w') \<Rightarrow>
     if st = PARALLEL_OK
     then value_txn_commit_group (txn_mem mem) (co_heap w) (co_txns w) = (VALUE_OK, co_heap w', map snd (co_txns w')) \<and>
       outputs_published J (take (length (co_txns w)) updates) (co_registry w) (co_registry w')
     else w' = w \<and> st \<noteq> PARALLEL_INVARIANT"
proof (cases rule: parallel_commit_cases [of mem J updates w])
  case (refused st)
  then show ?thesis by simp
next
  case (committed grp heap' hs r')
  have "length hs = length (co_txns w)"
    using committed(3) by (auto simp: value_txn_commit_group_def Let_def split: if_splits prod.splits value_status.splits)
  then show ?thesis using committed by simp
qed

lemma parallel_commit_result:
  assumes ready: "cohort_ready a p ids ts w" and mem: "txn_mem mem = no_oom"
    and fits: "length ts \<le> registry_count (co_registry w)"
    and staged: "prepare_output_group (registry_mem mem) J (co_registry w) (take (length ts) updates) = staged"
  shows "case staged of Inl st \<Rightarrow> parallel_commit mem J updates w = (registry_status st, w)
    | Inr grp \<Rightarrow>
        if (\<exists>t\<in>set ts. stale p t) \<or> \<not> disjoint_txns ts then parallel_commit mem J updates w = (PARALLEL_CONFLICT, w)
        else if card (dom (group_result ts (contents p))) > capacity p
        then parallel_commit mem J updates w = (PARALLEL_CAPACITY, w)
        else \<exists>p' r'. parallel_commit mem J updates w = (PARALLEL_OK, w\<lparr>co_heap := (co_heap w)(a \<mapsto> p'),
             co_txns := zip ids (map (\<lambda>_. None) ts), co_registry := r'\<rparr>) \<and>
           store_inv p' \<and> contents p' = group_result ts (contents p) \<and>
           outputs_published J (take (length ts) updates) (co_registry w) r'"
proof (cases staged)
  case (Inl st)
  then show ?thesis using staged fits ready_handles [OF ready] by (simp add: parallel_commit_def)
next
  case (Inr grp)
  note rows = ready_handles [OF ready]
  obtain r' where pub: "publish_output_group (co_registry w) (Some grp) = (SALTS_OK, r', None)"
    "outputs_published J (take (length ts) updates) (co_registry w) r'"
    using publish_now [of "registry_mem mem" J "co_registry w" "take (length ts) updates" grp] staged Inr by blast
  note group = commit_group_ready [OF ready mem]
  have run: "parallel_commit mem J updates w =
     (PARALLEL_OK, w\<lparr>co_heap := h, co_txns := zip ids (map (\<lambda>_. None) ts), co_registry := r'\<rparr>)"
    if "value_txn_commit_group (txn_mem mem) (co_heap w) (co_txns w) = (VALUE_OK, h, map (\<lambda>_. None) ts)" for h
    using that staged Inr fits rows pub(1) by (simp add: parallel_commit_def)
  have stop: "parallel_commit mem J updates w = (value_parallel_status st, w)"
    if "value_txn_commit_group (txn_mem mem) (co_heap w) (co_txns w) = (st, co_heap w, map Some ts)" "st \<noteq> VALUE_OK" for st
    using that staged Inr fits rows by (simp add: parallel_commit_def)
  show ?thesis
  proof (cases "(\<exists>t\<in>set ts. stale p t) \<or> \<not> disjoint_txns ts \<or> card (dom (group_result ts (contents p))) > capacity p")
    case True
    then show ?thesis using group stop [of VALUE_ECONFLICT] stop [of VALUE_ENOSPC] Inr by (auto split: if_splits)
  next
    case False
    then obtain p' where "value_txn_commit_group (txn_mem mem) (co_heap w) (co_txns w) =
        (VALUE_OK, (co_heap w)(a \<mapsto> p'), map (\<lambda>_. None) ts)" "store_inv p'" "contents p' = group_result ts (contents p)"
      using group by (auto simp: not_less)
    then have "\<exists>p' r'. parallel_commit mem J updates w = (PARALLEL_OK, w\<lparr>co_heap := (co_heap w)(a \<mapsto> p'),
             co_txns := zip ids (map (\<lambda>_. None) ts), co_registry := r'\<rparr>) \<and>
           store_inv p' \<and> contents p' = group_result ts (contents p) \<and>
           outputs_published J (take (length ts) updates) (co_registry w) r'"
      using run [of "(co_heap w)(a \<mapsto> p')"] pub(2) by (intro exI conjI) auto
    then show ?thesis using False Inr by (simp only: sum.case if_False de_Morgan_disj simp_thms)
  qed
qed

text \<open>
  For transactions begun on one store and allocators that succeed, the commit computes: too many
  branches and an update the registry refuses are refused; a stale transaction or two that touch one
  key conflict; a result that exceeds the store's capacity is refused; and otherwise the store holds
  the group's result, every transaction is consumed and every output is published.\<close>

theorem parallel_commit_correct:
  assumes ready: "cohort_ready a p ids ts w" and mem: "txn_mem mem = no_oom"
    and fits: "length ts \<le> registry_count (co_registry w)"
    and staged: "prepare_output_group (registry_mem mem) J (co_registry w) (take (length ts) updates) = staged"
  shows "case staged of Inl st \<Rightarrow> parallel_commit mem J updates w = (registry_status st, w)
    | Inr grp \<Rightarrow>
        if (\<exists>t\<in>set ts. stale p t) \<or> \<not> disjoint_txns ts then parallel_commit mem J updates w = (PARALLEL_CONFLICT, w)
        else if card (dom (group_result ts (contents p))) > capacity p
        then parallel_commit mem J updates w = (PARALLEL_CAPACITY, w)
        else \<exists>p' r'. parallel_commit mem J updates w = (PARALLEL_OK, w\<lparr>co_heap := (co_heap w)(a \<mapsto> p'),
             co_txns := zip ids (map (\<lambda>_. None) ts), co_registry := r'\<rparr>) \<and>
           store_inv p' \<and> contents p' = group_result ts (contents p) \<and>
           outputs_published J (take (length ts) updates) (co_registry w) r'"
  using parallel_commit_result [OF assms] .

section \<open>The guard\<close>

text \<open>A sweep that ends without an overflow: the latched error never goes away.\<close>

lemma sweep_sticky:
  assumes "sweep_owners run k rs s = res" and "first_native_error (sw_gate s) \<noteq> SALTS_OK"
  shows "case res of Inl g \<Rightarrow> first_native_error g \<noteq> SALTS_OK | Inr s' \<Rightarrow> first_native_error (sw_gate s') \<noteq> SALTS_OK"
  using assms
proof (induction run k rs s arbitrary: res rule: sweep_owners.induct)
  case (2 run k r rs s)
  then show ?case by (force simp: sweep_status_def split: prod.splits if_splits)
qed auto

text \<open>The sweep changes nothing of the gate but the latch.\<close>

lemma sweep_frame:
  assumes "sweep_owners run k rs s = res"
  shows "\<exists>e. (case res of Inl g \<Rightarrow> g | Inr s' \<Rightarrow> sw_gate s') = (sw_gate s)\<lparr>first_native_error := e\<rparr>"
  using assms
proof (induction run k rs s arbitrary: res rule: sweep_owners.induct)
  case (1 run k s)
  then show ?case by (auto intro: exI [of _ "first_native_error (sw_gate s)"])
next
  case (2 run k r rs s)
  obtain st reaped pending where run: "run (identity r) k = (st, reaped, pending)" by (metis prod_cases3)
  show ?case
  proof (cases "pending > size_max - sw_pending s \<or> reaped > size_max - sw_reaped s")
    case True
    then show ?thesis using 2(2) run by (auto intro: exI [of _ "first_native_error (sw_gate s)"])
  next
    case False
    then show ?thesis using 2(2) 2(1) [OF run [symmetric] _ False] run by (fastforce simp: sweep_status_def)
  qed
qed

lemma sweep_quiet:
  assumes "sweep_owners run k rs s = Inr s'" and "sw_result s' = PARALLEL_OK" and "first_native_error (sw_gate s') = SALTS_OK"
  shows "(\<forall>r\<in>set rs. \<exists>reaped. run (identity r) k = (SALTS_OK, reaped, 0)) \<and> sw_pending s' = sw_pending s \<and>
    sw_gate s' = sw_gate s \<and> sw_result s = PARALLEL_OK"
  using assms
proof (induction run k rs s arbitrary: s' rule: sweep_owners.induct)
  case (2 run k r rs s)
  obtain st reaped pending where run: "run (identity r) k = (st, reaped, pending)" by (metis prod_cases3)
  let ?s = "sweep_status st pending (s\<lparr>sw_pending := sw_pending s + pending, sw_reaped := sw_reaped s + reaped\<rparr>)"
  have rest: "sweep_owners run k rs ?s = Inr s'" and small: "\<not> (pending > size_max - sw_pending s \<or> reaped > size_max - sw_reaped s)"
    using 2(2) run by (auto split: if_splits)
  note ih = 2(1) [OF run [symmetric] _ small rest 2(3,4)]
  have "first_native_error (sw_gate ?s) = SALTS_OK" using sweep_sticky [OF rest] 2(4) by auto
  then show ?case using ih run by (auto simp: sweep_status_def split: if_splits)
qed simp

lemma sweep_recovery:
  assumes "sweep_owners run k rs s = Inr s'" and "sw_result s = PARALLEL_RECOVERY \<longrightarrow> first_native_error (sw_gate s) \<noteq> SALTS_OK"
  shows "sw_result s' = PARALLEL_RECOVERY \<longrightarrow> first_native_error (sw_gate s') \<noteq> SALTS_OK"
  using assms
proof (induction run k rs s rule: sweep_owners.induct)
  case (2 run k r rs s)
  then show ?case by (auto simp: sweep_status_def split: prod.splits if_splits)
qed simp

lemma drain_quiet:
  assumes "drain_process_retainers run gate owners k = (PARALLEL_OK, gate', pending, reaped)"
  shows "(\<forall>r\<in>set owners. \<exists>n. run (identity r) k = (SALTS_OK, n, 0)) \<and> pending = Some 0 \<and>
    gate' = gate\<lparr>bound_owners := map identity owners, last_pending := Some 0\<rparr> \<and> first_native_error gate = SALTS_OK"
proof -
  from assms obtain bound s where b: "bind_cohort_owners gate owners = Some bound"
    and s: "sweep_owners run k owners \<lparr>sw_gate = bound, sw_pending = 0, sw_reaped = 0, sw_result = PARALLEL_OK\<rparr> = Inr s"
    and r: "sw_result s = PARALLEL_OK" "first_native_error (sw_gate s) = SALTS_OK" "pending = Some (sw_pending s)"
      "gate' = (sw_gate s)\<lparr>last_pending := Some (sw_pending s)\<rparr>"
    by (auto simp: drain_process_retainers_def Let_def split: if_splits option.splits sum.splits)
  have "bound = gate\<lparr>bound_owners := map identity owners\<rparr>"
    using b by (auto simp: bind_cohort_owners_def validate_bound_owners_def split: if_splits)
  then show ?thesis using sweep_quiet [OF s r(1,2)] r by simp
qed

text \<open>The gate keeps its marker and seal, and never drops an error.\<close>

lemma drain_frame:
  assumes "drain_process_retainers run gate owners k = (st, gate', pending, reaped)"
  shows "marker gate' = marker gate \<and> sealed gate' = sealed gate \<and>
    (first_native_error gate \<noteq> SALTS_OK \<longrightarrow> first_native_error gate' \<noteq> SALTS_OK \<and> st \<noteq> PARALLEL_OK) \<and>
    (st = PARALLEL_RECOVERY \<longrightarrow> valid_cohort_gate gate' \<and> first_native_error gate' \<noteq> SALTS_OK)"
proof (cases "\<not> valid_cohort_gate gate \<or> sealed gate \<or> \<not> validate_retainer_group owners k")
  case True
  then show ?thesis using assms by (auto simp: drain_process_retainers_def)
next
  case False
  show ?thesis
  proof (cases "bind_cohort_owners gate owners")
    case None
    then show ?thesis using assms False by (auto simp: drain_process_retainers_def)
  next
    case (Some bound)
    let ?res = "sweep_owners run k owners \<lparr>sw_gate = bound, sw_pending = 0, sw_reaped = 0, sw_result = PARALLEL_OK\<rparr>"
    have bound: "\<exists>os. bound = gate\<lparr>bound_owners := os\<rparr>"
      using Some by (auto simp: bind_cohort_owners_def split: if_splits intro: exI [of _ "bound_owners gate"])
    have st: "st = PARALLEL_RECOVERY \<Longrightarrow> (\<exists>s. ?res = Inr s)" "st = PARALLEL_OK \<Longrightarrow> (\<exists>s. ?res = Inr s)"
      using assms False Some by (auto simp: drain_process_retainers_def split: sum.splits)
    have "sw_result s = PARALLEL_RECOVERY \<longrightarrow> first_native_error (sw_gate s) \<noteq> SALTS_OK" if "?res = Inr s" for s
      using sweep_recovery [OF that] by simp
    then show ?thesis using assms False Some bound sweep_frame [of run k owners _ ?res] sweep_sticky [of run k owners _ ?res] st
      by (fastforce simp: drain_process_retainers_def valid_cohort_gate_def Let_def split: sum.splits if_splits)
  qed
qed

lemma sweep_not_invariant:
  "sweep_owners run k rs s = Inr s' \<Longrightarrow> sw_result s \<noteq> PARALLEL_INVARIANT \<Longrightarrow> sw_result s' \<noteq> PARALLEL_INVARIANT"
  by (induction run k rs s rule: sweep_owners.induct) (auto simp: sweep_status_def split: prod.splits if_splits)

lemma drain_not_invariant:
  "drain_process_retainers run gate owners k = (st, gate', pending, reaped) \<Longrightarrow> st \<noteq> PARALLEL_INVARIANT"
  by (auto simp: drain_process_retainers_def Let_def dest: sweep_not_invariant split: if_splits option.splits sum.splits)

text \<open>The commit itself never asks for recovery.\<close>

lemma parallel_commit_not_recovery: "fst (parallel_commit mem J updates w) \<noteq> PARALLEL_RECOVERY"
proof -
  have "registry_status st \<noteq> PARALLEL_RECOVERY" for st by (cases st) simp_all
  moreover have "value_parallel_status st \<noteq> PARALLEL_RECOVERY" for st by (cases st) simp_all
  ultimately show ?thesis by (auto simp: parallel_commit_def Let_def split: sum.splits prod.splits)
qed

text \<open>Every way a guarded commit ends.\<close>

lemma commit_after_drains_cases:
  assumes "commit_after_drains mem J run ex updates succeeded owners k gate w = (st, gate', w', pending)"
  obtains (refused) "w' = w" "st \<noteq> PARALLEL_OK" "marker gate' = marker gate" "sealed gate' = sealed gate"
      "first_native_error gate \<noteq> SALTS_OK \<Longrightarrow> first_native_error gate' \<noteq> SALTS_OK"
      "st = PARALLEL_RECOVERY \<Longrightarrow> valid_cohort_gate gate' \<and> first_native_error gate' \<noteq> SALTS_OK"
      "st \<noteq> PARALLEL_INVARIANT"
  | (published) "st = PARALLEL_OK" "parallel_commit mem J updates w = (PARALLEL_OK, w')"
      "valid_cohort_gate gate" "\<not> sealed gate" "first_native_error gate = SALTS_OK"
      "executor_settled ex (length (co_txns w)) = PARALLEL_OK" "False \<notin> set (take (length (co_txns w)) succeeded)"
      "\<forall>r\<in>set owners. \<exists>n. run (identity r) k = (SALTS_OK, n, 0)" "length owners = length (co_txns w)"
      "pending = Some 0"
      "gate' = gate\<lparr>bound_owners := map identity owners, last_pending := Some 0, sealed := True\<rparr>"
proof -
  note def = commit_after_drains_def Let_def
  let ?n = "length (co_txns w)"
  let ?bad = "?n = 0 \<or> \<not> valid_cohort_gate gate \<or> sealed gate \<or> ?n \<noteq> length owners \<or>
         \<not> validate_retainer_group owners k \<or> \<not> validate_bound_owners gate owners"
  have settled: "executor_settled ex ?n \<noteq> PARALLEL_RECOVERY \<and> executor_settled ex ?n \<noteq> PARALLEL_INVARIANT"
    by (auto simp: executor_settled_def split: option.splits)
  show thesis
  proof (cases "?bad \<or> executor_settled ex ?n \<noteq> PARALLEL_OK \<or> first_native_error gate \<noteq> SALTS_OK \<or> False \<in> set (take ?n succeeded)")
    case True
    then show thesis using assms settled by (intro refused) (auto simp: def split: if_splits parallel_status.splits)
  next
    case False
    then have ok: "\<not> ?bad" "executor_settled ex ?n = PARALLEL_OK" "first_native_error gate = SALTS_OK"
      "False \<notin> set (take ?n succeeded)" by blast+
    obtain d gate1 pend reaped where d: "drain_process_retainers run gate owners k = (d, gate1, pend, reaped)"
      by (metis prod_cases4)
    have notinv: "d \<noteq> PARALLEL_INVARIANT" by (rule drain_not_invariant [OF d])
    have res: "(st, gate', w', pending) = (if d \<noteq> PARALLEL_OK then (d, gate1, w, pend)
        else case parallel_commit mem J updates w of (st, w') \<Rightarrow>
          (st, if st = PARALLEL_OK \<or> st = PARALLEL_INVARIANT then gate1\<lparr>sealed := True\<rparr> else gate1, w', pend))"
      using assms [unfolded def if_not_P [OF ok(1)] ok(2) parallel_status.case] ok(3,4) d by simp
    note frame = drain_frame [OF d]
    show thesis
    proof (cases "d = PARALLEL_OK")
      case drained: True
      note quiet = drain_quiet [OF d [unfolded drained]]
      show thesis
      proof (cases rule: parallel_commit_cases [of mem J updates w])
        case (refused st1)
        then show thesis using res drained frame quiet parallel_commit_not_recovery [of mem J updates w] by (intro that(1)) auto
      next
        case (committed grp heap' hs r')
        then show thesis using res drained frame quiet False by (intro published) auto
      qed
    next
      case stopped: False
      then show thesis using res frame notinv by (intro refused) auto
    qed
  qed
qed

text \<open>
  C19. A guarded commit publishes only behind its guard: the executor has settled every branch, every branch
  reported success, no native error is latched, and every retainer has just reported that it is done
  with nothing pending; then the gate is bound to the owners and sealed. In every other case registry,
  stores and transactions are untouched and the gate stays open.\<close>

theorem commit_after_drains_guarded:
  "case commit_after_drains mem J run ex updates succeeded owners k gate w of (st, gate', w', pending) \<Rightarrow>
     if st = PARALLEL_OK
     then parallel_commit mem J updates w = (PARALLEL_OK, w') \<and> executor_settled ex (length (co_txns w)) = PARALLEL_OK \<and>
       False \<notin> set (take (length (co_txns w)) succeeded) \<and> length owners = length (co_txns w) \<and>
       (\<forall>r\<in>set owners. \<exists>n. run (identity r) k = (SALTS_OK, n, 0)) \<and> pending = Some 0 \<and>
       first_native_error gate = SALTS_OK \<and> \<not> sealed gate \<and>
       gate' = gate\<lparr>bound_owners := map identity owners, last_pending := Some 0, sealed := True\<rparr>
     else w' = w \<and> sealed gate' = sealed gate"
proof -
  obtain st gate' w' pending where
    call: "commit_after_drains mem J run ex updates succeeded owners k gate w = (st, gate', w', pending)"
    by (metis prod_cases4)
  show ?thesis by (cases rule: commit_after_drains_cases [OF call]) (simp_all add: call)
qed

section \<open>Histories of the gate\<close>

datatype 'j gate_call =
    Call_init
  | Call_drain run_ready "retainer list" nat
  | Call_commit commit_mem "'j json_api" run_ready executor_view "(nat \<times> 'j) list" "bool list" "retainer list" nat

fun gate_exec :: "'j gate_call \<Rightarrow> process_gate \<times> 'j cohort_state \<Rightarrow> parallel_status \<times> process_gate \<times> 'j cohort_state" where
  "gate_exec Call_init (gate, w) = (case recovery_init gate of (st, gate') \<Rightarrow> (st, gate', w))"
| "gate_exec (Call_drain run owners k) (gate, w) =
     (case drain_process_retainers run gate owners k of (st, gate', _, _) \<Rightarrow> (st, gate', w))"
| "gate_exec (Call_commit mem J run ex updates succeeded owners k) (gate, w) =
     (case commit_after_drains mem J run ex updates succeeded owners k gate w of (st, gate', w', _) \<Rightarrow> (st, gate', w'))"

text \<open>A history: the calls with the status of each, and the state after them.\<close>

inductive gate_history ::
  "process_gate \<times> 'j cohort_state \<Rightarrow> ('j gate_call \<times> parallel_status) list \<Rightarrow> process_gate \<times> 'j cohort_state \<Rightarrow> bool" where
  history_none: "gate_history s [] s"
| history_call: "gate_history s h (gate, w) \<Longrightarrow> gate_exec c (gate, w) = (st, gate', w') \<Longrightarrow>
     gate_history s (h @ [(c, st)]) (gate', w')"

inductive_cases gate_history_snoc: "gate_history s (h @ [e]) t"

text \<open>A gate that nothing passes any more: sealed by a publication, or with an error latched.\<close>

definition gate_closed :: "process_gate \<times> 'j cohort_state \<Rightarrow> bool" where
  "gate_closed s \<longleftrightarrow> valid_cohort_gate (fst s) \<and> (sealed (fst s) \<or> first_native_error (fst s) \<noteq> SALTS_OK)"

definition closed_at :: "'j cohort_state \<Rightarrow> process_gate \<times> 'j cohort_state \<Rightarrow> bool" where
  "closed_at w s \<longleftrightarrow> gate_closed s \<and> snd s = w"

inductive gate_step :: "process_gate \<times> 'j cohort_state \<Rightarrow> process_gate \<times> 'j cohort_state \<Rightarrow> bool" where
  gate_stepI: "gate_exec c s = (st, t) \<Longrightarrow> gate_step s t"

lemma closed_call:
  assumes "gate_exec c (gate, w) = (st, gate', w')" and "gate_closed (gate, w)"
  shows "gate_closed (gate', w') \<and> w' = w \<and> st \<noteq> PARALLEL_OK"
proof (cases c)
  case Call_init
  then show ?thesis using assms by (auto simp: gate_closed_def valid_cohort_gate_def recovery_init_def COHORT_GATE_MARKER_def)
next
  case (Call_drain run owners k)
  then obtain pending reaped where d: "drain_process_retainers run gate owners k = (st, gate', pending, reaped)" "w' = w"
    using assms(1) by (auto split: prod.splits)
  moreover have "sealed gate \<Longrightarrow> st \<noteq> PARALLEL_OK" using d(1) by (auto simp: drain_process_retainers_def)
  ultimately show ?thesis using drain_frame [OF d(1)] assms(2) by (auto simp: gate_closed_def valid_cohort_gate_def)
next
  case (Call_commit mem J run ex updates succeeded owners k)
  then obtain pending where d: "commit_after_drains mem J run ex updates succeeded owners k gate w = (st, gate', w', pending)"
    using assms(1) by (auto split: prod.splits)
  show ?thesis
    by (cases rule: commit_after_drains_cases [OF d]) (use assms(2) in \<open>auto simp: gate_closed_def valid_cohort_gate_def\<close>)
qed

fun commits :: "'j gate_call \<Rightarrow> bool" where
  "commits (Call_commit _ _ _ _ _ _ _ _) = True"
| "commits _ = False"

text \<open>The calls that close the gate: the publication, and every request for recovery.\<close>

definition closes :: "'j gate_call \<times> parallel_status \<Rightarrow> bool" where
  "closes e \<longleftrightarrow> snd e = PARALLEL_RECOVERY \<or> (snd e = PARALLEL_OK \<and> commits (fst e))"

lemma closing_call:
  assumes "gate_exec c (gate, w) = (st, gate', w')" and "closes (c, st)"
  shows "gate_closed (gate', w')"
proof (cases c)
  case Call_init
  then show ?thesis using assms by (auto simp: closes_def recovery_init_def split: if_splits)
next
  case (Call_drain run owners k)
  then obtain pending reaped where d: "drain_process_retainers run gate owners k = (st, gate', pending, reaped)"
    using assms(1) by (auto split: prod.splits)
  then show ?thesis using drain_frame [OF d] assms(2) Call_drain by (auto simp: gate_closed_def closes_def)
next
  case (Call_commit mem J run ex updates succeeded owners k)
  then obtain pending where d: "commit_after_drains mem J run ex updates succeeded owners k gate w = (st, gate', w', pending)"
    using assms(1) by (auto split: prod.splits)
  show ?thesis
    by (cases rule: commit_after_drains_cases [OF d]) (use assms(2) in \<open>auto simp: gate_closed_def closes_def valid_cohort_gate_def\<close>)
qed

interpretation closed_gate: invariant_system "closed_at w" gate_step "closed_at w" for w
proof
  fix s t
  assume "gate_step s t" and "closed_at w s"
  then show "closed_at w t"
    by (cases s; cases t) (auto simp: closed_at_def elim!: gate_step.cases dest!: closed_call)
qed

lemma history_steps: "gate_history s h t \<Longrightarrow> gate_step\<^sup>*\<^sup>* s t"
  by (induction rule: gate_history.induct) (auto intro: rtranclp.rtrancl_into_rtrancl gate_stepI)

lemma history_after_closing:
  assumes "gate_history s h t" and "h = h1 @ e # h2" and "closes e"
  shows "gate_closed t \<and> PARALLEL_OK \<notin> snd ` set h2"
  using assms
proof (induction arbitrary: h2 rule: gate_history.induct)
  case (history_call s h gate w c st gate' w')
  show ?case
  proof (cases h2 rule: rev_cases)
    case Nil
    then show ?thesis using history_call closing_call [of c gate w st gate' w'] by simp
  next
    case (snoc h3 x)
    then have "h = h1 @ e # h3" "x = (c, st)" using history_call.prems(1) by auto
    then have "gate_closed (gate, w)" "PARALLEL_OK \<notin> snd ` set h3" using history_call.IH history_call.prems(2) by blast+
    then show ?thesis using closed_call [OF history_call.hyps(2)] snoc \<open>x = (c, st)\<close> by auto
  qed
qed simp

lemma closed_history: "gate_history s h t \<Longrightarrow> gate_closed s \<Longrightarrow> PARALLEL_OK \<notin> snd ` set h \<and> gate_closed t"
proof (induction rule: gate_history.induct)
  case (history_call s h gate w c st gate' w')
  then show ?case using closed_call [OF history_call.hyps(2)] by auto
qed simp

text \<open>
  C20. A gate lets at most one publication through: once a commit has published, or any call has asked for
  recovery, no later call on the gate succeeds, in any order of initialisations, drains and commits,
  with any owners and whatever the executor and the retainers report then; registry, stores and
  transactions no longer change through it.\<close>

theorem gate_publishes_once:
  assumes "gate_history s (h1 @ e # h2) t" and "closes e"
  shows "PARALLEL_OK \<notin> snd ` set h2 \<and> (\<forall>h3 u. gate_history t h3 u \<longrightarrow> snd u = snd t \<and> PARALLEL_OK \<notin> snd ` set h3)"
proof -
  have closed: "gate_closed t" "PARALLEL_OK \<notin> snd ` set h2" using history_after_closing [OF assms(1) refl assms(2)] by auto
  have "snd u = snd t \<and> PARALLEL_OK \<notin> snd ` set h3" if "gate_history t h3 u" for h3 u
  proof
    show "snd u = snd t" using closed_gate.steps_inv [OF history_steps [OF that]] closed(1) by (auto simp: closed_at_def)
    show "PARALLEL_OK \<notin> snd ` set h3" using closed_history [OF that closed(1)] by blast
  qed
  then show ?thesis using closed(2) by blast
qed

text \<open>The commits behind one retainer: success only after the retainer is done, and otherwise no change.\<close>

lemma single_drain_guarded:
  "case commit_after_process_drain mem J run updates owner k w of (st, w', pending) \<Rightarrow>
     if st = PARALLEL_OK
     then parallel_commit mem J updates w = (PARALLEL_OK, w') \<and> (\<exists>n. run (identity owner) k = (SALTS_OK, n, 0)) \<and> pending = 0
     else w' = w"
  by (cases rule: parallel_commit_cases [of mem J updates w])
    (auto simp: commit_after_process_drain_def split: prod.splits if_splits)

lemma single_cflow_guarded:
  "case commit_after_cflow_and_process_drain mem J run ex updates owner k w of (st, w', pending) \<Rightarrow>
     if st = PARALLEL_OK
     then parallel_commit mem J updates w = (PARALLEL_OK, w') \<and> executor_settled ex (length (co_txns w)) = PARALLEL_OK \<and>
       (\<exists>n. run (identity owner) k = (SALTS_OK, n, 0))
     else w' = w"
  using single_drain_guarded [of mem J updates w run owner k]
  by (auto simp: commit_after_cflow_and_process_drain_def split: parallel_status.splits prod.splits if_splits)

section \<open>Concrete runs\<close>

definition example_cohort :: "json cohort_state" where
  "example_cohort = \<lparr>co_registry = example_registry, co_heap = full_heap, co_txns = [(0, txn_script)]\<rparr>"

definition example_mem :: commit_mem where
  "example_mem = \<lparr>registry_mem = no_oom, txn_mem = no_oom\<rparr>"

lemma example_cohort_ready:
  obtains t grp where "cohort_ready 5 full_store [0] [t] example_cohort"
    "txn_mem example_mem = no_oom" "length [t] \<le> registry_count (co_registry example_cohort)"
    "prepare_output_group (registry_mem example_mem) tree_api (co_registry example_cohort)
      (take (length [t]) example_updates) = Inr grp"
    "\<not> ((\<exists>u\<in>set [t]. stale full_store u) \<or> \<not> disjoint_txns [t])"
    "\<not> card (dom (group_result [t] (contents full_store))) > capacity full_store"
proof -
  obtain t where t: "txn_script = Some t" "txn_built full_store 5 t" using script_built by blast
  note parts = script_parts [OF t(1)]
  have ready: "cohort_ready 5 full_store [0] [t] example_cohort"
    using t full_store_inv by (auto simp: cohort_ready_def example_cohort_def full_heap_def size_max_def)
  have fits: "length [t] \<le> registry_count (co_registry example_cohort)"
    by (simp add: example_cohort_def registry_count_def example_registry_def)
  obtain grp where grp: "prepare_output_group (registry_mem example_mem) tree_api (co_registry example_cohort)
      (take (length [t]) example_updates) = Inr grp"
    by (simp add: example_mem_def prepare_output_group_def registry_eval Let_def example_cohort_def)
  have res: "group_result [t] (contents full_store) = [''a'' \<mapsto> ''8'', ''c'' \<mapsto> ''9'', ''x'' \<mapsto> ''3'']"
    by (auto simp: fun_eq_iff group_result_def parts script_contents full_contents)
  have room: "\<not> card (dom (group_result [t] (contents full_store))) > capacity full_store"
    unfolding res by (simp add: full_store_def)
  have free: "\<not> ((\<exists>u\<in>set [t]. stale full_store u) \<or> \<not> disjoint_txns [t])" by (simp add: parts)
  show thesis using that [OF ready _ fits grp free room] by (simp add: example_mem_def)
qed

lemma example_commit: "\<exists>w. parallel_commit example_mem tree_api example_updates example_cohort = (PARALLEL_OK, w)"
proof -
  obtain t grp where t: "cohort_ready 5 full_store [0] [t] example_cohort"
    "txn_mem example_mem = no_oom" "length [t] \<le> registry_count (co_registry example_cohort)"
    "prepare_output_group (registry_mem example_mem) tree_api (co_registry example_cohort)
      (take (length [t]) example_updates) = Inr grp"
    and free: "\<not> ((\<exists>u\<in>set [t]. stale full_store u) \<or> \<not> disjoint_txns [t])"
      "\<not> card (dom (group_result [t] (contents full_store))) > capacity full_store"
    by (rule example_cohort_ready)
  show ?thesis using parallel_commit_result [OF t] unfolding sum.case if_not_P [OF free(1)] if_not_P [OF free(2)] by blast
qed

theorem parallel_commit_correct_witness:
  "\<exists>w'. parallel_commit example_mem tree_api example_updates example_cohort = (PARALLEL_OK, w') \<and>
     map snd (co_txns w') = [None]"
proof -
  obtain t grp where t: "cohort_ready 5 full_store [0] [t] example_cohort"
    "txn_mem example_mem = no_oom" "length [t] \<le> registry_count (co_registry example_cohort)"
    "prepare_output_group (registry_mem example_mem) tree_api (co_registry example_cohort)
      (take (length [t]) example_updates) = Inr grp"
    and free: "\<not> ((\<exists>u\<in>set [t]. stale full_store u) \<or> \<not> disjoint_txns [t])"
      "\<not> card (dom (group_result [t] (contents full_store))) > capacity full_store"
    by (rule example_cohort_ready)
  show ?thesis using parallel_commit_correct [OF t] unfolding sum.case if_not_P [OF free(1)] if_not_P [OF free(2)] by auto
qed

definition zero_gate :: process_gate where
  "zero_gate = \<lparr>marker = 0, first_native_error = SALTS_OK, last_pending = Some 0, sealed = False, bound_owners = []\<rparr>"

text \<open>A retainer whose wait fails.\<close>

definition failing_run :: run_ready where
  "failing_run owner k = (SALTS_EINVAL, 0, 1)"

theorem gate_publishes_once_witness:
  "\<exists>t. gate_history (zero_gate, example_cohort)
       ([(Call_init, PARALLEL_OK)] @ (Call_drain failing_run [Some (1, Some 2)] 4, PARALLEL_RECOVERY) # []) t \<and>
     (\<forall>h u. gate_history t h u \<longrightarrow> PARALLEL_OK \<notin> snd ` set h)"
proof -
  obtain g where g: "recovery_init zero_gate = (PARALLEL_OK, g)" "marker g = COHORT_GATE_MARKER" "\<not> sealed g" "bound_owners g = []"
     "first_native_error g = SALTS_OK"
    by (simp add: recovery_init_def zero_gate_def)
  obtain g' where g': "gate_exec (Call_drain failing_run [Some (1, Some 2)] 4) (g, example_cohort) = (PARALLEL_RECOVERY, g', example_cohort)"
    using g by (simp add: drain_process_retainers_def valid_cohort_gate_def validate_retainer_group_def COHORT_MAX_RETAINERS_def
      bind_cohort_owners_def validate_bound_owners_def failing_run_def sweep_status_def size_max_def Let_def)
  have h1: "gate_history (zero_gate, example_cohort) ([] @ [(Call_init, PARALLEL_OK)]) (g, example_cohort)"
    by (rule history_call [OF history_none]) (simp add: g)
  have h2: "gate_history (zero_gate, example_cohort)
       ([(Call_init, PARALLEL_OK)] @ (Call_drain failing_run [Some (1, Some 2)] 4, PARALLEL_RECOVERY) # []) (g', example_cohort)"
    using history_call [OF h1 g'] by simp
  have "closes (Call_drain failing_run [Some (1, Some 2)] 4, PARALLEL_RECOVERY)" by (simp add: closes_def)
  from gate_publishes_once [OF h2 this] h2 show ?thesis by blast
qed

definition settled_view :: executor_view where
  "settled_view = \<lparr>get_stats = Some \<lparr>accepted = 1, rejected_full = 0, rejected_closed = 0, rejected_would_block = 0, cancelled = 0,
     es_completed = 1, queued = 0, running = 0, lifecycle = EXECUTOR_CLOSED\<rparr>, wait_idle = WAIT_IDLE\<rparr>"

definition done_run :: run_ready where
  "done_run owner k = (SALTS_OK, 0, 0)"

theorem commit_after_drains_guarded_witness:
  "\<exists>gate w'. commit_after_drains example_mem tree_api done_run settled_view example_updates [True] [Some (1, Some 2)] 4
      (snd (recovery_init zero_gate)) example_cohort = (PARALLEL_OK, gate, w', Some 0) \<and>
     sealed gate \<and> bound_owners gate = [identity (Some (1, Some 2))]"
proof -
  obtain w where w: "parallel_commit example_mem tree_api example_updates example_cohort = (PARALLEL_OK, w)"
    using example_commit by blast
  have n: "length (co_txns example_cohort) = 1" by (simp add: example_cohort_def)
  have "fst (commit_after_drains example_mem tree_api done_run settled_view example_updates [True] [Some (1, Some 2)] 4
      (snd (recovery_init zero_gate)) example_cohort) = PARALLEL_OK"
    by (simp add: commit_after_drains_def n w settled_view_def executor_settled_def recovery_init_def zero_gate_def
      drain_process_retainers_def valid_cohort_gate_def validate_retainer_group_def COHORT_MAX_RETAINERS_def
      bind_cohort_owners_def validate_bound_owners_def done_run_def sweep_status_def size_max_def Let_def)
  with commit_after_drains_guarded [where mem = example_mem and J = tree_api and run = done_run and ex = settled_view
      and updates = example_updates and succeeded = "[True]" and owners = "[Some (1, Some 2)]" and k = 4
      and gate = "snd (recovery_init zero_gate)" and w = example_cohort]
  show ?thesis unfolding case_prod_unfold by (auto simp: prod_eq_iff)
qed

end
