(* ===== verification/Owner_Settlement.thy ===== *)
theory Owner_Settlement
  imports Workflow_Dag_State Workflow_Parallel
begin

text \<open>
  The owner's turn that settles a cohort of claimed tasks: \<open>actions/c11/workflow_owner_settlement.c\<close>.
  It joins the readiness state, the task registry, the value transactions and the recovery gate: a
  cohort is published and its tasks finished, or it is aborted and its tasks failed or refused. The
  lemmas show that publication is atomic over all four components and that an abort never publishes.

  A cohort borrows its arrays; each has at least as many rows as there are branches, which is the
  number of transactions. The arrays that only some modes need may be NULL, \<open>None\<close> here.
\<close>

section \<open>Cohorts\<close>

datatype settle_mode = OWNER_PUBLISH | OWNER_ABORT_FAILED | OWNER_ABORT_CANCELLED

record 'j owner_cohort =
  task_indices :: "nat list"
  task_outputs :: "(nat \<times> 'j) list option"
  branch_succeeded :: "bool list"
  cancelled_before_run :: "bool list option"
  control :: executor_view
  retainers :: "retainer list"

text \<open>What a settlement changes.\<close>

record 'j owner_state =
  os_dag :: dag_state
  os_cohort :: "'j cohort_state"
  os_gate :: process_gate

abbreviation branch_count :: "'j owner_state \<Rightarrow> nat" where
  "branch_count s \<equiv> length (co_txns (os_cohort s))"

abbreviation set_registry :: "'j task_registry \<Rightarrow> 'j owner_state \<Rightarrow> 'j owner_state" where
  "set_registry r s \<equiv> s\<lparr>os_cohort := (os_cohort s)\<lparr>co_registry := r\<rparr>\<rparr>"

section \<open>Preflight\<close>

definition mode_admitted :: "'j owner_cohort \<Rightarrow> settle_mode \<Rightarrow> dag_terminal \<Rightarrow> bool" where
  "mode_admitted c mode t =
     (case mode of
        OWNER_PUBLISH \<Rightarrow> t = DAG_CONTINUE \<and> task_outputs c \<noteq> None
      | OWNER_ABORT_FAILED \<Rightarrow> t = DAG_CONTINUE \<or> t = DAG_FAILED
      | OWNER_ABORT_CANCELLED \<Rightarrow> t = DAG_CANCELLED \<and> cancelled_before_run c \<noteq> None)"

definition branch_admitted :: "'j owner_cohort \<Rightarrow> settle_mode \<Rightarrow> 'j owner_state \<Rightarrow> nat \<Rightarrow> bool" where
  "branch_admitted c mode s i =
     (let id = task_indices c ! i in
      id < stat_task_count (dag_get_stats (os_dag s)) \<and> dag_is_reserved (os_dag s) id = Inr True \<and>
      (case registry_state (co_registry (os_cohort s)) id of
         Inl _ \<Rightarrow> False
       | Inr st \<Rightarrow> st = TASK_PENDING \<or> st = TASK_RUNNING) \<and>
      (mode = OWNER_PUBLISH \<longrightarrow> snd (co_txns (os_cohort s) ! i) \<noteq> None \<and> fst (the (task_outputs c) ! i) = id) \<and>
      id \<notin> set (take i (task_indices c)))"

definition preflight_cohort :: "'j owner_cohort \<Rightarrow> settle_mode \<Rightarrow> nat \<Rightarrow> 'j owner_state \<Rightarrow> parallel_status" where
  "preflight_cohort c mode max_steps s =
     (let n = branch_count s; stats = dag_get_stats (os_dag s) in
      if n = 0 \<or> n > COHORT_MAX_RETAINERS \<or> max_steps = 0 \<or> marker (os_gate s) = 0 \<or> sealed (os_gate s)
      then PARALLEL_INVALID
      else if stat_task_count stats \<noteq> registry_count (co_registry (os_cohort s)) \<or> n > stat_task_count stats
      then PARALLEL_INVALID
      else if \<not> mode_admitted c mode (stat_terminal stats) then PARALLEL_INVALID
      else if \<not> list_all (branch_admitted c mode s) [0..<n] then PARALLEL_INVALID
      else PARALLEL_OK)"

section \<open>Closing admission\<close>

datatype shutdown_policy = SHUTDOWN_DRAIN | SHUTDOWN_CANCEL_PENDING | SHUTDOWN_OTHER

text \<open>The executor's answer to the shutdown request is a parameter; \<open>None\<close> says it was not asked.\<close>

definition close_admission ::
  "(shutdown_policy \<Rightarrow> bool) \<Rightarrow> shutdown_policy \<Rightarrow> dag_state \<Rightarrow> parallel_status \<times> dag_state \<times> shutdown_policy option" where
  "close_admission shutdown policy dag =
     (if policy \<noteq> SHUTDOWN_DRAIN \<and> policy \<noteq> SHUTDOWN_CANCEL_PENDING then (PARALLEL_INVALID, dag, None)
      else case (if policy = SHUTDOWN_CANCEL_PENDING then dag_stop dag DAG_CANCELLED else (SALTS_OK, dag)) of (st, dag') \<Rightarrow>
        if st \<noteq> SALTS_OK then (PARALLEL_INVARIANT, dag', None)
        else if \<not> shutdown policy then (PARALLEL_INVALID, dag', Some policy)
        else (PARALLEL_OK, dag', Some policy))"

section \<open>Settlement\<close>

text \<open>The loop after a publication.\<close>

fun finish_published :: "nat list \<Rightarrow> 'j owner_state \<Rightarrow> parallel_status \<times> 'j owner_state" where
  "finish_published [] s = (PARALLEL_OK, s)"
| "finish_published (i # ids) s =
     (case registry_complete (co_registry (os_cohort s)) i of (st, r) \<Rightarrow>
        let s1 = set_registry r s in
        if st \<noteq> SALTS_OK then (PARALLEL_INVARIANT, s1\<lparr>os_dag := snd (dag_stop (os_dag s) DAG_FAILED)\<rparr>)
        else case dag_finish (os_dag s) i True of (st, d) \<Rightarrow>
          if st \<noteq> SALTS_OK then (PARALLEL_INVARIANT, s1\<lparr>os_dag := snd (dag_stop d DAG_FAILED)\<rparr>)
          else finish_published ids (s1\<lparr>os_dag := d\<rparr>))"

definition settle_publish ::
  "commit_mem \<Rightarrow> 'j json_api \<Rightarrow> run_ready \<Rightarrow> 'j owner_cohort \<Rightarrow> nat \<Rightarrow> 'j owner_state \<Rightarrow>
     parallel_status \<times> 'j owner_state \<times> nat option" where
  "settle_publish mem J run c max_steps s =
     (let n = branch_count s in
      case commit_after_drains mem J run (control c) (the (task_outputs c)) (branch_succeeded c)
             (take n (retainers c)) max_steps (os_gate s) (os_cohort s) of (st, gate, w, pending) \<Rightarrow>
        let s1 = s\<lparr>os_gate := gate, os_cohort := w\<rparr> in
        if st = PARALLEL_INVARIANT then (st, s1\<lparr>os_dag := snd (dag_stop (os_dag s) DAG_FAILED)\<rparr>, pending)
        else if st \<noteq> PARALLEL_OK then (st, s1, pending)
        else case finish_published (take n (task_indices c)) s1 of (st', s2) \<Rightarrow> (st', s2, pending))"

text \<open>The executor preflight of the two abort modes.\<close>

definition abort_settled :: "executor_view \<Rightarrow> nat \<Rightarrow> parallel_status" where
  "abort_settled ex n =
     (case get_stats ex of
        None \<Rightarrow> PARALLEL_INVALID
      | Some st \<Rightarrow>
          if accepted st \<noteq> n \<or> rejected_full st \<noteq> 0 \<or> rejected_closed st \<noteq> 0 \<or> rejected_would_block st \<noteq> 0
          then PARALLEL_INVALID
          else if lifecycle st \<noteq> EXECUTOR_CLOSED \<or> running st \<noteq> 0 \<or> queued st \<noteq> 0 \<or>
            es_completed st > accepted st \<or> cancelled st > accepted st - es_completed st \<or>
            es_completed st + cancelled st \<noteq> accepted st
          then PARALLEL_BUSY
          else if wait_idle ex = WAIT_PENDING \<or> wait_idle ex = WAIT_WOULD_BLOCK then PARALLEL_BUSY
          else if wait_idle ex \<noteq> WAIT_IDLE then PARALLEL_INVALID
          else PARALLEL_OK)"

definition cancelled_tasks :: "executor_view \<Rightarrow> nat" where
  "cancelled_tasks ex = (case get_stats ex of None \<Rightarrow> 0 | Some st \<Rightarrow> cancelled st)"

text \<open>The counts of the abort modes, and the stop of the readiness state.\<close>

definition abort_counts :: "'j owner_cohort \<Rightarrow> settle_mode \<Rightarrow> nat \<Rightarrow> dag_state \<Rightarrow> parallel_status \<times> dag_state" where
  "abort_counts c mode n dag =
     (if mode = OWNER_ABORT_FAILED then
        (if cancelled_tasks (control c) \<noteq> 0 then (PARALLEL_CANCELLED, dag)
         else case dag_stop dag DAG_FAILED of (st, dag') \<Rightarrow>
           (if st \<noteq> SALTS_OK then PARALLEL_INVARIANT else PARALLEL_OK, dag'))
      else if count_if (\<lambda>b. b) (take n (the (cancelled_before_run c))) \<noteq> cancelled_tasks (control c)
      then (PARALLEL_INVALID, dag)
      else (PARALLEL_OK, dag))"

definition abort_reason :: "settle_mode \<Rightarrow> string" where
  "abort_reason mode = (if mode = OWNER_ABORT_CANCELLED then ''Process cohort cancelled'' else ''Process cohort failed'')"

text \<open>The loop of an abort over the tasks, each with whether it was cancelled before it ran.\<close>

fun settle_aborted :: "registry_site allocator \<Rightarrow> string \<Rightarrow> (nat \<times> bool) list \<Rightarrow> 'j owner_state \<Rightarrow> parallel_status \<times> 'j owner_state" where
  "settle_aborted mem reason [] s = (PARALLEL_OK, s)"
| "settle_aborted mem reason ((i, no_run) # rows) s =
     (if no_run then
        (case dag_refuse (os_dag s) i of (st, d) \<Rightarrow>
           if st \<noteq> SALTS_OK then (PARALLEL_INVARIANT, s\<lparr>os_dag := d\<rparr>)
           else settle_aborted mem reason rows (s\<lparr>os_dag := d\<rparr>))
      else
        (case registry_fail mem (co_registry (os_cohort s)) i reason of (st, r) \<Rightarrow>
           if st \<noteq> SALTS_OK then (PARALLEL_INVARIANT, set_registry r s)
           else case dag_finish (os_dag s) i False of (st, d) \<Rightarrow>
             if st \<noteq> SALTS_OK then (PARALLEL_INVARIANT, (set_registry r s)\<lparr>os_dag := d\<rparr>)
             else settle_aborted mem reason rows ((set_registry r s)\<lparr>os_dag := d\<rparr>)))"

definition abort_rows :: "'j owner_cohort \<Rightarrow> settle_mode \<Rightarrow> nat \<Rightarrow> (nat \<times> bool) list" where
  "abort_rows c mode n = map (\<lambda>i. (task_indices c ! i,
     mode = OWNER_ABORT_CANCELLED \<and> the (cancelled_before_run c) ! i)) [0..<n]"

definition settle_abort ::
  "commit_mem \<Rightarrow> run_ready \<Rightarrow> 'j owner_cohort \<Rightarrow> settle_mode \<Rightarrow> nat \<Rightarrow> 'j owner_state \<Rightarrow>
     parallel_status \<times> 'j owner_state \<times> nat option" where
  "settle_abort mem run c mode max_steps s =
     (let n = branch_count s; before = (if marker (os_gate s) \<noteq> 0 then last_pending (os_gate s) else None) in
      if abort_settled (control c) n \<noteq> PARALLEL_OK then (abort_settled (control c) n, s, before)
      else case abort_counts c mode n (os_dag s) of (counted, dag) \<Rightarrow>
        let s1 = s\<lparr>os_dag := dag\<rparr> in
        if counted \<noteq> PARALLEL_OK then (counted, s1, before)
        else case drain_process_retainers run (os_gate s) (take n (retainers c)) max_steps of (drained, gate, pending, _) \<Rightarrow>
          let s2 = s1\<lparr>os_gate := gate\<rparr> in
          if drained = PARALLEL_INVALID \<or> pending = None \<or> pending = Some size_max then (PARALLEL_INVALID, s2, pending)
          else if pending \<noteq> Some 0
          then (if drained = PARALLEL_RECOVERY then PARALLEL_RECOVERY else PARALLEL_BUSY, s2, pending)
          else let s3 = s2\<lparr>os_cohort := (os_cohort s2)\<lparr>co_txns := map (apsnd value_txn_abort) (co_txns (os_cohort s2))\<rparr>\<rparr> in
            case settle_aborted (registry_mem mem) (abort_reason mode) (abort_rows c mode n) s3 of (st, s4) \<Rightarrow>
              if st \<noteq> PARALLEL_OK then (st, s4, pending)
              else (if drained = PARALLEL_RECOVERY then PARALLEL_RECOVERY else PARALLEL_OK,
                    s4\<lparr>os_gate := (os_gate s4)\<lparr>sealed := True\<rparr>\<rparr>, pending))"

definition settle_cohort ::
  "commit_mem \<Rightarrow> 'j json_api \<Rightarrow> run_ready \<Rightarrow> 'j owner_cohort \<Rightarrow> settle_mode \<Rightarrow> nat \<Rightarrow> 'j owner_state \<Rightarrow>
     parallel_status \<times> 'j owner_state \<times> nat option" where
  "settle_cohort mem J run c mode max_steps s =
     (if preflight_cohort c mode max_steps s \<noteq> PARALLEL_OK
      then (preflight_cohort c mode max_steps s, s,
            if marker (os_gate s) \<noteq> 0 then last_pending (os_gate s) else None)
      else if mode = OWNER_PUBLISH then settle_publish mem J run c max_steps s
      else settle_abort mem run c mode max_steps s)"

section \<open>The loops\<close>

text \<open>A task that can be settled: reserved in the graph, not final in the registry, with a revision left.\<close>

definition settleable :: "dag_state \<Rightarrow> 'j task_registry \<Rightarrow> nat \<Rightarrow> bool" where
  "settleable d r i \<longleftrightarrow> i < length (entries d) \<and> phase (entries d ! i) = DAG_TASK_RESERVED \<and>
     i < length (slots r) \<and> \<not> finalized (slot_state (slots r ! i)) \<and> revision_available (slots r ! i)"

text \<open>A claimed task that is not final, whether or not a revision is left.\<close>

definition claimed_task :: "dag_state \<Rightarrow> 'j task_registry \<Rightarrow> nat \<Rightarrow> bool" where
  "claimed_task d r i \<longleftrightarrow> i < length (entries d) \<and> phase (entries d ! i) = DAG_TASK_RESERVED \<and>
     i < length (slots r) \<and> \<not> finalized (slot_state (slots r ! i))"

text \<open>The phases and slots of a state, with those at the given tasks replaced.\<close>

definition phases_at :: "(nat \<Rightarrow> dag_task_phase option) \<Rightarrow> dag_state \<Rightarrow> dag_state \<Rightarrow> bool" where
  "phases_at f d d' \<longleftrightarrow> length (entries d') = length (entries d) \<and>
     (\<forall>j<length (entries d). phase (entries d' ! j) = (case f j of None \<Rightarrow> phase (entries d ! j) | Some p \<Rightarrow> p))"

definition slots_at :: "(nat \<Rightarrow> ('j task_slot \<Rightarrow> 'j task_slot) option) \<Rightarrow> 'j task_registry \<Rightarrow> 'j task_registry \<Rightarrow> bool" where
  "slots_at f r r' \<longleftrightarrow> length (slots r') = length (slots r) \<and>
     (\<forall>j<length (slots r). slots r' ! j = (case f j of None \<Rightarrow> slots r ! j | Some g \<Rightarrow> g (slots r ! j)))"

definition completed_slot :: "'j task_slot \<Rightarrow> 'j task_slot" where
  "completed_slot s = s\<lparr>slot_state := TASK_SUCCESS, slot_revision := slot_revision s + 1\<rparr>"

definition failed_slot :: "string \<Rightarrow> 'j task_slot \<Rightarrow> 'j task_slot" where
  "failed_slot reason s = s\<lparr>slot_reason := Some reason, slot_state := TASK_FAILED, slot_revision := slot_revision s + 1\<rparr>"

lemma complete_settleable:
  "settleable d r i \<Longrightarrow> registry_complete r i = (SALTS_OK, set_slot r i (completed_slot (slots r ! i)))"
  by (simp add: settleable_def registry_complete_def slot_for_def completed_slot_def)

lemma fail_claimed:
  "claimed_task d r i \<Longrightarrow> length reason \<le> max_reason_bytes \<Longrightarrow> NUL \<notin> set reason \<Longrightarrow>
   if mem (Site_reason i) \<and> revision_available (slots r ! i)
   then registry_fail mem r i reason = (SALTS_OK, set_slot r i (failed_slot reason (slots r ! i)))
   else snd (registry_fail mem r i reason) = r \<and> fst (registry_fail mem r i reason) \<noteq> SALTS_OK"
  by (auto simp: claimed_task_def registry_fail_def slot_for_def failed_slot_def)

lemma phase_updated:
  assumes "map phase (entries d') = (map phase (entries d))[i := p]" and "j < length (entries d)"
  shows "phase (entries d' ! j) = (if j = i then p else phase (entries d ! j))"
  using arg_cong [OF assms(1), of "\<lambda>l. l ! j"] arg_cong [OF assms(1), of length] assms(2)
  by (auto simp: nth_list_update_if)

lemma finish_reserved:
  assumes "dag_inv d" and "i < length (entries d)" "phase (entries d ! i) = DAG_TASK_RESERVED"
  obtains d' where "dag_finish d i success = (SALTS_OK, d')" "dag_inv d'"
    "phases_at ([i \<mapsto> DAG_TASK_FINISHED]) d d'"
    "terminal d' = (if \<not> success \<and> terminal d = DAG_CONTINUE then DAG_FAILED else terminal d)"
proof -
  obtain d' where d': "dag_finish d i success = (SALTS_OK, d')" "length (entries d') = length (entries d)"
    "terminal d' = (if \<not> success \<and> terminal d = DAG_CONTINUE then DAG_FAILED else terminal d)"
    "map phase (entries d') = (map phase (entries d))[i := DAG_TASK_FINISHED]"
    using finish_spec [OF assms(1), of i success] assms(2,3) by blast
  have "phases_at ([i \<mapsto> DAG_TASK_FINISHED]) d d'"
    using phase_updated [OF d'(4)] d'(2) by (simp add: phases_at_def)
  then show thesis using that d' dag_finish_inv [OF assms(1) d'(1)] by blast
qed

lemma settleable_other:
  assumes "settleable d r j" and "j \<noteq> i" and "phases_at ([i \<mapsto> p]) d d'"
  shows "settleable d' (set_slot r i v) j" and "settleable d' r j"
  using assms by (auto simp: settleable_def phases_at_def)

lemma claimed_other:
  assumes "claimed_task d r j" and "j \<noteq> i" and "phases_at ([i \<mapsto> p]) d d'"
  shows "claimed_task d' (set_slot r i v) j" and "claimed_task d' r j"
  using assms by (auto simp: claimed_task_def phases_at_def)

lemma phases_at_cons:
  assumes "phases_at ([i \<mapsto> p]) d d1" and "phases_at f d1 d2" and "f i = None"
  shows "phases_at (f(i \<mapsto> p)) d d2"
  using assms by (auto simp: phases_at_def split: option.splits)

lemma slots_at_cons:
  assumes "slots_at f (set_slot r i (g (slots r ! i))) r2" and "f i = None"
  shows "slots_at (f(i \<mapsto> g)) r r2"
  using assms by (auto simp: slots_at_def split: option.splits)

lemma phases_at_none: "phases_at (\<lambda>_. None) d d" and slots_at_none: "slots_at (\<lambda>_. None) r r"
  by (simp_all add: phases_at_def slots_at_def)

definition at_tasks :: "nat set \<Rightarrow> 'a \<Rightarrow> nat \<Rightarrow> 'a option" where
  "at_tasks A x = (\<lambda>j. if j \<in> A then Some x else None)"

lemma at_tasks_simps: "at_tasks {} x = (\<lambda>_. None)" "(at_tasks A x)(i \<mapsto> x) = at_tasks (insert i A) x"
  "at_tasks A x i = None \<longleftrightarrow> i \<notin> A" "at_tasks A x i = Some y \<longleftrightarrow> i \<in> A \<and> y = x"
  by (auto simp: at_tasks_def)

lemma finish_published_spec:
  assumes "dag_inv (os_dag s)" and "distinct ids" and "\<forall>i\<in>set ids. settleable (os_dag s) (co_registry (os_cohort s)) i"
  shows "\<exists>d r. finish_published ids s = (PARALLEL_OK, (set_registry r s)\<lparr>os_dag := d\<rparr>) \<and> dag_inv d \<and>
    terminal d = terminal (os_dag s) \<and> phases_at (at_tasks (set ids) DAG_TASK_FINISHED) (os_dag s) d \<and>
    slots_at (at_tasks (set ids) completed_slot) (co_registry (os_cohort s)) r"
  using assms
proof (induction ids arbitrary: s)
  case Nil
  then show ?case
    by (auto simp: at_tasks_simps phases_at_none slots_at_none intro!: exI [of _ "os_dag s"] exI [of _ "co_registry (os_cohort s)"])
next
  case (Cons i ids)
  let ?r = "co_registry (os_cohort s)"
  have i: "settleable (os_dag s) ?r i" using Cons.prems(3) by simp
  obtain d1 where d1: "dag_finish (os_dag s) i True = (SALTS_OK, d1)" "dag_inv d1"
    "phases_at ([i \<mapsto> DAG_TASK_FINISHED]) (os_dag s) d1" "terminal d1 = terminal (os_dag s)"
    using finish_reserved [OF Cons.prems(1), of i True] i by (auto simp: settleable_def)
  let ?s = "(set_registry (set_slot ?r i (completed_slot (slots ?r ! i))) s)\<lparr>os_dag := d1\<rparr>"
  have step: "finish_published (i # ids) s = finish_published ids ?s"
    using complete_settleable [OF i] d1(1) by simp
  have "\<forall>j\<in>set ids. settleable d1 (set_slot ?r i (completed_slot (slots ?r ! i))) j"
    using Cons.prems(2,3) settleable_other(1) [OF _ _ d1(3)] by auto
  then obtain d r where dr: "finish_published ids ?s = (PARALLEL_OK, (set_registry r ?s)\<lparr>os_dag := d\<rparr>)" "dag_inv d"
    "terminal d = terminal (os_dag s)" "phases_at (at_tasks (set ids) DAG_TASK_FINISHED) d1 d"
    "slots_at (at_tasks (set ids) completed_slot) (set_slot ?r i (completed_slot (slots ?r ! i))) r"
    using Cons.IH [of ?s] Cons.prems(2) d1(2,4) by auto
  have "i \<notin> set ids" using Cons.prems(2) by simp
  then have "phases_at (at_tasks (set (i # ids)) DAG_TASK_FINISHED) (os_dag s) d"
    "slots_at (at_tasks (set (i # ids)) completed_slot) ?r r"
    using phases_at_cons [OF d1(3) dr(4)] slots_at_cons [where r = ?r and i = i and g = completed_slot, OF dr(5)] by (simp_all add: at_tasks_simps)
  then show ?case using dr(1-3) unfolding step by (intro exI [of _ d] exI [of _ r]) simp
qed

section \<open>Publication\<close>

text \<open>Two revisions are left at a task: one for its outputs, one for its completion.\<close>

definition revisions_left :: "'j task_registry \<Rightarrow> nat \<Rightarrow> bool" where
  "revisions_left r i \<longleftrightarrow> slot_revision (slots r ! i) \<noteq> - 1 \<and> slot_revision (slots r ! i) + 1 \<noteq> - 1"

lemma published_slot:
  assumes "outputs_published J updates r r'" and "i < length (slots r)" and "\<not> finalized (slot_state (slots r ! i))"
    and "revisions_left r i"
  shows "i < length (slots r') \<and> \<not> finalized (slot_state (slots r' ! i)) \<and> revision_available (slots r' ! i)"
proof -
  have cases: "slots r' ! i = slots r ! i \<or> (\<exists>v. slots r' ! i = install_outputs v (slots r ! i))"
  proof (cases "i \<in> fst ` set updates")
    case True
    then obtain u where "(i, u) \<in> set updates" by auto
    then obtain staged where "slots r' ! i = (case staged of None \<Rightarrow> slots r ! i | Some v \<Rightarrow> install_outputs v (slots r ! i))"
      using assms(1) unfolding outputs_published_def by blast
    then show ?thesis by (cases staged) auto
  next
    case False
    then show ?thesis using assms(1) by (auto simp: outputs_published_def)
  qed
  have len: "length (slots r') = length (slots r)" using assms(1) by (simp add: outputs_published_def)
  show ?thesis using cases assms(2-4) len
    by (auto simp: install_outputs_def revision_available_def revisions_left_def finalized_def split: if_splits)
qed

text \<open>What the preflight has established.\<close>

lemma preflight_branch:
  assumes "preflight_cohort c mode k s = PARALLEL_OK" and "i < branch_count s"
  shows "branch_admitted c mode s i"
  using assms by (auto simp: preflight_cohort_def Let_def list_all_iff split: if_splits)

lemma preflight_distinct:
  assumes "preflight_cohort c mode k s = PARALLEL_OK" and "branch_count s \<le> length (task_indices c)"
  shows "distinct (take (branch_count s) (task_indices c))"
proof -
  have "task_indices c ! i \<noteq> task_indices c ! j" if "j < i" "i < branch_count s" for i j
  proof -
    have "task_indices c ! i \<notin> set (take i (task_indices c))"
      using preflight_branch [OF assms(1) that(2)] by (simp add: branch_admitted_def Let_def)
    moreover have "task_indices c ! j \<in> set (take i (task_indices c))"
      using that assms(2) by (auto simp: in_set_conv_nth intro!: exI [of _ j])
    ultimately show ?thesis by metis
  qed
  then show ?thesis using assms(2) by (auto simp: distinct_conv_nth) (metis linorder_neqE_nat)
qed

lemma preflight_task:
  assumes "preflight_cohort c mode k s = PARALLEL_OK" and "branch_count s \<le> length (task_indices c)"
    and "i \<in> set (take (branch_count s) (task_indices c))"
  shows "i < length (entries (os_dag s)) \<and> phase (entries (os_dag s) ! i) = DAG_TASK_RESERVED \<and>
    i < length (slots (co_registry (os_cohort s))) \<and> \<not> finalized (slot_state (slots (co_registry (os_cohort s)) ! i))"
proof -
  obtain b where b: "b < branch_count s" "i = task_indices c ! b"
    using assms(2,3) by (auto simp: in_set_conv_nth)
  show ?thesis using preflight_branch [OF assms(1) b(1)] unfolding b(2)
    by (auto simp: branch_admitted_def Let_def dag_get_stats_def dag_is_reserved_def registry_state_def slot_for_def
        finalized_def split: option.splits if_splits)
qed

abbreviation cohort_ids :: "'j owner_cohort \<Rightarrow> 'j owner_state \<Rightarrow> nat list" where
  "cohort_ids c s \<equiv> take (branch_count s) (task_indices c)"

text \<open>
  C21. Settling a cohort for publication is atomic over the graph, the registry, the stores and the
  transactions. On success the guarded commit has published, every task of the cohort is finished in
  the graph and SUCCESS in the registry with its published outputs, no other task has changed, and the
  graph keeps its invariant; on every other status nothing but the gate has changed. The status for an
  impossible failure after publication is never returned while two revisions are left at each task.\<close>

theorem settle_publish_atomic:
  assumes inv: "dag_inv (os_dag s)" and rows: "branch_count s \<le> length (task_indices c)"
    and revs: "\<forall>i\<in>set (cohort_ids c s). revisions_left (co_registry (os_cohort s)) i"
  shows "case settle_cohort mem J run c OWNER_PUBLISH k s of (st, s', pending) \<Rightarrow>
    if st = PARALLEL_OK
    then \<exists>w. parallel_commit mem J (the (task_outputs c)) (os_cohort s) = (PARALLEL_OK, w) \<and>
      slots_at (at_tasks (set (cohort_ids c s)) completed_slot) (co_registry w) (co_registry (os_cohort s')) \<and>
      os_cohort s' = w\<lparr>co_registry := co_registry (os_cohort s')\<rparr> \<and>
      phases_at (at_tasks (set (cohort_ids c s)) DAG_TASK_FINISHED) (os_dag s) (os_dag s') \<and>
      dag_inv (os_dag s') \<and> terminal (os_dag s') = DAG_CONTINUE \<and> sealed (os_gate s')
    else st \<noteq> PARALLEL_INVARIANT \<and> os_dag s' = os_dag s \<and> os_cohort s' = os_cohort s"
proof (cases "preflight_cohort c OWNER_PUBLISH k s = PARALLEL_OK")
  case False
  moreover have "preflight_cohort c OWNER_PUBLISH k s \<noteq> PARALLEL_INVARIANT" by (auto simp: preflight_cohort_def Let_def)
  ultimately show ?thesis by (simp add: settle_cohort_def)
next
  case True
  let ?ids = "cohort_ids c s" and ?r = "co_registry (os_cohort s)"
  obtain st gate w pending where call: "commit_after_drains mem J run (control c) (the (task_outputs c)) (branch_succeeded c)
      (take (branch_count s) (retainers c)) k (os_gate s) (os_cohort s) = (st, gate, w, pending)" by (metis prod_cases4)
  show ?thesis
  proof (cases rule: commit_after_drains_cases [OF call])
    case refused: 1
    then show ?thesis using call True by (simp add: settle_cohort_def settle_publish_def)
  next
    case published: 2
    let ?s = "s\<lparr>os_gate := gate, os_cohort := w\<rparr>"
    have pub: "outputs_published J (take (branch_count s) (the (task_outputs c))) ?r (co_registry w)"
      using parallel_commit_published [OF published(2)] .
    have "\<forall>i\<in>set ?ids. settleable (os_dag s) (co_registry w) i"
      using preflight_task [OF True rows] published_slot [OF pub] revs unfolding settleable_def by blast
    then obtain d r where dr: "finish_published ?ids ?s = (PARALLEL_OK, (set_registry r ?s)\<lparr>os_dag := d\<rparr>)" "dag_inv d"
      "terminal d = terminal (os_dag s)" "phases_at (at_tasks (set ?ids) DAG_TASK_FINISHED) (os_dag s) d"
      "slots_at (at_tasks (set ?ids) completed_slot) (co_registry w) r"
      using finish_published_spec [of ?s ?ids] inv preflight_distinct [OF True rows] by auto
    have "terminal (os_dag s) = DAG_CONTINUE"
      using True by (auto simp: preflight_cohort_def mode_admitted_def dag_get_stats_def Let_def split: if_splits)
    then show ?thesis using dr published call True
      by (simp add: settle_cohort_def settle_publish_def)
  qed
qed

section \<open>Abort\<close>

text \<open>The phase and the slot that an abort leaves at the tasks of its rows.\<close>

definition abort_phase :: "(nat \<times> bool) list \<Rightarrow> nat \<Rightarrow> dag_task_phase option" where
  "abort_phase rows i = map_option (\<lambda>no_run. if no_run then DAG_TASK_REFUSED else DAG_TASK_FINISHED) (map_of rows i)"

definition abort_slot :: "string \<Rightarrow> (nat \<times> bool) list \<Rightarrow> nat \<Rightarrow> ('j task_slot \<Rightarrow> 'j task_slot) option" where
  "abort_slot reason rows i = (if map_of rows i = Some False then Some (failed_slot reason) else None)"

lemma refuse_reserved:
  assumes "dag_inv d" and "i < length (entries d)" "phase (entries d ! i) = DAG_TASK_RESERVED"
  obtains d' where "dag_refuse d i = (SALTS_OK, d')" "dag_inv d'" "phases_at ([i \<mapsto> DAG_TASK_REFUSED]) d d'"
    "terminal d' \<noteq> DAG_CONTINUE"
proof -
  obtain d' where d': "dag_refuse d i = (SALTS_OK, d')" using assms(2,3) by (simp add: dag_refuse_def)
  then have "phases_at ([i \<mapsto> DAG_TASK_REFUSED]) d d'" "terminal d' \<noteq> DAG_CONTINUE"
    using assms(2,3) by (auto simp: dag_refuse_def phases_at_def split: if_splits)
  then show thesis using that d' dag_refuse_inv [OF assms(1) d'] by blast
qed

text \<open>A row can be settled when it needs no failure, or the registry can record the failure.\<close>

definition row_ready :: "registry_site allocator \<Rightarrow> 'j task_registry \<Rightarrow> nat \<times> bool \<Rightarrow> bool" where
  "row_ready mem r row \<longleftrightarrow> snd row \<or> (mem (Site_reason (fst row)) \<and> revision_available (slots r ! fst row))"

lemma abort_maps_nil: "abort_phase [] = (\<lambda>_. None)" "abort_slot reason [] = (\<lambda>_. None)"
  by (auto simp: abort_phase_def abort_slot_def)

lemma abort_maps_cons:
  assumes "i \<notin> fst ` set rows"
  shows "abort_phase ((i, no_run) # rows) = (abort_phase rows)(i \<mapsto> if no_run then DAG_TASK_REFUSED else DAG_TASK_FINISHED)"
    "abort_phase rows i = None" "abort_slot reason rows i = None"
    "abort_slot reason ((i, True) # rows) = abort_slot reason rows"
    "abort_slot reason ((i, False) # rows) = (abort_slot reason rows)(i \<mapsto> failed_slot reason)"
proof -
  have "map_of rows i = None" using assms by (simp add: map_of_eq_None_iff)
  then show "abort_phase ((i, no_run) # rows) = (abort_phase rows)(i \<mapsto> if no_run then DAG_TASK_REFUSED else DAG_TASK_FINISHED)"
    "abort_phase rows i = None" "abort_slot reason rows i = None"
    "abort_slot reason ((i, True) # rows) = abort_slot reason rows"
    "abort_slot reason ((i, False) # rows) = (abort_slot reason rows)(i \<mapsto> failed_slot reason)"
    by (auto simp: abort_phase_def abort_slot_def fun_eq_iff)
qed

text \<open>The loop settles the rows before the first one that cannot be settled, and stops there.\<close>

lemma settle_aborted_spec:
  assumes "dag_inv (os_dag s)" and "distinct (map fst rows)"
    and "\<forall>i\<in>fst ` set rows. claimed_task (os_dag s) (co_registry (os_cohort s)) i"
    and reason: "length reason \<le> max_reason_bytes" "NUL \<notin> set reason"
  shows "\<exists>d r. settle_aborted mem reason rows s =
      (if list_all (row_ready mem (co_registry (os_cohort s))) rows then PARALLEL_OK else PARALLEL_INVARIANT, (set_registry r s)\<lparr>os_dag := d\<rparr>) \<and>
    dag_inv d \<and> phases_at (abort_phase (takeWhile (row_ready mem (co_registry (os_cohort s))) rows)) (os_dag s) d \<and>
    slots_at (abort_slot reason (takeWhile (row_ready mem (co_registry (os_cohort s))) rows)) (co_registry (os_cohort s)) r"
  using assms(1-3)
proof (induction rows arbitrary: s)
  case Nil
  then show ?case
    by (auto simp: abort_maps_nil phases_at_none slots_at_none intro!: exI [of _ "os_dag s"] exI [of _ "co_registry (os_cohort s)"])
next
  case (Cons row rows)
  obtain i no_run where row: "row = (i, no_run)" by (cases row)
  let ?r = "co_registry (os_cohort s)" and ?p = "if no_run then DAG_TASK_REFUSED else DAG_TASK_FINISHED"
  let ?r1 = "if no_run then ?r else set_slot ?r i (failed_slot reason (slots ?r ! i))"
  have i: "claimed_task (os_dag s) ?r i" and fresh: "i \<notin> fst ` set rows" using Cons.prems row by auto
  note i' = i [unfolded claimed_task_def] and fail = fail_claimed [OF i reason, of mem]
  show ?case
  proof (cases "row_ready mem ?r row")
    case False
    then have "no_run = False" "\<not> (mem (Site_reason i) \<and> revision_available (slots ?r ! i))" by (auto simp: row row_ready_def)
    then obtain st where "registry_fail mem ?r i reason = (st, ?r)" "st \<noteq> SALTS_OK" using fail by (metis prod.collapse)
    then have "settle_aborted mem reason (row # rows) s = (PARALLEL_INVARIANT, set_registry ?r s)" using \<open>no_run = False\<close> by (simp add: row)
    then show ?thesis using False Cons.prems(1)
      by (auto simp: abort_maps_nil phases_at_none slots_at_none intro!: exI [of _ "os_dag s"] exI [of _ ?r])
  next
    case True
    obtain d1 where d1: "dag_inv d1" "phases_at ([i \<mapsto> ?p]) (os_dag s) d1"
      and step: "settle_aborted mem reason (row # rows) s = settle_aborted mem reason rows ((set_registry ?r1 s)\<lparr>os_dag := d1\<rparr>)"
    proof (cases no_run)
      case no: True
      obtain d1 where "dag_refuse (os_dag s) i = (SALTS_OK, d1)" "dag_inv d1" "phases_at ([i \<mapsto> DAG_TASK_REFUSED]) (os_dag s) d1"
        using refuse_reserved [OF Cons.prems(1)] i' by metis
      then show thesis using that [of d1] row no by simp
    next
      case no: False
      obtain d1 where "dag_finish (os_dag s) i False = (SALTS_OK, d1)" "dag_inv d1" "phases_at ([i \<mapsto> DAG_TASK_FINISHED]) (os_dag s) d1"
        using finish_reserved [OF Cons.prems(1)] i' by metis
      then show thesis using that [of d1] fail True row no by (simp add: row_ready_def)
    qed
    let ?s = "(set_registry ?r1 s)\<lparr>os_dag := d1\<rparr>"
    have claimed: "claimed_task d1 ?r1 j" if j: "j \<in> fst ` set rows" for j
      using j Cons.prems(3) row fresh claimed_other [OF _ _ d1(2), of ?r j] by auto
    have same: "row_ready mem ?r1 y = row_ready mem ?r y" if "y \<in> set rows" for y
    proof -
      have "i \<noteq> fst y" using that fresh by auto
      then show ?thesis by (simp add: row_ready_def)
    qed
    let ?ok = "row_ready mem ?r" and ?done = "takeWhile (row_ready mem ?r) rows"
    have eq: "takeWhile (row_ready mem ?r1) rows = ?done" "list_all (row_ready mem ?r1) rows = list_all ?ok rows"
      using same by (auto intro: takeWhile_cong simp: list_all_iff)
    obtain d r where dr: "settle_aborted mem reason rows ?s = (if list_all ?ok rows then PARALLEL_OK else PARALLEL_INVARIANT, (set_registry r ?s)\<lparr>os_dag := d\<rparr>)" "dag_inv d"
      "phases_at (abort_phase ?done) d1 d" "slots_at (abort_slot reason ?done) ?r1 r"
      using Cons.IH [of ?s] Cons.prems(2) d1(1) claimed row eq by auto
    have out: "i \<notin> fst ` set ?done" using fresh by (auto dest: set_takeWhileD)
    note maps = abort_maps_cons [OF out]
    have ph: "phases_at (abort_phase (row # ?done)) (os_dag s) d" using phases_at_cons [OF d1(2) dr(3)] maps by (simp add: row)
    have sl: "slots_at (abort_slot reason (row # ?done)) ?r r"
    proof (cases no_run)
      case no: True
      then show ?thesis using dr(4) by (simp add: row maps(4))
    next
      case no: False
      then show ?thesis using slots_at_cons [where r = ?r and i = i and g = "failed_slot reason" and f = "abort_slot reason ?done"] dr(4) by (simp add: row maps)
    qed
    show ?thesis using dr(1,2) ph sl True unfolding step by (intro exI [of _ d] exI [of _ r]) simp
  qed
qed

text \<open>A stop changes no phase.\<close>

lemma stop_phases: "phases_at (\<lambda>_. None) d (snd (dag_stop d reason))" "entries (snd (dag_stop d reason)) = entries d"
  by (auto simp: phases_at_def dag_stop_def)

lemma abort_counts_dag:
  assumes "abort_counts c mode n d = (st, d')"
  shows "entries d' = entries d \<and> (dag_inv d \<longrightarrow> dag_inv d') \<and> st \<noteq> PARALLEL_INVARIANT"
proof -
  have stop: "dag_stop d DAG_FAILED = (SALTS_OK, d1) \<Longrightarrow> entries d1 = entries d \<and> (dag_inv d \<longrightarrow> dag_inv d1)" for d1
    using stop_phases(2) [of d DAG_FAILED] dag_stop_inv [of d DAG_FAILED SALTS_OK d1] by auto
  have "fst (dag_stop d DAG_FAILED) = SALTS_OK" by (simp add: dag_stop_def less_dag_terminal_def)
  then show ?thesis using assms stop
    by (cases "dag_stop d DAG_FAILED") (auto simp: abort_counts_def split: if_splits)
qed

lemma abort_rows_ids:
  assumes "n \<le> length (task_indices c)"
  shows "map fst (abort_rows c mode n) = take n (task_indices c)"
  using assms by (auto simp: abort_rows_def intro!: nth_equalityI)

lemma abort_reason_ok: "length (abort_reason mode) \<le> max_reason_bytes" "NUL \<notin> set (abort_reason mode)"
  by (auto simp: abort_reason_def max_reason_bytes_def)

text \<open>The rows of an abort that are settled: those before the first that the registry cannot fail.\<close>

definition settled_rows :: "registry_site allocator \<Rightarrow> 'j owner_cohort \<Rightarrow> settle_mode \<Rightarrow> 'j owner_state \<Rightarrow> (nat \<times> bool) list" where
  "settled_rows mem c mode s = takeWhile (row_ready mem (co_registry (os_cohort s))) (abort_rows c mode (branch_count s))"

lemma settled_rows_all: "settled_rows mem c mode s = abort_rows c mode (branch_count s) \<longleftrightarrow>
    list_all (row_ready mem (co_registry (os_cohort s))) (abort_rows c mode (branch_count s))"
  by (simp add: settled_rows_def takeWhile_eq_all_conv list_all_iff)

lemma abort_run:
  assumes pre: "preflight_cohort c mode k s = PARALLEL_OK" and rows: "branch_count s \<le> length (task_indices c)"
    and d: "entries d = entries (os_dag s)" "dag_inv d" and w: "co_registry w = co_registry (os_cohort s)"
  shows "\<exists>d' r. settle_aborted mem (abort_reason mode) (abort_rows c mode (branch_count s)) (s\<lparr>os_dag := d, os_gate := gate, os_cohort := w\<rparr>) =
      (if settled_rows mem c mode s = abort_rows c mode (branch_count s) then PARALLEL_OK else PARALLEL_INVARIANT,
       (set_registry r (s\<lparr>os_gate := gate, os_cohort := w\<rparr>))\<lparr>os_dag := d'\<rparr>) \<and> dag_inv d' \<and>
    phases_at (abort_phase (settled_rows mem c mode s)) (os_dag s) d' \<and>
    slots_at (abort_slot (abort_reason mode) (settled_rows mem c mode s)) (co_registry (os_cohort s)) r"
proof -
  let ?rows = "abort_rows c mode (branch_count s)" and ?s = "s\<lparr>os_dag := d, os_gate := gate, os_cohort := w\<rparr>"
  have ids: "map fst ?rows = cohort_ids c s" by (rule abort_rows_ids [OF rows])
  have "\<forall>i\<in>fst ` set ?rows. claimed_task d (co_registry w) i"
    using preflight_task [OF pre rows] d ids w unfolding claimed_task_def by (metis image_set)
  moreover have "distinct (map fst ?rows)" using preflight_distinct [OF pre rows] ids by simp
  ultimately obtain d' r where dr: "settle_aborted mem (abort_reason mode) ?rows ?s =
      (if settled_rows mem c mode s = ?rows then PARALLEL_OK else PARALLEL_INVARIANT, (set_registry r ?s)\<lparr>os_dag := d'\<rparr>)"
    "dag_inv d'" "phases_at (abort_phase (settled_rows mem c mode s)) d d'"
    "slots_at (abort_slot (abort_reason mode) (settled_rows mem c mode s)) (co_registry w) r"
    using settle_aborted_spec [where s = ?s and mem = mem and rows = ?rows and reason = "abort_reason mode"]
      d w abort_reason_ok [of mode] unfolding settled_rows_all unfolding settled_rows_def by auto
  have "phases_at (abort_phase (settled_rows mem c mode s)) (os_dag s) d'" using dr(3) unfolding phases_at_def d(1) .
  then show ?thesis using dr w by auto
qed

text \<open>The outcome of an abort, for the claims.\<close>

lemma abort_outcome:
  assumes mode: "mode \<noteq> OWNER_PUBLISH" and inv: "dag_inv (os_dag s)" and rows: "branch_count s \<le> length (task_indices c)"
    and unsealed: "\<not> sealed (os_gate s)"
  shows "case settle_cohort mem J run c mode k s of (st, s', pending) \<Rightarrow>
    co_heap (os_cohort s') = co_heap (os_cohort s) \<and> dag_inv (os_dag s') \<and>
    (if sealed (os_gate s') \<or> st = PARALLEL_INVARIANT
     then pending = Some 0 \<and> (if sealed (os_gate s') then st = PARALLEL_OK \<or> st = PARALLEL_RECOVERY else st = PARALLEL_INVARIANT) \<and>
       (sealed (os_gate s') \<longleftrightarrow> settled_rows (registry_mem mem) c mode s = abort_rows c mode (branch_count s)) \<and>
       co_txns (os_cohort s') = map (apsnd (\<lambda>_. None)) (co_txns (os_cohort s)) \<and>
       phases_at (abort_phase (settled_rows (registry_mem mem) c mode s)) (os_dag s) (os_dag s') \<and>
       slots_at (abort_slot (abort_reason mode) (settled_rows (registry_mem mem) c mode s))
         (co_registry (os_cohort s)) (co_registry (os_cohort s'))
     else st \<noteq> PARALLEL_OK \<and> os_cohort s' = os_cohort s \<and> entries (os_dag s') = entries (os_dag s))"
proof (cases "preflight_cohort c mode k s = PARALLEL_OK \<and> abort_settled (control c) (branch_count s) = PARALLEL_OK")
  case False
  moreover have "preflight_cohort c mode k s \<noteq> PARALLEL_INVARIANT" by (auto simp: preflight_cohort_def Let_def)
  moreover have "abort_settled (control c) (branch_count s) \<noteq> PARALLEL_INVARIANT" by (auto simp: abort_settled_def split: option.splits)
  ultimately show ?thesis using mode inv unsealed by (auto simp: settle_cohort_def settle_abort_def)
next
  case True
  let ?n = "branch_count s" and ?w = "os_cohort s" and ?done = "settled_rows (registry_mem mem) c mode s"
  let ?rows = "abort_rows c mode ?n" and ?w1 = "?w\<lparr>co_txns := map (apsnd value_txn_abort) (co_txns ?w)\<rparr>"
  obtain counted d where counts: "abort_counts c mode ?n (os_dag s) = (counted, d)" by (metis surj_pair)
  obtain drained gate pending reaped where drain: "drain_process_retainers run (os_gate s) (take ?n (retainers c)) k =
      (drained, gate, pending, reaped)" by (metis prod_cases4)
  note d = abort_counts_dag [OF counts] and gate = drain_frame [OF drain] and call = settle_cohort_def settle_abort_def
  let ?s = "s\<lparr>os_dag := d, os_gate := gate, os_cohort := ?w1\<rparr>"
  have aborted: "value_txn_abort = (\<lambda>_. None)" by (auto simp: value_txn_abort_def)
  obtain d' r where dr: "settle_aborted (registry_mem mem) (abort_reason mode) ?rows ?s =
      (if ?done = ?rows then PARALLEL_OK else PARALLEL_INVARIANT, (set_registry r ?s)\<lparr>os_dag := d'\<rparr>)" "dag_inv d'"
    "phases_at (abort_phase ?done) (os_dag s) d'" "slots_at (abort_slot (abort_reason mode) ?done) (co_registry ?w) r"
    using abort_run [where c = c and mode = mode and k = k and s = s and d = d and gate = gate and w = ?w1 and mem = "registry_mem mem"] True rows d inv
    by auto
  have "drained \<noteq> PARALLEL_INVARIANT" by (rule drain_not_invariant [OF drain])
  consider (counted) "counted \<noteq> PARALLEL_OK"
    | (pending) "counted = PARALLEL_OK" "drained = PARALLEL_INVALID \<or> pending \<noteq> Some 0"
    | (finished) "counted = PARALLEL_OK" "drained \<noteq> PARALLEL_INVALID" "pending = Some 0" by blast
  then show ?thesis
  proof cases
    case counted
    then show ?thesis using True mode counts d inv unsealed by (simp add: call)
  next
    case pending
    then have "\<exists>st. settle_cohort mem J run c mode k s = (st, s\<lparr>os_dag := d, os_gate := gate\<rparr>, pending) \<and>
        st \<noteq> PARALLEL_OK \<and> st \<noteq> PARALLEL_INVARIANT"
      using True mode counts drain
      by (cases "drained = PARALLEL_INVALID"; cases "drained = PARALLEL_RECOVERY") (simp_all add: call Let_def)
    then show ?thesis using d inv unsealed gate by auto
  next
    case finished
    then show ?thesis using True mode counts drain dr unsealed gate
      by (cases "?done = ?rows") (simp_all add: call size_max_def aborted)
  qed
qed

text \<open>
  C22. Aborting a cohort never publishes: the stores are as before, whatever the mode, the status and the
  allocation failures. Until the processes are reaped nothing but the gate and the stop of the graph
  has changed, so the owner can repeat the call. Then every transaction is dropped and the tasks are settled
  in order, up to the first that ran and whose failure the registry cannot record, because its reason
  cannot be copied or no revision is left: a settled task that ran is finished in the graph and FAILED in
  the registry with the mode's reason, one cancelled before it ran is refused in the graph and
  unchanged in the registry, and no other task has changed. The gate is sealed, with the status OK or
  RECOVERY, exactly when all tasks are settled; otherwise the status is the one for a broken invariant.
\<close>

theorem settle_abort_complete:
  assumes mode: "mode \<noteq> OWNER_PUBLISH" and inv: "dag_inv (os_dag s)" and rows: "branch_count s \<le> length (task_indices c)"
    and unsealed: "\<not> sealed (os_gate s)"
  shows "case settle_cohort mem J run c mode k s of (st, s', pending) \<Rightarrow>
    co_heap (os_cohort s') = co_heap (os_cohort s) \<and> dag_inv (os_dag s') \<and>
    (if sealed (os_gate s') \<or> st = PARALLEL_INVARIANT
     then pending = Some 0 \<and> (if sealed (os_gate s') then st = PARALLEL_OK \<or> st = PARALLEL_RECOVERY else st = PARALLEL_INVARIANT) \<and>
       (sealed (os_gate s') \<longleftrightarrow> settled_rows (registry_mem mem) c mode s = abort_rows c mode (branch_count s)) \<and>
       co_txns (os_cohort s') = map (apsnd (\<lambda>_. None)) (co_txns (os_cohort s)) \<and>
       phases_at (abort_phase (settled_rows (registry_mem mem) c mode s)) (os_dag s) (os_dag s') \<and>
       slots_at (abort_slot (abort_reason mode) (settled_rows (registry_mem mem) c mode s))
         (co_registry (os_cohort s)) (co_registry (os_cohort s'))
     else st \<noteq> PARALLEL_OK \<and> os_cohort s' = os_cohort s \<and> entries (os_dag s') = entries (os_dag s))"
  using assms by (rule abort_outcome)

section \<open>A concrete cohort\<close>

definition example_control :: executor_view where
  "example_control = \<lparr>get_stats = Some \<lparr>accepted = 1, rejected_full = 0, rejected_closed = 0, rejected_would_block = 0,
     cancelled = 0, es_completed = 1, queued = 0, running = 0, lifecycle = EXECUTOR_CLOSED\<rparr>, wait_idle = WAIT_IDLE\<rparr>"

definition example_owner :: "json owner_cohort" where
  "example_owner = \<lparr>task_indices = [0], task_outputs = Some example_updates, branch_succeeded = [True],
     cancelled_before_run = None, control = example_control, retainers = [Some (1, Some 2)]\<rparr>"

definition open_gate :: process_gate where
  "open_gate = \<lparr>marker = COHORT_GATE_MARKER, first_native_error = SALTS_OK, last_pending = None, sealed = False, bound_owners = []\<rparr>"

text \<open>A retainer that is done.\<close>

definition quiet_run :: run_ready where
  "quiet_run owner k = (SALTS_OK, 1, 0)"

lemmas settle_eval = example_owner_def open_gate_def example_control_def COHORT_GATE_MARKER_def COHORT_MAX_RETAINERS_def

lemma example_preflight:
  assumes "length (entries d) = 3" "phase (entries d ! 0) = DAG_TASK_RESERVED" "terminal d = DAG_CONTINUE"
    and "mode \<noteq> OWNER_ABORT_CANCELLED"
  shows "preflight_cohort example_owner mode 4 \<lparr>os_dag = d, os_cohort = example_cohort, os_gate = open_gate\<rparr> = PARALLEL_OK"
proof -
  obtain t where t: "txn_script = Some t" using script_built by blast
  show ?thesis using assms
    by (cases mode) (simp_all add: preflight_cohort_def settle_eval example_cohort_def dag_get_stats_def mode_admitted_def
        registry_count_def example_registry_def branch_admitted_def dag_is_reserved_def registry_state_def slot_for_def
        fresh_slot_def t)
qed

lemma example_drain:
  "\<exists>gate. drain_process_retainers quiet_run open_gate [Some (1, Some 2)] 4 = (PARALLEL_OK, gate, Some 0, 1) \<and> \<not> sealed gate"
  by (simp add: drain_process_retainers_def settle_eval valid_cohort_gate_def validate_retainer_group_def
      bind_cohort_owners_def validate_bound_owners_def quiet_run_def sweep_status_def size_max_def Let_def)

lemma example_commit_after_drains:
  "\<exists>gate w p. commit_after_drains example_mem tree_api quiet_run example_control example_updates [True]
     [Some (1, Some 2)] 4 open_gate example_cohort = (PARALLEL_OK, gate, w, p)"
proof -
  obtain gate where "drain_process_retainers quiet_run open_gate [Some (1, Some 2)] 4 = (PARALLEL_OK, gate, Some 0, 1)"
    using example_drain by blast
  moreover have "length (co_txns example_cohort) = 1" by (simp add: example_cohort_def)
  moreover obtain w where "parallel_commit example_mem tree_api example_updates example_cohort = (PARALLEL_OK, w)"
    using example_commit by blast
  ultimately show ?thesis
    by (simp add: commit_after_drains_def settle_eval valid_cohort_gate_def validate_retainer_group_def
        validate_bound_owners_def executor_settled_def)
qed

lemma finish_published_status: "fst (finish_published ids s) \<in> {PARALLEL_OK, PARALLEL_INVARIANT}"
  by (induction ids s rule: finish_published.induct) (auto split: prod.splits simp: Let_def)

lemma settle_aborted_status: "fst (settle_aborted mem reason rows s) \<in> {PARALLEL_OK, PARALLEL_INVARIANT}"
  by (induction mem reason rows s rule: settle_aborted.induct) (auto split: prod.splits)

theorem settle_publish_atomic_witness:
  "\<exists>d d' w gate pending. dag_inv d \<and> phase (entries d ! 0) = DAG_TASK_RESERVED \<and>
     settle_cohort example_mem tree_api quiet_run example_owner OWNER_PUBLISH 4
       \<lparr>os_dag = d, os_cohort = example_cohort, os_gate = open_gate\<rparr> =
       (PARALLEL_OK, \<lparr>os_dag = d', os_cohort = w, os_gate = gate\<rparr>, pending) \<and>
     phase (entries d' ! 0) = DAG_TASK_FINISHED \<and> slot_state (slots (co_registry w) ! 0) = TASK_SUCCESS"
proof -
  obtain d where d: "reach (dag_init tree_api) dag_step d" "length (entries d) = 3"
    "phase (entries d ! 0) = DAG_TASK_RESERVED" "terminal d = DAG_CONTINUE" by (rule example_dag_claimed)
  have inv: "dag_inv d" using dag.reach_inv [OF d(1)] by (simp add: dag_wf_def)
  let ?s = "\<lparr>os_dag = d, os_cohort = example_cohort, os_gate = open_gate\<rparr>"
  have rows: "branch_count ?s \<le> length (task_indices example_owner)"
    and revs: "\<forall>i\<in>set (cohort_ids example_owner ?s). revisions_left (co_registry (os_cohort ?s)) i"
    by (auto simp: example_cohort_def example_owner_def revisions_left_def example_registry_def fresh_slot_def)
  obtain st s' pending where call: "settle_cohort example_mem tree_api quiet_run example_owner OWNER_PUBLISH 4 ?s = (st, s', pending)"
    by (metis prod_cases3)
  note atomic = settle_publish_atomic [of ?s example_owner example_mem tree_api quiet_run 4, OF _ rows revs, unfolded call]
  have n: "branch_count ?s = 1" by (simp add: example_cohort_def)
  obtain gate w p where commit: "commit_after_drains example_mem tree_api quiet_run example_control example_updates [True]
      [Some (1, Some 2)] 4 open_gate example_cohort = (PARALLEL_OK, gate, w, p)"
    using example_commit_after_drains by blast
  obtain st2 s2 where fin: "finish_published [0] (?s\<lparr>os_gate := gate, os_cohort := w\<rparr>) = (st2, s2)" by fastforce
  have "st = st2" using call example_preflight [OF d(2-4), of OWNER_PUBLISH] commit fin n
    by (simp add: settle_cohort_def settle_publish_def example_owner_def)
  then have "st = PARALLEL_OK \<or> st = PARALLEL_INVARIANT"
    using finish_published_status [of "[0]" "?s\<lparr>os_gate := gate, os_cohort := w\<rparr>"] fin by simp
  moreover have "st \<noteq> PARALLEL_INVARIANT" using atomic inv by (auto split: if_splits)
  ultimately have ok: "st = PARALLEL_OK" by blast
  then obtain w' where w': "parallel_commit example_mem tree_api example_updates example_cohort = (PARALLEL_OK, w')"
    "slots_at (at_tasks {0} completed_slot) (co_registry w') (co_registry (os_cohort s'))"
    "phases_at (at_tasks {0} DAG_TASK_FINISHED) d (os_dag s')"
    using atomic inv n by (auto simp: example_owner_def)
  have "length (slots (co_registry w')) = 3"
    using parallel_commit_published [OF w'(1)] by (simp add: outputs_published_def example_cohort_def example_registry_def)
  then have "phase (entries (os_dag s') ! 0) = DAG_TASK_FINISHED" "slot_state (slots (co_registry (os_cohort s')) ! 0) = TASK_SUCCESS"
    using w'(2,3) d(2) by (auto simp: phases_at_def slots_at_def at_tasks_def completed_slot_def)
  then show ?thesis using ok call inv d(3) by (cases s') auto
qed

theorem settle_abort_complete_witness:
  "\<exists>d d' w gate st pending. dag_inv d \<and> phase (entries d ! 0) = DAG_TASK_RESERVED \<and>
     settle_cohort example_mem tree_api quiet_run example_owner OWNER_ABORT_FAILED 4
       \<lparr>os_dag = d, os_cohort = example_cohort, os_gate = open_gate\<rparr> =
       (st, \<lparr>os_dag = d', os_cohort = w, os_gate = gate\<rparr>, pending) \<and>
     sealed gate \<and> co_heap w = co_heap example_cohort \<and> phase (entries d' ! 0) = DAG_TASK_FINISHED \<and>
     slot_state (slots (co_registry w) ! 0) = TASK_FAILED"
proof -
  obtain d where d: "reach (dag_init tree_api) dag_step d" "length (entries d) = 3"
    "phase (entries d ! 0) = DAG_TASK_RESERVED" "terminal d = DAG_CONTINUE" by (rule example_dag_claimed)
  have inv: "dag_inv d" using dag.reach_inv [OF d(1)] by (simp add: dag_wf_def)
  let ?s = "\<lparr>os_dag = d, os_cohort = example_cohort, os_gate = open_gate\<rparr>"
  have rows: "branch_count ?s \<le> length (task_indices example_owner)"
    by (auto simp: example_cohort_def example_owner_def)
  have all: "settled_rows (registry_mem example_mem) example_owner OWNER_ABORT_FAILED ?s = abort_rows example_owner OWNER_ABORT_FAILED 1"
    by (simp add: settled_rows_def abort_rows_def row_ready_def example_cohort_def example_owner_def example_mem_def revision_available_def
        example_registry_def fresh_slot_def)
  obtain st s' pending where call: "settle_cohort example_mem tree_api quiet_run example_owner OWNER_ABORT_FAILED 4 ?s = (st, s', pending)"
    by (metis prod_cases3)
  note complete = settle_abort_complete [of OWNER_ABORT_FAILED ?s example_owner example_mem tree_api quiet_run 4, OF _ _ rows, unfolded call]
  have facts: "dag_inv (os_dag ?s)" "\<not> sealed (os_gate ?s)"
    using inv by (simp_all add: open_gate_def)
  have n: "branch_count ?s = 1" by (simp add: example_cohort_def)
  obtain gate where drain: "drain_process_retainers quiet_run open_gate [Some (1, Some 2)] 4 = (PARALLEL_OK, gate, Some 0, 1)"
    using example_drain by blast
  define dag where "dag = snd (dag_stop d DAG_FAILED)"
  have counts: "abort_counts example_owner OWNER_ABORT_FAILED 1 d = (PARALLEL_OK, dag)"
    by (simp add: dag_def abort_counts_def cancelled_tasks_def settle_eval dag_stop_def less_dag_terminal_def)
  have settled: "abort_settled example_control 1 = PARALLEL_OK" by (simp add: abort_settled_def settle_eval)
  let ?s1 = "?s\<lparr>os_dag := dag, os_gate := gate, os_cohort := example_cohort\<lparr>co_txns := map (apsnd value_txn_abort) (co_txns example_cohort)\<rparr>\<rparr>"
  let ?rows = "abort_rows example_owner OWNER_ABORT_FAILED 1" and ?why = "abort_reason OWNER_ABORT_FAILED"
  obtain st2 s2 where loop: "settle_aborted (registry_mem example_mem) ?why ?rows ?s1 = (st2, s2)" by fastforce
  have two: "st2 = PARALLEL_OK \<or> st2 = PARALLEL_INVARIANT"
    using settle_aborted_status [of "registry_mem example_mem" ?why ?rows ?s1] loop by simp
  have parts: "control example_owner = example_control" "retainers example_owner = [Some (1, Some 2)]"
    by (simp_all add: example_owner_def)
  have "st = st2" using call example_preflight [OF d(2-4), of OWNER_ABORT_FAILED] n drain counts settled loop
    by (cases "st2 = PARALLEL_OK") (auto simp: settle_cohort_def settle_abort_def parts size_max_def)
  then have seal: "sealed (os_gate s')" using two complete facts all n by (auto split: if_splits)
  have "phase (entries (os_dag s') ! 0) = DAG_TASK_FINISHED" "slot_state (slots (co_registry (os_cohort s')) ! 0) = TASK_FAILED"
    "co_heap (os_cohort s') = co_heap example_cohort"
    using complete facts seal n d(2) all
    by (auto simp: phases_at_def slots_at_def abort_phase_def abort_slot_def abort_rows_def example_owner_def failed_slot_def
      example_cohort_def example_registry_def)
  then show ?thesis using call inv d(3) seal by (cases s') auto
qed

end
