(* ===== verification/Output_Scan.thy ===== *)
theory Output_Scan
  imports Praktor_Prelude "HOL-Library.Char_ord" "HOL-Library.List_Lexorder" "HOL-Library.Sublist"
begin

text \<open>
  The allocation-free output scanners of \<open>actions/core/output_scan.c\<close>: substring test, line and
  key/value scanners over a byte span, and the writer that renders the scanned pairs as a JSON
  object. The lemmas show that the scanners split the input at the first separators without losing
  a byte, that the writer fails exactly when its buffer is too small, and that a reader of JSON
  objects gets back the sorted map in which the last duplicate wins.
\<close>

section \<open>Spans\<close>

text \<open>
  A span with a data pointer is the list of its \<open>size\<close> bytes; \<open>Null_span n\<close> has \<open>data == NULL\<close>
  and \<open>size == n\<close>.
\<close>

datatype output_span = Span string | Null_span nat

fun span_valid :: "output_span \<Rightarrow> bool" where
  "span_valid (Span s) = True"
| "span_valid (Null_span n) = (n = 0)"

fun span_bytes :: "output_span \<Rightarrow> string" where
  "span_bytes (Span s) = s"
| "span_bytes (Null_span n) = []"

record output_pair =
  pkey :: string
  pvalue :: string

text \<open>What a scanner returns: \<open>-1\<close>, \<open>0\<close>, or \<open>1\<close> with the item.\<close>

datatype 'a scan = Scan_invalid | Scan_end | Scan_item 'a

section \<open>Searching\<close>

text \<open>The loop of \<open>find\<close> from index \<open>i\<close>.\<close>

function find_from :: "string \<Rightarrow> string \<Rightarrow> nat \<Rightarrow> nat" where
  "find_from input search i =
     (if i \<le> length input - length search
      then if take (length search) (drop i input) = search then i else find_from input search (Suc i)
      else length input)"
  by pat_completeness auto
termination
  by (relation "measure (\<lambda>(input, search, i). Suc (length input) - i)") auto

declare find_from.simps [simp del]

definition find_span :: "string \<Rightarrow> string \<Rightarrow> nat" where
  "find_span input search =
     (if length search > length input then length input
      else if search = [] then 0
      else find_from input search 0)"

definition output_contains :: "output_span \<Rightarrow> output_span \<Rightarrow> bool" where
  "output_contains input search =
     (if \<not> span_valid input \<or> \<not> span_valid search then False
      else span_bytes search = [] \<or> find_span (span_bytes input) (span_bytes search) < length (span_bytes input))"

section \<open>Lines\<close>

function line_end :: "string \<Rightarrow> nat \<Rightarrow> nat" where
  "line_end input i = (if i < length input \<and> input ! i \<noteq> CHR 0x0A then line_end input (Suc i) else i)"
  by pat_completeness auto
termination
  by (relation "measure (\<lambda>(input, i). length input - i)") auto

declare line_end.simps [simp del]

definition output_next_line :: "output_span \<Rightarrow> nat \<Rightarrow> string scan \<times> nat" where
  "output_next_line input offset =
     (if \<not> span_valid input \<or> offset > length (span_bytes input) then (Scan_invalid, offset)
      else if offset = length (span_bytes input) then (Scan_end, offset)
      else let end = line_end (span_bytes input) offset in
        (Scan_item (take (end - offset) (drop offset (span_bytes input))),
         if end < length (span_bytes input) then Suc end else end))"

lemma find_from_le:
  "i \<le> length input \<Longrightarrow> length search \<le> length input \<Longrightarrow> find_from input search i \<le> length input"
proof (induction input search i rule: find_from.induct)
  case (1 input search i)
  have step: "find_from input search i =
      (if i \<le> length input - length search
       then if take (length search) (drop i input) = search then i else find_from input search (Suc i)
       else length input)"
    by (rule find_from.simps)
  show ?case
  proof (cases "i < length input")
    case True
    then show ?thesis using 1 step by auto
  next
    case False
    then have "take (length search) (drop i input) = search \<or> \<not> i \<le> length input - length search"
      using 1(2,3) by (cases search) auto
    then show ?thesis using step 1(2) by auto
  qed
qed

lemma find_span_le [simp]: "find_span input search \<le> length input"
  by (simp add: find_span_def find_from_le)

lemma find_drop_le [simp]: "find_span (drop i input) search \<le> length input - i"
  using find_span_le [of "drop i input" search] by (simp del: find_span_le)

section \<open>Pairs\<close>

definition whitespace :: "char \<Rightarrow> bool" where
  "whitespace ch \<longleftrightarrow> ch = CHR '' '' \<or> ch = CHR 0x09 \<or> ch = CHR 0x0D \<or> ch = CHR 0x0A"

definition trim :: "string \<Rightarrow> string" where
  "trim s = rev (dropWhile whitespace (rev (dropWhile whitespace s)))"

text \<open>The pair of one line, when the line has the delimiter.\<close>

definition line_pair :: "string \<Rightarrow> string \<Rightarrow> output_pair option" where
  "line_pair delimiter line =
     (let split = find_span line delimiter in
      if delimiter = [] \<or> split < length line
      then Some \<lparr>pkey = trim (take split line), pvalue = trim (drop (split + length delimiter) line)\<rparr>
      else None)"

text \<open>The offset after the separator that ends the line at \<open>offset\<close>.\<close>

definition after_line :: "string \<Rightarrow> string \<Rightarrow> nat \<Rightarrow> nat" where
  "after_line input separator offset =
     (let n = find_span (drop offset input) separator in
      offset + n + (if n < length input - offset then length separator else 0))"

lemma after_line_less [simp]:
  "separator \<noteq> [] \<Longrightarrow> offset < length input \<Longrightarrow> offset < after_line input separator offset"
  using find_drop_le [of offset input separator]
  by (cases "find_span (drop offset input) separator < length input - offset")
    (auto simp: after_line_def Let_def simp del: find_drop_le)

text \<open>
  The loop of \<open>praktor_output_next_pair\<close>. It runs only with a nonempty separator, which the guard
  repeats because an empty one would keep the offset where it is.
\<close>

function next_pair_loop :: "string \<Rightarrow> string \<Rightarrow> string \<Rightarrow> nat \<Rightarrow> output_pair scan \<times> nat" where
  "next_pair_loop input delimiter separator offset =
     (if separator \<noteq> [] \<and> offset < length input
      then case line_pair delimiter (take (find_span (drop offset input) separator) (drop offset input)) of
             Some pair \<Rightarrow> (Scan_item pair, after_line input separator offset)
           | None \<Rightarrow> next_pair_loop input delimiter separator (after_line input separator offset)
      else (Scan_end, offset))"
  by pat_completeness auto
termination
  by (relation "measure (\<lambda>(input, d, s, offset). length input - offset)") (auto intro: diff_less_mono2)

declare next_pair_loop.simps [simp del]

definition output_next_pair ::
  "output_span \<Rightarrow> output_span \<Rightarrow> output_span \<Rightarrow> nat \<Rightarrow> output_pair scan \<times> nat" where
  "output_next_pair input delimiter separator offset =
     (if \<not> span_valid input \<or> \<not> span_valid delimiter \<or> \<not> span_valid separator \<or>
         span_bytes separator = [] \<or> offset > length (span_bytes input)
      then (Scan_invalid, offset)
      else next_pair_loop (span_bytes input) (span_bytes delimiter) (span_bytes separator) offset)"

text \<open>\<open>memcmp\<close> on buffers of one size compares unsigned bytes.\<close>

fun memcmp :: "string \<Rightarrow> string \<Rightarrow> int" where
  "memcmp (a # as) (b # bs) = (if a = b then memcmp as bs else (of_char a :: int) - of_char b)"
| "memcmp _ _ = 0"

definition compare_span :: "string \<Rightarrow> string \<Rightarrow> int" where
  "compare_span left right =
     (let n = min (length left) (length right);
          order = if n = 0 then 0 else memcmp (take n left) (take n right)
      in if order \<noteq> 0 then order
         else if length left < length right then -1
         else if length left > length right then 1 else 0)"

section \<open>The writer\<close>

record writer =
  wcapacity :: nat
  woutput :: string

definition writer_append :: "writer \<Rightarrow> string \<Rightarrow> int \<times> writer" where
  "writer_append w s =
     (if length s \<ge> wcapacity w - length (woutput w) then (-2, w)
      else (0, w\<lparr>woutput := woutput w @ s\<rparr>))"

text \<open>A chain of appends, each made only when the one before returned \<open>0\<close>.\<close>

fun append_all :: "string list \<Rightarrow> writer \<Rightarrow> int \<times> writer" where
  "append_all [] w = (0, w)"
| "append_all (s # ss) w =
     (case writer_append w s of (st, w') \<Rightarrow> if st \<noteq> 0 then (-2, w') else append_all ss w')"

definition hex_digit :: "nat \<Rightarrow> char" where
  "hex_digit d = ''0123456789abcdef'' ! d"

definition escape_char :: "char \<Rightarrow> string" where
  "escape_char ch =
     (if ch = CHR 0x22 then [CHR 0x5C, CHR 0x22]
      else if ch = CHR 0x5C then [CHR 0x5C, CHR 0x5C]
      else if ch = CHR 0x08 then [CHR 0x5C, CHR ''b'']
      else if ch = CHR 0x0C then [CHR 0x5C, CHR ''f'']
      else if ch = CHR 0x0A then [CHR 0x5C, CHR ''n'']
      else if ch = CHR 0x0D then [CHR 0x5C, CHR ''r'']
      else if ch = CHR 0x09 then [CHR 0x5C, CHR ''t'']
      else if (of_char ch :: nat) < 32
      then [CHR 0x5C, CHR ''u'', CHR ''0'', CHR ''0'', hex_digit (of_char ch div 16), hex_digit (of_char ch mod 16)]
      else [ch])"

text \<open>The appends that \<open>string\<close> makes, in order.\<close>

definition string_pieces :: "string \<Rightarrow> string list" where
  "string_pieces s = [CHR 0x22] # map escape_char s @ [[CHR 0x22]]"

section \<open>The key/value object\<close>

text \<open>The insertion index: the first pair whose key is not below the new one.\<close>

fun pair_index :: "output_pair list \<Rightarrow> string \<Rightarrow> nat" where
  "pair_index [] key = 0"
| "pair_index (p # ps) key = (if compare_span (pkey p) key < 0 then Suc (pair_index ps key) else 0)"

definition place_pair :: "nat \<Rightarrow> output_pair list \<Rightarrow> output_pair \<Rightarrow> output_pair list option" where
  "place_pair pair_capacity pairs pair =
     (let index = pair_index pairs (pkey pair) in
      if index < length pairs \<and> compare_span (pkey (pairs ! index)) (pkey pair) = 0
      then Some (pairs[index := pair])
      else if length pairs = pair_capacity then None
      else Some (take index pairs @ pair # drop index pairs))"

text \<open>The appends for pair number \<open>i\<close>.\<close>

definition pair_pieces :: "nat \<Rightarrow> output_pair \<Rightarrow> string list" where
  "pair_pieces i p = (if i \<noteq> 0 then ['','']  else []) @ string_pieces (pkey p) @ ['':''] @ string_pieces (pvalue p)"

text \<open>The loop over the pairs from number \<open>i\<close>.\<close>

fun member_pieces :: "nat \<Rightarrow> output_pair list \<Rightarrow> string list" where
  "member_pieces i [] = []"
| "member_pieces i (p # ps) = pair_pieces i p @ member_pieces (Suc i) ps"

definition object_pieces :: "output_pair list \<Rightarrow> string list" where
  "object_pieces pairs = [''{''] @ member_pieces 0 pairs @ [''}'']"

lemma next_pair_loop_offset:
  "next_pair_loop input d sep offset = (Scan_item p, offset') \<Longrightarrow> offset < offset'"
proof (induction input d sep offset rule: next_pair_loop.induct)
  case (1 input d sep offset)
  then show ?case
    by (subst (asm) (2) next_pair_loop.simps)
      (auto split: if_splits option.splits intro: less_trans [OF after_line_less])
qed

function scan_pairs :: "output_span \<Rightarrow> output_span \<Rightarrow> output_span \<Rightarrow> nat \<Rightarrow> nat \<Rightarrow> output_pair list \<Rightarrow>
    int + output_pair list" where
  "scan_pairs input delimiter separator pair_capacity offset pairs =
     (case output_next_pair input delimiter separator offset of
        (Scan_item pair, offset') \<Rightarrow>
          (case place_pair pair_capacity pairs pair of
             None \<Rightarrow> Inl (-2)
           | Some pairs' \<Rightarrow> scan_pairs input delimiter separator pair_capacity offset' pairs')
      | (Scan_end, _) \<Rightarrow> Inr pairs
      | (Scan_invalid, _) \<Rightarrow> Inl (-1))"
  by pat_completeness auto
termination
  by (relation "measure (\<lambda>(input, d, s, c, offset, pairs). Suc (length (span_bytes input)) - offset)")
    (auto simp: output_next_pair_def dest!: next_pair_loop_offset [OF sym] split: if_splits)

declare scan_pairs.simps [simp del]

text \<open>The status and the bytes left in the output buffer.\<close>

definition output_key_value_json ::
  "output_span \<Rightarrow> output_span \<Rightarrow> output_span \<Rightarrow> nat \<Rightarrow> nat \<Rightarrow> int \<times> string" where
  "output_key_value_json input delimiter separator pair_capacity output_capacity =
     (if \<not> span_valid input \<or> \<not> span_valid delimiter \<or> \<not> span_valid separator \<or>
         span_bytes separator = [] \<or> output_capacity = 0 \<or>
         CHR 0x00 \<in> set (span_bytes input) \<or> CHR 0x00 \<in> set (span_bytes delimiter) \<or>
         CHR 0x00 \<in> set (span_bytes separator)
      then (-1, [])
      else case scan_pairs input delimiter separator pair_capacity 0 [] of
        Inl st \<Rightarrow> (st, [])
      | Inr pairs \<Rightarrow>
          (case append_all (object_pieces pairs) \<lparr>wcapacity = output_capacity, woutput = []\<rparr> of
             (st, w) \<Rightarrow> (st, woutput w)))"

section \<open>The search finds the first occurrence\<close>

lemma find_from_spec:
  assumes "search \<noteq> []" and "length search \<le> length input" and "i \<le> length input"
  shows "(find_from input search i = length input
            \<and> (\<forall>k. i \<le> k \<longrightarrow> k + length search \<le> length input \<longrightarrow> take (length search) (drop k input) \<noteq> search))
       \<or> (i \<le> find_from input search i \<and> find_from input search i + length search \<le> length input
            \<and> take (length search) (drop (find_from input search i) input) = search
            \<and> (\<forall>k. i \<le> k \<longrightarrow> k < find_from input search i \<longrightarrow> take (length search) (drop k input) \<noteq> search))"
  using assms
proof (induction input search i rule: find_from.induct)
  case (1 input search i)
  have step: "find_from input search i =
      (if i \<le> length input - length search
       then if take (length search) (drop i input) = search then i else find_from input search (Suc i)
       else length input)"
    by (rule find_from.simps)
  consider (out) "\<not> i \<le> length input - length search"
    | (hit) "i \<le> length input - length search" "take (length search) (drop i input) = search"
    | (miss) "i \<le> length input - length search" "take (length search) (drop i input) \<noteq> search"
    by blast
  then show ?case
  proof cases
    case miss
    have "0 < length search" using 1(2) by simp
    then have "Suc i \<le> length input" using miss(1) 1(3) by linarith
    with 1(1) [OF miss 1(2,3)] miss step show ?thesis
      by (metis Suc_leD Suc_leI le_neq_implies_less)
  qed (use step 1 in auto)
qed

lemma find_span_found:
  assumes "search \<noteq> []" and "find_span input search < length input"
  shows "find_span input search + length search \<le> length input"
    and "take (length search) (drop (find_span input search) input) = search"
    and "k < find_span input search \<Longrightarrow> take (length search) (drop k input) \<noteq> search"
  using find_from_spec [OF assms(1), of input 0] assms
  by (auto simp: find_span_def split: if_splits)

lemma find_span_split:
  assumes "search \<noteq> []" and "find_span input search < length input"
  shows "input = take (find_span input search) input @ search @ drop (find_span input search + length search) input"
  by (metis assms find_span_found(2) append_take_drop_id drop_drop add.commute)

lemma find_span_none:
  assumes "search \<noteq> []" and "find_span input search = length input"
  shows "\<not> sublist search input"
proof
  assume "sublist search input"
  then obtain xs ys where input: "input = xs @ search @ ys" by (auto simp: sublist_def)
  then have "take (length search) (drop (length xs) input) = search" and "length xs + length search \<le> length input"
    by auto
  then show False
    using find_from_spec [OF assms(1), of input 0] assms by (auto simp: find_span_def split: if_splits)
qed

lemma find_span_prefix_free:
  assumes "search \<noteq> []"
  shows "\<not> sublist search (take (find_span input search) input)"
proof (cases "find_span input search < length input")
  case True
  show ?thesis
  proof
    assume "sublist search (take (find_span input search) input)"
    then obtain xs ys where eq: "take (find_span input search) input = xs @ search @ ys"
      by (auto simp: sublist_def)
    then have "length (take (find_span input search) input) = length xs + length search + length ys"
      by simp
    moreover have "0 < length search" using assms by simp
    ultimately have "length xs < find_span input search" using True by simp
    moreover have "input = xs @ search @ (ys @ drop (find_span input search) input)"
      using eq by (metis append_assoc append_take_drop_id)
    then have "take (length search) (drop (length xs) input) = search"
      by (metis append_eq_conv_conj)
    ultimately show False using find_span_found(3) [OF assms True] by blast
  qed
next
  case False
  then have "find_span input search = length input" using find_span_le [of input search] by linarith
  then show ?thesis using find_span_none [OF assms] by simp
qed

lemma find_span_lt_iff: "search \<noteq> [] \<Longrightarrow> find_span input search < length input \<longleftrightarrow> sublist search input"
  by (metis find_span_none find_span_split find_span_le le_neq_implies_less sublist_appendI)

section \<open>The order on keys\<close>

lemma compare_span_simps [simp]:
  "compare_span [] [] = 0"
  "compare_span [] (b # bs) = -1"
  "compare_span (a # as) [] = 1"
  "compare_span (a # as) (b # bs) = (if a = b then compare_span as bs else (of_char a :: int) - of_char b)"
  by (auto simp: compare_span_def Let_def)

lemma compare_span_zero [simp]: "compare_span left right = 0 \<longleftrightarrow> left = right"
proof (induction left arbitrary: right)
  case (Cons a left)
  then show ?case by (cases right) auto
qed (case_tac right, auto)

lemma of_char_int_less: "(of_char a :: int) < of_char b \<longleftrightarrow> a < b"
  by (metis less_char_def of_nat_less_iff of_nat_of_char)

lemma compare_span_less [simp]: "compare_span left right < 0 \<longleftrightarrow> left < right"
proof (induction left arbitrary: right)
  case (Cons a left)
  then show ?case by (cases right) (auto simp: of_char_int_less)
qed (case_tac right, auto)

section \<open>The lines and pairs of an input\<close>

text \<open>The parts of an input between the separators; a final separator adds no part.\<close>

function segments :: "string \<Rightarrow> string \<Rightarrow> string list" where
  "segments sep s =
     (if s = [] \<or> sep = [] then []
      else take (find_span s sep) s # segments sep (drop (find_span s sep + length sep) s))"
  by pat_completeness auto
termination
  by (relation "measure (\<lambda>(sep, s). length s)") auto

declare segments.simps [simp del]

definition all_pairs :: "string \<Rightarrow> string \<Rightarrow> string \<Rightarrow> output_pair list" where
  "all_pairs delimiter sep s = List.map_filter (line_pair delimiter) (segments sep s)"

lemma segments_Nil [simp]: "segments sep [] = []"
  by (simp add: segments.simps)

lemma segments_Cons:
  "s \<noteq> [] \<Longrightarrow> sep \<noteq> [] \<Longrightarrow>
   segments sep s = take (find_span s sep) s # segments sep (drop (find_span s sep + length sep) s)"
  by (simp add: segments.simps)

lemma after_line_drop:
  assumes "sep \<noteq> []" and "offset < length input"
  shows "after_line input sep offset \<le> length input"
    and "drop (after_line input sep offset) input
       = drop (find_span (drop offset input) sep + length sep) (drop offset input)"
proof -
  let ?n = "find_span (drop offset input) sep"
  have "?n < length input - offset \<Longrightarrow> ?n + length sep \<le> length input - offset"
    using find_span_found(1) [OF assms(1), of "drop offset input"] by simp
  then show "after_line input sep offset \<le> length input"
    using find_drop_le [of offset input sep] assms(2) by (auto simp: after_line_def Let_def simp del: find_drop_le)
  show "drop (after_line input sep offset) input = drop (?n + length sep) (drop offset input)"
    using find_drop_le [of offset input sep] assms(2)
    by (auto simp: after_line_def Let_def algebra_simps simp del: find_drop_le)
qed

lemma next_pair_loop_all:
  assumes "sep \<noteq> []" and "offset \<le> length input"
  shows "case all_pairs d sep (drop offset input) of
           [] \<Rightarrow> next_pair_loop input d sep offset = (Scan_end, length input)
         | p # ps \<Rightarrow> \<exists>offset'. next_pair_loop input d sep offset = (Scan_item p, offset')
                       \<and> offset' \<le> length input \<and> all_pairs d sep (drop offset' input) = ps"
  using assms
proof (induction input d sep offset rule: next_pair_loop.induct)
  case (1 input d sep offset)
  show ?case
  proof (cases "offset < length input")
    case True
    let ?line = "take (find_span (drop offset input) sep) (drop offset input)"
    let ?o = "after_line input sep offset"
    have pairs: "all_pairs d sep (drop offset input) =
        (case line_pair d ?line of None \<Rightarrow> [] | Some p \<Rightarrow> [p]) @ all_pairs d sep (drop ?o input)"
      using True 1(2) after_line_drop(2) [OF 1(2) True]
      by (simp add: all_pairs_def segments_Cons List.map_filter_simps split: option.split)
    have loop: "next_pair_loop input d sep offset = (case line_pair d ?line of
        Some pair \<Rightarrow> (Scan_item pair, ?o) | None \<Rightarrow> next_pair_loop input d sep ?o)"
      using True 1(2) by (subst next_pair_loop.simps) simp
    show ?thesis
    proof (cases "line_pair d ?line")
      case None
      have "sep \<noteq> [] \<and> offset < length input" using True 1(2) by simp
      note IH = 1(1) [OF this None 1(2) after_line_drop(1) [OF 1(2) True]]
      show ?thesis unfolding pairs loop None option.case append_Nil by (rule IH)
    next
      case (Some p)
      then show ?thesis using pairs loop after_line_drop(1) [OF 1(2) True] by simp
    qed
  next
    case False
    then show ?thesis using 1(3) by (simp add: all_pairs_def List.map_filter_simps next_pair_loop.simps)
  qed
qed

section \<open>The sorted workspace refines a map\<close>

abbreviation pair_keys :: "output_pair list \<Rightarrow> string list" where
  "pair_keys ps \<equiv> map pkey ps"

definition pair_map :: "output_pair list \<Rightarrow> string \<rightharpoonup> string" where
  "pair_map ps = map_of (map (\<lambda>p. (pkey p, pvalue p)) ps)"

text \<open>The map in which the last of several pairs of one key wins.\<close>

definition last_wins :: "output_pair list \<Rightarrow> string \<rightharpoonup> string" where
  "last_wins ps = pair_map (rev ps)"

text \<open>The pairs of a finite map in the order of their keys.\<close>

definition sorted_pairs :: "(string \<rightharpoonup> string) \<Rightarrow> output_pair list" where
  "sorted_pairs m = map (\<lambda>k. \<lparr>pkey = k, pvalue = the (m k)\<rparr>) (sorted_list_of_set (dom m))"

fun ins_pair :: "output_pair list \<Rightarrow> output_pair \<Rightarrow> output_pair list" where
  "ins_pair [] p = [p]"
| "ins_pair (q # qs) p =
     (if pkey q < pkey p then q # ins_pair qs p else if pkey q = pkey p then p # qs else p # q # qs)"

lemma pair_index_hit:
  "sorted_wrt (<) (pair_keys ps) \<Longrightarrow>
   pair_index ps key < length ps \<and> pkey (ps ! pair_index ps key) = key \<longleftrightarrow> key \<in> set (pair_keys ps)"
  by (induction ps) force+

lemma pair_index_replace:
  "sorted_wrt (<) (pair_keys ps) \<Longrightarrow> pkey p \<in> set (pair_keys ps) \<Longrightarrow>
   ps[pair_index ps (pkey p) := p] = ins_pair ps p"
  by (induction ps) force+

lemma pair_index_insert:
  "sorted_wrt (<) (pair_keys ps) \<Longrightarrow> pkey p \<notin> set (pair_keys ps) \<Longrightarrow>
   take (pair_index ps (pkey p)) ps @ p # drop (pair_index ps (pkey p)) ps = ins_pair ps p"
  by (induction ps) auto

lemma place_pair_ins:
  "sorted_wrt (<) (pair_keys ps) \<Longrightarrow>
   place_pair cap ps p =
     (if pkey p \<notin> set (pair_keys ps) \<and> length ps = cap then None else Some (ins_pair ps p))"
  using pair_index_hit [of ps "pkey p"] pair_index_replace [of ps p] pair_index_insert [of ps p]
  unfolding place_pair_def Let_def compare_span_zero by (auto simp del: set_map)

lemma set_ins_pair: "set (pair_keys (ins_pair ps p)) = insert (pkey p) (set (pair_keys ps))"
  by (induction ps) auto

lemma sorted_ins_pair: "sorted_wrt (<) (pair_keys ps) \<Longrightarrow> sorted_wrt (<) (pair_keys (ins_pair ps p))"
proof (induction ps)
  case (Cons q qs)
  then show ?case using set_ins_pair [of qs p] by (auto simp: not_less_iff_gr_or_eq)
qed simp

lemma pair_map_ins:
  "sorted_wrt (<) (pair_keys ps) \<Longrightarrow> pair_map (ins_pair ps p) = (pair_map ps)(pkey p \<mapsto> pvalue p)"
  by (induction ps) (auto simp: pair_map_def fun_eq_iff)

lemma pair_map_append: "pair_map (ps @ qs) = pair_map qs ++ pair_map ps"
  by (simp add: pair_map_def)

lemma dom_pair_map: "dom (pair_map ps) = set (pair_keys ps)"
  by (force simp: pair_map_def dom_map_of_conv_image_fst)

lemma strict_sorted_length: "sorted_wrt (<) (pair_keys ps) \<Longrightarrow> length ps = card (set (pair_keys ps))"
  by (metis length_map distinct_card strict_sorted_iff)

lemma sorted_pairs_unique:
  assumes "sorted_wrt (<) (pair_keys ps)"
  shows "sorted_pairs (pair_map ps) = ps"
proof -
  have keys: "sorted_list_of_set (dom (pair_map ps)) = pair_keys ps"
    using assms by (simp add: dom_pair_map strict_sorted_iff del: set_map)
      (metis sorted_list_of_set.idem_if_sorted_distinct)
  have "distinct (pair_keys ps)" using assms by (simp add: strict_sorted_iff)
  then have "\<And>p. p \<in> set ps \<Longrightarrow> pair_map ps (pkey p) = Some (pvalue p)"
    by (force simp: pair_map_def o_def intro: map_of_is_SomeI)
  then show ?thesis by (simp add: sorted_pairs_def keys map_idI)
qed

fun place_all :: "nat \<Rightarrow> output_pair list \<Rightarrow> output_pair list \<Rightarrow> int + output_pair list" where
  "place_all cap [] ps = Inr ps"
| "place_all cap (q # qs) ps = (case place_pair cap ps q of None \<Rightarrow> Inl (-2) | Some ps' \<Rightarrow> place_all cap qs ps')"

lemma place_all_correct:
  assumes "sorted_wrt (<) (pair_keys ps)" and "length ps \<le> cap"
  shows "place_all cap qs ps =
     (if card (set (pair_keys ps) \<union> set (pair_keys qs)) \<le> cap
      then Inr (sorted_pairs (pair_map ps ++ last_wins qs)) else Inl (-2))"
  using assms
proof (induction qs arbitrary: ps)
  case Nil
  then show ?case
    using strict_sorted_length [OF Nil(1)]
    by (simp add: last_wins_def pair_map_def sorted_pairs_unique [unfolded pair_map_def])
next
  case (Cons q qs)
  have union: "set (pair_keys ps) \<union> set (pair_keys (q # qs))
      = set (pair_keys (ins_pair ps q)) \<union> set (pair_keys qs)"
    by (simp add: set_ins_pair del: set_map)
  have map_eq: "pair_map ps ++ last_wins (q # qs) = pair_map (ins_pair ps q) ++ last_wins qs"
    using Cons.prems(1)
    by (simp add: last_wins_def pair_map_append pair_map_ins map_add_assoc) (simp add: pair_map_def)
  have len: "length (ins_pair ps q) = card (insert (pkey q) (set (pair_keys ps)))"
    using strict_sorted_length [OF sorted_ins_pair [OF Cons.prems(1)]] by (simp add: set_ins_pair del: set_map)
  show ?case
  proof (cases "pkey q \<notin> set (pair_keys ps) \<and> length ps = cap")
    case True
    have "cap < card (insert (pkey q) (set (pair_keys ps)))"
      using True strict_sorted_length [OF Cons.prems(1)] by simp
    also have "\<dots> \<le> card (set (pair_keys ps) \<union> set (pair_keys (q # qs)))"
      by (intro card_mono) auto
    finally show ?thesis using True by (simp add: place_pair_ins [OF Cons.prems(1)])
  next
    case False
    then have "length (ins_pair ps q) \<le> cap"
      using len Cons.prems strict_sorted_length [OF Cons.prems(1)] by (auto simp: card_insert_if)
    note IH = Cons.IH [OF sorted_ins_pair [OF Cons.prems(1)] this]
    have "place_pair cap ps q = Some (ins_pair ps q)"
      using False by (simp only: place_pair_ins [OF Cons.prems(1)] if_False)
    then have "place_all cap (q # qs) ps = place_all cap qs (ins_pair ps q)" by simp
    then show ?thesis unfolding union map_eq IH .
  qed
qed

lemma scan_pairs_place_all:
  assumes "span_valid input" "span_valid d" "span_valid sep" "span_bytes sep \<noteq> []"
    and "offset \<le> length (span_bytes input)"
  shows "scan_pairs input d sep cap offset ps
       = place_all cap (all_pairs (span_bytes d) (span_bytes sep) (drop offset (span_bytes input))) ps"
  using assms
proof (induction input d sep cap offset ps rule: scan_pairs.induct)
  case (1 input d sep cap offset ps)
  let ?all = "\<lambda>offset. all_pairs (span_bytes d) (span_bytes sep) (drop offset (span_bytes input))"
  have loop: "output_next_pair input d sep offset
      = next_pair_loop (span_bytes input) (span_bytes d) (span_bytes sep) offset"
    using 1(2-6) by (simp add: output_next_pair_def)
  note all = next_pair_loop_all [OF 1(5,6), of "span_bytes d"]
  show ?case
  proof (cases "?all offset")
    case Nil
    then show ?thesis using all loop by (simp add: scan_pairs.simps)
  next
    case (Cons p qs)
    then obtain offset' where item: "output_next_pair input d sep offset = (Scan_item p, offset')"
      and "offset' \<le> length (span_bytes input)" and "?all offset' = qs"
      using all loop by auto
    then show ?thesis
      using 1(1) [OF item [symmetric] refl _ 1(2-5)] Cons
      by (subst scan_pairs.simps) (simp split: option.split)
  qed
qed

section \<open>The writer fails exactly when its buffer is too small\<close>

lemma append_all_correct:
  "length (woutput w) < wcapacity w \<Longrightarrow>
   (if length (woutput w) + length (concat ss) < wcapacity w
    then append_all ss w = (0, w\<lparr>woutput := woutput w @ concat ss\<rparr>)
    else fst (append_all ss w) = -2)"
proof (induction ss arbitrary: w)
  case (Cons s ss)
  show ?case
  proof (cases "length (woutput w) + length s < wcapacity w")
    case True
    then have "writer_append w s = (0, w\<lparr>woutput := woutput w @ s\<rparr>)" by (simp add: writer_append_def)
    then show ?thesis using Cons.IH [of "w\<lparr>woutput := woutput w @ s\<rparr>"] True by (simp add: add.assoc)
  next
    case False
    then have "wcapacity w - length (woutput w) \<le> length s" by linarith
    then show ?thesis using False by (simp add: writer_append_def)
  qed
qed simp

definition object_text :: "output_pair list \<Rightarrow> string" where
  "object_text ps = concat (object_pieces ps)"

lemma append_object:
  "0 < cap \<Longrightarrow>
   (if length (object_text ps) < cap
    then append_all (object_pieces ps) \<lparr>wcapacity = cap, woutput = []\<rparr> = (0, \<lparr>wcapacity = cap, woutput = object_text ps\<rparr>)
    else fst (append_all (object_pieces ps) \<lparr>wcapacity = cap, woutput = []\<rparr>) = -2)"
  using append_all_correct [of "\<lparr>wcapacity = cap, woutput = []\<rparr>" "object_pieces ps"]
  by (simp add: object_text_def)

section \<open>A reader of string objects\<close>

text \<open>
  The reference reader: JSON objects whose members are strings. Raw control bytes are rejected, and
  a \<open>\u\<close> escape denotes one byte below 128.
\<close>

definition hex_value :: "char \<Rightarrow> nat option" where
  "hex_value c = (let n = (of_char c :: nat) in
     if 48 \<le> n \<and> n \<le> 57 then Some (n - 48)
     else if 97 \<le> n \<and> n \<le> 102 then Some (n - 87)
     else if 65 \<le> n \<and> n \<le> 70 then Some (n - 55) else None)"

definition simple_escape :: "char \<Rightarrow> char option" where
  "simple_escape c =
     map_of [(CHR 0x22, CHR 0x22), (CHR 0x5C, CHR 0x5C), (CHR ''/'', CHR ''/''), (CHR ''b'', CHR 0x08),
             (CHR ''f'', CHR 0x0C), (CHR ''n'', CHR 0x0A), (CHR ''r'', CHR 0x0D), (CHR ''t'', CHR 0x09)] c"

definition unicode_byte :: "string \<Rightarrow> char option" where
  "unicode_byte ds = (case map hex_value ds of
     [Some a, Some b, Some c, Some d] \<Rightarrow>
       (let n = ((a * 16 + b) * 16 + c) * 16 + d in if n < 128 then Some (char_of n) else None)
   | _ \<Rightarrow> None)"

function read_chars :: "string \<Rightarrow> (string \<times> string) option" where
  "read_chars s = (case s of
     [] \<Rightarrow> None
   | c # r \<Rightarrow>
       if c = CHR 0x22 then Some ([], r)
       else if c = CHR 0x5C then
         (case r of [] \<Rightarrow> None
          | e # r' \<Rightarrow>
              if e = CHR ''u'' then
                (case unicode_byte (take 4 r') of None \<Rightarrow> None
                 | Some b \<Rightarrow> map_option (apfst (Cons b)) (read_chars (drop 4 r')))
              else
                (case simple_escape e of None \<Rightarrow> None
                 | Some b \<Rightarrow> map_option (apfst (Cons b)) (read_chars r')))
       else if (of_char c :: nat) < 32 then None
       else map_option (apfst (Cons c)) (read_chars r))"
  by pat_completeness auto
termination
  by (relation "measure length") auto

declare read_chars.simps [simp del]

definition read_literal :: "string \<Rightarrow> (string \<times> string) option" where
  "read_literal s = (case s of c # r \<Rightarrow> if c = CHR 0x22 then read_chars r else None | [] \<Rightarrow> None)"

definition read_member :: "string \<Rightarrow> (output_pair \<times> string) option" where
  "read_member s = (case read_literal s of
     Some (k, c # r) \<Rightarrow>
       (if c = CHR '':'' then map_option (apfst (\<lambda>v. \<lparr>pkey = k, pvalue = v\<rparr>)) (read_literal r) else None)
   | _ \<Rightarrow> None)"

text \<open>The members up to the closing brace; the fuel bounds their number.\<close>

fun read_members :: "nat \<Rightarrow> string \<Rightarrow> output_pair list option" where
  "read_members 0 s = None"
| "read_members (Suc n) s = (case read_member s of
     Some (p, c # r) \<Rightarrow>
       (if c = CHR ''}'' then if r = [] then Some [p] else None
        else if c = CHR '','' then map_option (Cons p) (read_members n r) else None)
   | _ \<Rightarrow> None)"

definition read_object :: "string \<Rightarrow> output_pair list option" where
  "read_object s = (if s = ''{}'' then Some []
     else case s of c # r \<Rightarrow> if c = CHR ''{'' then read_members (length r) r else None | [] \<Rightarrow> None)"

lemma hex_value_digit [simp]: "d < 16 \<Longrightarrow> hex_value (hex_digit d) = Some d"
proof -
  assume "d < 16"
  then have "d \<in> set [0..<16]" by simp
  moreover have "\<forall>d \<in> set [0..<16]. hex_value (hex_digit d) = Some d" by code_simp
  ultimately show ?thesis by blast
qed

lemma read_escape: "read_chars (escape_char ch @ r) = map_option (apfst (Cons ch)) (read_chars r)"
proof -
  let ?special = "{CHR 0x22, CHR 0x5C, CHR 0x08, CHR 0x0C, CHR 0x0A, CHR 0x0D, CHR 0x09}"
  consider (esc) "ch \<in> ?special"
    | (uni) "ch \<notin> ?special" "(of_char ch :: nat) < 32"
    | (raw) "ch \<notin> ?special" "\<not> (of_char ch :: nat) < 32"
    by blast
  then show ?thesis
  proof cases
    case esc
    then show ?thesis
      by (elim insertE emptyE) (simp_all add: escape_char_def simple_escape_def read_chars.simps [of "_ # _ # _"])
  next
    case uni
    have "hex_value (CHR ''0'') = Some 0" by code_simp
    moreover have "(of_char ch :: nat) div 16 * 16 + of_char ch mod 16 = of_char ch" by simp
    ultimately have "unicode_byte [CHR ''0'', CHR ''0'', hex_digit (of_char ch div 16), hex_digit (of_char ch mod 16)] = Some ch"
      using uni(2) by (simp add: unicode_byte_def)
    then show ?thesis using uni by (simp add: escape_char_def read_chars.simps [of "_ # _ # _"])
  next
    case raw
    then show ?thesis by (simp add: escape_char_def read_chars.simps [of "_ # _"])
  qed
qed

lemma read_literal_pieces: "read_literal (concat (string_pieces s) @ r) = Some (s, r)"
proof -
  have "read_chars (concat (map escape_char s) @ CHR 0x22 # r) = Some (s, r)"
    by (induction s) (simp_all add: read_escape read_chars.simps [of "CHR 0x22 # _"])
  then show ?thesis by (simp add: read_literal_def string_pieces_def)
qed

lemma read_member_pieces:
  "read_member (concat (pair_pieces 0 p) @ r) = Some (p, r)"
  by (simp add: read_member_def pair_pieces_def read_literal_pieces)

text \<open>The members as the writer joins them.\<close>

fun members_text :: "output_pair list \<Rightarrow> string" where
  "members_text [] = ''}''"
| "members_text [p] = concat (pair_pieces 0 p) @ ''}''"
| "members_text (p # q # ps) = concat (pair_pieces 0 p) @ '','' @ members_text (q # ps)"

lemma member_pieces_text:
  "0 < i \<Longrightarrow> concat (member_pieces i ps) @ ''}'' = (if ps = [] then ''}'' else '','' @ members_text ps)"
proof (induction ps arbitrary: i)
  case (Cons p ps)
  have "concat (pair_pieces i p) = '','' @ concat (pair_pieces 0 p)"
    using Cons.prems by (simp add: pair_pieces_def)
  then show ?case using Cons.IH [of "Suc i"] by (cases ps) simp_all
qed simp

lemma object_text_members: "object_text ps = ''{'' @ members_text ps"
  using member_pieces_text [of 1 "tl ps"]
  by (cases ps; cases "tl ps") (simp_all add: object_text_def object_pieces_def)

lemma read_members_text: "ps \<noteq> [] \<Longrightarrow> length ps \<le> n \<Longrightarrow> read_members n (members_text ps) = Some ps"
proof (induction ps arbitrary: n rule: members_text.induct)
  case (2 p)
  then show ?case by (cases n) (simp_all add: read_member_pieces)
next
  case (3 p q ps)
  then show ?case by (cases n) (simp_all add: read_member_pieces)
qed simp

lemma members_text_length: "length ps \<le> length (members_text ps)"
  by (induction ps rule: members_text.induct) simp_all

lemma members_text_not_close: "ps \<noteq> [] \<Longrightarrow> members_text ps \<noteq> ''}''"
  by (induction ps rule: members_text.induct) (simp_all add: pair_pieces_def string_pieces_def)

lemma read_object_text: "read_object (object_text ps) = Some ps"
  using read_members_text [of ps "length (members_text ps)"] members_text_length [of ps] members_text_not_close [of ps]
  by (cases "ps = []") (simp_all add: object_text_members read_object_def)

section \<open>Iterating the line scanner\<close>

lemma line_end_takeWhile:
  "i \<le> length input \<Longrightarrow> line_end input i = i + length (takeWhile (\<lambda>c. c \<noteq> CHR 0x0A) (drop i input))"
proof (induction input i rule: line_end.induct)
  case (1 input i)
  show ?case
  proof (cases "i < length input")
    case True
    then have "drop i input = input ! i # drop (Suc i) input" by (rule Cons_nth_drop_Suc [symmetric])
    then show ?thesis using 1 True by (subst line_end.simps) simp
  next
    case False
    then show ?thesis using 1(2) by (subst line_end.simps) simp
  qed
qed

lemma line_end_ge: "i \<le> length input \<Longrightarrow> i \<le> line_end input i"
  by (simp add: line_end_takeWhile)

lemma next_line_offset:
  "output_next_line input offset = (Scan_item l, offset') \<Longrightarrow> offset < offset' \<and> offset' \<le> length (span_bytes input)"
proof -
  assume step: "output_next_line input offset = (Scan_item l, offset')"
  have le: "length (takeWhile (\<lambda>c. c \<noteq> CHR 0x0A) (drop offset (span_bytes input))) \<le> length (span_bytes input) - offset"
    by (metis length_drop length_takeWhile_le)
  show ?thesis
    using step le line_end_takeWhile [of offset "span_bytes input"]
    by (auto simp: output_next_line_def Let_def split: if_splits)
qed

text \<open>The lines that a caller sees who calls the scanner until it returns \<open>0\<close>.\<close>

function all_lines :: "output_span \<Rightarrow> nat \<Rightarrow> string list" where
  "all_lines input offset = (case output_next_line input offset of
     (Scan_item l, offset') \<Rightarrow> l # all_lines input offset' | _ \<Rightarrow> [])"
  by pat_completeness auto
termination
  by (relation "measure (\<lambda>(input, offset). length (span_bytes input) - offset)")
    (auto dest!: next_line_offset [OF sym])

declare all_lines.simps [simp del]

definition newline_ended :: "string \<Rightarrow> string" where
  "newline_ended s = (if s = [] \<or> last s = CHR 0x0A then s else s @ [CHR 0x0A])"

lemma next_line_step:
  assumes "span_valid input" and "offset < length (span_bytes input)"
  defines "l \<equiv> takeWhile (\<lambda>c. c \<noteq> CHR 0x0A) (drop offset (span_bytes input))"
  shows "\<exists>offset'. output_next_line input offset = (Scan_item l, offset') \<and> offset' \<le> length (span_bytes input)
    \<and> newline_ended (drop offset (span_bytes input)) = l @ [CHR 0x0A] @ newline_ended (drop offset' (span_bytes input))"
proof -
  let ?s = "span_bytes input"
  have le: "length l \<le> length ?s - offset" unfolding l_def by (metis length_drop length_takeWhile_le)
  have stop: "line_end ?s offset = offset + length l" using assms by (simp add: line_end_takeWhile l_def)
  have take: "take (length l) (drop offset ?s) = l" by (simp add: l_def takeWhile_eq_take [symmetric])
  have item: "output_next_line input offset = (Scan_item l, if offset + length l < length ?s then Suc (offset + length l) else offset + length l)"
    using assms(1,2) by (simp add: output_next_line_def stop take)
  show ?thesis
  proof (cases "offset + length l < length ?s")
    case True
    have "drop offset ?s = l @ drop (length l) (drop offset ?s)" using take by (metis append_take_drop_id)
    moreover have "drop (length l) (drop offset ?s) = ?s ! (offset + length l) # drop (Suc (offset + length l)) ?s"
      using True by (simp add: add.commute Cons_nth_drop_Suc)
    moreover have "?s ! (offset + length l) = CHR 0x0A"
      using True nth_length_takeWhile [of "\<lambda>c. c \<noteq> CHR 0x0A" "drop offset ?s"] by (simp add: l_def)
    ultimately have split: "drop offset ?s = l @ CHR 0x0A # drop (Suc (offset + length l)) ?s" by simp
    have "newline_ended (l @ CHR 0x0A # r) = l @ [CHR 0x0A] @ newline_ended r" for r
      by (auto simp: newline_ended_def)
    then have "newline_ended (drop offset ?s) = l @ [CHR 0x0A] @ newline_ended (drop (Suc (offset + length l)) ?s)"
      by (simp only: split)
    then show ?thesis using item True by simp
  next
    case False
    then have full: "offset + length l = length ?s" using le assms(2) by linarith
    then have "take (length l) (drop offset ?s) = drop offset ?s" by (intro take_all) simp
    then have l: "drop offset ?s = l" unfolding take by (rule sym)
    then have "l \<noteq> []" using assms(2) by auto
    have "CHR 0x0A \<notin> set l" by (auto simp: l_def dest: set_takeWhileD)
    with \<open>l \<noteq> []\<close> have "last l \<noteq> CHR 0x0A" using last_in_set by fastforce
    with \<open>l \<noteq> []\<close> have "newline_ended (drop offset ?s) = l @ [CHR 0x0A]"
      unfolding l newline_ended_def by simp
    moreover have "newline_ended (drop (offset + length l) ?s) = []" unfolding full by (simp add: newline_ended_def)
    ultimately show ?thesis
      using item full by (intro exI [of _ "offset + length l"]) (simp only: full append_Nil2 less_irrefl if_False order_refl)
  qed
qed

lemma all_lines_join:
  assumes "span_valid input" and "offset \<le> length (span_bytes input)"
  shows "concat (map (\<lambda>l. l @ [CHR 0x0A]) (all_lines input offset)) = newline_ended (drop offset (span_bytes input))
    \<and> (\<forall>l\<in>set (all_lines input offset). CHR 0x0A \<notin> set l)"
  using assms
proof (induction input offset rule: all_lines.induct)
  case (1 input offset)
  show ?case
  proof (cases "offset < length (span_bytes input)")
    case True
    let ?l = "takeWhile (\<lambda>c. c \<noteq> CHR 0x0A) (drop offset (span_bytes input))"
    obtain offset' where item: "output_next_line input offset = (Scan_item ?l, offset')"
      and le: "offset' \<le> length (span_bytes input)"
      and join: "newline_ended (drop offset (span_bytes input)) = ?l @ [CHR 0x0A] @ newline_ended (drop offset' (span_bytes input))"
      using next_line_step [OF 1(2) True] by blast
    have "CHR 0x0A \<notin> set ?l" by (auto dest: set_takeWhileD)
    then show ?thesis
      using 1(1) [OF item [symmetric] refl 1(2) le] item join by (simp add: all_lines.simps [of input offset])
  next
    case False
    then have "output_next_line input offset = (Scan_end, offset)" using 1(2,3) by (simp add: output_next_line_def)
    then show ?thesis using False by (simp add: all_lines.simps newline_ended_def)
  qed
qed

section \<open>How many pairs an input can have\<close>

lemma line_pair_nonempty: "line_pair d l = Some p \<Longrightarrow> d \<noteq> [] \<Longrightarrow> l \<noteq> []"
  by (auto simp: line_pair_def Let_def split: if_splits)

lemma all_pairs_Cons:
  "s \<noteq> [] \<Longrightarrow> sep \<noteq> [] \<Longrightarrow> all_pairs d sep s =
     (case line_pair d (take (find_span s sep) s) of None \<Rightarrow> [] | Some p \<Rightarrow> [p])
     @ all_pairs d sep (drop (find_span s sep + length sep) s)"
  by (simp add: all_pairs_def segments_Cons List.map_filter_simps split: option.split)

lemma all_pairs_length: "sep \<noteq> [] \<Longrightarrow> d \<noteq> [] \<Longrightarrow> 2 * length (all_pairs d sep s) \<le> length s + 1"
proof (induction sep s rule: segments.induct)
  case (1 sep s)
  show ?case
  proof (cases "s = []")
    case False
    let ?n = "find_span s sep"
    have IH: "2 * length (all_pairs d sep (drop (?n + length sep) s)) \<le> length s - (?n + length sep) + 1"
      using 1 False by simp
    have "0 < length sep" "0 < length s" using 1(2) False by simp_all
    have "line_pair d (take ?n s) = Some p \<Longrightarrow> 0 < ?n" for p
      using line_pair_nonempty [of d "take ?n s" p] 1(3) by auto
    moreover have "?n < length s \<Longrightarrow> ?n + length sep \<le> length s" using find_span_found(1) [OF 1(2)] .
    moreover have "?n \<le> length s" by simp
    moreover have "\<not> ?n < length s \<Longrightarrow> all_pairs d sep (drop (?n + length sep) s) = []"
      by (simp add: all_pairs_def List.map_filter_simps)
    ultimately show ?thesis
      using all_pairs_Cons [OF False 1(2), of d] IH \<open>0 < length sep\<close> \<open>0 < length s\<close>
      by (cases "?n < length s") (auto split: option.splits simp del: length_greater_0_conv)
  qed (simp add: all_pairs_def List.map_filter_simps)
qed

lemma empty_delimiter_key: "p \<in> set (all_pairs [] sep s) \<Longrightarrow> pkey p = []"
  by (auto simp: all_pairs_def List.map_filter_def line_pair_def Let_def find_span_def trim_def split: if_splits)

lemma pair_count_bound:
  assumes "sep \<noteq> []"
  shows "card (set (pair_keys (all_pairs d sep s))) \<le> length s div 2 + 1"
proof (cases "d = []")
  case True
  have "set (pair_keys (all_pairs d sep s)) \<subseteq> {[]}" using empty_delimiter_key True by auto
  from card_mono [OF _ this] show ?thesis by simp
next
  case False
  have "card (set (pair_keys (all_pairs d sep s))) \<le> length (all_pairs d sep s)"
    by (metis card_length length_map)
  then show ?thesis using all_pairs_length [OF assms False, of s] by simp
qed

lemma dom_last_wins: "dom (last_wins ps) = set (pair_keys ps)"
  by (simp add: last_wins_def dom_pair_map)

section \<open>Properties\<close>

lemma kv_json_scan:
  assumes "span_valid input" "span_valid d" "span_valid sep" "span_bytes sep \<noteq> []"
  shows "scan_pairs input d sep cap 0 [] =
    (let m = last_wins (all_pairs (span_bytes d) (span_bytes sep) (span_bytes input))
     in if card (dom m) \<le> cap then Inr (sorted_pairs m) else Inl (-2))"
  using place_all_correct [of "[]" cap] scan_pairs_place_all [OF assms, of 0 cap "[]"]
  by (simp add: dom_last_wins Let_def pair_map_def)

text \<open>
  C14. On valid arguments without NUL bytes, the key/value scan of an output fails with \<open>-2\<close>
  exactly when the distinct keys do not fit the workspace or the document and its terminator do not
  fit the buffer. Otherwise it returns \<open>0\<close> with the object of the map from the trimmed keys to the
  trimmed values, keys in the order of their bytes, the last duplicate winning; a reader of JSON
  objects gets exactly these pairs back.
\<close>

theorem output_key_value_json_correct:
  fixes pair_capacity :: nat
  assumes "span_valid input" and "span_valid delimiter" and "span_valid separator"
    and "span_bytes separator \<noteq> []" and "output_capacity \<noteq> 0"
    and "CHR 0x00 \<notin> set (span_bytes input) \<union> set (span_bytes delimiter) \<union> set (span_bytes separator)"
  defines "m \<equiv> last_wins (all_pairs (span_bytes delimiter) (span_bytes separator) (span_bytes input))"
    and "run \<equiv> output_key_value_json input delimiter separator pair_capacity output_capacity"
  shows "fst run = (if card (dom m) \<le> pair_capacity \<and> length (object_text (sorted_pairs m)) < output_capacity
                    then 0 else -2)
    \<and> (fst run = 0 \<longrightarrow> snd run = object_text (sorted_pairs m) \<and> read_object (snd run) = Some (sorted_pairs m))"
proof -
  have run: "run = (case scan_pairs input delimiter separator pair_capacity 0 [] of
        Inl st \<Rightarrow> (st, [])
      | Inr pairs \<Rightarrow>
          (case append_all (object_pieces pairs) \<lparr>wcapacity = output_capacity, woutput = []\<rparr> of
             (st, w) \<Rightarrow> (st, woutput w)))"
    using assms(1-6) by (simp add: run_def output_key_value_json_def)
  show ?thesis
    using append_object [of output_capacity "sorted_pairs m"] assms(5)
    by (cases "append_all (object_pieces (sorted_pairs m)) \<lparr>wcapacity = output_capacity, woutput = []\<rparr>")
      (simp add: run kv_json_scan [OF assms(1-4)] m_def [symmetric] Let_def read_object_text split: if_splits)
qed

theorem output_key_value_json_correct_witness:
  "fst (output_key_value_json (Span ''b=2;a = 1;b=3'') (Span ''='') (Span '';'') 2 18) = 0"
proof -
  let ?pairs = "[\<lparr>pkey = ''a'', pvalue = ''1''\<rparr>, \<lparr>pkey = ''b'', pvalue = ''3''\<rparr>]"
  have all: "all_pairs ''='' '';'' ''b=2;a = 1;b=3'' =
      [\<lparr>pkey = ''b'', pvalue = ''2''\<rparr>, \<lparr>pkey = ''a'', pvalue = ''1''\<rparr>, \<lparr>pkey = ''b'', pvalue = ''3''\<rparr>]"
    by code_simp
  have m: "last_wins (all_pairs ''='' '';'' ''b=2;a = 1;b=3'') = pair_map ?pairs"
    unfolding all by (auto simp: last_wins_def pair_map_def)
  have "sorted_pairs (pair_map ?pairs) = ?pairs"
    by (rule sorted_pairs_unique) (simp add: less_char_def)
  moreover have "card (dom (pair_map ?pairs)) = 2" by (simp add: dom_pair_map)
  moreover have "length (object_text ?pairs) = 17" by code_simp
  ultimately show ?thesis
    using output_key_value_json_correct [of "Span ''b=2;a = 1;b=3''" "Span ''=''" "Span '';''" 18 2] m
    by simp
qed

text \<open>
  The workspace bound of the header suffices: with \<open>input.size / 2 + 1\<close> pairs of workspace,
  also for the empty delimiter, a valid scan can only fail for want of output buffer, and a larger
  workspace changes nothing.
\<close>

theorem output_pair_capacity_bound:
  assumes "span_valid input" and "span_valid delimiter" and "span_valid separator"
    and "span_bytes separator \<noteq> []" and "length (span_bytes input) div 2 + 1 \<le> pair_capacity"
  shows "scan_pairs input delimiter separator pair_capacity 0 []
       = Inr (sorted_pairs (last_wins (all_pairs (span_bytes delimiter) (span_bytes separator) (span_bytes input))))"
  using pair_count_bound [OF assms(4), of "span_bytes delimiter" "span_bytes input"] assms(5)
  by (simp add: kv_json_scan [OF assms(1-4)] dom_last_wins Let_def)

theorem output_pair_capacity_bound_witness:
  "scan_pairs (Span ''a;b'') (Null_span 0) (Span '';'') 2 0 []
     = Inr (sorted_pairs (last_wins (all_pairs [] '';'' ''a;b'')))"
  using output_pair_capacity_bound [of "Span ''a;b''" "Null_span 0" "Span '';''" 2] by simp

lemma output_contains_iff:
  assumes "span_valid input" and "span_valid search"
  shows "output_contains input search \<longleftrightarrow> sublist (span_bytes search) (span_bytes input)"
  using assms find_span_lt_iff [of "span_bytes search" "span_bytes input"]
  by (cases "span_bytes search = []") (simp_all add: output_contains_def)

text \<open>
  The line scanner loses no byte: the lines that a caller sees, each followed by a newline,
  are the input with a newline added when it has no final one, and no line contains a newline.
  The substring test finds a search string exactly when it occurs in the input.
\<close>

theorem output_lines_partition:
  assumes "span_valid input"
  shows "concat (map (\<lambda>l. l @ [CHR 0x0A]) (all_lines input 0)) = newline_ended (span_bytes input)
    \<and> (\<forall>l\<in>set (all_lines input 0). CHR 0x0A \<notin> set l)
    \<and> (\<forall>search. span_valid search \<longrightarrow>
          (output_contains input search \<longleftrightarrow> sublist (span_bytes search) (span_bytes input)))"
  using all_lines_join [OF assms, of 0] assms by (simp add: output_contains_iff)

theorem output_lines_partition_witness:
  "concat (map (\<lambda>l. l @ [CHR 0x0A]) (all_lines (Span ''a'') 0)) = [CHR ''a'', CHR 0x0A]"
  using output_lines_partition [of "Span ''a''"] by (simp add: newline_ended_def)

end
