(* ===== verification/Expression_Lexer.thy ===== *)
theory Expression_Lexer
  imports Praktor_Prelude
begin

text \<open>
  The lexer of condition expressions, \<open>praktor/src/expressions/expression_lexer.c\<close>: one token per
  call, copied into the caller's buffer in two passes, the first of which only measures it. The
  lemmas show that the measured size is the copied size, that a refused call consumes nothing, that
  every token but the end makes progress, and that a quoted string reads back as it was written.

  The borrowed input is the list of its bytes, so that \<open>size\<close> is its length. The character classes
  are those of the C locale.
\<close>

section \<open>Data\<close>

datatype token_kind =
    EXPR_VARIABLE | EXPR_STRING | EXPR_NUMBER | EXPR_OPERATOR | EXPR_LPAREN | EXPR_RPAREN
  | EXPR_REGEX | EXPR_DOT | EXPR_IDENTIFIER | EXPR_END

record expression_token =
  tkind :: token_kind
  tposition :: nat
  tsize :: nat

text \<open>\<open>lprevious\<close> is \<open>None\<close> when \<open>has_previous\<close> is 0.\<close>

record expression_lexer =
  linput :: string
  loffset :: nat
  lerror_position :: nat
  lprevious :: "token_kind option"

section \<open>Character classes\<close>

definition isspace :: "char \<Rightarrow> bool" where
  "isspace c \<longleftrightarrow> c = CHR '' '' \<or> (let n = (of_char c :: nat) in 9 \<le> n \<and> n \<le> 13)"

definition isdigit :: "char \<Rightarrow> bool" where
  "isdigit c \<longleftrightarrow> (let n = (of_char c :: nat) in 48 \<le> n \<and> n \<le> 57)"

definition isalpha :: "char \<Rightarrow> bool" where
  "isalpha c \<longleftrightarrow> (let n = (of_char c :: nat) in (65 \<le> n \<and> n \<le> 90) \<or> (97 \<le> n \<and> n \<le> 122))"

definition word_char :: "char \<Rightarrow> bool" where
  "word_char c \<longleftrightarrow> isalpha c \<or> isdigit c \<or> c = CHR ''_''"

section \<open>Loops\<close>

text \<open>\<open>while (i < size && P(input[i])) ++i\<close>\<close>

function scan_while :: "(char \<Rightarrow> bool) \<Rightarrow> string \<Rightarrow> nat \<Rightarrow> nat" where
  "scan_while P input i = (if i < length input \<and> P (input ! i) then scan_while P input (Suc i) else i)"
  by pat_completeness auto
termination
  by (relation "measure (\<lambda>(P, input, i). length input - i)") auto

declare scan_while.simps [simp del]

text \<open>The first pass over a quoted literal: the closing position and the number of bytes to copy.\<close>

function quoted_measure :: "bool \<Rightarrow> char \<Rightarrow> string \<Rightarrow> nat \<Rightarrow> nat \<Rightarrow> nat \<times> nat" where
  "quoted_measure regex q input i written =
     (if i < length input \<and> input ! i \<noteq> q
      then if input ! i = CHR 0x5C
           then let written' = (if regex then Suc written else written) in
                if Suc i < length input then quoted_measure regex q input (Suc (Suc i)) (Suc written')
                else quoted_measure regex q input (Suc i) written'
           else quoted_measure regex q input (Suc i) (Suc written)
      else (i, written))"
  by pat_completeness auto
termination
  by (relation "measure (\<lambda>(regex, q, input, i, written). length input - i)") auto

declare quoted_measure.simps [simp del]

text \<open>The second pass: the bytes copied from \<open>cursor\<close> on.\<close>

function quoted_copy :: "bool \<Rightarrow> char \<Rightarrow> string \<Rightarrow> nat \<Rightarrow> nat \<Rightarrow> string" where
  "quoted_copy regex q input stop cursor =
     (if cursor < stop \<and> input ! cursor \<noteq> q
      then if input ! cursor = CHR 0x5C
           then (if regex then [CHR 0x5C] else []) @
                (if Suc cursor < stop then input ! Suc cursor # quoted_copy regex q input stop (Suc (Suc cursor))
                 else quoted_copy regex q input stop (Suc cursor))
           else input ! cursor # quoted_copy regex q input stop (Suc cursor)
      else [])"
  by pat_completeness auto
termination
  by (relation "measure (\<lambda>(regex, q, input, stop, cursor). stop - cursor)") auto

declare quoted_copy.simps [simp del]

section \<open>Operations\<close>

definition lexer_init :: "string \<Rightarrow> expression_lexer" where
  "lexer_init input = \<lparr>linput = input, loffset = 0, lerror_position = 0, lprevious = None\<rparr>"

text \<open>The end of the operator that starts with \<open>ch\<close> just before \<open>i\<close>.\<close>

definition operator_end :: "string \<Rightarrow> char \<Rightarrow> nat \<Rightarrow> nat" where
  "operator_end input ch i =
     (if i < length input \<and>
         ((ch \<in> {CHR ''='', CHR ''!'', CHR ''<'', CHR ''>''} \<and> input ! i = CHR ''='') \<or>
          (ch = CHR ''&'' \<and> input ! i = CHR ''&'') \<or> (ch = CHR ''|'' \<and> input ! i = CHR ''|''))
      then if ch = CHR ''='' \<and> Suc i < length input \<and> input ! Suc i = CHR ''='' then Suc (Suc i) else Suc i
      else i)"

text \<open>What the first pass finds: the kind, where the text begins and ends, and the bytes to write.\<close>

record token_extent =
  xkind :: token_kind
  xbegin :: nat
  xend :: nat
  xwritten :: nat
  xquoted :: bool

definition plain_extent :: "token_kind \<Rightarrow> nat \<Rightarrow> nat \<Rightarrow> token_extent" where
  "plain_extent kind b e = \<lparr>xkind = kind, xbegin = b, xend = e, xwritten = e - b, xquoted = False\<rparr>"

definition quoted_extent :: "string \<Rightarrow> char \<Rightarrow> nat \<Rightarrow> token_extent" where
  "quoted_extent input ch b =
     (case quoted_measure (ch = CHR ''/'') ch input b 0 of (e, written) \<Rightarrow>
       \<lparr>xkind = (if ch = CHR ''/'' then EXPR_REGEX else EXPR_STRING), xbegin = b,
        xend = (if e < length input then Suc e else e), xwritten = written, xquoted = True\<rparr>)"

definition token_extent_at :: "expression_lexer \<Rightarrow> nat \<Rightarrow> token_extent option" where
  "token_extent_at lx start =
     (if \<not> start < length (linput lx) then Some (plain_extent EXPR_END start start)
      else let input = linput lx; ch = input ! start; e = Suc start in
      if ch = CHR ''$''
      then Some (plain_extent EXPR_VARIABLE e (scan_while (\<lambda>c. word_char c \<or> c = CHR ''.'') input e))
      else if ch = CHR 0x27 \<or> ch = CHR 0x22 \<or>
              (ch = CHR ''/'' \<and> e < length input \<and> lprevious lx \<in> {None, Some EXPR_OPERATOR, Some EXPR_LPAREN})
      then Some (quoted_extent input ch e)
      else if isdigit ch
      then Some (plain_extent EXPR_NUMBER start (scan_while (\<lambda>c. isdigit c \<or> c = CHR ''.'') input e))
      else if ch = CHR ''('' then Some (plain_extent EXPR_LPAREN start e)
      else if ch = CHR '')'' then Some (plain_extent EXPR_RPAREN start e)
      else if ch = CHR ''.'' then Some (plain_extent EXPR_DOT start e)
      else if ch \<in> {CHR ''='', CHR ''!'', CHR ''<'', CHR ''>'', CHR ''&'', CHR ''|''} \<or> (ch = CHR ''/'' \<and> e < length input)
      then Some (plain_extent EXPR_OPERATOR start (operator_end input ch e))
      else if isalpha ch \<or> ch = CHR ''_''
      then Some (plain_extent EXPR_IDENTIFIER start (scan_while word_char input e))
      else None)"

record lexer_result =
  rstatus :: salts_status
  rlexer :: expression_lexer
  rrequired :: "nat option"
  routput :: "(expression_token \<times> string) option"

text \<open>
  \<open>praktor_expression_lexer_next\<close>. \<open>rrequired\<close> and \<open>routput\<close> are \<open>None\<close> where the call leaves
  \<open>*required\<close>, \<open>*token\<close> and \<open>value\<close> alone; \<open>value\<close> is NULL only with capacity 0.
\<close>

definition lexer_next :: "expression_lexer \<Rightarrow> nat \<Rightarrow> lexer_result" where
  "lexer_next lx cap =
     (if loffset lx > length (linput lx)
      then \<lparr>rstatus = SALTS_EINVAL, rlexer = lx, rrequired = None, routput = None\<rparr>
      else let start = scan_while isspace (linput lx) (loffset lx) in
        case token_extent_at lx start of
          None \<Rightarrow> \<lparr>rstatus = SALTS_EINVAL, rlexer = lx\<lparr>lerror_position := start\<rparr>, rrequired = None, routput = None\<rparr>
        | Some x \<Rightarrow>
            if cap \<le> xwritten x
            then \<lparr>rstatus = SALTS_ENOBUFS, rlexer = lx, rrequired = Some (xwritten x), routput = None\<rparr>
            else \<lparr>rstatus = SALTS_OK,
                  rlexer = lx\<lparr>loffset := xend x, lprevious := Some (xkind x)\<rparr>,
                  rrequired = Some (xwritten x),
                  routput = Some (\<lparr>tkind = xkind x, tposition = start, tsize = xwritten x\<rparr>,
                    if xquoted x
                    then quoted_copy (xkind x = EXPR_REGEX) (linput lx ! start) (linput lx) (xend x) (xbegin x)
                    else take (xwritten x) (drop (xbegin x) (linput lx)))\<rparr>)"

section \<open>The two passes agree\<close>

lemma scan_while_takeWhile:
  "i \<le> length input \<Longrightarrow> scan_while P input i = i + length (takeWhile P (drop i input))"
proof (induction P input i rule: scan_while.induct)
  case (1 P input i)
  show ?case
  proof (cases "i < length input")
    case True
    then have "drop i input = input ! i # drop (Suc i) input" by (rule Cons_nth_drop_Suc [symmetric])
    then show ?thesis using 1 True by (subst scan_while.simps) simp
  next
    case False
    then show ?thesis using 1(2) by (subst scan_while.simps) simp
  qed
qed

lemma scan_while_bounds:
  assumes "i \<le> length input"
  shows "i \<le> scan_while P input i" and "scan_while P input i \<le> length input"
proof -
  have "length (takeWhile P (drop i input)) \<le> length input - i" by (metis length_drop length_takeWhile_le)
  then show "i \<le> scan_while P input i" and "scan_while P input i \<le> length input"
    using assms by (simp_all add: scan_while_takeWhile)
qed

text \<open>The literal at the head of a string: the bytes it denotes and what follows, the closing quote included.\<close>

fun unquote :: "bool \<Rightarrow> char \<Rightarrow> string \<Rightarrow> string \<times> string" where
  "unquote regex q [] = ([], [])"
| "unquote regex q [c] = (if c = q then ([], [c]) else if c = CHR 0x5C then (if regex then [c] else [], []) else ([c], []))"
| "unquote regex q (c # d # r) =
     (if c = q then ([], c # d # r)
      else if c = CHR 0x5C then apfst ((@) (if regex then [c, d] else [d])) (unquote regex q r)
      else apfst (Cons c) (unquote regex q (d # r)))"

lemma drop_two: "Suc i < length xs \<Longrightarrow> drop i xs = xs ! i # xs ! Suc i # drop (Suc (Suc i)) xs"
  by (simp add: Cons_nth_drop_Suc)

lemma drop_one: "\<not> Suc i < length xs \<Longrightarrow> i < length xs \<Longrightarrow> drop i xs = [xs ! i]"
  by (metis Cons_nth_drop_Suc drop_all not_less)

lemma unquote_step:
  assumes "Suc i < length input"
  shows "unquote regex q (drop i input) =
     (if input ! i = q then ([], drop i input)
      else if input ! i = CHR 0x5C
      then apfst ((@) (if regex then [CHR 0x5C, input ! Suc i] else [input ! Suc i])) (unquote regex q (drop (Suc (Suc i)) input))
      else apfst (Cons (input ! i)) (unquote regex q (drop (Suc i) input)))"
proof -
  have "drop (Suc i) input = input ! Suc i # drop (Suc (Suc i)) input"
    using assms by (simp add: Cons_nth_drop_Suc)
  then show ?thesis using drop_two [OF assms] by simp
qed

lemma unquote_split: "\<exists>l. xs = l @ snd (unquote regex q xs) \<and> length (fst (unquote regex q xs)) \<le> length l"
proof (induction regex q xs rule: unquote.induct)
  case (3 regex q c d r)
  consider "c = q" | "c \<noteq> q" "c = CHR 0x5C" | "c \<noteq> q" "c \<noteq> CHR 0x5C" by blast
  then show ?case
  proof cases
    case 2
    then obtain l where "r = l @ snd (unquote regex q r)" "length (fst (unquote regex q r)) \<le> length l"
      using 3(1) by blast
    then show ?thesis using 2 by (intro exI [of _ "c # d # l"], cases regex) simp_all
  next
    case 3
    then obtain l where "d # r = l @ snd (unquote regex q (d # r))" "length (fst (unquote regex q (d # r))) \<le> length l"
      using "3.IH"(2) by blast
    then show ?thesis using 3 by (intro exI [of _ "c # l"]) simp
  qed simp
qed auto

lemma quoted_measure_unquote:
  "i \<le> length input \<Longrightarrow> quoted_measure regex q input i w =
     (length input - length (snd (unquote regex q (drop i input))), w + length (fst (unquote regex q (drop i input))))"
proof (induction regex q input i w rule: quoted_measure.induct)
  case (1 regex q input i w)
  note IH = 1(1-3)
  consider (stop) "i = length input"
    | (one) "i < length input" "\<not> Suc i < length input"
    | (two) "Suc i < length input"
    using 1(4) by linarith
  then show ?case
  proof cases
    case stop
    then show ?thesis by (simp add: quoted_measure.simps)
  next
    case one
    then have "drop i input = [input ! i]" "length input = Suc i" by (simp_all add: drop_one)
    then show ?thesis
      by (simp add: quoted_measure.simps [of _ _ _ i] quoted_measure.simps [of _ _ _ "Suc i"])
  next
    case two
    then show ?thesis
      using IH by (simp add: quoted_measure.simps [of _ _ _ i] unquote_step Let_def)
  qed
qed

lemma unquote_rest_le: "length (snd (unquote regex q (drop i input))) \<le> length input - i"
proof -
  have "length (snd (unquote regex q xs)) \<le> length xs" for xs
    using unquote_split [of xs regex q] by (metis length_append le_add2)
  then show ?thesis by (metis length_drop)
qed

lemma quoted_copy_unquote:
  assumes "i \<le> length input" and "e = length input - length (snd (unquote regex q (drop i input)))"
  shows "quoted_copy regex q input (if e < length input then Suc e else e) i = fst (unquote regex q (drop i input))"
  using assms
proof (induction "length input - i" arbitrary: i rule: less_induct)
  case less
  consider (stop) "i = length input"
    | (one) "i < length input" "\<not> Suc i < length input"
    | (two) "Suc i < length input"
    using less(2) by linarith
  then show ?case
  proof cases
    case stop
    then show ?thesis using less(3) by (simp add: quoted_copy.simps)
  next
    case one
    then have "drop i input = [input ! i]" "length input = Suc i" by (simp_all add: drop_one)
    then show ?thesis
      using less(3)
      by (simp add: quoted_copy.simps [of _ _ _ "Suc i" i] quoted_copy.simps [of _ _ _ _ "Suc i"])
  next
    case two
    let ?stop = "if e < length input then Suc e else e"
    have two_le: "Suc (Suc i) \<le> ?stop \<and> i < e" if "input ! i \<noteq> q" "input ! i = CHR 0x5C"
      using that two less(3) unquote_rest_le [of regex q "Suc (Suc i)" input] by (simp add: unquote_step) linarith
    have one_le: "Suc i \<le> e" if "input ! i \<noteq> q" "input ! i \<noteq> CHR 0x5C"
      using that two less(3) unquote_rest_le [of regex q "Suc i" input] by (simp add: unquote_step)
    have IH: "quoted_copy regex q input ?stop (Suc i) = fst (unquote regex q (drop (Suc i) input))"
      if "input ! i \<noteq> q" "input ! i \<noteq> CHR 0x5C"
      using that two less(1) [of "Suc i"] less(3) by (simp add: unquote_step)
    have IH2: "quoted_copy regex q input ?stop (Suc (Suc i)) = fst (unquote regex q (drop (Suc (Suc i)) input))"
      if "input ! i \<noteq> q" "input ! i = CHR 0x5C"
      using that two less(1) [of "Suc (Suc i)"] less(3) by (simp add: unquote_step)
    have fst: "fst (unquote regex q (drop i input)) =
        (if input ! i = q then []
         else if input ! i = CHR 0x5C then (if regex then [CHR 0x5C] else []) @ input ! Suc i # fst (unquote regex q (drop (Suc (Suc i)) input))
         else input ! i # fst (unquote regex q (drop (Suc i) input)))"
      using two by (simp add: unquote_step)
    consider "input ! i = q" | "input ! i \<noteq> q" "input ! i = CHR 0x5C" | "input ! i \<noteq> q" "input ! i \<noteq> CHR 0x5C"
      by blast
    then show ?thesis
    proof cases
      case 1
      then show ?thesis unfolding fst by (simp add: quoted_copy.simps)
    next
      case 2
      then show ?thesis
        unfolding fst using IH2 two_le two by (subst quoted_copy.simps) auto
    next
      case 3
      then show ?thesis unfolding fst using IH one_le by (subst quoted_copy.simps) auto
    qed
  qed
qed

section \<open>Extents\<close>

definition lexer_ok :: "expression_lexer \<Rightarrow> bool" where
  "lexer_ok lx \<longleftrightarrow> loffset lx \<le> length (linput lx)"

lemma operator_end_bounds: "i \<le> length input \<Longrightarrow> i \<le> operator_end input ch i \<and> operator_end input ch i \<le> length input"
  by (auto simp: operator_end_def)

text \<open>What an extent promises: a range of the input that makes progress, and the size of its text.\<close>

definition extent_ok :: "string \<Rightarrow> nat \<Rightarrow> token_extent \<Rightarrow> bool" where
  "extent_ok input start x \<longleftrightarrow>
     start \<le> xbegin x \<and> xbegin x \<le> xend x \<and> xend x \<le> length input \<and> xbegin x + xwritten x \<le> xend x \<and>
     (xkind x = EXPR_END \<longleftrightarrow> start = length input) \<and> (start < length input \<longrightarrow> start < xend x) \<and>
     (xquoted x \<longleftrightarrow> xkind x \<in> {EXPR_STRING, EXPR_REGEX}) \<and>
     (xquoted x \<longrightarrow> start < length input \<and> xbegin x = Suc start \<and>
        quoted_copy (xkind x = EXPR_REGEX) (input ! start) input (xend x) (xbegin x)
          = fst (unquote (xkind x = EXPR_REGEX) (input ! start) (drop (xbegin x) input)) \<and>
        xwritten x = length (fst (unquote (xkind x = EXPR_REGEX) (input ! start) (drop (xbegin x) input)))) \<and>
     (\<not> xquoted x \<longrightarrow> xbegin x = (if xkind x = EXPR_VARIABLE then Suc start else start) \<and>
        xwritten x = xend x - xbegin x)"

lemma plain_extent_ok:
  "start < length input \<Longrightarrow> kind \<notin> {EXPR_STRING, EXPR_REGEX, EXPR_END} \<Longrightarrow>
   b = (if kind = EXPR_VARIABLE then Suc start else start) \<Longrightarrow> Suc start \<le> e \<Longrightarrow> e \<le> length input \<Longrightarrow>
   extent_ok input start (plain_extent kind b e)"
  by (auto simp: extent_ok_def plain_extent_def)

lemma quoted_extent_ok:
  assumes "start < length input" and "ch = input ! start"
  shows "extent_ok input start (quoted_extent input ch (Suc start))"
proof -
  let ?u = "unquote (ch = CHR ''/'') ch (drop (Suc start) input)"
  let ?e = "length input - length (snd ?u)"
  have measure: "quoted_measure (ch = CHR ''/'') ch input (Suc start) 0 = (?e, length (fst ?u))"
    using quoted_measure_unquote [of "Suc start" input "ch = CHR ''/''" ch 0] assms(1) by simp
  obtain l where l: "drop (Suc start) input = l @ snd ?u" "length (fst ?u) \<le> length l"
    using unquote_split by blast
  then have "length input - Suc start = length l + length (snd ?u)" by (metis length_append length_drop)
  then have "Suc start + length (fst ?u) \<le> ?e" using l(2) assms(1) by linarith
  moreover have "quoted_copy (ch = CHR ''/'') ch input (if ?e < length input then Suc ?e else ?e) (Suc start) = fst ?u"
    using assms(1) by (intro quoted_copy_unquote) simp_all
  moreover have "?e \<le> length input" by simp
  ultimately show ?thesis
    unfolding extent_ok_def quoted_extent_def measure assms(2) [symmetric] using assms(1)
    by (cases "ch = CHR ''/''"; cases "?e < length input") simp_all
qed

lemma token_extent_ok:
  assumes "start \<le> length (linput lx)" and "token_extent_at lx start = Some x"
  shows "extent_ok (linput lx) start x"
proof (cases "start < length (linput lx)")
  case False
  then show ?thesis using assms by (auto simp: token_extent_at_def extent_ok_def plain_extent_def Let_def)
next
  case True
  then have "Suc start \<le> length (linput lx)" by simp
  note bounds = scan_while_bounds [OF this] operator_end_bounds [OF this]
  show ?thesis
    using assms(2) True bounds
    by (auto simp: token_extent_at_def Let_def split: if_splits intro!: plain_extent_ok quoted_extent_ok)
qed

lemma skip_space:
  assumes "lexer_ok lx"
  defines "start \<equiv> scan_while isspace (linput lx) (loffset lx)"
  shows "loffset lx \<le> start" and "start \<le> length (linput lx)"
    and "list_all isspace (take (start - loffset lx) (drop (loffset lx) (linput lx)))"
    and "start < length (linput lx) \<Longrightarrow> \<not> isspace (linput lx ! start)"
proof -
  have le: "loffset lx \<le> length (linput lx)" using assms(1) by (simp add: lexer_ok_def)
  note eq = scan_while_takeWhile [OF le, of isspace]
  show "loffset lx \<le> start" "start \<le> length (linput lx)"
    using scan_while_bounds [OF le] by (simp_all add: start_def)
  have "take (start - loffset lx) (drop (loffset lx) (linput lx)) = takeWhile isspace (drop (loffset lx) (linput lx))"
    by (simp add: start_def eq takeWhile_eq_take [symmetric])
  then show "list_all isspace (take (start - loffset lx) (drop (loffset lx) (linput lx)))"
    by (metis list.pred_set set_takeWhileD)
  assume less: "start < length (linput lx)"
  then have "length (takeWhile isspace (drop (loffset lx) (linput lx))) < length (drop (loffset lx) (linput lx))"
    by (simp add: start_def eq)
  from nth_length_takeWhile [OF this] show "\<not> isspace (linput lx ! start)"
    using le by (simp add: start_def eq)
qed

text \<open>The bytes of a plain token: from its position, without the dollar of a variable, to its end.\<close>

definition token_slice :: "expression_lexer \<Rightarrow> expression_token \<Rightarrow> nat \<Rightarrow> string" where
  "token_slice lx tok e =
     (let b = (if tkind tok = EXPR_VARIABLE then Suc (tposition tok) else tposition tok)
      in take (e - b) (drop b (linput lx)))"

lemma lexer_next_ok:
  assumes "lexer_ok lx" and "rstatus (lexer_next lx cap) = SALTS_OK"
  obtains tok v where "routput (lexer_next lx cap) = Some (tok, v)"
    and "tsize tok = length v" and "rrequired (lexer_next lx cap) = Some (length v)" and "length v < cap"
    and "lexer_ok (rlexer (lexer_next lx cap))" and "linput (rlexer (lexer_next lx cap)) = linput lx"
    and "loffset lx \<le> tposition tok" and "tposition tok \<le> loffset (rlexer (lexer_next lx cap))"
    and "tposition tok + length v \<le> loffset (rlexer (lexer_next lx cap))"
    and "tkind tok \<noteq> EXPR_END \<longrightarrow> tposition tok < loffset (rlexer (lexer_next lx cap))"
    and "tkind tok = EXPR_END \<longleftrightarrow> tposition tok = length (linput lx)"
    and "tkind tok \<notin> {EXPR_STRING, EXPR_REGEX} \<longrightarrow> v = token_slice lx tok (loffset (rlexer (lexer_next lx cap)))"
    and "tposition tok = scan_while isspace (linput lx) (loffset lx)"
    and "lprevious (rlexer (lexer_next lx cap)) = Some (tkind tok)"
proof -
  let ?start = "scan_while isspace (linput lx) (loffset lx)"
  have not_beyond: "\<not> length (linput lx) < loffset lx" using assms(1) by (simp add: lexer_ok_def)
  then obtain x where x: "token_extent_at lx ?start = Some x" and cap: "xwritten x < cap"
    using assms(2) by (auto simp: lexer_next_def Let_def split: option.splits if_splits)
  note ok = token_extent_ok [OF skip_space(2) [OF assms(1)] x]
  let ?v = "if xquoted x then quoted_copy (xkind x = EXPR_REGEX) (linput lx ! ?start) (linput lx) (xend x) (xbegin x)
            else take (xwritten x) (drop (xbegin x) (linput lx))"
  have len: "length ?v = xwritten x"
    using ok by (auto simp: extent_ok_def)
  have res: "lexer_next lx cap = \<lparr>rstatus = SALTS_OK, rlexer = lx\<lparr>loffset := xend x, lprevious := Some (xkind x)\<rparr>,
      rrequired = Some (xwritten x), routput = Some (\<lparr>tkind = xkind x, tposition = ?start, tsize = xwritten x\<rparr>, ?v)\<rparr>"
    using not_beyond cap by (simp add: lexer_next_def Let_def x)
  show thesis
  proof (rule that [of "\<lparr>tkind = xkind x, tposition = ?start, tsize = xwritten x\<rparr>" ?v], unfold len res)
  qed (use ok cap skip_space [OF assms(1)] in \<open>auto simp: extent_ok_def lexer_ok_def token_slice_def Let_def\<close>)
qed

lemma lexer_next_status: "rstatus (lexer_next lx cap) \<in> {SALTS_OK, SALTS_EINVAL, SALTS_ENOBUFS}"
  by (auto simp: lexer_next_def Let_def split: option.splits)

lemma lexer_next_nobufs:
  assumes "lexer_ok lx" and "rstatus (lexer_next lx cap) = SALTS_ENOBUFS"
  obtains n where "rlexer (lexer_next lx cap) = lx" and "routput (lexer_next lx cap) = None"
    and "rrequired (lexer_next lx cap) = Some n" and "cap \<le> n" and "loffset lx + n \<le> length (linput lx)"
    and "\<And>cap'. n < cap' \<Longrightarrow> rstatus (lexer_next lx cap') = SALTS_OK \<and> rrequired (lexer_next lx cap') = Some n"
proof -
  let ?start = "scan_while isspace (linput lx) (loffset lx)"
  have not_beyond: "\<not> length (linput lx) < loffset lx" using assms(1) by (simp add: lexer_ok_def)
  then obtain x where x: "token_extent_at lx ?start = Some x" and cap: "cap \<le> xwritten x"
    using assms(2) by (auto simp: lexer_next_def Let_def split: option.splits if_splits)
  have "loffset lx + xwritten x \<le> length (linput lx)"
    using token_extent_ok [OF skip_space(2) [OF assms(1)] x] skip_space(1) [OF assms(1)] by (auto simp: extent_ok_def)
  then show thesis
    using not_beyond cap by (intro that [of "xwritten x"]) (simp_all add: lexer_next_def Let_def x)
qed

lemma lexer_next_invalid:
  assumes "lexer_ok lx" and "rstatus (lexer_next lx cap) = SALTS_EINVAL"
  defines "start \<equiv> scan_while isspace (linput lx) (loffset lx)"
  shows "lexer_next lx cap' = \<lparr>rstatus = SALTS_EINVAL, rlexer = lx\<lparr>lerror_position := start\<rparr>, rrequired = None, routput = None\<rparr>"
    and "start < length (linput lx)"
proof -
  have not_beyond: "\<not> length (linput lx) < loffset lx" using assms(1) by (simp add: lexer_ok_def)
  then have none: "token_extent_at lx start = None"
    using assms(2) by (auto simp: lexer_next_def Let_def start_def split: option.splits if_splits)
  then show "lexer_next lx cap' = \<lparr>rstatus = SALTS_EINVAL, rlexer = lx\<lparr>lerror_position := start\<rparr>, rrequired = None, routput = None\<rparr>"
    using not_beyond by (simp add: lexer_next_def Let_def start_def)
  show "start < length (linput lx)"
    using none by (auto simp: token_extent_at_def Let_def split: if_splits)
qed

section \<open>Properties\<close>

text \<open>
  C15. One lexer call. On success the token's size is the number of bytes written, which leaves room
  for the terminator, and the token lies after the old offset; every token but the end advances the
  lexer, the end is reported exactly when only blanks remain, and a token that is not a quoted
  literal is a slice of the input.
\<close>

theorem lexer_next_token:
  assumes "lexer_ok lx" and "rstatus (lexer_next lx cap) = SALTS_OK"
  defines "r \<equiv> lexer_next lx cap"
  shows "\<exists>tok v. routput r = Some (tok, v) \<and> tsize tok = length v \<and> rrequired r = Some (length v) \<and> length v < cap
    \<and> lexer_ok (rlexer r) \<and> linput (rlexer r) = linput lx
    \<and> loffset lx \<le> tposition tok \<and> tposition tok + length v \<le> loffset (rlexer r)
    \<and> (tkind tok \<noteq> EXPR_END \<longrightarrow> loffset lx < loffset (rlexer r))
    \<and> (tkind tok = EXPR_END \<longleftrightarrow> list_all isspace (drop (loffset lx) (linput lx)))
    \<and> (tkind tok \<notin> {EXPR_STRING, EXPR_REGEX} \<longrightarrow> v = token_slice lx tok (loffset (rlexer r)))"
proof -
  obtain tok v where facts: "routput r = Some (tok, v)" "tsize tok = length v" "rrequired r = Some (length v)"
      "length v < cap" "lexer_ok (rlexer r)" "linput (rlexer r) = linput lx" "loffset lx \<le> tposition tok"
      "tposition tok + length v \<le> loffset (rlexer r)"
      "tkind tok \<noteq> EXPR_END \<longrightarrow> tposition tok < loffset (rlexer r)"
      "tkind tok = EXPR_END \<longleftrightarrow> tposition tok = length (linput lx)"
      "tkind tok \<notin> {EXPR_STRING, EXPR_REGEX} \<longrightarrow> v = token_slice lx tok (loffset (rlexer r))"
      "tposition tok = scan_while isspace (linput lx) (loffset lx)"
    unfolding r_def by (rule lexer_next_ok [OF assms(1,2)]) blast
  have "tposition tok = length (linput lx) \<longleftrightarrow> list_all isspace (drop (loffset lx) (linput lx))"
  proof
    assume "tposition tok = length (linput lx)"
    then show "list_all isspace (drop (loffset lx) (linput lx))"
      using skip_space(3) [OF assms(1)] facts(12) by simp
  next
    assume "list_all isspace (drop (loffset lx) (linput lx))"
    then have "takeWhile isspace (drop (loffset lx) (linput lx)) = drop (loffset lx) (linput lx)"
      by (simp add: list_all_iff)
    then have "length (takeWhile isspace (drop (loffset lx) (linput lx))) = length (linput lx) - loffset lx"
      by (metis length_drop)
    then show "tposition tok = length (linput lx)"
      using scan_while_takeWhile [of "loffset lx" "linput lx" isspace] assms(1) facts(12) unfolding lexer_ok_def
      by linarith
  qed
  then show ?thesis using facts by fastforce
qed

theorem lexer_next_token_witness:
  "\<exists>tok v. routput (lexer_next (lexer_init ''1.5'') 4) = Some (tok, v) \<and> length v < 4"
proof -
  have "rstatus (lexer_next (lexer_init ''1.5'') 4) = SALTS_OK" by code_simp
  then show ?thesis using lexer_next_token [of "lexer_init ''1.5''" 4] by (auto simp: lexer_ok_def lexer_init_def)
qed

text \<open>
  A refused call consumes nothing and writes nothing. A buffer that is too small leaves the
  lexer as it is and reports the exact size: every larger buffer succeeds, and one of the size of
  the remaining input, plus the terminator, is always large enough. An unexpected byte only sets the
  error position, to the first byte that is not blank, whatever the buffer.
\<close>

theorem lexer_next_refused:
  assumes "lexer_ok lx" and "rstatus (lexer_next lx cap) \<noteq> SALTS_OK"
  defines "r \<equiv> lexer_next lx cap"
    and "start \<equiv> scan_while isspace (linput lx) (loffset lx)"
  shows "routput r = None \<and>
      (rstatus r = SALTS_ENOBUFS \<and> rlexer r = lx \<and>
           (\<exists>n. rrequired r = Some n \<and> cap \<le> n \<and> loffset lx + n \<le> length (linput lx)
              \<and> (\<forall>cap'>n. rstatus (lexer_next lx cap') = SALTS_OK))
       \<or> rstatus r = SALTS_EINVAL \<and> rlexer r = lx\<lparr>lerror_position := start\<rparr>
           \<and> start < length (linput lx) \<and> \<not> isspace (linput lx ! start) \<and> (\<forall>cap'. lexer_next lx cap' = r))"
proof -
  consider (inval) "rstatus (lexer_next lx cap) = SALTS_EINVAL" | (nobufs) "rstatus (lexer_next lx cap) = SALTS_ENOBUFS"
    using assms(2) lexer_next_status [of lx cap] by auto
  then show ?thesis
  proof cases
    case inval
    then show ?thesis
      using lexer_next_invalid [OF assms(1) inval] skip_space(4) [OF assms(1)] by (simp add: r_def start_def)
  next
    case nobufs
    show ?thesis by (rule lexer_next_nobufs [OF assms(1) nobufs]) (auto simp: r_def nobufs)
  qed
qed

theorem lexer_next_refused_witness:
  "routput (lexer_next (lexer_init ''abc'') 3) = None \<and> routput (lexer_next (lexer_init '' #'') 9) = None"
proof -
  have "rstatus (lexer_next (lexer_init ''abc'') 3) = SALTS_ENOBUFS" by code_simp
  moreover have "rstatus (lexer_next (lexer_init '' #'') 9) = SALTS_EINVAL" by code_simp
  ultimately show ?thesis
    using lexer_next_refused [of "lexer_init ''abc''" 3] lexer_next_refused [of "lexer_init '' #''" 9]
    by (simp add: lexer_ok_def lexer_init_def)
qed

text \<open>A string literal: the quote and the backslash are escaped, every other byte stands for itself.\<close>

definition string_literal :: "char \<Rightarrow> string \<Rightarrow> string" where
  "string_literal q s = q # concat (map (\<lambda>c. if c = q \<or> c = CHR 0x5C then [CHR 0x5C, c] else [c]) s) @ [q]"

lemma unquote_literal:
  "q \<noteq> CHR 0x5C \<Longrightarrow>
   unquote False q (concat (map (\<lambda>c. if c = q \<or> c = CHR 0x5C then [CHR 0x5C, c] else [c]) s) @ q # r) = (s, q # r)"
proof (induction s)
  case Nil
  then show ?case by (cases r) simp_all
next
  case (Cons c s)
  let ?rest = "concat (map (\<lambda>c. if c = q \<or> c = CHR 0x5C then [CHR 0x5C, c] else [c]) s) @ q # r"
  have "?rest \<noteq> []" by simp
  then obtain d r' where "?rest = d # r'" by (meson neq_Nil_conv)
  then show ?case using Cons by (cases "c = q \<or> c = CHR 0x5C") auto
qed

text \<open>
  C16. Strings read back: a literal with the quote and the backslash escaped lexes, wherever it
  starts and whatever follows, as one string token whose value is the original string, NUL bytes
  included, and the lexer stops right after the closing quote.
\<close>

theorem lexer_string_roundtrip:
  assumes "q = CHR 0x27 \<or> q = CHR 0x22" and "length s < cap"
    and "linput lx = pre @ string_literal q s @ post" and "loffset lx = length pre"
  shows "lexer_next lx cap = \<lparr>rstatus = SALTS_OK,
     rlexer = lx\<lparr>loffset := length pre + length (string_literal q s), lprevious := Some EXPR_STRING\<rparr>,
     rrequired = Some (length s),
     routput = Some (\<lparr>tkind = EXPR_STRING, tposition = length pre, tsize = length s\<rparr>, s)\<rparr>"
proof -
  let ?i = "length pre" and ?body = "concat (map (\<lambda>c. if c = q \<or> c = CHR 0x5C then [CHR 0x5C, c] else [c]) s)"
  have input: "linput lx = pre @ q # ?body @ q # post" using assms(3) by (simp add: string_literal_def)
  then have at: "linput lx ! ?i = q" and less: "?i < length (linput lx)"
    and tail: "drop (Suc ?i) (linput lx) = ?body @ q # post"
    by simp_all
  have q: "\<not> isspace q" "q \<noteq> CHR 0x5C" "q \<noteq> CHR ''$''" "q \<noteq> CHR ''/''"
    using assms(1) by (auto simp: isspace_def)
  have start: "scan_while isspace (linput lx) ?i = ?i"
    using q(1) at by (simp add: scan_while.simps)
  have u: "unquote False q (drop (Suc ?i) (linput lx)) = (s, q # post)"
    using unquote_literal [OF q(2)] tail by simp
  have e: "length (linput lx) - length (q # post) = Suc (?i + length ?body)" by (simp add: input)
  have "quoted_measure False q (linput lx) (Suc ?i) 0 = (Suc (?i + length ?body), length s)"
    using quoted_measure_unquote [of "Suc ?i" "linput lx" False q 0] less u e by simp
  moreover have "Suc (?i + length ?body) < length (linput lx)" by (simp add: input)
  ultimately have extent: "token_extent_at lx ?i = Some \<lparr>xkind = EXPR_STRING, xbegin = Suc ?i,
      xend = length pre + length (string_literal q s), xwritten = length s, xquoted = True\<rparr>"
    using assms(1) q less
    by (auto simp: token_extent_at_def Let_def at quoted_extent_def string_literal_def)
  have "quoted_copy False q (linput lx) (length pre + length (string_literal q s)) (Suc ?i) = s"
    using quoted_copy_unquote [of "Suc ?i" "linput lx" "Suc (?i + length ?body)" False q] less u e
      \<open>Suc (?i + length ?body) < length (linput lx)\<close> by (simp add: string_literal_def)
  then show ?thesis
    using assms(2,4) less by (simp add: lexer_next_def start extent Let_def at)
qed

theorem lexer_string_roundtrip_witness:
  "routput (lexer_next (lexer_init (string_literal CHR 0x27 ''it' s'' @ '' == 1'')) 9)
     = Some (\<lparr>tkind = EXPR_STRING, tposition = 0, tsize = 5\<rparr>, ''it' s'')"
  using lexer_string_roundtrip [of "CHR 0x27" "''it' s''" 9 "lexer_init (string_literal CHR 0x27 ''it' s'' @ '' == 1'')" "[]" "'' == 1''"]
  by (simp add: lexer_init_def)

text \<open>
  No operator token is \<open>!==\<close>: the lexer extends only \<open>==\<close> by a third character, so \<open>a !== b\<close> lexes
  as \<open>!=\<close> followed by \<open>=\<close>.
\<close>

lemma lexer_no_strict_inequality:
  assumes "lexer_ok lx" and "routput (lexer_next lx cap) = Some (tok, v)" and "tkind tok = EXPR_OPERATOR"
  shows "v \<noteq> ''!==''"
proof
  assume v: "v = ''!==''"
  let ?start = "scan_while isspace (linput lx) (loffset lx)"
  obtain x where x: "token_extent_at lx ?start = Some x" and kind: "xkind x = EXPR_OPERATOR"
    and v_eq: "v = (if xquoted x then quoted_copy (xkind x = EXPR_REGEX) (linput lx ! ?start) (linput lx) (xend x) (xbegin x)
                 else take (xwritten x) (drop (xbegin x) (linput lx)))"
    using assms(2,3) by (auto simp: lexer_next_def Let_def split: option.splits if_splits)
  note ok = token_extent_ok [OF skip_space(2) [OF assms(1)] x]
  have plain: "\<not> xquoted x" "xbegin x = ?start" "xwritten x = xend x - ?start" and less: "?start < length (linput lx)"
    using ok kind skip_space(2) [OF assms(1)] by (auto simp: extent_ok_def)
  have stop: "xend x = operator_end (linput lx) (linput lx ! ?start) (Suc ?start)"
    using x kind by (auto simp: token_extent_at_def Let_def plain_extent_def quoted_extent_def split: if_splits prod.splits)
  have slice: "take (xend x - ?start) (drop ?start (linput lx)) = ''!==''"
    using v v_eq plain by simp
  then have "length (take (xend x - ?start) (drop ?start (linput lx))) = 3" by simp
  moreover have "xend x \<le> length (linput lx)" "?start < xend x" using ok less by (simp_all add: extent_ok_def)
  ultimately have "xend x = ?start + 3" by simp
  moreover have "linput lx ! ?start = CHR ''!''"
    using slice less by (cases "drop ?start (linput lx)"; cases "xend x - ?start") (auto simp: hd_drop_conv_nth [symmetric])
  ultimately show False using stop by (auto simp: operator_end_def split: if_splits)
qed

end
