(* ===== verification/Expression_Evaluator.thy ===== *)
theory Expression_Evaluator
  imports Expression_Lexer "HOL-Library.Multiset" "HOL-Library.Monad_Syntax" "HOL-Library.Sublist"
begin

text \<open>
  The evaluator of condition expressions, \<open>praktor/src/expressions/expression_evaluator.c\<close>: a
  recursive-descent parser with one token of lookahead that evaluates while it parses. The lemmas
  show that it returns on every input, restores its nesting depth, keeps every string within the
  limit, and destroys every regex handle of the host exactly once, also when it fails.

  \<^item> The host is a parameter. Its calls may depend on everything that happened before: each takes
    the history of calls, which the parser extends by every call it makes.
  \<^item> Floating-point arithmetic (\<open>double\<close>, \<open>strtod\<close> and the six-decimal format) is the parameter
    \<open>'d fp_ops\<close>.
  \<^item> A function of the parser that may loop returns an option, \<open>None\<close> for not returning.
\<close>

section \<open>Data\<close>

datatype 'd expression_value =
    Expr_null | Expr_boolean bool | Expr_number 'd | Expr_string string

record ('d, 'r) eval_value =
  public_value :: "'d expression_value"
  regex :: "'r option"

abbreviation null_value :: "('d, 'r) eval_value" where
  "null_value \<equiv> \<lparr>public_value = Expr_null, regex = None\<rparr>"

record expression_limits =
  max_input_bytes :: nat
  max_tokens :: nat
  max_depth :: nat
  max_string_bytes :: nat

text \<open>
  The operations on \<open>double\<close> that the code uses. \<open>fp_strtod\<close> gives the value, the number of bytes
  converted and whether \<open>errno\<close> is \<open>ERANGE\<close>; \<open>fp_falsy\<close> is true of NaN and of zero; \<open>fp_close\<close> is
  \<open>fabs(a - b) < 1e-12\<close>.
\<close>

record 'd fp_ops =
  fp_strtod :: "string \<Rightarrow> 'd \<times> nat \<times> bool"
  fp_falsy :: "'d \<Rightarrow> bool"
  fp_one :: 'd
  fp_zero :: 'd
  fp_close :: "'d \<Rightarrow> 'd \<Rightarrow> bool"
  fp_less :: "'d \<Rightarrow> 'd \<Rightarrow> bool"
  fp_less_eq :: "'d \<Rightarrow> 'd \<Rightarrow> bool"
  fp_format :: "'d \<Rightarrow> string"

text \<open>The calls to the host, with the handle that a compilation returned.\<close>

datatype 'r host_call =
    Call_resolve string
  | Call_compile string "'r option"
  | Call_search 'r string
  | Call_destroy 'r

type_synonym 'r history = "'r host_call list"

text \<open>
  What a variable resolves to: a value, or \<open>None\<close> for a value of no known kind or a string without
  storage. Every callback also returns the text it leaves in the error buffer.
\<close>

record 'r regex_host =
  regex_compile :: "'r history \<Rightarrow> string \<Rightarrow> string \<Rightarrow> salts_status \<times> 'r option \<times> string"
  regex_search :: "'r history \<Rightarrow> 'r \<Rightarrow> string \<Rightarrow> string \<Rightarrow> salts_status \<times> bool \<times> string"

text \<open>
  \<open>regexes\<close> holds the three regex callbacks when all are given, and \<open>regexes_partial\<close> says that only
  some of them are.
\<close>

record ('d, 'r) expression_host =
  resolve :: "('r history \<Rightarrow> string \<Rightarrow> nat \<Rightarrow> string \<Rightarrow> salts_status \<times> 'd expression_value option \<times> string) option"
  regexes :: "'r regex_host option"
  regexes_partial :: bool

datatype expr_site = Site_scratch | Site_string nat | Site_method nat | Site_format nat bool

text \<open>What does not change during an evaluation: the external text library, the arithmetic, the host and the limits.\<close>

record ('d, 'r) eval_env =
  vstr_contains :: "string \<Rightarrow> string \<Rightarrow> bool"
  vstr_starts_with :: "string \<Rightarrow> string \<Rightarrow> bool"
  vstr_ends_with :: "string \<Rightarrow> string \<Rightarrow> bool"
  fp :: "'d fp_ops"
  host :: "('d, 'r) expression_host option"
  limits :: expression_limits
  alloc :: "expr_site allocator"
  error_capacity :: nat

text \<open>The scratch buffer has the size of the input plus the terminator; \<open>scratch\<close> is the token's text.\<close>

record 'r parser =
  lexer :: expression_lexer
  token :: expression_token
  scratch :: string
  depth :: nat
  status :: salts_status
  error :: string
  calls :: "'r history"

section \<open>Diagnostics\<close>

definition put_error :: "('d, 'r) eval_env \<Rightarrow> string \<Rightarrow> 'r parser \<Rightarrow> 'r parser" where
  "put_error E message p = (if error_capacity E = 0 then p else p\<lparr>error := take (error_capacity E - 1) message\<rparr>)"

definition fail_with :: "('d, 'r) eval_env \<Rightarrow> salts_status \<Rightarrow> string \<Rightarrow> 'r parser \<Rightarrow> 'r parser" where
  "fail_with E st message p = (if status p = SALTS_OK then put_error E message (p\<lparr>status := st\<rparr>) else p)"

definition host_result :: "('d, 'r) eval_env \<Rightarrow> salts_status \<Rightarrow> 'r parser \<Rightarrow> 'r parser" where
  "host_result E st p =
     (if st = SALTS_OK then p
      else let q = p\<lparr>status := st\<rparr> in
        if error_capacity E \<noteq> 0
        then let r = q\<lparr>error := take (error_capacity E - 1) (error q)\<rparr> in
             if c_text (error r) = [] then put_error E ''Expression Host failed'' r else r
        else q)"

definition clear_value :: "('d, 'r) eval_value \<Rightarrow> 'r parser \<Rightarrow> 'r parser" where
  "clear_value v p = (case regex v of None \<Rightarrow> p | Some r \<Rightarrow> p\<lparr>calls := calls p @ [Call_destroy r]\<rparr>)"

section \<open>Tokens\<close>

definition boolean_value :: "bool \<Rightarrow> ('d, 'r) eval_value" where
  "boolean_value b = \<lparr>public_value = Expr_boolean b, regex = None\<rparr>"

definition token_is :: "'r parser \<Rightarrow> token_kind \<Rightarrow> string option \<Rightarrow> bool" where
  "token_is p kind txt \<longleftrightarrow> status p = SALTS_OK \<and> tkind (token p) = kind \<and> (case txt of None \<Rightarrow> True | Some t \<Rightarrow> scratch p = t)"

definition next_token :: "('d, 'r) eval_env \<Rightarrow> 'r parser \<Rightarrow> 'r parser" where
  "next_token E p =
     (if status p \<noteq> SALTS_OK then p
      else let r = lexer_next (lexer p) (length (linput (lexer p)) + 1) in
        case routput r of
          Some (tok, v) \<Rightarrow> p\<lparr>lexer := rlexer r, token := tok, scratch := v\<rparr>
        | None \<Rightarrow>
            let q = fail_with E (rstatus r) ''Invalid expression token'' (p\<lparr>lexer := rlexer r\<rparr>);
                pos = lerror_position (rlexer r) in
            if rstatus r = SALTS_EINVAL \<and> pos < length (linput (rlexer r))
            then put_error E (''unexpected character in expression: '' @ [linput (rlexer r) ! pos]) q
            else q)"

definition take_token :: "('d, 'r) eval_env \<Rightarrow> token_kind \<Rightarrow> string option \<Rightarrow> 'r parser \<Rightarrow> bool \<times> 'r parser" where
  "take_token E kind txt p =
     (if \<not> token_is p kind txt then (False, p)
      else (True, if kind \<noteq> EXPR_END then next_token E p else p))"

definition require :: "('d, 'r) eval_env \<Rightarrow> token_kind \<Rightarrow> string \<Rightarrow> 'r parser \<Rightarrow> 'r parser" where
  "require E kind message p =
     (if status p = SALTS_OK
      then case take_token E kind None p of (taken, q) \<Rightarrow> if taken then q else fail_with E SALTS_EINVAL message q
      else p)"

section \<open>Values\<close>

fun truth_public :: "'d fp_ops \<Rightarrow> 'd expression_value \<Rightarrow> bool" where
  "truth_public F Expr_null = False"
| "truth_public F (Expr_boolean b) = b"
| "truth_public F (Expr_number d) = (\<not> fp_falsy F d)"
| "truth_public F (Expr_string s) = (s \<noteq> [])"

definition truth :: "('d, 'r) eval_env \<Rightarrow> ('d, 'r) eval_value \<Rightarrow> bool" where
  "truth E v = (regex v \<noteq> None \<or> truth_public (fp E) (public_value v))"

text \<open>A string is a number when it converts up to trailing blanks; its bytes end at the first NUL.\<close>

definition as_number :: "('d, 'r) eval_env \<Rightarrow> ('d, 'r) eval_value \<Rightarrow> 'd option" where
  "as_number E v =
     (if regex v \<noteq> None then None
      else case public_value v of
        Expr_number d \<Rightarrow> Some d
      | Expr_boolean b \<Rightarrow> Some (if b then fp_one (fp E) else fp_zero (fp E))
      | Expr_string s \<Rightarrow>
          (case fp_strtod (fp E) (c_text s) of (d, n, erange) \<Rightarrow>
             if n = 0 then None else if list_all isspace (drop n (c_text s)) then Some d else None)
      | Expr_null \<Rightarrow> None)"

definition as_text :: "('d, 'r) eval_env \<Rightarrow> bool \<Rightarrow> ('d, 'r) eval_value \<Rightarrow> 'r parser \<Rightarrow> string option \<times> 'r parser" where
  "as_text E side v p =
     (let limit = (\<lambda>s. if length s > max_string_bytes (limits E)
                       then (None, fail_with E SALTS_ENOBUFS ''Expression string limit exceeded'' p)
                       else (Some s, p)) in
      if regex v \<noteq> None then (Some [], p)
      else case public_value v of
        Expr_null \<Rightarrow> (Some [], p)
      | Expr_boolean b \<Rightarrow> limit (if b then ''true'' else ''false'')
      | Expr_string s \<Rightarrow> limit s
      | Expr_number d \<Rightarrow>
          if \<not> alloc E (Site_format (loffset (lexer p)) side)
          then (None, fail_with E SALTS_ENOMEM ''Failed to format expression number'' p)
          else limit (fp_format (fp E) d))"

definition is_null :: "('d, 'r) eval_value \<Rightarrow> bool" where
  "is_null v \<longleftrightarrow> regex v = None \<and> public_value v = Expr_null"

definition equal_values ::
  "('d, 'r) eval_env \<Rightarrow> ('d, 'r) eval_value \<Rightarrow> ('d, 'r) eval_value \<Rightarrow> 'r parser \<Rightarrow> bool \<times> 'r parser" where
  "equal_values E left right p =
     (case (as_number E left, as_number E right) of
        (Some a, Some b) \<Rightarrow> (fp_close (fp E) a b, p)
      | _ \<Rightarrow>
          if is_null left \<or> is_null right then (is_null left \<and> is_null right, p)
          else case as_text E False left p of
            (None, q) \<Rightarrow> (False, q)
          | (Some s, q) \<Rightarrow>
              (case as_text E True right q of (None, r) \<Rightarrow> (False, r) | (Some t, r) \<Rightarrow> (s = t, r)))"

text \<open>The status, the handle left in the out-parameter, and the parser.\<close>

definition compile_regex ::
  "('d, 'r) eval_env \<Rightarrow> string \<Rightarrow> 'r parser \<Rightarrow> bool \<times> 'r option \<times> 'r parser" where
  "compile_regex E pattern p =
     (case Option.bind (host E) regexes of
        None \<Rightarrow> (False, None, fail_with E SALTS_ENOTSUP ''Expression regex Host is required'' p)
      | Some rx \<Rightarrow>
          (case regex_compile rx (calls p) pattern (error p) of (st, h, e) \<Rightarrow>
            let q = host_result E st (p\<lparr>calls := calls p @ [Call_compile pattern h], error := e\<rparr>) in
            if st = SALTS_OK \<and> h = None
            then (False, h, fail_with E SALTS_EIO ''Expression regex Host returned no handle'' q)
            else (st = SALTS_OK, h, q)))"

section \<open>Methods\<close>

text \<open>
  The branch of \<open>method\<close> for \<open>test\<close>: the receiver's handle, or one compiled for this call only from
  the receiver's text. A compiled handle implies a regex host.
\<close>

definition method_test ::
  "('d, 'r) eval_env \<Rightarrow> ('d, 'r) eval_value \<Rightarrow> string \<Rightarrow> string \<Rightarrow> 'r parser \<Rightarrow> ('d, 'r) eval_value \<times> 'r parser" where
  "method_test E receiver txt other p =
     (let (ok, own, q) = (case regex receiver of Some r \<Rightarrow> (True, None, p) | None \<Rightarrow> compile_regex E txt p);
          used = (case regex receiver of Some r \<Rightarrow> Some r | None \<Rightarrow> own);
          cleanup = clear_value (\<lparr>public_value = Expr_null, regex = own\<rparr> :: ('d, 'r) eval_value)
      in if \<not> ok then (null_value, cleanup q)
         else case (used, Option.bind (host E) regexes) of
           (Some r, Some rx) \<Rightarrow>
             (case regex_search rx (calls q) r other (error q) of (st, matches, e) \<Rightarrow>
               (boolean_value matches,
                cleanup (host_result E st (q\<lparr>calls := calls q @ [Call_search r other], error := e\<rparr>))))
         | _ \<Rightarrow> (null_value, cleanup q))"

definition call_method ::
  "('d, 'r) eval_env \<Rightarrow> ('d, 'r) eval_value \<Rightarrow> string \<Rightarrow> ('d, 'r) eval_value \<Rightarrow> bool \<Rightarrow> 'r parser \<Rightarrow>
     ('d, 'r) eval_value \<times> 'r parser" where
  "call_method E receiver name arg has_arg p =
     (if name \<notin> {''includes'', ''startsWith'', ''endsWith'', ''test''}
      then (null_value, put_error E (''unsupported method: '' @ name) (fail_with E SALTS_EINVAL ''unsupported method'' p))
      else if \<not> has_arg
      then (null_value, put_error E (name @ ''() expects 1 argument'') (fail_with E SALTS_EINVAL ''method expects 1 argument'' p))
      else case as_text E False receiver p of
        (None, q) \<Rightarrow> (null_value, q)
      | (Some txt, q) \<Rightarrow>
          (case as_text E True arg q of
             (None, q) \<Rightarrow> (null_value, q)
           | (Some other, q) \<Rightarrow>
               if name = ''includes'' then (boolean_value (vstr_contains E txt other), q)
               else if name = ''startsWith'' then (boolean_value (vstr_starts_with E txt other), q)
               else if name = ''endsWith'' then (boolean_value (vstr_ends_with E txt other), q)
               else method_test E receiver txt other q))"

section \<open>The parser\<close>

definition enter :: "('d, 'r) eval_env \<Rightarrow> 'r parser \<Rightarrow> bool \<times> 'r parser" where
  "enter E p =
     (if status p \<noteq> SALTS_OK then (False, p)
      else if depth p \<ge> max_depth (limits E)
      then (False, fail_with E SALTS_ENOBUFS ''Expression nesting limit exceeded'' p)
      else (True, p\<lparr>depth := depth p + 1\<rparr>))"

definition leave :: "'r parser \<Rightarrow> 'r parser" where
  "leave p = p\<lparr>depth := size_dec (depth p)\<rparr>"

text \<open>
  A parsing function. The functions of the grammar take the functions they call, so that each
  stands alone; the recursion through parentheses and negations is closed below.
\<close>

type_synonym ('d, 'r) parse = "'r parser \<Rightarrow> (('d, 'r) eval_value \<times> 'r parser) option"
type_synonym ('d, 'r) round =
  "('d, 'r) eval_value \<times> 'r parser \<Rightarrow> ((('d, 'r) eval_value \<times> 'r parser) + (('d, 'r) eval_value \<times> 'r parser)) option"

definition resolve_variable :: "('d, 'r) eval_env \<Rightarrow> 'r parser \<Rightarrow> ('d, 'r) eval_value \<times> 'r parser" where
  "resolve_variable E p =
     (case Option.bind (host E) resolve of
        None \<Rightarrow> (null_value, fail_with E SALTS_ENOTSUP ''Expression variable Host is required'' p)
      | Some res \<Rightarrow>
          (case res (calls p) (scratch p) (max_string_bytes (limits E)) (error p) of (st, out, e) \<Rightarrow>
            let q = host_result E st (p\<lparr>calls := calls p @ [Call_resolve (scratch p)], error := e\<rparr>);
                v = (case out of None \<Rightarrow> Expr_null | Some v \<Rightarrow> v);
                q = (if status q = SALTS_OK \<and> out = None
                     then fail_with E SALTS_EIO ''Expression variable Host returned an invalid value'' q else q);
                q = (case v of
                       Expr_string s \<Rightarrow>
                         if status q = SALTS_OK \<and> length s > max_string_bytes (limits E)
                         then fail_with E SALTS_ENOBUFS ''Expression string limit exceeded'' q else q
                     | _ \<Rightarrow> q)
            in (\<lparr>public_value = v, regex = None\<rparr>, q)))"

definition copy_string :: "('d, 'r) eval_env \<Rightarrow> expr_site \<Rightarrow> string \<Rightarrow> salts_status \<times> string option" where
  "copy_string E site txt =
     (if length txt > max_string_bytes (limits E) \<or> length txt = size_max then (SALTS_ENOBUFS, None)
      else if \<not> alloc E site then (SALTS_ENOMEM, None)
      else (SALTS_OK, Some txt))"

text \<open>The branches of \<open>primary\<close> that do not recurse.\<close>

definition literal :: "('d, 'r) eval_env \<Rightarrow> 'r parser \<Rightarrow> ('d, 'r) eval_value \<times> 'r parser" where
  "literal E p =
     (if token_is p EXPR_VARIABLE None
      then (case resolve_variable E p of (v, q) \<Rightarrow> (v, next_token E q))
      else if token_is p EXPR_STRING None
      then (case copy_string E (Site_string (loffset (lexer p))) (scratch p) of
              (_, Some s) \<Rightarrow> (\<lparr>public_value = Expr_string s, regex = None\<rparr>, next_token E p)
            | (st, None) \<Rightarrow>
                (null_value, next_token E (fail_with E st ''Cannot copy expression string within its limit'' p)))
      else if token_is p EXPR_NUMBER None
      then (case fp_strtod (fp E) (c_text (scratch p)) of (d, n, erange) \<Rightarrow>
              (\<lparr>public_value = Expr_number d, regex = None\<rparr>,
               next_token E (if n = 0 \<or> erange then fail_with E SALTS_EINVAL ''stod'' p else p)))
      else if token_is p EXPR_REGEX None
      then (case compile_regex E (scratch p) p of (_, h, q) \<Rightarrow>
              (\<lparr>public_value = Expr_null, regex = h\<rparr>, next_token E q))
      else if token_is p EXPR_IDENTIFIER (Some ''true'') \<or> token_is p EXPR_IDENTIFIER (Some ''false'')
      then (boolean_value (token_is p EXPR_IDENTIFIER (Some ''true'')), next_token E p)
      else if token_is p EXPR_IDENTIFIER None
      then (null_value, put_error E (''unknown identifier: '' @ scratch p)
                               (fail_with E SALTS_EINVAL ''unknown identifier'' p))
      else (null_value, fail_with E SALTS_EINVAL ''expected expression'' p))"

definition primary :: "('d, 'r) eval_env \<Rightarrow> ('d, 'r) parse \<Rightarrow> ('d, 'r) parse" where
  "primary E parse_expression p =
     (if status p \<noteq> SALTS_OK then Some (null_value, p)
      else case take_token E EXPR_LPAREN None p of
        (True, q) \<Rightarrow> do {
          (v, q) \<leftarrow> parse_expression q;
          Some (v, require E EXPR_RPAREN ''expected ')' after expression'' q) }
      | (False, q) \<Rightarrow> Some (literal E q))"

text \<open>The call of one method: its parenthesised argument, then the method itself.\<close>

definition method_call ::
  "('d, 'r) eval_env \<Rightarrow> ('d, 'r) parse \<Rightarrow> ('d, 'r) eval_value \<Rightarrow> ('d, 'r) parse" where
  "method_call E parse_expression value p =
     (let name = scratch p;
          p = require E EXPR_LPAREN ''expected '(' after method name'' (next_token E p);
          has_arg = (status p = SALTS_OK \<and> \<not> token_is p EXPR_RPAREN None)
      in do {
        (arg, p) \<leftarrow> (if has_arg then parse_expression p else Some (null_value, p));
        let p = require E EXPR_RPAREN ''expected ')' after arguments'' p;
        let (result, p) = (if status p = SALTS_OK then call_method E value name arg has_arg p else (null_value, p));
        Some (result, clear_value value (clear_value arg p)) })"

text \<open>One round of the loop of \<open>postfix\<close>.\<close>

definition postfix_round :: "('d, 'r) eval_env \<Rightarrow> ('d, 'r) parse \<Rightarrow> ('d, 'r) round" where
  "postfix_round E parse_expression = (\<lambda>(value, p).
     (case take_token E EXPR_DOT None p of
        (False, p) \<Rightarrow> Some (Inr (value, p))
      | (True, p) \<Rightarrow>
          if \<not> token_is p EXPR_IDENTIFIER None
          then Some (Inr (value, fail_with E SALTS_EINVAL (''expected method name after '.'' @ [CHR 0x27]) p))
          else if \<not> alloc E (Site_method (loffset (lexer p)))
          then Some (Inr (value, fail_with E SALTS_ENOMEM ''Cannot copy expression method'' p))
          else map_option Inl (method_call E parse_expression value p)))"

definition postfix :: "('d, 'r) eval_env \<Rightarrow> ('d, 'r) parse \<Rightarrow> ('d, 'r) parse" where
  "postfix E parse_expression p = do {
     vp \<leftarrow> primary E parse_expression p;
     c_loop (postfix_round E parse_expression) vp }"

definition comparison_holds :: "'d fp_ops \<Rightarrow> string \<Rightarrow> 'd \<Rightarrow> 'd \<Rightarrow> bool" where
  "comparison_holds F op a b =
     (if op = ''<'' then fp_less F a b else if op = ''>'' then fp_less F b a
      else if op = ''<='' then fp_less_eq F a b else fp_less_eq F b a)"

text \<open>The result of a comparison whose operands have been evaluated.\<close>

definition compare_values ::
  "('d, 'r) eval_env \<Rightarrow> string \<Rightarrow> ('d, 'r) eval_value \<Rightarrow> ('d, 'r) eval_value \<Rightarrow> 'r parser \<Rightarrow> bool \<times> 'r parser" where
  "compare_values E op left right p =
     (case (as_number E left, as_number E right) of
        (Some a, Some b) \<Rightarrow> (comparison_holds (fp E) op a b, p)
      | _ \<Rightarrow> (False, fail_with E SALTS_EINVAL ''comparison operands must be numeric'' p))"

definition comparison_round :: "('d, 'r) eval_env \<Rightarrow> ('d, 'r) parse \<Rightarrow> ('d, 'r) round" where
  "comparison_round E parse_unary = (\<lambda>(value, p).
     (if token_is p EXPR_OPERATOR None \<and> scratch p \<in> {''<'', ''>'', ''<='', ''>=''}
      then let op = scratch p in do {
        (right, p) \<leftarrow> parse_unary (next_token E p);
        let (result, p) = (if status p = SALTS_OK then compare_values E op value right p else (False, p));
        Some (Inl (boolean_value result, clear_value value (clear_value right p))) }
      else Some (Inr (value, p))))"

definition comparison :: "('d, 'r) eval_env \<Rightarrow> ('d, 'r) parse \<Rightarrow> ('d, 'r) parse" where
  "comparison E parse_unary p = do {
     vp \<leftarrow> parse_unary p;
     c_loop (comparison_round E parse_unary) vp }"

definition equality_round :: "('d, 'r) eval_env \<Rightarrow> ('d, 'r) parse \<Rightarrow> ('d, 'r) round" where
  "equality_round E parse_unary = (\<lambda>(value, p).
     (if \<not> token_is p EXPR_OPERATOR None then Some (Inr (value, p))
      else if scratch p \<in> {''=='', ''!=''}
      then let op = scratch p in do {
        (right, p) \<leftarrow> comparison E parse_unary (next_token E p);
        let (equal, p) = (if status p = SALTS_OK then equal_values E value right p else (False, p));
        Some (Inl (boolean_value (if op = ''=='' then equal else \<not> equal), clear_value value (clear_value right p))) }
      else if scratch p \<in> {''==='', ''!==''}
      then Some (Inr (value, fail_with E SALTS_EINVAL ''strict equality is not supported'' p))
      else Some (Inr (value, p))))"

definition equality :: "('d, 'r) eval_env \<Rightarrow> ('d, 'r) parse \<Rightarrow> ('d, 'r) parse" where
  "equality E parse_unary p = do {
     vp \<leftarrow> comparison E parse_unary p;
     c_loop (equality_round E parse_unary) vp }"

text \<open>\<open>logical(p, is_or)\<close>: the operands of \<open>||\<close> are the \<open>&&\<close> chains, and those of \<open>&&\<close> the equalities.\<close>

definition logical_round :: "('d, 'r) eval_env \<Rightarrow> bool \<Rightarrow> ('d, 'r) parse \<Rightarrow> ('d, 'r) round" where
  "logical_round E is_or operand = (\<lambda>(value, p).
     (case take_token E EXPR_OPERATOR (Some (if is_or then ''||'' else ''&&'')) p of
        (False, p) \<Rightarrow> Some (Inr (value, p))
      | (True, p) \<Rightarrow> do {
          (right, p) \<leftarrow> operand p;
          let result = (if is_or then truth E value \<or> truth E right else truth E value \<and> truth E right);
          Some (Inl (boolean_value result, clear_value value (clear_value right p))) }))"

definition logical :: "('d, 'r) eval_env \<Rightarrow> bool \<Rightarrow> ('d, 'r) parse \<Rightarrow> ('d, 'r) parse" where
  "logical E is_or operand p = do {
     vp \<leftarrow> operand p;
     c_loop (logical_round E is_or operand) vp }"

definition expression_body :: "('d, 'r) eval_env \<Rightarrow> ('d, 'r) parse \<Rightarrow> ('d, 'r) parse" where
  "expression_body E parse_unary p =
     (case enter E p of
        (False, p) \<Rightarrow> Some (null_value, p)
      | (True, p) \<Rightarrow> do {
          (v, p) \<leftarrow> logical E True (logical E False (equality E parse_unary)) p;
          Some (v, leave p) })"

text \<open>
  The grammar functions are monotone in the functions they call, which makes the recursion through
  parentheses, arguments and negations a definition.
\<close>

lemma primary_mono:
  assumes le: "\<And>p r. f p = Some r \<Longrightarrow> g p = Some r" and "primary E f p = Some r"
  shows "primary E g p = Some r"
  using assms(2) bind_Some_mono [OF le] unfolding primary_def by (auto split: if_splits prod.splits bool.splits)

lemma method_call_mono:
  "(\<And>p r. f p = Some r \<Longrightarrow> g p = Some r) \<Longrightarrow> method_call E f v p = Some r \<Longrightarrow> method_call E g v p = Some r"
  unfolding method_call_def Let_def by (erule bind_Some_mono [rotated]) (auto split: if_splits)

lemma postfix_mono:
  assumes le: "\<And>p r. f p = Some r \<Longrightarrow> g p = Some r" and "postfix E f p = Some r"
  shows "postfix E g p = Some r"
  using assms(2) unfolding postfix_def
proof (rule bind_loop_mono)
  show "primary E f p = Some y \<Longrightarrow> primary E g p = Some y" for y
    by (rule primary_mono [OF le])
  show "postfix_round E f s = Some t \<Longrightarrow> postfix_round E g s = Some t" for s t
    using method_call_mono [OF le]
    by (cases s) (auto simp: postfix_round_def split: if_splits prod.splits bool.splits)
qed

lemma comparison_mono:
  assumes le: "\<And>p r. f p = Some r \<Longrightarrow> g p = Some r" and "comparison E f p = Some r"
  shows "comparison E g p = Some r"
  using assms(2) unfolding comparison_def
proof (rule bind_loop_mono [OF _ le])
  show "comparison_round E f s = Some t \<Longrightarrow> comparison_round E g s = Some t" for s t
    using bind_Some_mono [OF le]
    by (cases s) (auto simp: comparison_round_def Let_def split: if_splits)
qed

lemma equality_mono:
  assumes le: "\<And>p r. f p = Some r \<Longrightarrow> g p = Some r" and "equality E f p = Some r"
  shows "equality E g p = Some r"
  using assms(2) unfolding equality_def
proof (rule bind_loop_mono [OF _ comparison_mono [OF le]])
  show "equality_round E f s = Some t \<Longrightarrow> equality_round E g s = Some t" for s t
    using bind_Some_mono [OF comparison_mono [OF le]]
    by (cases s) (auto simp: equality_round_def Let_def split: if_splits)
qed

lemma logical_mono:
  assumes le: "\<And>p r. f p = Some r \<Longrightarrow> g p = Some r" and "logical E is_or f p = Some r"
  shows "logical E is_or g p = Some r"
  using assms(2) unfolding logical_def
proof (rule bind_loop_mono [OF _ le])
  show "logical_round E is_or f s = Some t \<Longrightarrow> logical_round E is_or g s = Some t" for s t
    by (cases s) (auto simp: logical_round_def Let_def split: prod.splits bool.splits intro: bind_Some_mono [OF le])
qed

lemma expression_body_mono:
  assumes le: "\<And>p r. f p = Some r \<Longrightarrow> g p = Some r" and "expression_body E f p = Some r"
  shows "expression_body E g p = Some r"
  using assms(2) logical_mono [OF logical_mono [OF equality_mono [OF le]]]
  by (auto simp: expression_body_def bind_eq_Some_conv split: prod.splits bool.splits)

lemma operand_mono [partial_function_mono]:
  fixes F :: "('x \<Rightarrow> 'y option) \<Rightarrow> ('d, 'r) parse"
  assumes "\<And>p. mono_option (\<lambda>f. F f p)"
  shows "mono_option (\<lambda>f. postfix E (expression_body E (F f)) p)"
proof (rule mono_optionI)
  fix f g :: "'x \<Rightarrow> 'y option" and r
  assume le: "\<And>x y. f x = Some y \<Longrightarrow> g x = Some y"
  then have "fun_ord option_ord f g"
    by (auto simp: fun_ord_def flat_ord_def) (metis option.exhaust)
  then have "option_ord (F f p) (F g p)" for p
    by (rule monotoneD [OF assms])
  then have "F f p = Some r \<Longrightarrow> F g p = Some r" for p r
    unfolding flat_ord_def by (metis option.distinct(1))
  then show "postfix E (expression_body E (F f)) p = Some r \<Longrightarrow> postfix E (expression_body E (F g)) p = Some r"
    by (rule postfix_mono [OF expression_body_mono])
qed

partial_function (option) parse_unary :: "('d, 'r) eval_env \<Rightarrow> ('d, 'r) parse" where
  "parse_unary E p =
     (case take_token E EXPR_OPERATOR (Some ''!'') p of (taken, p) \<Rightarrow>
        if taken
        then (case enter E p of (entered, p) \<Rightarrow>
                if entered
                then do {
                  (operand, p) \<leftarrow> parse_unary E p;
                  Some (boolean_value (\<not> truth E operand), leave (clear_value operand p)) }
                else Some (null_value, p))
        else postfix E (expression_body E (parse_unary E)) p)"

declare parse_unary.simps [code]

definition parse_expression :: "('d, 'r) eval_env \<Rightarrow> ('d, 'r) parse" where
  "parse_expression E = expression_body E (parse_unary E)"

section \<open>Evaluation\<close>

definition EXPRESSION_MAX_DEPTH :: nat where "EXPRESSION_MAX_DEPTH = 128"

definition default_limits :: expression_limits where
  "default_limits = \<lparr>max_input_bytes = 65536, max_tokens = 16384, max_depth = EXPRESSION_MAX_DEPTH,
     max_string_bytes = 1048576\<rparr>"

text \<open>The validation loop: lex the whole input, counting tokens.\<close>

definition validate_round :: "('d, 'r) eval_env \<Rightarrow> nat \<times> 'r parser \<Rightarrow> ((nat \<times> 'r parser) + (nat \<times> 'r parser)) option" where
  "validate_round E = (\<lambda>(tokens, p).
     if tokens = max_tokens (limits E)
     then Some (Inr (tokens, fail_with E SALTS_ENOBUFS ''Expression token limit exceeded'' p))
     else let q = next_token E p in
       if status q = SALTS_OK \<and> tkind (token q) \<noteq> EXPR_END then Some (Inl (Suc tokens, q))
       else Some (Inr (Suc tokens, q)))"

definition init_parser :: "string \<Rightarrow> 'r parser" where
  "init_parser txt = \<lparr>lexer = lexer_init txt, token = \<lparr>tkind = EXPR_VARIABLE, tposition = 0, tsize = 0\<rparr>,
     scratch = [], depth = 0, status = SALTS_OK, error = [], calls = []\<rparr>"

text \<open>The result: the parser at the return, and on success the value and its truth.\<close>

definition evaluate ::
  "('d, 'r) eval_env \<Rightarrow> string \<Rightarrow> ('r parser \<times> ('d expression_value \<times> bool) option) option" where
  "evaluate E txt =
     (let p = init_parser txt; L = limits E in
      if max_tokens L = 0 \<or> max_depth L = 0 \<or> max_depth L > EXPRESSION_MAX_DEPTH \<or>
         (case host E of None \<Rightarrow> False | Some H \<Rightarrow> regexes_partial H)
      then Some (fail_with E SALTS_EINVAL ''Invalid expression evaluation arguments'' p, None)
      else if length txt > max_input_bytes L \<or> length txt = size_max
      then Some (fail_with E SALTS_ENOBUFS ''Expression input limit exceeded'' p, None)
      else if \<not> alloc E Site_scratch
      then Some (fail_with E SALTS_ENOMEM ''Cannot allocate expression scratch'' p, None)
      else do {
        (tokens, p) \<leftarrow> c_loop (validate_round E) (0, p);
        (v, p) \<leftarrow> (if status p = SALTS_OK
           then do {
             (v, p) \<leftarrow> parse_expression E (next_token E (p\<lparr>lexer := lexer_init txt\<rparr>));
             Some (v, require E EXPR_END ''unexpected trailing tokens'' p) }
           else Some (null_value, p));
        let out = (if status p = SALTS_OK then Some (public_value v, truth E v) else None);
        Some (clear_value v p, out) })"

section \<open>Ownership of regex handles\<close>

text \<open>
  The handles that the evaluator owns after a history of calls: compiled and not yet destroyed.
  Destroying or searching a handle that is not owned gives \<open>None\<close>.
\<close>

fun own_step :: "'r multiset option \<Rightarrow> 'r host_call \<Rightarrow> 'r multiset option" where
  "own_step None c = None"
| "own_step (Some M) (Call_resolve path) = Some M"
| "own_step (Some M) (Call_compile pattern h) = Some (case h of None \<Rightarrow> M | Some r \<Rightarrow> add_mset r M)"
| "own_step (Some M) (Call_search r txt) = (if r \<in># M then Some M else None)"
| "own_step (Some M) (Call_destroy r) = (if r \<in># M then Some (M - {#r#}) else None)"

definition owned :: "'r history \<Rightarrow> 'r multiset option" where
  "owned h = foldl own_step (Some {#}) h"

lemma owned_snoc [simp]: "owned (h @ [c]) = own_step (owned h) c"
  by (simp add: owned_def)

lemma owned_Nil [simp]: "owned [] = Some {#}"
  by (simp add: owned_def)

definition handles :: "'r option \<Rightarrow> 'r multiset" where
  "handles h = (case h of None \<Rightarrow> {#} | Some r \<Rightarrow> {#r#})"

lemma handles_simps [simp]: "handles None = {#}" "handles (Some r) = {#r#}"
  by (simp_all add: handles_def)

section \<open>What every step keeps\<close>

text \<open>The state of a parser over an input, at a depth, owning the handles \<open>M\<close>.\<close>

definition parsing :: "string \<Rightarrow> nat \<Rightarrow> 'r multiset \<Rightarrow> 'r parser \<Rightarrow> bool" where
  "parsing input d M p \<longleftrightarrow>
     lexer_ok (lexer p) \<and> linput (lexer p) = input \<and> depth p = d \<and> owned (calls p) = Some M"

text \<open>What is left to do: nothing after a failure, one step at the end, the rest of the input otherwise.\<close>

definition remaining :: "'r parser \<Rightarrow> nat" where
  "remaining p =
     (if status p \<noteq> SALTS_OK then 0 else if tkind (token p) = EXPR_END then 1
      else 2 + (length (linput (lexer p)) - loffset (lexer p)))"

definition value_bounded :: "('d, 'r) eval_env \<Rightarrow> ('d, 'r) eval_value \<Rightarrow> bool" where
  "value_bounded E v = (case public_value v of Expr_string s \<Rightarrow> length s \<le> max_string_bytes (limits E) | _ \<Rightarrow> True)"

lemma value_bounded_simps [simp]:
  "value_bounded E \<lparr>public_value = Expr_null, regex = h\<rparr>"
  "value_bounded E \<lparr>public_value = Expr_number d, regex = h\<rparr>"
  "value_bounded E (boolean_value b)"
  by (simp_all add: value_bounded_def boolean_value_def)

lemma regex_simps [simp]: "regex (boolean_value b) = None"
  by (simp add: boolean_value_def)

text \<open>The steps that touch only the status, the error text and the history.\<close>

lemma put_error_fields [simp]:
  "lexer (put_error E m p) = lexer p" "token (put_error E m p) = token p" "depth (put_error E m p) = depth p"
  "status (put_error E m p) = status p" "calls (put_error E m p) = calls p" "scratch (put_error E m p) = scratch p"
  by (simp_all add: put_error_def)

lemma fail_with_fields [simp]:
  "lexer (fail_with E st m p) = lexer p" "token (fail_with E st m p) = token p" "depth (fail_with E st m p) = depth p"
  "calls (fail_with E st m p) = calls p" "scratch (fail_with E st m p) = scratch p"
  "status (fail_with E st m p) = (if status p = SALTS_OK then st else status p)"
  by (simp_all add: fail_with_def)

lemma host_result_fields [simp]:
  "lexer (host_result E st p) = lexer p" "token (host_result E st p) = token p" "depth (host_result E st p) = depth p"
  "calls (host_result E st p) = calls p" "scratch (host_result E st p) = scratch p"
  "status (host_result E st p) = (if st = SALTS_OK then status p else st)"
  by (simp_all add: host_result_def Let_def)

lemma clear_value_fields [simp]:
  "lexer (clear_value v p) = lexer p" "token (clear_value v p) = token p" "depth (clear_value v p) = depth p"
  "status (clear_value v p) = status p" "scratch (clear_value v p) = scratch p"
  by (simp_all add: clear_value_def split: option.split)

lemma clear_plain_value [simp]: "regex v = None \<Longrightarrow> clear_value v p = p"
  by (simp add: clear_value_def)

lemma clear_value_parsing:
  "parsing input d (M + handles (regex v)) p \<Longrightarrow> parsing input d M (clear_value v p)"
  by (auto simp: parsing_def clear_value_def handles_def split: option.splits)

text \<open>A step that keeps the lexer and the token and does not revive a failed parser.\<close>

definition quiet :: "'r parser \<Rightarrow> 'r parser \<Rightarrow> bool" where
  "quiet p q \<longleftrightarrow> lexer q = lexer p \<and> token q = token p \<and> depth q = depth p \<and> scratch q = scratch p
     \<and> (status q = SALTS_OK \<longrightarrow> status p = SALTS_OK)"

lemma quiet_remaining: "quiet p q \<Longrightarrow> remaining q \<le> remaining p"
  by (auto simp: quiet_def remaining_def)

lemma quiet_refl [simp]: "quiet p p"
  by (simp add: quiet_def)

lemma quiet_trans: "quiet p q \<Longrightarrow> quiet q r \<Longrightarrow> quiet p r"
  by (auto simp: quiet_def)

lemma quiet_simps [simp]:
  "quiet p (put_error E m q) = quiet p q"
  "quiet p (clear_value v q) = quiet p q"
  by (simp_all add: quiet_def)

lemma quiet_fail [simp]: "quiet p (fail_with E st m p)"
  by (simp add: quiet_def)

lemma quiet_host [simp]: "quiet p (host_result E st (p\<lparr>calls := h, error := e\<rparr>))"
  by (simp add: quiet_def)

lemma parsing_quiet: "quiet p q \<Longrightarrow> parsing input d M p \<Longrightarrow> owned (calls q) = Some N \<Longrightarrow> parsing input d N q"
  by (simp add: quiet_def parsing_def)

lemma remaining_simps [simp]:
  "remaining (clear_value v p) = remaining p" "remaining (put_error E m p) = remaining p"
  by (simp_all add: remaining_def)

section \<open>Tokens\<close>

lemma next_token_parsing:
  assumes "parsing input d M p" and "status p = SALTS_OK \<Longrightarrow> tkind (token p) \<noteq> EXPR_END"
  shows "parsing input d M (next_token E p)"
    and "remaining (next_token E p) \<le> remaining p"
    and "status p = SALTS_OK \<Longrightarrow> remaining (next_token E p) < remaining p"
proof -
  let ?r = "lexer_next (lexer p) (length (linput (lexer p)) + 1)"
  have "parsing input d M (next_token E p) \<and> (if status p = SALTS_OK then remaining (next_token E p) < remaining p
      else next_token E p = p)"
  proof (cases "status p = SALTS_OK")
    case False
    then show ?thesis using assms(1) by (simp add: next_token_def)
  next
    case True
    have ok: "lexer_ok (lexer p)" using assms(1) by (simp add: parsing_def)
    consider (ok) "rstatus ?r = SALTS_OK" | (inval) "rstatus ?r = SALTS_EINVAL" | (nobufs) "rstatus ?r = SALTS_ENOBUFS"
      using lexer_next_status by blast
    then show ?thesis
    proof cases
      case ok
      obtain tok v where "routput ?r = Some (tok, v)" "lexer_ok (rlexer ?r)" "linput (rlexer ?r) = linput (lexer p)"
          "loffset (lexer p) \<le> tposition tok" "tkind tok \<noteq> EXPR_END \<longrightarrow> tposition tok < loffset (rlexer ?r)"
        by (rule lexer_next_ok [OF \<open>lexer_ok (lexer p)\<close> ok]) blast
      then show ?thesis
        using True assms by (auto simp: next_token_def Let_def parsing_def remaining_def lexer_ok_def)
    next
      case inval
      then show ?thesis
        using True assms lexer_next_invalid(1) [OF \<open>lexer_ok (lexer p)\<close> inval]
        by (auto simp: next_token_def Let_def parsing_def remaining_def lexer_ok_def)
    next
      case nobufs
      then show ?thesis by (rule lexer_next_nobufs [OF \<open>lexer_ok (lexer p)\<close>]) (auto simp: next_token_def)
    qed
  qed
  then show "parsing input d M (next_token E p)" "remaining (next_token E p) \<le> remaining p"
    "status p = SALTS_OK \<Longrightarrow> remaining (next_token E p) < remaining p"
    by (auto split: if_splits)
qed

lemma take_token_False: "take_token E kind txt p = (False, q) \<Longrightarrow> q = p \<and> \<not> token_is p kind txt"
  by (auto simp: take_token_def split: if_splits)

lemma take_token_True:
  assumes "take_token E kind txt p = (True, q)" and "kind \<noteq> EXPR_END" and "parsing input d M p"
  shows "parsing input d M q" and "remaining q < remaining p"
proof -
  have "q = next_token E p" "status p = SALTS_OK" "tkind (token p) \<noteq> EXPR_END"
    using assms(1,2) by (auto simp: take_token_def token_is_def split: if_splits)
  then show "parsing input d M q" and "remaining q < remaining p"
    using next_token_parsing [OF assms(3)] by auto
qed

lemma require_parsing:
  assumes "parsing input d M p"
  shows "parsing input d M (require E kind m p)" and "remaining (require E kind m p) \<le> remaining p"
proof -
  obtain taken q where take: "take_token E kind None p = (taken, q)" by fastforce
  have "parsing input d M q \<and> remaining q \<le> remaining p"
  proof (cases taken)
    case False
    then show ?thesis using take_token_False [of E kind None p q] take assms by auto
  next
    case True
    then show ?thesis
      using take_token_True [OF _ _ assms, of E kind None q] take assms
      by (cases "kind = EXPR_END") (auto simp: take_token_def split: if_splits)
  qed
  then show "parsing input d M (require E kind m p)" and "remaining (require E kind m p) \<le> remaining p"
    using assms quiet_remaining [OF quiet_fail [of q E SALTS_EINVAL m]] take
    by (auto simp: require_def parsing_def)
qed

section \<open>Values and methods\<close>

lemma as_text_quiet:
  assumes "as_text E side v p = (txt, q)"
  shows "quiet p q" and "calls q = calls p" and "txt = None \<Longrightarrow> status q \<noteq> SALTS_OK"
    and "txt = Some s \<Longrightarrow> q = p"
  using assms
  by (auto simp: as_text_def Let_def split: if_splits expression_value.splits)

lemma equal_values_quiet:
  assumes "equal_values E left right p = (b, q)"
  shows "quiet p q" and "calls q = calls p"
proof -
  have "quiet p q \<and> calls q = calls p"
  proof (cases "as_text E False left p")
    case l: (Pair t1 q1)
    obtain txt2 q2 where r: "as_text E True right q1 = (txt2, q2)" by fastforce
    show ?thesis
      using assms as_text_quiet(1,2) [OF l] as_text_quiet(1,2) [OF r] quiet_trans [of p q1 q2]
      by (auto simp: equal_values_def l r split: option.splits if_splits)
  qed
  then show "quiet p q" and "calls q = calls p" by simp_all
qed

lemma compare_values_quiet:
  assumes "compare_values E op left right p = (b, q)"
  shows "quiet p q" and "calls q = calls p"
  using assms by (auto simp: compare_values_def split: option.splits)

lemma compile_regex_quiet:
  assumes "compile_regex E pattern p = (ok, h, q)" and "owned (calls p) = Some M"
  shows "quiet p q" and "owned (calls q) = Some (M + handles h)"
  using assms quiet_host
  by (auto simp: compile_regex_def Let_def handles_def quiet_trans [OF quiet_host quiet_fail]
      split: option.splits prod.splits if_splits)

lemma method_test_quiet:
  assumes "method_test E receiver txt other p = (v, q)" and "owned (calls p) = Some M"
    and "handles (regex receiver) \<subseteq># M"
  shows "quiet p q" and "owned (calls q) = Some M" and "regex v = None" and "value_bounded E v"
proof -
  obtain ok own p1 where c: "(case regex receiver of Some r \<Rightarrow> (True, None, p) | None \<Rightarrow> compile_regex E txt p) = (ok, own, p1)"
    by (metis prod_cases3)
  have p1: "quiet p p1" "owned (calls p1) = Some (M + handles own)"
    using c compile_regex_quiet [of E "txt" p ok own p1] assms(2) by (auto split: option.splits)
  let ?used = "case regex receiver of Some r \<Rightarrow> Some r | None \<Rightarrow> own"
  let ?tmp = "\<lparr>public_value = Expr_null, regex = own\<rparr> :: ('a, 'b) eval_value"
  have clean: "owned (calls (clear_value ?tmp r)) = Some M" if "owned (calls r) = Some (M + handles own)" for r :: "'b parser"
    using that by (auto simp: clear_value_def handles_def split: option.splits)
  have used: "r \<in># M + handles own" if "?used = Some r" for r
    using that assms(3) by (auto simp: handles_def split: option.splits)
  have "quiet p q \<and> owned (calls q) = Some M \<and> regex v = None \<and> value_bounded E v"
  proof (cases "ok \<and> ?used \<noteq> None \<and> Option.bind (host E) regexes \<noteq> None")
    case True
    then obtain r rx where r: "?used = Some r" and rx: "Option.bind (host E) regexes = Some rx" by auto
    obtain st matches e where s: "regex_search rx (calls p1) r other (error p1) = (st, matches, e)"
      by (metis prod_cases3)
    let ?q = "host_result E st (p1\<lparr>calls := calls p1 @ [Call_search r other], error := e\<rparr>)"
    have "v = boolean_value matches" "q = clear_value ?tmp ?q"
      using assms(1) True r rx s by (auto simp: method_test_def Let_def c)
    moreover have "owned (calls ?q) = Some (M + handles own)"
      using p1(2) used [OF r] by simp
    ultimately show ?thesis
      using clean [of ?q] quiet_trans [OF p1(1) quiet_host] by simp
  next
    case False
    then have "v = null_value" "q = clear_value ?tmp p1"
      using assms(1) by (auto simp: method_test_def Let_def c split: option.splits if_splits)
    then show ?thesis using clean [OF p1(2)] p1(1) by simp
  qed
  then show "quiet p q" and "owned (calls q) = Some M" and "regex v = None" and "value_bounded E v" by simp_all
qed

lemma method_quiet:
  assumes "call_method E receiver name arg has_arg p = (v, q)" and "owned (calls p) = Some M"
    and "handles (regex receiver) \<subseteq># M"
  shows "quiet p q" and "owned (calls q) = Some M" and "regex v = None" and "value_bounded E v"
proof -
  obtain t1 q1 where l: "as_text E False receiver p = (t1, q1)" by fastforce
  obtain t2 q2 where r: "as_text E True arg q1 = (t2, q2)" by fastforce
  note facts = as_text_quiet(1,2) [OF l] as_text_quiet(1,2) [OF r]
  have q12: "quiet p q2" using facts quiet_trans by blast
  have m: "method_test E receiver x y q2 = (v, q) \<Longrightarrow>
      quiet p q \<and> owned (calls q) = Some M \<and> regex v = None \<and> value_bounded E v" for x y
    using method_test_quiet [of E receiver x y q2 v q M] facts assms(2,3) quiet_trans [OF q12] by auto
  have "quiet p q \<and> owned (calls q) = Some M \<and> regex v = None \<and> value_bounded E v"
    using assms(1,2) facts q12 m
    by (auto simp: call_method_def l r split: if_splits option.splits)
  then show "quiet p q" and "owned (calls q) = Some M" and "regex v = None" and "value_bounded E v" by simp_all
qed

lemma resolve_variable_quiet:
  assumes "resolve_variable E p = (v, q)"
  shows "quiet p q" and "owned (calls q) = owned (calls p)" and "regex v = None"
    and "status q = SALTS_OK \<Longrightarrow> value_bounded E v"
proof -
  have "own_step (owned h) (Call_resolve x) = owned h" for h :: "'b history" and x
    by (cases "owned h") simp_all
  then have "quiet p q \<and> owned (calls q) = owned (calls p) \<and> regex v = None \<and> (status q = SALTS_OK \<longrightarrow> value_bounded E v)"
    using assms
    by (auto simp: resolve_variable_def Let_def quiet_def value_bounded_def
        split: option.splits prod.splits if_splits expression_value.splits)
  then show "quiet p q" and "owned (calls q) = owned (calls p)" and "regex v = None"
    and "status q = SALTS_OK \<Longrightarrow> value_bounded E v" by simp_all
qed

section \<open>Every parsing function returns and keeps the state\<close>

text \<open>
  The contract of a parsing function: from a sound parser it returns, the parser is sound again at
  the same depth and owns what it owned plus the handle of the value, no input reappears, and the
  value of a parser that has not failed is within the limit.
\<close>

definition returned :: "('d, 'r) eval_env \<Rightarrow> string \<Rightarrow> nat \<Rightarrow> 'r multiset \<Rightarrow> nat \<Rightarrow> ('d, 'r) eval_value \<times> 'r parser \<Rightarrow> bool" where
  "returned E input d M n = (\<lambda>(v, q). parsing input d (M + handles (regex v)) q \<and> remaining q \<le> n
     \<and> (status q = SALTS_OK \<longrightarrow> value_bounded E v))"

definition parse_ok :: "('d, 'r) eval_env \<Rightarrow> nat \<Rightarrow> ('d, 'r) parse \<Rightarrow> bool" where
  "parse_ok E d f \<longleftrightarrow> (\<forall>input M p. parsing input d M p \<longrightarrow>
     (\<exists>r. f p = Some r \<and> returned E input d M (remaining p) r))"

lemma parse_okD:
  assumes "parse_ok E d f" and "parsing input d M p"
  obtains v q where "f p = Some (v, q)" and "parsing input d (M + handles (regex v)) q"
    and "remaining q \<le> remaining p" and "status q = SALTS_OK \<longrightarrow> value_bounded E v"
  using assms unfolding parse_ok_def returned_def by blast

text \<open>The contract of a round of a loop: it goes on with less left, or leaves; both with a sound result.\<close>

definition round_ok :: "('d, 'r) eval_env \<Rightarrow> nat \<Rightarrow> ('d, 'r) round \<Rightarrow> bool" where
  "round_ok E d body \<longleftrightarrow> (\<forall>input M v p. parsing input d (M + handles (regex v)) p \<longrightarrow>
     (status p = SALTS_OK \<longrightarrow> value_bounded E v) \<longrightarrow>
     (\<exists>w q. body (v, p) = Some (Inl (w, q)) \<and> returned E input d M (remaining p) (w, q) \<and> remaining q < remaining p)
   \<or> (\<exists>w q. body (v, p) = Some (Inr (w, q)) \<and> returned E input d M (remaining p) (w, q)))"

lemma returned_mono: "returned E input d M n r \<Longrightarrow> n \<le> n' \<Longrightarrow> returned E input d M n' r"
  by (auto simp: returned_def)

lemma loop_ok:
  fixes E :: "('d, 'r) eval_env"
  assumes "parse_ok E d f" and "round_ok E d body"
  shows "parse_ok E d (\<lambda>p. Option.bind (f p) (c_loop body))"
  unfolding parse_ok_def
proof (intro allI impI)
  fix input M p
  assume "parsing input d M (p :: 'r parser)"
  then obtain v q where first: "f p = Some (v, q)" and ret: "returned E input d M (remaining p) (v, q)"
    by (auto simp: returned_def elim: parse_okD [OF assms(1)])
  have "\<exists>t. c_loop body (v, q) = Some t \<and> returned E input d M (remaining p) t"
  proof (rule c_loop_total [where I = "returned E input d M (remaining p)" and m = "\<lambda>(v, q). remaining q"])
    show "returned E input d M (remaining p) (v, q)" by (rule ret)
    fix s :: "('d, 'r) eval_value \<times> 'r parser"
    assume s: "returned E input d M (remaining p) s"
    obtain v q where sq: "s = (v, q)" by fastforce
    then have "parsing input d (M + handles (regex v)) q" "status q = SALTS_OK \<longrightarrow> value_bounded E v"
      and le: "remaining q \<le> remaining p"
      using s by (simp_all add: returned_def)
    with assms(2) have "(\<exists>w r. body (v, q) = Some (Inl (w, r)) \<and> returned E input d M (remaining q) (w, r) \<and> remaining r < remaining q)
        \<or> (\<exists>w r. body (v, q) = Some (Inr (w, r)) \<and> returned E input d M (remaining q) (w, r))"
      unfolding round_ok_def by blast
    then show "(\<exists>t. body s = Some (Inl t) \<and> returned E input d M (remaining p) t \<and>
             (case t of (v, q) \<Rightarrow> remaining q) < (case s of (v, q) \<Rightarrow> remaining q)) \<or>
        (\<exists>t. body s = Some (Inr t) \<and> returned E input d M (remaining p) t)"
      using le by (auto simp: sq intro: returned_mono)
  qed
  then show "\<exists>r. Option.bind (f p) (c_loop body) = Some r \<and> returned E input d M (remaining p) r"
    by (simp add: first)
qed

lemma quiet_returned:
  assumes "quiet p q" and "parsing input d M p" and "owned (calls q) = Some (M + handles (regex v))"
    and "status q = SALTS_OK \<longrightarrow> value_bounded E v"
  shows "returned E input d M (remaining p) (v, q)"
  using assms parsing_quiet [OF assms(1,2,3)] quiet_remaining [OF assms(1)] by (simp add: returned_def)

lemma failed_returned:
  assumes "parsing input d (M + handles (regex v)) p" and "remaining p \<le> n" and "status p = SALTS_OK \<longrightarrow> value_bounded E v"
  shows "returned E input d M n (v, fail_with E st m p)"
  using assms quiet_remaining [OF quiet_fail [of p E st m]]
  by (auto simp: returned_def parsing_def)

subsection \<open>Primary expressions\<close>

lemma next_returned:
  assumes "quiet p q" and "parsing input d M p" and "status p = SALTS_OK" and "tkind (token p) \<noteq> EXPR_END"
    and "owned (calls q) = Some (M + handles (regex v))" and "status q = SALTS_OK \<longrightarrow> value_bounded E v"
  shows "returned E input d M (remaining p) (v, next_token E q)"
proof -
  have q: "parsing input d (M + handles (regex v)) q" using parsing_quiet [OF assms(1,2,5)] .
  have "status q = SALTS_OK \<Longrightarrow> tkind (token q) \<noteq> EXPR_END" using assms(1,4) by (simp add: quiet_def)
  note step = next_token_parsing [OF q this, of E]
  have "status (next_token E q) = SALTS_OK \<longrightarrow> status q = SALTS_OK" by (simp add: next_token_def)
  then show ?thesis
    using step(1,2) quiet_remaining [OF assms(1)] assms(6) by (auto simp: returned_def)
qed

lemma literal_returned:
  assumes "parsing input d M p" and "status p = SALTS_OK"
  shows "returned E input d M (remaining p) (literal E p)"
proof -
  have own: "owned (calls p) = Some M" using assms(1) by (simp add: parsing_def)
  consider (var) "tkind (token p) = EXPR_VARIABLE" | (str) "tkind (token p) = EXPR_STRING"
    | (num) "tkind (token p) = EXPR_NUMBER" | (rx) "tkind (token p) = EXPR_REGEX"
    | (bool) "tkind (token p) = EXPR_IDENTIFIER" "scratch p = ''true'' \<or> scratch p = ''false''"
    | (other) "tkind (token p) \<notin> {EXPR_VARIABLE, EXPR_STRING, EXPR_NUMBER, EXPR_REGEX}"
        "\<not> (tkind (token p) = EXPR_IDENTIFIER \<and> (scratch p = ''true'' \<or> scratch p = ''false''))"
    by auto
  then show ?thesis
  proof cases
    case var
    obtain v q where r: "resolve_variable E p = (v, q)" by fastforce
    then have "literal E p = (v, next_token E q)" using var assms(2) by (simp add: literal_def token_is_def)
    then show ?thesis
      using next_returned [OF resolve_variable_quiet(1) [OF r] assms, of v E] resolve_variable_quiet(2-4) [OF r] var own by simp
  next
    case str
    obtain st s where c: "copy_string E (Site_string (loffset (lexer p))) (scratch p) = (st, s)" by fastforce
    show ?thesis
    proof (cases s)
      case None
      then have "literal E p = (null_value, next_token E (fail_with E st ''Cannot copy expression string within its limit'' p))"
        using str assms(2) c by (simp add: literal_def token_is_def)
      then show ?thesis using next_returned [OF quiet_fail [of p E st "''Cannot copy expression string within its limit''"] assms, of null_value E] str own by simp
    next
      case (Some t)
      then have "literal E p = (\<lparr>public_value = Expr_string t, regex = None\<rparr>, next_token E p)"
        using str assms(2) c by (simp add: literal_def token_is_def)
      moreover have "length t \<le> max_string_bytes (limits E)"
        using c Some by (auto simp: copy_string_def split: if_splits)
      ultimately show ?thesis
        using next_returned [OF quiet_refl assms, of "\<lparr>public_value = Expr_string t, regex = None\<rparr>" E] str own
        by (simp add: value_bounded_def)
    qed
  next
    case num
    obtain x n er where f: "fp_strtod (fp E) (c_text (scratch p)) = (x, n, er)" by (metis prod_cases3)
    let ?q = "if n = 0 \<or> er then fail_with E SALTS_EINVAL ''stod'' p else p"
    have "literal E p = (\<lparr>public_value = Expr_number x, regex = None\<rparr>, next_token E ?q)"
      using num assms(2) f by (simp add: literal_def token_is_def)
    moreover have quiet: "quiet p ?q" and "calls ?q = calls p" by simp_all
    ultimately show ?thesis
      using next_returned [OF quiet assms, of "\<lparr>public_value = Expr_number x, regex = None\<rparr>" E] num own
      by (simp only:) simp
  next
    case rx
    obtain ok h q where c: "compile_regex E (scratch p) p = (ok, h, q)" by (metis prod_cases3)
    then have "literal E p = (\<lparr>public_value = Expr_null, regex = h\<rparr>, next_token E q)"
      using rx assms(2) by (simp add: literal_def token_is_def)
    then show ?thesis
      using next_returned [OF compile_regex_quiet(1) [OF c own] assms, of "\<lparr>public_value = Expr_null, regex = h\<rparr>" E]
        compile_regex_quiet(2) [OF c own] rx by simp
  next
    case bool
    then have "literal E p = (boolean_value (scratch p = ''true''), next_token E p)"
      using assms(2) by (auto simp: literal_def token_is_def)
    then show ?thesis using next_returned [OF quiet_refl assms, of "boolean_value (scratch p = ''true'')" E] bool own by simp
  next
    case other
    then obtain q where "literal E p = (null_value, q)" "quiet p q" "calls q = calls p"
      using assms(2) by (cases "tkind (token p) = EXPR_IDENTIFIER") (auto simp: literal_def token_is_def)
    then show ?thesis using quiet_returned [OF _ assms(1), of q null_value E] own by simp
  qed
qed

lemma primary_ok:
  fixes E :: "('d, 'r) eval_env"
  assumes "parse_ok E d f"
  shows "parse_ok E d (primary E f)"
  unfolding parse_ok_def
proof (intro allI impI)
  fix input M p
  assume p: "parsing input d M (p :: 'r parser)"
  show "\<exists>r. primary E f p = Some r \<and> returned E input d M (remaining p) r"
  proof (cases "status p = SALTS_OK")
    case False
    then show ?thesis using p by (auto simp: primary_def returned_def)
  next
    case True
    obtain t q where take: "take_token E EXPR_LPAREN None p = (t, q)" by fastforce
    show ?thesis
    proof (cases t)
      case True
      have "take_token E EXPR_LPAREN None p = (True, q)" using take True by simp
      note q = take_token_True [OF this _ p, simplified]
      obtain v r where f: "f q = Some (v, r)" "parsing input d (M + handles (regex v)) r" "remaining r \<le> remaining q"
          "status r = SALTS_OK \<longrightarrow> value_bounded E v"
        by (rule parse_okD [OF assms q(1)]) simp_all
      have "status (require E EXPR_RPAREN m r) = SALTS_OK \<longrightarrow> status r = SALTS_OK" for m
        by (simp add: require_def)
      then show ?thesis
        using \<open>status p = SALTS_OK\<close> take True f q(2) require_parsing [OF f(2), of E EXPR_RPAREN "''expected ')' after expression''"]
        by (auto simp: primary_def returned_def)
    next
      case False
      then have "q = p" using take_token_False [of E EXPR_LPAREN None p q] take by simp
      then show ?thesis using literal_returned [OF p \<open>status p = SALTS_OK\<close>, of E] take False \<open>status p = SALTS_OK\<close>
        by (simp add: primary_def)
    qed
  qed
qed

subsection \<open>Rounds\<close>

text \<open>A binary operator: the operands are destroyed and the result is a plain boolean.\<close>

lemma binary_round:
  fixes E :: "('d, 'r) eval_env"
  assumes "parse_ok E d f" and "parsing input d (M + handles (regex v)) p" and "remaining p < n"
    and "\<And>w q. f p = Some (w, q) \<Longrightarrow> \<exists>b r. g w q = (b, r) \<and> quiet q r \<and> calls r = calls q"
  shows "\<exists>b r. do { (w, q) \<leftarrow> f p; let (b, r) = g w q; Some (Inl (boolean_value (h b w), clear_value v (clear_value w r))) }
        = (Some (Inl (b, r)) :: ((('d, 'r) eval_value \<times> 'r parser) + (('d, 'r) eval_value \<times> 'r parser)) option)
      \<and> returned E input d M n (b, r) \<and> remaining r < n"
proof -
  obtain w q where f: "f p = Some (w, q)" "parsing input d (M + handles (regex v) + handles (regex w)) q"
      "remaining q \<le> remaining p"
    by (rule parse_okD [OF assms(1,2)]) blast
  obtain b r where g: "g w q = (b, r)" "quiet q r" "calls r = calls q" using assms(4) [OF f(1)] by blast
  have "parsing input d (M + handles (regex v) + handles (regex w)) r"
    using parsing_quiet [OF g(2) f(2)] g(3) f(2) by (simp add: parsing_def)
  then have "parsing input d M (clear_value v (clear_value w r))"
    by (intro clear_value_parsing)
  moreover have "remaining (clear_value v (clear_value w r)) < n"
    using quiet_remaining [OF g(2)] f(3) assms(3) by simp
  ultimately show ?thesis by (auto simp: f(1) g(1) returned_def)
qed

lemma comparison_round_ok:
  fixes E :: "('d, 'r) eval_env"
  assumes "parse_ok E d f"
  shows "round_ok E d (comparison_round E f)"
  unfolding round_ok_def
proof (intro allI impI)
  fix input M and v :: "('d, 'r) eval_value" and p :: "'r parser"
  assume p: "parsing input d (M + handles (regex v)) p" and v: "status p = SALTS_OK \<longrightarrow> value_bounded E v"
  show "(\<exists>w q. comparison_round E f (v, p) = Some (Inl (w, q)) \<and> returned E input d M (remaining p) (w, q) \<and> remaining q < remaining p)
      \<or> (\<exists>w q. comparison_round E f (v, p) = Some (Inr (w, q)) \<and> returned E input d M (remaining p) (w, q))"
  proof (cases "token_is p EXPR_OPERATOR None \<and> scratch p \<in> {''<'', ''>'', ''<='', ''>=''}")
    case True
    then have ok: "status p = SALTS_OK" "tkind (token p) \<noteq> EXPR_END" by (auto simp: token_is_def)
    let ?g = "\<lambda>w q. if status q = SALTS_OK then compare_values E (scratch p) v w q else (False, q)"
    have "\<exists>b r. ?g w q = (b, r) \<and> quiet q r \<and> calls r = calls q" for w q
      by (cases "compare_values E (scratch p) v w q") (auto dest: compare_values_quiet)
    note g = this
    note step = next_token_parsing [OF p ok(2), of E]
    show ?thesis
      using True binary_round [where g = ?g and h = "\<lambda>b w. b", OF assms step(1) step(3) [OF ok(1)] g]
      by (simp add: comparison_round_def Let_def)
  next
    case False
    then show ?thesis using p v by (auto simp: comparison_round_def returned_def)
  qed
qed


lemma comparison_ok: "parse_ok E d f \<Longrightarrow> parse_ok E d (comparison E f)"
  using loop_ok [OF _ comparison_round_ok, of E d f f] by (simp add: comparison_def [abs_def])

lemma equality_round_ok:
  fixes E :: "('d, 'r) eval_env"
  assumes "parse_ok E d f"
  shows "round_ok E d (equality_round E f)"
  unfolding round_ok_def
proof (intro allI impI)
  fix input M and v :: "('d, 'r) eval_value" and p :: "'r parser"
  assume p: "parsing input d (M + handles (regex v)) p" and v: "status p = SALTS_OK \<longrightarrow> value_bounded E v"
  show "(\<exists>w q. equality_round E f (v, p) = Some (Inl (w, q)) \<and> returned E input d M (remaining p) (w, q) \<and> remaining q < remaining p)
      \<or> (\<exists>w q. equality_round E f (v, p) = Some (Inr (w, q)) \<and> returned E input d M (remaining p) (w, q))"
  proof (cases "token_is p EXPR_OPERATOR None \<and> scratch p \<in> {''=='', ''!=''}")
    case True
    then have ok: "status p = SALTS_OK" "tkind (token p) \<noteq> EXPR_END" by (auto simp: token_is_def)
    let ?g = "\<lambda>w q. if status q = SALTS_OK then equal_values E v w q else (False, q)"
    have g: "\<exists>b r. ?g w q = (b, r) \<and> quiet q r \<and> calls r = calls q" for w q
      by (cases "equal_values E v w q") (auto dest: equal_values_quiet)
    note step = next_token_parsing [OF p ok(2), of E]
    show ?thesis
      using True binary_round [where g = ?g and h = "\<lambda>b w. if scratch p = ''=='' then b else \<not> b",
          OF comparison_ok [OF assms] step(1) step(3) [OF ok(1)] g]
      by (simp add: equality_round_def Let_def)
  next
    case False
    then show ?thesis
      using p v failed_returned [OF p order_refl v] by (auto simp: equality_round_def returned_def)
  qed
qed

lemma equality_ok: "parse_ok E d f \<Longrightarrow> parse_ok E d (equality E f)"
  using loop_ok [OF comparison_ok equality_round_ok, of E d f f] by (simp add: equality_def [abs_def])

lemma logical_round_ok:
  fixes E :: "('d, 'r) eval_env"
  assumes "parse_ok E d f"
  shows "round_ok E d (logical_round E is_or f)"
  unfolding round_ok_def
proof (intro allI impI)
  fix input M and v :: "('d, 'r) eval_value" and p :: "'r parser"
  assume p: "parsing input d (M + handles (regex v)) p" and v: "status p = SALTS_OK \<longrightarrow> value_bounded E v"
  obtain t q where take: "take_token E EXPR_OPERATOR (Some (if is_or then ''||'' else ''&&'')) p = (t, q)" by fastforce
  show "(\<exists>w q. logical_round E is_or f (v, p) = Some (Inl (w, q)) \<and> returned E input d M (remaining p) (w, q) \<and> remaining q < remaining p)
      \<or> (\<exists>w q. logical_round E is_or f (v, p) = Some (Inr (w, q)) \<and> returned E input d M (remaining p) (w, q))"
  proof (cases t)
    case True
    have taken: "take_token E EXPR_OPERATOR (Some (if is_or then ''||'' else ''&&'')) p = (True, q)" using take True by simp
    let ?h = "\<lambda>(b :: bool) w. if is_or then truth E v \<or> truth E w else truth E v \<and> truth E w"
    have g: "\<exists>b r. (\<lambda>w q. (True, q)) w q = (b, r) \<and> quiet q r \<and> calls r = calls q" for w :: "('d, 'r) eval_value" and q :: "'r parser"
      by auto
    note step = take_token_True [OF taken _ p]
    show ?thesis
      using binary_round [where g = "\<lambda>w q. (True, q)" and h = ?h, OF assms step(1) step(2) g] taken
      by (simp add: logical_round_def Let_def)
  next
    case False
    then show ?thesis
      using p v take take_token_False [of E EXPR_OPERATOR _ p q] by (auto simp: logical_round_def returned_def)
  qed
qed

lemma logical_ok: "parse_ok E d f \<Longrightarrow> parse_ok E d (logical E is_or f)"
  using loop_ok [OF _ logical_round_ok, of E d f f is_or] by (simp add: logical_def [abs_def])

subsection \<open>Methods and nesting\<close>

lemma require_status: "status (require E kind m p) = SALTS_OK \<Longrightarrow> status p = SALTS_OK"
  by (simp add: require_def split: if_splits)

lemma method_call_ok:
  assumes "parse_ok E d f" and p: "parsing input d (M + handles (regex v)) p"
    and "status p = SALTS_OK" and "tkind (token p) \<noteq> EXPR_END"
  shows "\<exists>w q. method_call E f v p = Some (w, q) \<and> returned E input d M (remaining p) (w, q) \<and> remaining q < remaining p"
proof -
  note step = next_token_parsing [OF p assms(4), of E]
  let ?p1 = "require E EXPR_LPAREN ''expected '(' after method name'' (next_token E p)"
  let ?has = "status ?p1 = SALTS_OK \<and> \<not> token_is ?p1 EXPR_RPAREN None"
  have p1: "parsing input d (M + handles (regex v)) ?p1" "remaining ?p1 < remaining p"
    using require_parsing [OF step(1), of E EXPR_LPAREN "''expected '(' after method name''"] step(3) [OF assms(3)] by auto
  obtain arg p2 where arg: "(if ?has then f ?p1 else Some (null_value, ?p1)) = Some (arg, p2)"
      and p2: "parsing input d (M + handles (regex v) + handles (regex arg)) p2" "remaining p2 \<le> remaining ?p1"
  proof (cases ?has)
    case True
    obtain arg p2 where "f ?p1 = Some (arg, p2)" "parsing input d (M + handles (regex v) + handles (regex arg)) p2"
        "remaining p2 \<le> remaining ?p1"
      by (rule parse_okD [OF assms(1) p1(1)]) blast
    then show thesis using True by (intro that [of arg p2]) simp_all
  next
    case False
    then show thesis using p1 by (intro that [of null_value ?p1]) auto
  qed
  let ?p3 = "require E EXPR_RPAREN ''expected ')' after arguments'' p2"
  note p3 = require_parsing [OF p2(1), of E EXPR_RPAREN "''expected ')' after arguments''"]
  obtain w q where m: "(if status ?p3 = SALTS_OK then call_method E v (scratch p) arg ?has ?p3 else (null_value, ?p3)) = (w, q)"
    by fastforce
  have own: "owned (calls ?p3) = Some (M + handles (regex v) + handles (regex arg))" using p3(1) by (simp add: parsing_def)
  have "handles (regex v) \<subseteq># M + handles (regex v) + handles (regex arg)"
    by (simp add: subset_mset.add_increasing2)
  note call_quiet = method_quiet [OF _ own this]
  have q: "quiet ?p3 q" "owned (calls q) = Some (M + handles (regex v) + handles (regex arg))" "regex w = None" "value_bounded E w"
    using m call_quiet own by (auto split: if_splits)
  have "parsing input d M (clear_value v (clear_value arg q))"
    by (intro clear_value_parsing parsing_quiet [OF q(1) p3(1) q(2)])
  moreover have "remaining q < remaining p"
    using quiet_remaining [OF q(1)] p3(2) p2(2) p1(2) by simp
  moreover have "method_call E f v p = Some (w, clear_value v (clear_value arg q))"
    using arg m by (simp add: method_call_def Let_def)
  ultimately show ?thesis using q(3,4) by (simp add: returned_def)
qed

lemma postfix_round_ok:
  fixes E :: "('d, 'r) eval_env"
  assumes "parse_ok E d f"
  shows "round_ok E d (postfix_round E f)"
  unfolding round_ok_def
proof (intro allI impI)
  fix input M and v :: "('d, 'r) eval_value" and p :: "'r parser"
  assume p: "parsing input d (M + handles (regex v)) p" and v: "status p = SALTS_OK \<longrightarrow> value_bounded E v"
  obtain t q where take: "take_token E EXPR_DOT None p = (t, q)" by fastforce
  show "(\<exists>w q. postfix_round E f (v, p) = Some (Inl (w, q)) \<and> returned E input d M (remaining p) (w, q) \<and> remaining q < remaining p)
      \<or> (\<exists>w q. postfix_round E f (v, p) = Some (Inr (w, q)) \<and> returned E input d M (remaining p) (w, q))"
  proof (cases t)
    case True
    then have taken: "take_token E EXPR_DOT None p = (True, q)" using take by simp
    note q = take_token_True [OF taken _ p, simplified]
    have bounded: "value_bounded E v" using taken v by (auto simp: take_token_def token_is_def split: if_splits)
    show ?thesis
    proof (cases "token_is q EXPR_IDENTIFIER None \<and> alloc E (Site_method (loffset (lexer q)))")
      case True
      then have "status q = SALTS_OK" "tkind (token q) \<noteq> EXPR_END" by (auto simp: token_is_def)
      from method_call_ok [OF assms q(1) this] show ?thesis
        using True taken q(2) by (auto simp: postfix_round_def returned_def)
    next
      case False
      then show ?thesis
        using taken failed_returned [OF q(1), of "remaining p" E] q(2) bounded
        by (auto simp: postfix_round_def)
    qed
  next
    case False
    then show ?thesis
      using p v take take_token_False [of E EXPR_DOT None p q] by (auto simp: postfix_round_def returned_def)
  qed
qed

lemma postfix_ok: "parse_ok E d f \<Longrightarrow> parse_ok E d (postfix E f)"
  using loop_ok [OF primary_ok postfix_round_ok, of E d f f] by (simp add: postfix_def [abs_def])

lemma enter_cases:
  assumes "parsing input d M p"
  obtains (refused) q where "enter E p = (False, q)" "parsing input d M q" "remaining q \<le> remaining p" "status q \<noteq> SALTS_OK"
  | (entered) q where "enter E p = (True, q)" "parsing input (Suc d) M q" "remaining q = remaining p" "q = p\<lparr>depth := depth p + 1\<rparr>"
proof (cases "fst (enter E p)")
  case True
  then show thesis using assms entered [of "snd (enter E p)"]
    by (auto simp: enter_def parsing_def remaining_def split: if_splits)
next
  case False
  have "quiet p (snd (enter E p))" "calls (snd (enter E p)) = calls p" "status (snd (enter E p)) \<noteq> SALTS_OK"
    using False by (auto simp: enter_def split: if_splits)
  then show thesis
    using assms refused [of "snd (enter E p)"] False quiet_remaining [of p "snd (enter E p)"]
      parsing_quiet [of p "snd (enter E p)" input d M M]
    by (cases "enter E p") (simp add: parsing_def)
qed

lemma leave_parsing: "parsing input (Suc d) M p \<Longrightarrow> parsing input d M (leave p)"
  by (simp add: parsing_def leave_def)

lemma leave_fields [simp]: "remaining (leave p) = remaining p" "status (leave p) = status p" "calls (leave p) = calls p"
  by (simp_all add: remaining_def leave_def)

lemma expression_body_ok:
  fixes E :: "('d, 'r) eval_env"
  assumes "d < max_depth (limits E) \<Longrightarrow> parse_ok E (Suc d) f"
  shows "parse_ok E d (expression_body E f)"
  unfolding parse_ok_def
proof (intro allI impI)
  fix input M and p :: "'r parser"
  assume p: "parsing input d M p"
  show "\<exists>r. expression_body E f p = Some r \<and> returned E input d M (remaining p) r"
  proof (rule enter_cases [OF p, of E])
    fix q
    assume q: "enter E p = (False, q)" "parsing input d M q" "remaining q \<le> remaining p" "status q \<noteq> SALTS_OK"
    then show ?thesis by (simp add: expression_body_def returned_def)
  next
    fix q
    assume q: "enter E p = (True, q)" "parsing input (Suc d) M q" "remaining q = remaining p" "q = p\<lparr>depth := depth p + 1\<rparr>"
    then have "d < max_depth (limits E)" using p by (auto simp: enter_def parsing_def split: if_splits)
    then have "parse_ok E (Suc d) (logical E True (logical E False (equality E f)))"
      by (intro logical_ok equality_ok assms)
    from parse_okD [OF this q(2)] obtain v r where "logical E True (logical E False (equality E f)) q = Some (v, r)"
        "parsing input (Suc d) (M + handles (regex v)) r" "remaining r \<le> remaining q" "status r = SALTS_OK \<longrightarrow> value_bounded E v"
      by blast
    then show ?thesis using q leave_parsing by (auto simp: expression_body_def returned_def)
  qed
qed

text \<open>The nesting limit makes the recursion end: each level has fewer levels left.\<close>

lemma parse_unary_ok:
  fixes E :: "('d, 'r) eval_env"
  shows "parse_ok E d (parse_unary E)"
proof (induction "max_depth (limits E) - d" arbitrary: d rule: less_induct)
  case less
  have deeper: "d < max_depth (limits E) \<Longrightarrow> parse_ok E (Suc d) (parse_unary E)"
    by (rule less) simp
  show ?case
    unfolding parse_ok_def
  proof (intro allI impI)
    fix input M and p :: "'r parser"
    assume p: "parsing input d M p"
    obtain t q where take: "take_token E EXPR_OPERATOR (Some ''!'') p = (t, q)" by fastforce
    show "\<exists>r. parse_unary E p = Some r \<and> returned E input d M (remaining p) r"
    proof (cases t)
      case False
      then have "parse_unary E p = postfix E (expression_body E (parse_unary E)) p"
        using take take_token_False [of E EXPR_OPERATOR "Some ''!''" p q] by (subst parse_unary.simps) simp
      then show ?thesis
        using postfix_ok [OF expression_body_ok [OF deeper]] p unfolding parse_ok_def by fastforce
    next
      case True
      then have taken: "take_token E EXPR_OPERATOR (Some ''!'') p = (True, q)" using take by simp
      note q = take_token_True [OF taken _ p, simplified]
      show ?thesis
      proof (rule enter_cases [OF q(1), of E])
        fix q'
        assume "enter E q = (False, q')" "parsing input d M q'" "remaining q' \<le> remaining q" "status q' \<noteq> SALTS_OK"
        then show ?thesis using taken q(2) by (subst parse_unary.simps) (simp add: returned_def)
      next
        fix q'
        assume q': "enter E q = (True, q')" "parsing input (Suc d) M q'" "remaining q' = remaining q"
          "q' = q\<lparr>depth := depth q + 1\<rparr>"
        then have "d < max_depth (limits E)" using q(1) by (auto simp: enter_def parsing_def split: if_splits)
        from parse_okD [OF deeper [OF this] q'(2)] obtain v r where v: "parse_unary E q' = Some (v, r)"
            "parsing input (Suc d) (M + handles (regex v)) r" "remaining r \<le> remaining q'" by blast
        then have "parsing input d M (leave (clear_value v r))" by (intro leave_parsing clear_value_parsing)
        then show ?thesis
          using taken q(2) q' v by (subst parse_unary.simps) (simp add: returned_def)
      qed
    qed
  qed
qed

lemma parse_expression_ok: "parse_ok E d (parse_expression E)"
  unfolding parse_expression_def by (rule expression_body_ok) (rule parse_unary_ok)

section \<open>Evaluation\<close>

lemma init_parsing: "parsing txt 0 {#} (init_parser txt)"
  by (simp add: parsing_def init_parser_def lexer_init_def lexer_ok_def)

lemma next_token_calls [simp]: "calls (next_token E p) = calls p"
  by (auto simp: next_token_def Let_def split: option.split)

text \<open>The validation loop ends without a call to the host.\<close>

lemma validate_ok:
  fixes E :: "('d, 'r) eval_env" and input :: string
  defines "p0 \<equiv> init_parser input :: 'r parser"
  shows "\<exists>n p. c_loop (validate_round E) (0, p0) = Some (n, p) \<and> parsing input 0 {#} p \<and> calls p = []
    \<and> (status p = SALTS_OK \<longrightarrow> tkind (token p) = EXPR_END)"
proof -
  let ?Q = "\<lambda>(n :: nat, p :: 'r parser). parsing input 0 {#} p \<and> calls p = [] \<and> (status p = SALTS_OK \<longrightarrow> tkind (token p) = EXPR_END)"
  let ?I = "\<lambda>(n :: nat, p :: 'r parser). parsing input 0 {#} p \<and> calls p = [] \<and> status p = SALTS_OK \<and> tkind (token p) \<noteq> EXPR_END"
  have "\<exists>t. c_loop (validate_round E) (0, p0) = Some t \<and> ?Q t"
  proof (rule c_loop_total [where I = ?I and m = "\<lambda>(n, p). remaining p"])
    show "?I (0, p0)" using init_parsing by (simp add: p0_def init_parser_def)
  next
    fix s :: "nat \<times> 'r parser"
    assume I: "?I s"
    obtain n p where s: "s = (n, p)" by fastforce
    then have p: "parsing input 0 {#} p" "calls p = []" "status p = SALTS_OK" "tkind (token p) \<noteq> EXPR_END" using I by auto
    note step = next_token_parsing [OF p(1,4), of E]
    have "parsing input 0 {#} (fail_with E SALTS_ENOBUFS ''Expression token limit exceeded'' p)"
      using p(1) by (simp add: parsing_def)
    then show "(\<exists>t. validate_round E s = Some (Inl t) \<and> ?I t \<and> (case t of (n, p) \<Rightarrow> remaining p) < (case s of (n, p) \<Rightarrow> remaining p))
        \<or> (\<exists>t. validate_round E s = Some (Inr t) \<and> ?Q t)"
      using p step(1) step(3) [OF p(3)] by (auto simp: validate_round_def s Let_def)
  qed
  then show ?thesis by (auto simp: p0_def)
qed

text \<open>The first token after the lexer is started again.\<close>

lemma restart_parsing:
  assumes "parsing input 0 {#} p"
  shows "parsing input 0 {#} (next_token E (p\<lparr>lexer := lexer_init input\<rparr>))"
proof (cases "tkind (token p) = EXPR_END")
  case False
  have "parsing input 0 {#} (p\<lparr>lexer := lexer_init input\<rparr>)"
    using assms by (simp add: parsing_def lexer_init_def lexer_ok_def)
  then show ?thesis using False by (intro next_token_parsing(1)) simp_all
next
  case True
  let ?p = "p\<lparr>lexer := lexer_init input\<rparr>" and ?k = "p\<lparr>lexer := lexer_init input, token := (token p)\<lparr>tkind := EXPR_DOT\<rparr>\<rparr>"
  have "parsing input 0 {#} ?k" using assms by (simp add: parsing_def lexer_init_def lexer_ok_def)
  then have "parsing input 0 {#} (next_token E ?k)" by (intro next_token_parsing(1)) simp_all
  then show ?thesis
    by (auto simp: next_token_def Let_def parsing_def lexer_init_def lexer_ok_def split: if_splits option.splits)
qed

lemma evaluate_ok:
  fixes E :: "('d, 'r) eval_env"
  shows "\<exists>p out. evaluate E input = Some (p, out) \<and> owned (calls p) = Some {#} \<and> depth p = 0
    \<and> (out = None \<longleftrightarrow> status p \<noteq> SALTS_OK)
    \<and> (\<forall>s b. out = Some (Expr_string s, b) \<longrightarrow> length s \<le> max_string_bytes (limits E))"
proof -
  obtain n p where v: "c_loop (validate_round E) (0, init_parser input) = Some (n, p)" "parsing input 0 {#} p"
    using validate_ok [of E input] by blast
  let ?p1 = "next_token E (p\<lparr>lexer := lexer_init input\<rparr>)"
  obtain w q where e: "parse_expression E ?p1 = Some (w, q)" "parsing input 0 ({#} + handles (regex w)) q"
      "status q = SALTS_OK \<longrightarrow> value_bounded E w"
    using parse_okD [OF parse_expression_ok restart_parsing [OF v(2)], of E E] by metis
  let ?q = "require E EXPR_END ''unexpected trailing tokens'' q"
  have q: "parsing input 0 ({#} + handles (regex w)) ?q" using require_parsing(1) [OF e(2)] .
  have done_ok: "owned (calls (clear_value w ?q)) = Some {#}" "depth (clear_value w ?q) = 0"
    using clear_value_parsing [OF q] by (simp_all add: parsing_def)
  have bounded: "status ?q = SALTS_OK \<Longrightarrow> public_value w = Expr_string s \<Longrightarrow> length s \<le> max_string_bytes (limits E)" for s
    using e(3) require_status [of E EXPR_END _ q] by (auto simp: value_bounded_def)
  have p: "owned (calls p) = Some {#}" "depth p = 0" using v(2) by (simp_all add: parsing_def)
  have init: "owned (calls (init_parser input :: 'r parser)) = Some {#}" "depth (init_parser input :: 'r parser) = 0"
      "status (init_parser input :: 'r parser) = SALTS_OK"
    by (simp_all add: init_parser_def)
  show ?thesis
    using done_ok bounded p init
    by (auto simp: evaluate_def Let_def v(1) e(1) split: if_splits)
qed

section \<open>A concrete environment\<close>

text \<open>Whole numbers in place of floating point, no host, small limits.\<close>

definition int_fp :: "int fp_ops" where
  "int_fp = \<lparr>fp_strtod = (\<lambda>s. let ds = takeWhile isdigit s in (foldl (\<lambda>n c. 10 * n + (of_char c - 48)) 0 ds, length ds, False)),
     fp_falsy = (\<lambda>d. d = 0), fp_one = 1, fp_zero = 0,
     fp_close = (=), fp_less = (<), fp_less_eq = (\<le>), fp_format = (\<lambda>d. ''0'')\<rparr>"

definition int_env :: "(int, nat) eval_env" where
  "int_env = \<lparr>vstr_contains = (\<lambda>t u. sublist u t), vstr_starts_with = (\<lambda>t u. prefix u t), vstr_ends_with = (\<lambda>t u. suffix u t),
     fp = int_fp, host = None,
     limits = \<lparr>max_input_bytes = 64, max_tokens = 16, max_depth = 4, max_string_bytes = 32\<rparr>, alloc = no_oom, error_capacity = 8\<rparr>"

section \<open>Properties\<close>

text \<open>
  C18. Evaluation ends on every input, for every host, limit and pattern of allocation failures. It
  returns a value exactly when its status is success, and a string value is within the string limit.
\<close>

theorem evaluate_total:
  "\<exists>p out. evaluate E input = Some (p, out) \<and> (out = None \<longleftrightarrow> status p \<noteq> SALTS_OK)
     \<and> (\<forall>s b. out = Some (Expr_string s, b) \<longrightarrow> length s \<le> max_string_bytes (limits E))"
  using evaluate_ok by blast

theorem evaluate_total_witness:
  "\<exists>p out. evaluate int_env ''!(1 < 2)'' = Some (p, out) \<and> (out = None \<longleftrightarrow> status p \<noteq> SALTS_OK)"
  using evaluate_total [of int_env "''!(1 < 2)''"] by blast

text \<open>
  C17. Every regex handle that the host returned is destroyed exactly once by the time evaluation
  returns, and none is searched or destroyed that is not owned at that moment, whether evaluation
  succeeds or fails.
\<close>

theorem evaluate_handles_released:
  "\<exists>p out. evaluate E input = Some (p, out) \<and> owned (calls p) = Some {#}"
  using evaluate_ok by blast

text \<open>
  The input is lexed completely before the host is called: when it has an unexpected byte or
  too many tokens, no host call is made and the status is the one of the failed validation.
\<close>

theorem evaluate_validates_first:
  fixes E :: "('d, 'r) eval_env"
  assumes "c_loop (validate_round E) (0, init_parser input) = Some (n, q)" and "status q \<noteq> SALTS_OK"
    and "evaluate E input = Some (p, out)"
  shows "calls p = [] \<and> out = None \<and> status p \<noteq> SALTS_OK"
proof -
  have "calls q = []" using validate_ok [of E input] assms(1) by auto
  moreover have "calls (init_parser input :: 'r parser) = []" "status (init_parser input :: 'r parser) = SALTS_OK"
    by (simp_all add: init_parser_def)
  ultimately show ?thesis
    using assms by (auto simp: evaluate_def Let_def split: if_splits)
qed

theorem evaluate_validates_first_witness:
  "\<exists>p out. evaluate int_env ''#'' = Some (p, out) \<and> calls p = [] \<and> out = None"
proof -
  obtain p out where run: "evaluate int_env ''#'' = Some (p, out)" using evaluate_ok [of int_env "''#''"] by blast
  have "map_option (\<lambda>(n, q). status q) (c_loop (validate_round int_env) (0, init_parser ''#'')) = Some SALTS_EINVAL"
    by code_simp
  then obtain n q where "c_loop (validate_round int_env) (0, init_parser ''#'') = Some (n, q)" "status q \<noteq> SALTS_OK"
    by auto
  from evaluate_validates_first [OF this run] run show ?thesis by blast
qed

end
