(* ===== verification/Host_Clock.thy ===== *)
theory Host_Clock
  imports Praktor_Prelude
begin

text \<open>
  The clock of a host whose callbacks are functions of the history of calls: 64-bit readings of a time
  that advances with every call. The lemmas relate the wrapping differences that the deadlines test to
  the time spent. They serve the termination proofs of the process and the service control.
\<close>

text \<open>
  A clock that advances: it reads the time in nanoseconds, at 64 bits, and every call to the host takes
  at least one and at most \<open>D\<close> nanoseconds.
\<close>

definition clock_advances :: "('c list \<Rightarrow> 64 word) \<Rightarrow> ('c list \<Rightarrow> nat) \<Rightarrow> nat \<Rightarrow> bool" where
  "clock_advances clock time D \<longleftrightarrow> (\<forall>h. clock h = of_nat (time h)) \<and>
     (\<forall>h x. time h < time (h @ [x]) \<and> time (h @ [x]) \<le> time h + D)"

lemma clock_extend:
  assumes "clock_advances clock time D"
  shows "time h + length e \<le> time (h @ e) \<and> time (h @ e) \<le> time h + length e * D"
proof (induction e rule: rev_induct)
  case (snoc x e)
  have "time (h @ e) < time ((h @ e) @ [x])" "time ((h @ e) @ [x]) \<le> time (h @ e) + D"
    using assms unfolding clock_advances_def by blast+
  then show ?case using snoc by simp
qed simp

text \<open>The time spent since a history, and the clock's difference while it is below the wrap.\<close>

definition spent :: "('c list \<Rightarrow> nat) \<Rightarrow> 'c list \<Rightarrow> 'c list \<Rightarrow> nat" where
  "spent time hb h = time h - time hb"

definition runs_since :: "'c list \<Rightarrow> 'c list \<Rightarrow> bool" where
  "runs_since hb h \<longleftrightarrow> (\<exists>e. h = hb @ e)"

lemma runs_since_refl: "runs_since hb hb" "spent time hb hb = 0"
  by (simp_all add: runs_since_def spent_def)

lemma spent_step:
  assumes "clock_advances clock time D" and "runs_since hb h" and "h' = h @ e"
  shows "runs_since hb h'" "spent time hb h + length e \<le> spent time hb h'" "spent time hb h' \<le> spent time hb h + length e * D"
proof -
  obtain e0 where e0: "h = hb @ e0" using assms(2) by (auto simp: runs_since_def)
  show "runs_since hb h'" using e0 assms(3) by (simp add: runs_since_def)
  have "time hb \<le> time h" using clock_extend [OF assms(1), of hb e0] e0 by simp
  then show "spent time hb h + length e \<le> spent time hb h'" "spent time hb h' \<le> spent time hb h + length e * D"
    using clock_extend [OF assms(1), of h e] assms(3) by (auto simp: spent_def)
qed

lemma spent_at_most:
  assumes "clock_advances clock time D" and "runs_since hb h" and "h' = h @ e" and "length e \<le> n"
  shows "spent time hb h' \<le> spent time hb h + n * D"
  using spent_step(3) [OF assms(1-3)] mult_le_mono1 [OF assms(4), of D] by linarith

lemma elapsed_spent:
  assumes "clock_advances clock time D" and "runs_since hb h" and "spent time hb h < 2 ^ 64"
  shows "unat (clock h - clock hb) = spent time hb h"
proof -
  obtain e0 where e0: "h = hb @ e0" using assms(2) by (auto simp: runs_since_def)
  have le: "time hb \<le> time h" using clock_extend [OF assms(1), of hb e0] e0 by simp
  then have "clock h - clock hb = of_nat (spent time hb h)" using assms(1) by (simp add: clock_advances_def spent_def)
  then show ?thesis using assms(3) by (simp add: unat_of_nat)
qed

text \<open>Milliseconds in nanoseconds, at 64 bits.\<close>

abbreviation ns_per_ms :: "64 word" where
  "ns_per_ms \<equiv> 1000000"

definition max_timeout_ms :: int where
  "max_timeout_ms = (2 ^ 64 - 1) div 1000000"

definition budget_ns :: "int \<Rightarrow> 64 word" where
  "budget_ns ms = of_int ms * ns_per_ms"

text \<open>The budget of a valid request, in nanoseconds, does not wrap.\<close>

lemma budget_ns_exact:
  assumes "0 < ms" "ms \<le> max_timeout_ms"
  shows "unat (budget_ns ms) = nat ms * 1000000"
proof -
  have small: "ms * 1000000 < 2 ^ 64" using assms(2) by (simp add: max_timeout_ms_def)
  have "budget_ns ms = word_of_int (ms * 1000000)" by (simp add: budget_ns_def)
  then have "uint (budget_ns ms) = (ms * 1000000) mod 2 ^ 64" by (simp only: uint_word_of_int) simp
  also have "\<dots> = ms * 1000000" using small assms(1) by simp
  finally show ?thesis using assms(1) by (simp add: unat_eq_nat_uint nat_mult_distrib)
qed

end
