(* ===== verification/Process_Control.thy ===== *)
theory Process_Control
  imports Host_Clock
begin

text \<open>
  The control of a managed process: \<open>shared/process/src/process_control.c\<close>. It queries, starts, stops
  and restarts a process through the callbacks of a host, polling under deadlines. The lemmas show
  which instances it may signal, what a successful operation means, and that it returns when the clock
  advances.

  The host is a parameter. Each callback may depend on all earlier calls: it takes their history, which
  the control state records with the arguments and the results. Times are 64-bit words, so that
  differences wrap around as in the code. Strings that C compares by content are lists of characters; a
  NULL string is \<open>None\<close>.
\<close>

section \<open>Data\<close>

datatype process_operation = PROCESS_STATUS | PROCESS_START | PROCESS_STOP | PROCESS_RESTART

datatype control_error =
    CONTROL_NONE | CONTROL_INVALID_PARAMETERS | CONTROL_BACKEND_FAILURE | CONTROL_TIMEOUT
  | CONTROL_UNSUPPORTED_PLATFORM

record snapshot =
  is_running :: bool
  pid :: "32 word"
  session_id :: "32 word"
  instance_token :: "64 word"
  canonical_image_name :: "string option"

text \<open>The operation is \<open>None\<close> for a value outside the enumeration.\<close>

record control_request =
  operation :: "process_operation option"
  image_name :: "string option"
  executable :: "string option"
  arguments :: "string list"
  working_directory :: "string option"
  startup_timeout_ms :: int
  stop_timeout_ms :: int
  force_terminate :: bool

record backend_result =
  br_ok :: bool
  br_native_error :: int
  br_message :: "string option"

datatype control_call =
    Call_now
  | Call_sleep "32 word"
  | Call_query "string option" backend_result snapshot
  | Call_start control_request backend_result snapshot
  | Call_request_stop snapshot backend_result
  | Call_terminate snapshot backend_result

type_synonym control_history = "control_call list"

record control_host =
  host_query :: "control_history \<Rightarrow> string option \<Rightarrow> backend_result \<times> snapshot"
  host_start :: "control_history \<Rightarrow> control_request \<Rightarrow> backend_result \<times> snapshot"
  host_request_stop :: "control_history \<Rightarrow> snapshot \<Rightarrow> backend_result"
  host_terminate :: "control_history \<Rightarrow> snapshot \<Rightarrow> backend_result"
  host_now :: "control_history \<Rightarrow> 64 word"
  poll_interval_ms :: "64 word"

record control_result =
  res_ok :: bool
  res_changed :: bool
  res_snapshot :: snapshot
  res_error :: control_error
  res_native_error :: int
  res_phase :: string
  res_message :: string
  res_duration_ms :: "64 word"

text \<open>What a call of the controller changes: the history of the host and the result.\<close>

record control =
  calls :: control_history
  res :: control_result

definition zero_snapshot :: snapshot where
  "zero_snapshot = \<lparr>is_running = False, pid = 0, session_id = 0, instance_token = 0, canonical_image_name = None\<rparr>"

definition zero_result :: control_result where
  "zero_result = \<lparr>res_ok = False, res_changed = False, res_snapshot = zero_snapshot, res_error = CONTROL_NONE,
     res_native_error = 0, res_phase = [], res_message = [], res_duration_ms = 0\<rparr>"

section \<open>Steps\<close>

definition now :: "control_host \<Rightarrow> control \<Rightarrow> 64 word \<times> control" where
  "now H c = (host_now H (calls c), c\<lparr>calls := calls c @ [Call_now]\<rparr>)"

definition control_fail :: "control_error \<Rightarrow> string \<Rightarrow> string option \<Rightarrow> int \<Rightarrow> control \<Rightarrow> bool \<times> control" where
  "control_fail e phase msg native c =
     (False, c\<lparr>res := (res c)\<lparr>res_error := e, res_phase := phase,
        res_message := (case msg of None \<Rightarrow> [] | Some t \<Rightarrow> t), res_native_error := native\<rparr>\<rparr>)"

definition backend :: "backend_result \<Rightarrow> string \<Rightarrow> control \<Rightarrow> bool \<times> control" where
  "backend r phase c =
     (if br_ok r then (True, c)
      else control_fail (if br_message r = Some ''unsupported_platform'' then CONTROL_UNSUPPORTED_PLATFORM
                 else CONTROL_BACKEND_FAILURE) phase (br_message r) (br_native_error r) c)"

definition query :: "control_host \<Rightarrow> control_request \<Rightarrow> string \<Rightarrow> control \<Rightarrow> bool \<times> control" where
  "query H req phase c =
     (case host_query H (calls c) (image_name req) of (r, snap) \<Rightarrow>
      case backend r phase (c\<lparr>calls := calls c @ [Call_query (image_name req) r snap]\<rparr>) of
        (False, c') \<Rightarrow> (False, c')
      | (True, c') \<Rightarrow> (True, c'\<lparr>res := (res c')\<lparr>res_snapshot := snap\<rparr>\<rparr>))"

definition expired :: "control_host \<Rightarrow> 64 word \<Rightarrow> 64 word \<Rightarrow> control \<Rightarrow> bool \<times> control" where
  "expired H began budget c = (case now H c of (t, c') \<Rightarrow> (t - began \<ge> budget, c'))"

definition pause_poll :: "control_host \<Rightarrow> 64 word \<Rightarrow> 64 word \<Rightarrow> control \<Rightarrow> control" where
  "pause_poll H began budget c =
     (case now H c of (t, c') \<Rightarrow>
      let elapsed = t - began in
      if elapsed \<ge> budget then c'
      else
        let ms = (budget - elapsed) div ns_per_ms;
            ms = (if ms > poll_interval_ms H then poll_interval_ms H else ms);
            ms = (if ms > 0xFFFFFFFF then 0xFFFFFFFF else ms)
        in c'\<lparr>calls := calls c' @ [Call_sleep (ucast ms)]\<rparr>)"

section \<open>Loops\<close>

text \<open>A loop round works on the value to return and the control state.\<close>

definition poll_stopped_round ::
  "control_host \<Rightarrow> control_request \<Rightarrow> 64 word \<Rightarrow> 64 word \<Rightarrow> string \<Rightarrow> bool \<times> control \<Rightarrow> ((bool \<times> control) + (bool \<times> control)) option" where
  "poll_stopped_round H req began budget phase = (\<lambda>(_, c).
     let timeout = control_fail CONTROL_TIMEOUT phase (Some ''managed process did not reach not_running before the deadline'') 0 in
     case expired H began budget c of
       (True, c) \<Rightarrow> Some (Inr (timeout c))
     | (False, c) \<Rightarrow>
         (case query H req phase c of
            (False, c) \<Rightarrow> Some (Inr (False, c))
          | (True, c) \<Rightarrow>
              (case expired H began budget c of
                 (True, c) \<Rightarrow> Some (Inr (timeout c))
               | (False, c) \<Rightarrow>
                   if \<not> is_running (res_snapshot (res c)) then Some (Inr (True, c))
                   else Some (Inl (False, pause_poll H began budget c)))))"

definition poll_for_stopped ::
  "control_host \<Rightarrow> control_request \<Rightarrow> 64 word \<Rightarrow> 64 word \<Rightarrow> string \<Rightarrow> control \<Rightarrow> (bool \<times> control) option" where
  "poll_for_stopped H req began budget phase c = c_loop (poll_stopped_round H req began budget phase) (False, c)"

text \<open>The poll after a start; \<open>True\<close> is the early return of success, \<open>False\<close> with \<open>CONTROL_NONE\<close> the break.\<close>

datatype start_poll = Poll_return bool | Poll_break

definition poll_started_round ::
  "control_host \<Rightarrow> control_request \<Rightarrow> 64 word \<Rightarrow> 64 word \<Rightarrow> start_poll \<times> control \<Rightarrow>
     ((start_poll \<times> control) + (start_poll \<times> control)) option" where
  "poll_started_round H req began budget = (\<lambda>(_, c).
     case query H req ''start_poll'' c of
       (False, c) \<Rightarrow> Some (Inr (Poll_return False, c))
     | (True, c) \<Rightarrow>
         (case (if is_running (res_snapshot (res c)) then expired H began budget c else (True, c)) of
            (False, c) \<Rightarrow> Some (Inr (Poll_return True, c))
          | (True, c) \<Rightarrow>
              (case expired H began budget c of
                 (True, c) \<Rightarrow> Some (Inr (Poll_break, c))
               | (False, c) \<Rightarrow> Some (Inl (Poll_break, pause_poll H began budget c)))))"

definition start_late :: "control \<Rightarrow> bool \<times> control" where
  "start_late = control_fail CONTROL_TIMEOUT ''start_poll'' (Some ''managed process startup exceeded the deadline'') 0"

text \<open>What follows the break: only the instance that was started is terminated.\<close>

definition start_compensate :: "control_host \<Rightarrow> control_request \<Rightarrow> snapshot \<Rightarrow> control \<Rightarrow> (bool \<times> control) option" where
  "start_compensate H req started c =
     (case query H req ''start_timeout_query'' c of
        (False, c) \<Rightarrow> Some (False, c\<lparr>res := (res c)\<lparr>res_snapshot := started\<rparr>\<rparr>)
      | (True, c) \<Rightarrow>
          if is_running (res_snapshot (res c)) then
            (let r = host_terminate H (calls c) started in
             case backend r ''start_timeout_terminate'' (c\<lparr>calls := calls c @ [Call_terminate started r]\<rparr>) of
               (False, c) \<Rightarrow> Some (False, c)
             | (True, c) \<Rightarrow>
                 (case now H c of (t, c) \<Rightarrow>
                  (case poll_for_stopped H req t (budget_ns (stop_timeout_ms req)) ''start_timeout_cleanup_poll'' c of
                     None \<Rightarrow> None
                   | Some (False, c) \<Rightarrow> Some (False, c)
                   | Some (True, c) \<Rightarrow> Some (start_late c))))
          else Some (start_late c))"

definition start :: "control_host \<Rightarrow> control_request \<Rightarrow> control \<Rightarrow> (bool \<times> control) option" where
  "start H req c =
     (if is_running (res_snapshot (res c)) then Some (True, c)
      else case now H c of (began, c) \<Rightarrow>
        (case host_start H (calls c) req of (r, started) \<Rightarrow>
         case backend r ''start'' (c\<lparr>calls := calls c @ [Call_start req r started]\<rparr>) of
           (False, c) \<Rightarrow> Some (False, c)
         | (True, c) \<Rightarrow>
             let c = c\<lparr>res := (res c)\<lparr>res_snapshot := started, res_changed := True\<rparr>\<rparr> in
             (case c_loop (poll_started_round H req began (budget_ns (startup_timeout_ms req))) (Poll_break, c) of
                None \<Rightarrow> None
              | Some (Poll_return b, c) \<Rightarrow> Some (b, c)
              | Some (Poll_break, c) \<Rightarrow> start_compensate H req started c)))"

definition stop_force :: "control_host \<Rightarrow> control_request \<Rightarrow> control \<Rightarrow> (bool \<times> control) option" where
  "stop_force H req c =
     (let c = c\<lparr>res := (res c)\<lparr>res_error := CONTROL_NONE, res_native_error := 0, res_phase := [], res_message := []\<rparr>\<rparr> in
      case query H req ''force_query'' c of
        (False, c) \<Rightarrow> Some (False, c)
      | (True, c) \<Rightarrow>
          if \<not> is_running (res_snapshot (res c)) then Some (True, c)
          else
            (let target = res_snapshot (res c); r = host_terminate H (calls c) target in
             case backend r ''terminate'' (c\<lparr>calls := calls c @ [Call_terminate target r]\<rparr>) of
               (False, c) \<Rightarrow> Some (False, c)
             | (True, c) \<Rightarrow>
                 (case now H c of (t, c) \<Rightarrow>
                   poll_for_stopped H req t (budget_ns (stop_timeout_ms req)) ''terminate_poll'' c)))"

definition stop :: "control_host \<Rightarrow> control_request \<Rightarrow> control \<Rightarrow> (bool \<times> control) option" where
  "stop H req c =
     (if \<not> is_running (res_snapshot (res c)) then Some (True, c)
      else
        let target = res_snapshot (res c); r = host_request_stop H (calls c) target in
        case backend r ''request_stop'' (c\<lparr>calls := calls c @ [Call_request_stop target r]\<rparr>) of
          (False, c) \<Rightarrow> Some (False, c)
        | (True, c) \<Rightarrow>
            (case now H (c\<lparr>res := (res c)\<lparr>res_changed := True\<rparr>\<rparr>) of (t, c) \<Rightarrow>
             (case poll_for_stopped H req t (budget_ns (stop_timeout_ms req)) ''stop_poll'' c of
                None \<Rightarrow> None
              | Some (True, c) \<Rightarrow> Some (True, c)
              | Some (False, c) \<Rightarrow>
                  if res_error (res c) \<noteq> CONTROL_TIMEOUT \<or> \<not> force_terminate req then Some (False, c)
                  else stop_force H req c)))"

section \<open>Execution\<close>

abbreviation given :: "string option \<Rightarrow> bool" where
  "given t \<equiv> t \<noteq> None \<and> t \<noteq> Some []"

definition request_valid :: "control_request \<Rightarrow> bool" where
  "request_valid req \<longleftrightarrow> operation req \<noteq> None \<and> given (image_name req) \<and>
     startup_timeout_ms req > 0 \<and> stop_timeout_ms req > 0 \<and>
     startup_timeout_ms req \<le> max_timeout_ms \<and> stop_timeout_ms req \<le> max_timeout_ms \<and>
     (operation req \<noteq> Some PROCESS_START \<and> operation req \<noteq> Some PROCESS_RESTART \<or> given (executable req))"

definition restart :: "control_host \<Rightarrow> control_request \<Rightarrow> control \<Rightarrow> (bool \<times> control) option" where
  "restart H req c =
     (case stop H req c of
        None \<Rightarrow> None
      | Some (False, c) \<Rightarrow> Some (False, c)
      | Some (True, c) \<Rightarrow>
          (case query H req ''restart_query'' c of
             (False, c) \<Rightarrow> Some (False, c)
           | (True, c) \<Rightarrow> start H req c))"

definition dispatch :: "control_host \<Rightarrow> control_request \<Rightarrow> control \<Rightarrow> (bool \<times> control) option" where
  "dispatch H req c =
     (case operation req of
        None \<Rightarrow> Some (False, c)
      | Some PROCESS_STATUS \<Rightarrow> Some (True, c)
      | Some PROCESS_START \<Rightarrow> start H req c
      | Some PROCESS_STOP \<Rightarrow> stop H req c
      | Some PROCESS_RESTART \<Rightarrow> restart H req c)"

definition control_run :: "control_host \<Rightarrow> control_request \<Rightarrow> control \<Rightarrow> (bool \<times> control) option" where
  "control_run H req c =
     (if \<not> request_valid req
      then Some (control_fail CONTROL_INVALID_PARAMETERS ''validate'' (Some ''managed process parameters are invalid'') 0 c)
      else case query H req ''query'' c of
        (False, c) \<Rightarrow> Some (False, c)
      | (True, c) \<Rightarrow> dispatch H req c)"

text \<open>\<open>None\<close> when the call does not return; \<open>Inl\<close> for a malformed call.\<close>

definition control_execute :: "control_host \<Rightarrow> control_request \<Rightarrow> control_history \<Rightarrow> (salts_status + control) option" where
  "control_execute H req h =
     (if poll_interval_ms H = 0 then Some (Inl SALTS_EINVAL)
      else case now H \<lparr>calls = h, res = zero_result\<rparr> of (began, c) \<Rightarrow>
        (case control_run H req c of
           None \<Rightarrow> None
         | Some (b, c) \<Rightarrow>
             (case now H (c\<lparr>res := (res c)\<lparr>res_ok := b\<rparr>\<rparr>) of (t, c) \<Rightarrow>
              Some (Inr (c\<lparr>res := (res c)\<lparr>res_duration_ms := (t - began) div ns_per_ms\<rparr>\<rparr>)))))"

section \<open>Which instances are signalled\<close>

text \<open>The instance that the last successful query has reported.\<close>

fun observed :: "control_history \<Rightarrow> snapshot option \<Rightarrow> snapshot option" where
  "observed [] s = s"
| "observed (Call_query _ r snap # h) s = observed h (if br_ok r then Some snap else s)"
| "observed (_ # h) s = observed h s"

abbreviation last_seen :: "control_history \<Rightarrow> snapshot option" where
  "last_seen h \<equiv> observed h None"

text \<open>
  When a call may follow a history: a stop request goes to the running instance that was seen last; a
  termination goes to an instance that this operation has started, or, with the caller's consent and
  after a stop request, to the running instance that was seen last; a start happens when the instance
  seen last was not running.
\<close>

fun call_allowed :: "control_request \<Rightarrow> control_history \<Rightarrow> control_call \<Rightarrow> bool" where
  "call_allowed req h (Call_query img _ _) \<longleftrightarrow> img = image_name req"
| "call_allowed req h (Call_start r _ _) \<longleftrightarrow> r = req \<and> operation req \<in> {Some PROCESS_START, Some PROCESS_RESTART} \<and>
     (\<exists>s. last_seen h = Some s \<and> \<not> is_running s)"
| "call_allowed req h (Call_request_stop s _) \<longleftrightarrow> last_seen h = Some s \<and> is_running s \<and>
     operation req \<in> {Some PROCESS_STOP, Some PROCESS_RESTART}"
| "call_allowed req h (Call_terminate s _) \<longleftrightarrow> (\<exists>r. br_ok r \<and> Call_start req r s \<in> set h) \<or>
     force_terminate req \<and> last_seen h = Some s \<and> is_running s \<and> (\<exists>t r. br_ok r \<and> Call_request_stop t r \<in> set h)"
| "call_allowed req h _ \<longleftrightarrow> True"

fun history_allowed :: "control_request \<Rightarrow> control_history \<Rightarrow> control_history \<Rightarrow> bool" where
  "history_allowed req h [] = True"
| "history_allowed req h (c # cs) = (call_allowed req h c \<and> history_allowed req (h @ [c]) cs)"

lemma observed_append: "observed (h @ h') s = observed h' (observed h s)"
  by (induction h s rule: observed.induct) simp_all

lemma observed_one [simp]:
  "observed [c] s = (case c of Call_query _ r snap \<Rightarrow> if br_ok r then Some snap else s | _ \<Rightarrow> s)"
  by (cases c) simp_all

lemma history_append: "history_allowed req h (a @ b) \<longleftrightarrow> history_allowed req h a \<and> history_allowed req (h @ a) b"
  by (induction a arbitrary: h) auto

text \<open>The calls that change the managed process when they succeed.\<close>

fun mutates :: "control_call \<Rightarrow> bool" where
  "mutates (Call_start _ r _) = br_ok r"
| "mutates (Call_request_stop _ r) = br_ok r"
| "mutates _ = False"

text \<open>
  The invariant of a control state that has made the calls \<open>d\<close> since it was entered: all were allowed,
  and \<open>changed\<close> records whether one of them has taken effect.
\<close>

definition calls_sound :: "control_request \<Rightarrow> control_history \<Rightarrow> control_history \<Rightarrow> control \<Rightarrow> bool" where
  "calls_sound req h d c \<longleftrightarrow> calls c = h @ d \<and> history_allowed req [] d \<and>
     (res_changed (res c) \<longleftrightarrow> (\<exists>x\<in>set d. mutates x))"

text \<open>The result shows the instance that was seen last.\<close>

definition shows_last :: "control_history \<Rightarrow> control \<Rightarrow> bool" where
  "shows_last d c \<longleftrightarrow> last_seen d = Some (res_snapshot (res c))"

text \<open>Calls that only look and wait.\<close>

fun looks :: "control_request \<Rightarrow> control_call \<Rightarrow> bool" where
  "looks req Call_now = True"
| "looks req (Call_sleep _) = True"
| "looks req (Call_query img _ _) = (img = image_name req)"
| "looks req _ = False"

lemma looks_allowed: "looks req x \<Longrightarrow> call_allowed req h x" "looks req x \<Longrightarrow> \<not> mutates x"
  by (cases x; simp)+

definition quietly :: "control_request \<Rightarrow> control \<Rightarrow> control \<Rightarrow> control_history \<Rightarrow> bool" where
  "quietly req c c' e \<longleftrightarrow> calls c' = calls c @ e \<and> list_all (looks req) e \<and> res_changed (res c') = res_changed (res c)"

lemma looks_history: "list_all (looks req) e \<Longrightarrow> history_allowed req h e"
  by (induction e arbitrary: h) (auto intro: looks_allowed)

lemma quietly_sound: "calls_sound req h d c \<Longrightarrow> quietly req c c' e \<Longrightarrow> calls_sound req h (d @ e) c'"
  by (auto simp: calls_sound_def quietly_def history_append looks_history list_all_iff dest: looks_allowed(2))

lemma quietly_refl: "quietly req c c []"
  by (simp add: quietly_def)

lemma quietly_trans: "quietly req c c' e \<Longrightarrow> quietly req c' c'' e' \<Longrightarrow> quietly req c c'' (e @ e')"
  by (simp add: quietly_def)

text \<open>What the elementary steps do, from a state that shows what was seen last or not.\<close>

lemma now_quiet: "now H c = (t, c') \<Longrightarrow> quietly req c c' [Call_now] \<and> res c' = res c"
  by (auto simp: now_def quietly_def)

lemma expired_quiet: "expired H began budget c = (b, c') \<Longrightarrow> quietly req c c' [Call_now] \<and> res c' = res c"
  by (auto simp: expired_def now_def quietly_def)

lemma pause_quiet: "\<exists>e. quietly req c (pause_poll H began budget c) e \<and> observed e s = s \<and> res (pause_poll H began budget c) = res c"
  by (auto simp: pause_poll_def now_def quietly_def Let_def)

lemma query_quiet:
  assumes "query H req phase c = (b, c')"
  shows "\<exists>e. quietly req c c' e \<and>
    (if b then (\<forall>s. observed e s = Some (res_snapshot (res c'))) \<and> res_error (res c') = res_error (res c)
     else (\<forall>s. observed e s = s) \<and> res_snapshot (res c') = res_snapshot (res c) \<and>
       res_error (res c') \<in> {CONTROL_BACKEND_FAILURE, CONTROL_UNSUPPORTED_PLATFORM})"
proof -
  obtain r snap where q: "host_query H (calls c) (image_name req) = (r, snap)" by (cases "host_query H (calls c) (image_name req)")
  show ?thesis
    using assms q by (intro exI [of _ "[Call_query (image_name req) r snap]"])
      (auto simp: query_def backend_def control_fail_def quietly_def split: if_splits)
qed

text \<open>Quiet calls after which the result still shows what was seen last, if it did before.\<close>

definition tracks :: "control_request \<Rightarrow> control \<Rightarrow> control \<Rightarrow> control_history \<Rightarrow> bool" where
  "tracks req c c' e \<longleftrightarrow> quietly req c c' e \<and> observed e (Some (res_snapshot (res c))) = Some (res_snapshot (res c'))"

lemma tracks_refl: "tracks req c c []"
  by (simp add: tracks_def quietly_refl)

lemma tracks_trans: "tracks req c c' e \<Longrightarrow> tracks req c' c'' e' \<Longrightarrow> tracks req c c'' (e @ e')"
  by (simp add: tracks_def quietly_trans [of req c c' e] observed_append)

lemma tracks_shows: "tracks req c c' e \<Longrightarrow> shows_last d c \<Longrightarrow> shows_last (d @ e) c'"
  by (simp add: tracks_def shows_last_def observed_append)

lemma tracks_sound: "tracks req c c' e \<Longrightarrow> calls_sound req h d c \<Longrightarrow> calls_sound req h (d @ e) c'"
  unfolding tracks_def by (blast intro: quietly_sound)

lemma now_tracks: "now H c = (t, c') \<Longrightarrow> tracks req c c' [Call_now] \<and> res c' = res c"
  by (auto simp: tracks_def dest: now_quiet [of _ _ _ _ req])

lemma expired_tracks: "expired H began budget c = (b, c') \<Longrightarrow> tracks req c c' [Call_now] \<and> res c' = res c"
  by (auto simp: tracks_def dest: expired_quiet [of _ _ _ _ _ _ req])

lemma pause_tracks: "\<exists>e. tracks req c (pause_poll H began budget c) e \<and> res (pause_poll H began budget c) = res c"
  using pause_quiet [of req c H began budget] unfolding tracks_def by metis

lemma query_tracks:
  assumes "query H req phase c = (b, c')"
  shows "\<exists>e. tracks req c c' e \<and> (if b then res_error (res c') = res_error (res c)
      else res_error (res c') \<in> {CONTROL_BACKEND_FAILURE, CONTROL_UNSUPPORTED_PLATFORM})"
  using query_quiet [OF assms] unfolding tracks_def by (cases b) force+

definition poll_inv :: "control_request \<Rightarrow> control \<Rightarrow> control \<Rightarrow> bool" where
  "poll_inv req c c' \<longleftrightarrow> (\<exists>e. tracks req c c' e) \<and> res_error (res c') = res_error (res c)"

lemma poll_inv_refl: "poll_inv req c c"
  unfolding poll_inv_def using tracks_refl by blast

lemma poll_inv_step: "poll_inv req c c1 \<Longrightarrow> tracks req c1 c2 e \<Longrightarrow> res_error (res c2) = res_error (res c1) \<Longrightarrow> poll_inv req c c2"
  unfolding poll_inv_def by (metis tracks_trans)

lemma poll_inv_expired: "poll_inv req c c1 \<Longrightarrow> expired H began budget c1 = (b, c2) \<Longrightarrow> poll_inv req c c2"
  using expired_tracks poll_inv_step by metis

lemma poll_inv_pause: "poll_inv req c c1 \<Longrightarrow> poll_inv req c (pause_poll H began budget c1)"
  using pause_tracks poll_inv_step by metis

lemma poll_inv_query: "poll_inv req c c1 \<Longrightarrow> query H req phase c1 = (True, c2) \<Longrightarrow> poll_inv req c c2"
  using query_tracks [of H req phase c1 True c2] poll_inv_step by auto

lemma poll_inv_query_failed:
  assumes "poll_inv req c c1" and "query H req phase c1 = (False, c2)"
  shows "(\<exists>e. tracks req c c2 e) \<and> res_error (res c2) \<in> {CONTROL_BACKEND_FAILURE, CONTROL_UNSUPPORTED_PLATFORM}"
  using assms query_tracks [OF assms(2)] tracks_trans unfolding poll_inv_def by (metis (full_types))

lemma fail_tracks: "tracks req c c' e \<Longrightarrow> tracks req c (snd (control_fail err phase msg n c')) e"
  by (simp add: tracks_def quietly_def control_fail_def)

text \<open>A poll that returns success has just seen that the process is not running.\<close>

definition poll_result :: "control_request \<Rightarrow> control \<Rightarrow> bool \<times> control \<Rightarrow> bool" where
  "poll_result req c r \<longleftrightarrow> (\<exists>e. tracks req c (snd r) e) \<and>
    (if fst r then res_error (res (snd r)) = res_error (res c) \<and> \<not> is_running (res_snapshot (res (snd r)))
     else res_error (res (snd r)) \<in> {CONTROL_TIMEOUT, CONTROL_BACKEND_FAILURE, CONTROL_UNSUPPORTED_PLATFORM})"

lemma poll_result_late: "poll_inv req c c1 \<Longrightarrow> poll_result req c (control_fail CONTROL_TIMEOUT phase msg 0 c1)"
  using fail_tracks [of req c c1 _ CONTROL_TIMEOUT phase msg 0]
  unfolding poll_inv_def poll_result_def by (auto simp: control_fail_def)

lemma poll_result_query: "poll_inv req c c1 \<Longrightarrow> query H req phase c1 = (False, c2) \<Longrightarrow> poll_result req c (False, c2)"
  using poll_inv_query_failed unfolding poll_result_def by fastforce

lemma poll_result_ok: "poll_inv req c c1 \<Longrightarrow> \<not> is_running (res_snapshot (res c1)) \<Longrightarrow> poll_result req c (True, c1)"
  unfolding poll_result_def poll_inv_def by simp

lemma poll_stopped_round_cases:
  assumes "poll_inv req c c1"
  shows "(\<exists>c2. poll_stopped_round H req began budget phase (b, c1) = Some (Inl (False, c2)) \<and> poll_inv req c c2) \<or>
    (\<exists>t. poll_stopped_round H req began budget phase (b, c1) = Some (Inr t) \<and> poll_result req c t)"
proof -
  obtain x1 c2 where e1: "expired H began budget c1 = (x1, c2)" by fastforce
  obtain x2 c3 where q: "query H req phase c2 = (x2, c3)" by fastforce
  obtain x3 c4 where e2: "expired H began budget c3 = (x3, c4)" by fastforce
  have I2: "poll_inv req c c2" using poll_inv_expired [OF assms e1] .
  have I4: "x2 \<Longrightarrow> poll_inv req c c4" using poll_inv_query [OF I2] q poll_inv_expired [OF _ e2] by simp
  have round: "poll_stopped_round H req began budget phase (b, c1) =
      (let late = control_fail CONTROL_TIMEOUT phase (Some ''managed process did not reach not_running before the deadline'') 0 in
       if x1 then Some (Inr (late c2)) else if \<not> x2 then Some (Inr (False, c3)) else if x3 then Some (Inr (late c4))
       else if \<not> is_running (res_snapshot (res c4)) then Some (Inr (True, c4)) else Some (Inl (False, pause_poll H began budget c4)))"
    using e1 q e2 by (cases x1; cases x2; cases x3) (simp_all add: poll_stopped_round_def)
  show ?thesis unfolding round Let_def
    using poll_result_late [OF I2] poll_result_query [OF I2] q poll_result_late [OF I4] poll_result_ok [OF I4] poll_inv_pause [OF I4]
    by (cases x1; cases x2; cases x3) auto
qed

lemma poll_stopped_spec:
  assumes "poll_for_stopped H req began budget phase c = Some r"
  shows "poll_result req c r"
proof (rule c_loop_partial [OF assms [unfolded poll_for_stopped_def], where I = "\<lambda>(_, c1). poll_inv req c c1"])
  show "case (False, c) of (_, c1) \<Rightarrow> poll_inv req c c1" by (simp add: poll_inv_refl)
next
  fix s s' assume "case s of (_, c1) \<Rightarrow> poll_inv req c c1" and "poll_stopped_round H req began budget phase s = Some (Inl s')"
  then show "case s' of (_, c1) \<Rightarrow> poll_inv req c c1"
    using poll_stopped_round_cases [of req c "snd s" H began budget phase "fst s"] by (cases s) auto
next
  fix s t assume "case s of (_, c1) \<Rightarrow> poll_inv req c c1" and "poll_stopped_round H req began budget phase s = Some (Inr t)"
  then show "poll_result req c t"
    using poll_stopped_round_cases [of req c "snd s" H began budget phase "fst s"] by (cases s) auto
qed

text \<open>Quiet calls that ended with a successful query: the result shows what it saw.\<close>

definition fresh_look :: "control_request \<Rightarrow> control \<Rightarrow> control \<Rightarrow> bool" where
  "fresh_look req c c' \<longleftrightarrow> (\<exists>e. quietly req c c' e \<and> (\<forall>s. observed e s = Some (res_snapshot (res c')))) \<and>
     res_error (res c') = res_error (res c)"

definition quiet_inv :: "control_request \<Rightarrow> control \<Rightarrow> control \<Rightarrow> bool" where
  "quiet_inv req c c' \<longleftrightarrow> (\<exists>e. quietly req c c' e) \<and> res_error (res c') = res_error (res c)"

lemma fresh_look_quiet: "fresh_look req c c' \<Longrightarrow> quiet_inv req c c'"
  by (auto simp: fresh_look_def quiet_inv_def)

lemma fresh_look_expired:
  assumes "fresh_look req c c1" and "expired H began budget c1 = (b, c2)"
  shows "fresh_look req c c2"
proof -
  obtain e where e: "quietly req c c1 e" "\<forall>s. observed e s = Some (res_snapshot (res c1))" "res_error (res c1) = res_error (res c)"
    using assms(1) unfolding fresh_look_def by blast
  have "quietly req c1 c2 [Call_now]" "res c2 = res c1" using expired_quiet [OF assms(2), of req] by auto
  then show ?thesis using e quietly_trans [OF e(1)] unfolding fresh_look_def
    by (intro conjI exI [of _ "e @ [Call_now]"]) (auto simp: observed_append)
qed

lemma quiet_inv_query:
  assumes "quiet_inv req c c1" and "query H req phase c1 = (b, c2)"
  shows "if b then fresh_look req c c2
    else (\<exists>e. quietly req c c2 e) \<and> res_error (res c2) \<in> {CONTROL_BACKEND_FAILURE, CONTROL_UNSUPPORTED_PLATFORM}"
proof -
  obtain e1 where e1: "quietly req c c1 e1" "res_error (res c1) = res_error (res c)" using assms(1) unfolding quiet_inv_def by blast
  obtain e2 where e2: "quietly req c1 c2 e2" and r: "if b then (\<forall>s. observed e2 s = Some (res_snapshot (res c2))) \<and> res_error (res c2) = res_error (res c1)
     else (\<forall>s. observed e2 s = s) \<and> res_snapshot (res c2) = res_snapshot (res c1) \<and>
       res_error (res c2) \<in> {CONTROL_BACKEND_FAILURE, CONTROL_UNSUPPORTED_PLATFORM}"
    using query_quiet [OF assms(2)] by blast
  have q: "quietly req c c2 (e1 @ e2)" using quietly_trans [OF e1(1) e2] .
  then show ?thesis using r e1(2) unfolding fresh_look_def by (cases b) (auto simp: observed_append intro!: exI [of _ "e1 @ e2"])
qed

lemma quiet_inv_pause: "quiet_inv req c c1 \<Longrightarrow> quiet_inv req c (pause_poll H began budget c1)"
  using pause_quiet [of req c1 H began budget] quietly_trans unfolding quiet_inv_def by metis

text \<open>The poll after a start.\<close>

definition start_poll_result :: "control_request \<Rightarrow> control \<Rightarrow> start_poll \<times> control \<Rightarrow> bool" where
  "start_poll_result req c r =
     (case fst r of
        Poll_return True \<Rightarrow> fresh_look req c (snd r) \<and> is_running (res_snapshot (res (snd r)))
      | Poll_return False \<Rightarrow> (\<exists>e. quietly req c (snd r) e) \<and>
          res_error (res (snd r)) \<in> {CONTROL_BACKEND_FAILURE, CONTROL_UNSUPPORTED_PLATFORM}
      | Poll_break \<Rightarrow> fresh_look req c (snd r))"

lemma poll_started_round_cases:
  assumes "quiet_inv req c c1"
  shows "(\<exists>c2. poll_started_round H req began budget (b, c1) = Some (Inl (Poll_break, c2)) \<and> quiet_inv req c c2) \<or>
    (\<exists>t. poll_started_round H req began budget (b, c1) = Some (Inr t) \<and> start_poll_result req c t)"
proof -
  obtain x1 c2 where q: "query H req ''start_poll'' c1 = (x1, c2)" by fastforce
  note look = quiet_inv_query [OF assms q]
  show ?thesis
  proof (cases x1)
    case False
    then show ?thesis using q look by (simp add: poll_started_round_def start_poll_result_def)
  next
    case True
    obtain x2 c3 where e1: "(if is_running (res_snapshot (res c2)) then expired H began budget c2 else (True, c2)) = (x2, c3)" by fastforce
    have f3: "fresh_look req c c3" using look True e1 fresh_look_expired by (auto split: if_splits)
    have run: "\<not> x2 \<Longrightarrow> is_running (res_snapshot (res c3))"
      using e1 expired_quiet [of H began budget c2 x2 c3] by (auto split: if_splits)
    obtain x3 c4 where e2: "expired H began budget c3 = (x3, c4)" by fastforce
    have f4: "fresh_look req c c4" using fresh_look_expired [OF f3 e2] .
    have round: "poll_started_round H req began budget (b, c1) =
        (if \<not> x2 then Some (Inr (Poll_return True, c3)) else if x3 then Some (Inr (Poll_break, c4))
         else Some (Inl (Poll_break, pause_poll H began budget c4)))"
      using q True e1 e2 by (cases x2; cases x3) (simp_all add: poll_started_round_def)
    show ?thesis unfolding round using f3 run f4 quiet_inv_pause [OF fresh_look_quiet [OF f4]]
      by (cases x2; cases x3) (auto simp: start_poll_result_def)
  qed
qed

lemma poll_started_spec:
  assumes "c_loop (poll_started_round H req began budget) (Poll_break, c) = Some r"
  shows "start_poll_result req c r"
proof (rule c_loop_partial [OF assms, where I = "\<lambda>(_, c1). quiet_inv req c c1"])
  show "case (Poll_break, c) of (_, c1) \<Rightarrow> quiet_inv req c c1" using quietly_refl by (auto simp: quiet_inv_def)
next
  fix s s' assume "case s of (_, c1) \<Rightarrow> quiet_inv req c c1" and "poll_started_round H req began budget s = Some (Inl s')"
  then show "case s' of (_, c1) \<Rightarrow> quiet_inv req c c1"
    using poll_started_round_cases [of req c "snd s" H began budget "fst s"] by (cases s) auto
next
  fix s t assume "case s of (_, c1) \<Rightarrow> quiet_inv req c c1" and "poll_started_round H req began budget s = Some (Inr t)"
  then show "start_poll_result req c t"
    using poll_started_round_cases [of req c "snd s" H began budget "fst s"] by (cases s) auto
qed

section \<open>What an operation leaves\<close>

text \<open>
  After an operation: the calls are sound; success means no error and a result that shows the instance
  seen last, with the given running state; failure means an error.
\<close>

definition outcome :: "control_request \<Rightarrow> control_history \<Rightarrow> bool \<Rightarrow> bool \<times> control \<Rightarrow> bool" where
  "outcome req h up r \<longleftrightarrow> (\<exists>d. calls_sound req h d (snd r) \<and>
     (if fst r then res_error (res (snd r)) = CONTROL_NONE \<and> shows_last d (snd r) \<and> is_running (res_snapshot (res (snd r))) = up
      else res_error (res (snd r)) \<noteq> CONTROL_NONE))"

text \<open>A backend call that was allowed.\<close>

lemma backend_sound:
  assumes "calls_sound req h d c" and "call_allowed req d x" and "backend r phase (c\<lparr>calls := calls c @ [x]\<rparr>) = (b, c')"
    and "mutates x \<longrightarrow> br_ok r \<and> res_changed (res c2)" and "\<not> mutates x \<longrightarrow> res_changed (res c2) = res_changed (res c)"
    and "calls c2 = calls c'"
  shows "calls_sound req h (d @ [x]) c2"
  using assms by (auto simp: calls_sound_def history_append backend_def control_fail_def split: if_splits)

lemma backend_fields:
  "backend r phase c = (b, c') \<Longrightarrow> b = br_ok r \<and> calls c' = calls c \<and> res_changed (res c') = res_changed (res c) \<and>
     (b \<longrightarrow> c' = c) \<and> (\<not> b \<longrightarrow> res_error (res c') \<in> {CONTROL_BACKEND_FAILURE, CONTROL_UNSUPPORTED_PLATFORM})"
  by (auto simp: backend_def control_fail_def split: if_splits)

text \<open>A call that was made and recorded, whether the backend succeeded or not.\<close>

lemma called_sound:
  assumes "calls_sound req h d c" and "call_allowed req d x" and "calls c' = calls c @ [x]"
    and "res_changed (res c') = (mutates x \<or> res_changed (res c))"
  shows "calls_sound req h (d @ [x]) c'"
  using assms by (auto simp: calls_sound_def history_append)

lemma fail_outcome:
  assumes "calls_sound req h d c" and "err \<noteq> CONTROL_NONE"
  shows "outcome req h up (control_fail err phase msg n c)"
  using assms by (auto simp: outcome_def control_fail_def calls_sound_def)

lemma poll_outcome:
  assumes sound: "calls_sound req h d c" and shows_c: "shows_last d c" and err: "res_error (res c) = CONTROL_NONE"
    and poll: "poll_result req c r"
  shows "outcome req h False r"
proof -
  obtain e where e: "tracks req c (snd r) e" using poll unfolding poll_result_def by blast
  show ?thesis using poll err tracks_sound [OF e sound] tracks_shows [OF e shows_c]
    unfolding outcome_def poll_result_def by (intro exI [of _ "d @ e"]) auto
qed

lemma poll_now_outcome:
  assumes "calls_sound req h d c" and "shows_last d c" and "res_error (res c) = CONTROL_NONE"
    and n: "now H c = (t, c1)" and "poll_for_stopped H req t budget phase c1 = Some r"
  shows "outcome req h False r"
proof -
  have tr: "tracks req c c1 [Call_now]" "res c1 = res c" using now_tracks [OF n] by auto
  show ?thesis
    using poll_outcome [OF tracks_sound [OF tr(1) assms(1)] tracks_shows [OF tr(1) assms(2)] _ poll_stopped_spec [OF assms(5)]]
      assms(3) tr(2) by simp
qed

lemma sound_any_res: "calls_sound req h d c \<Longrightarrow> res_changed (res c') = res_changed (res c) \<Longrightarrow> calls c' = calls c \<Longrightarrow> calls_sound req h d c'"
  by (simp add: calls_sound_def)

text \<open>What a query leaves of a sound state that shows the last instance.\<close>

lemma query_sound:
  assumes "calls_sound req h d c" and "query H req phase c = (b, c')"
  obtains e where "calls_sound req h (d @ e) c'" "set d \<subseteq> set (d @ e)"
    "b \<Longrightarrow> shows_last (d @ e) c'" "b \<Longrightarrow> res_error (res c') = res_error (res c)"
    "\<not> b \<Longrightarrow> res_error (res c') \<in> {CONTROL_BACKEND_FAILURE, CONTROL_UNSUPPORTED_PLATFORM}"
proof -
  obtain e where e: "quietly req c c' e" "if b then (\<forall>s. observed e s = Some (res_snapshot (res c'))) \<and> res_error (res c') = res_error (res c)
     else (\<forall>s. observed e s = s) \<and> res_snapshot (res c') = res_snapshot (res c) \<and>
       res_error (res c') \<in> {CONTROL_BACKEND_FAILURE, CONTROL_UNSUPPORTED_PLATFORM}"
    using query_quiet [OF assms(2)] by blast
  show thesis using that [of e] e quietly_sound [OF assms(1) e(1)] by (cases b) (auto simp: shows_last_def observed_append)
qed

lemma stop_force_outcome:
  assumes sound: "calls_sound req h d c" and force: "force_terminate req"
    and asked: "br_ok r0" "Call_request_stop t0 r0 \<in> set d" and run: "stop_force H req c = Some r"
  shows "outcome req h False r"
proof -
  let ?c = "c\<lparr>res := (res c)\<lparr>res_error := CONTROL_NONE, res_native_error := 0, res_phase := [], res_message := []\<rparr>\<rparr>"
  have s0: "calls_sound req h d ?c" using sound by (rule sound_any_res) simp_all
  obtain b c1 where q: "query H req ''force_query'' ?c = (b, c1)" by fastforce
  obtain e where e: "calls_sound req h (d @ e) c1" "set d \<subseteq> set (d @ e)" "b \<Longrightarrow> shows_last (d @ e) c1"
    "b \<Longrightarrow> res_error (res c1) = CONTROL_NONE" "\<not> b \<Longrightarrow> res_error (res c1) \<in> {CONTROL_BACKEND_FAILURE, CONTROL_UNSUPPORTED_PLATFORM}"
    using query_sound [OF s0 q] by auto
  consider (failed) "\<not> b" | (down) "b" "\<not> is_running (res_snapshot (res c1))" | (up) "b" "is_running (res_snapshot (res c1))" by blast
  then show ?thesis
  proof cases
    case failed
    then show ?thesis using run q e(1,5) by (auto simp: stop_force_def outcome_def)
  next
    case down
    then show ?thesis using run q e by (auto simp: stop_force_def outcome_def)
  next
    case up
    let ?t = "res_snapshot (res c1)" and ?r = "host_terminate H (calls c1) (res_snapshot (res c1))"
    obtain b2 c2 where k: "backend ?r ''terminate'' (c1\<lparr>calls := calls c1 @ [Call_terminate ?t ?r]\<rparr>) = (b2, c2)" by fastforce
    note f = backend_fields [OF k]
    have "call_allowed req (d @ e) (Call_terminate ?t ?r)"
      using up e(2,3) force asked by (auto simp: shows_last_def)
    then have s2: "calls_sound req h (d @ e @ [Call_terminate ?t ?r]) c2"
      using called_sound [OF e(1), of "Call_terminate ?t ?r" c2] f by simp
    show ?thesis
    proof (cases b2)
      case False
      then show ?thesis using run q up k s2 f by (auto simp: stop_force_def outcome_def Let_def)
    next
      case True
      then have c2: "shows_last (d @ e @ [Call_terminate ?t ?r]) c2" "res_error (res c2) = CONTROL_NONE"
        using f e(3,4) up by (auto simp: shows_last_def observed_append)
      obtain t c3 where n: "now H c2 = (t, c3)" by fastforce
      have "poll_for_stopped H req t (budget_ns (stop_timeout_ms req)) ''terminate_poll'' c3 = Some r"
        using run q up k True n by (simp add: stop_force_def Let_def)
      then show ?thesis by (rule poll_now_outcome [OF s2 c2 n])
    qed
  qed
qed

lemma stop_outcome:
  assumes sound: "calls_sound req h d c" and last: "shows_last d c" and err: "res_error (res c) = CONTROL_NONE"
    and op: "operation req \<in> {Some PROCESS_STOP, Some PROCESS_RESTART}" and run: "stop H req c = Some r"
  shows "outcome req h False r"
proof (cases "is_running (res_snapshot (res c))")
  case False
  then show ?thesis using run sound last err by (auto simp: stop_def outcome_def)
next
  case up: True
  let ?t = "res_snapshot (res c)" and ?r = "host_request_stop H (calls c) (res_snapshot (res c))"
  let ?d = "d @ [Call_request_stop ?t ?r]"
  obtain b1 c1 where k: "backend ?r ''request_stop'' (c\<lparr>calls := calls c @ [Call_request_stop ?t ?r]\<rparr>) = (b1, c1)" by fastforce
  note f = backend_fields [OF k]
  have allowed: "call_allowed req d (Call_request_stop ?t ?r)" using last up op by (simp add: shows_last_def)
  show ?thesis
  proof (cases b1)
    case False
    then have "calls_sound req h ?d c1" using called_sound [OF sound allowed, of c1] f by simp
    then show ?thesis using run up k False f by (auto simp: stop_def outcome_def Let_def)
  next
    case True
    let ?c = "c1\<lparr>res := (res c1)\<lparr>res_changed := True\<rparr>\<rparr>"
    have s1: "calls_sound req h ?d ?c" using called_sound [OF sound allowed, of ?c] f True by simp
    have l1: "shows_last ?d ?c" "res_error (res ?c) = CONTROL_NONE"
      using f True last err by (auto simp: shows_last_def observed_append)
    obtain t c2 where n: "now H ?c = (t, c2)" by fastforce
    obtain b3 c3 where p: "poll_for_stopped H req t (budget_ns (stop_timeout_ms req)) ''stop_poll'' c2 = Some (b3, c3)"
      using run up k True n by (auto simp: stop_def Let_def split: option.splits)
    note out = poll_now_outcome [OF s1 l1 n p]
    show ?thesis
    proof (cases "b3 \<or> res_error (res c3) \<noteq> CONTROL_TIMEOUT \<or> \<not> force_terminate req")
      case True
      then have "r = (b3, c3)" using run up k \<open>b1\<close> n p by (cases b3) (auto simp: stop_def Let_def)
      then show ?thesis using out by simp
    next
      case False
      then have force: "stop_force H req c3 = Some r" "force_terminate req" using run up k \<open>b1\<close> n p by (auto simp: stop_def Let_def)
      obtain e where "tracks req c2 c3 e" using poll_stopped_spec [OF p] by (auto simp: poll_result_def)
      then have "calls_sound req h (?d @ ([Call_now] @ e)) c3"
        using tracks_sound [OF tracks_trans, of req ?c c2 "[Call_now]" c3 e h ?d] now_tracks [OF n, of req] s1 by blast
      from stop_force_outcome [OF this force(2) _ _ force(1)] show ?thesis using f \<open>b1\<close> by auto
    qed
  qed
qed

lemma late_outcome: "calls_sound req h d c \<Longrightarrow> outcome req h up (start_late c)"
  unfolding start_late_def by (rule fail_outcome) simp_all

lemma failed_outcome: "calls_sound req h d c \<Longrightarrow> res_error (res c) \<noteq> CONTROL_NONE \<Longrightarrow> outcome req h up (False, c)"
  by (auto simp: outcome_def)

text \<open>The compensation never succeeds; it terminates only the instance that was started.\<close>

lemma start_compensate_outcome:
  assumes sound: "calls_sound req h d c" and started: "br_ok r0" "Call_start req r0 started \<in> set d"
    and run: "start_compensate H req started c = Some r" and last: "shows_last d c" and err: "res_error (res c) = CONTROL_NONE"
  shows "outcome req h True r"
proof -
  obtain b c1 where q: "query H req ''start_timeout_query'' c = (b, c1)" by fastforce
  obtain e where e: "calls_sound req h (d @ e) c1" "set d \<subseteq> set (d @ e)" "b \<Longrightarrow> shows_last (d @ e) c1"
    "b \<Longrightarrow> res_error (res c1) = CONTROL_NONE" "\<not> b \<Longrightarrow> res_error (res c1) \<in> {CONTROL_BACKEND_FAILURE, CONTROL_UNSUPPORTED_PLATFORM}"
    using query_sound [OF sound q] err by auto
  consider (failed) "\<not> b" | (down) "b" "\<not> is_running (res_snapshot (res c1))" | (up) "b" "is_running (res_snapshot (res c1))" by blast
  then show ?thesis
  proof cases
    case failed
    let ?c = "c1\<lparr>res := (res c1)\<lparr>res_snapshot := started\<rparr>\<rparr>"
    have "calls_sound req h (d @ e) ?c" using e(1) by (rule sound_any_res) simp_all
    then show ?thesis using run q e(5) failed by (auto simp: start_compensate_def intro!: failed_outcome)
  next
    case down
    then show ?thesis using run q late_outcome [OF e(1)] by (auto simp: start_compensate_def)
  next
    case up
    let ?r = "host_terminate H (calls c1) started"
    obtain b2 c2 where k: "backend ?r ''start_timeout_terminate'' (c1\<lparr>calls := calls c1 @ [Call_terminate started ?r]\<rparr>) = (b2, c2)" by fastforce
    note f = backend_fields [OF k]
    have "call_allowed req (d @ e) (Call_terminate started ?r)" using started by auto
    then have s2: "calls_sound req h (d @ e @ [Call_terminate started ?r]) c2"
      using called_sound [OF e(1), of "Call_terminate started ?r" c2] f by simp
    show ?thesis
    proof (cases b2)
      case False
      then show ?thesis using run q up k f failed_outcome [OF s2] by (auto simp: start_compensate_def Let_def)
    next
      case True
      then have c2: "shows_last (d @ e @ [Call_terminate started ?r]) c2" "res_error (res c2) = CONTROL_NONE"
        using f e(3,4) up by (auto simp: shows_last_def observed_append)
      obtain t c3 where n: "now H c2 = (t, c3)" by fastforce
      obtain b4 c4 where p: "poll_for_stopped H req t (budget_ns (stop_timeout_ms req)) ''start_timeout_cleanup_poll'' c3 = Some (b4, c4)"
        using run q up k True n by (auto simp: start_compensate_def Let_def split: option.splits)
      have "outcome req h False (b4, c4)" by (rule poll_now_outcome [OF s2 c2 n p])
      then show ?thesis using run q up k True n p
        by (cases b4) (auto simp: start_compensate_def Let_def outcome_def [of req h False] intro: late_outcome failed_outcome)
    qed
  qed
qed

lemma start_outcome:
  assumes sound: "calls_sound req h d c" and last: "shows_last d c" and err: "res_error (res c) = CONTROL_NONE"
    and op: "operation req \<in> {Some PROCESS_START, Some PROCESS_RESTART}" and run: "start H req c = Some r"
  shows "outcome req h True r"
proof (cases "is_running (res_snapshot (res c))")
  case True
  then show ?thesis using run sound last err by (auto simp: start_def outcome_def)
next
  case down: False
  obtain began c0 where n: "now H c = (began, c0)" by fastforce
  note tr = now_tracks [OF n, of req]
  have s0: "calls_sound req h (d @ [Call_now]) c0" and l0: "shows_last (d @ [Call_now]) c0"
    using tr tracks_sound [OF _ sound] tracks_shows [OF _ last] by blast+
  obtain rb started where hs: "host_start H (calls c0) req = (rb, started)" by fastforce
  let ?d = "(d @ [Call_now]) @ [Call_start req rb started]"
  obtain b1 c1 where k: "backend rb ''start'' (c0\<lparr>calls := calls c0 @ [Call_start req rb started]\<rparr>) = (b1, c1)" by fastforce
  note f = backend_fields [OF k]
  have allowed: "call_allowed req (d @ [Call_now]) (Call_start req rb started)"
    using l0 op down tr by (simp add: shows_last_def)
  show ?thesis
  proof (cases b1)
    case False
    then have "calls_sound req h ?d c1" using called_sound [OF s0 allowed, of c1] f by simp
    then show ?thesis using run down n hs k False f by (auto simp: start_def intro: failed_outcome)
  next
    case True
    let ?c = "c1\<lparr>res := (res c1)\<lparr>res_snapshot := started, res_changed := True\<rparr>\<rparr>"
    have s1: "calls_sound req h ?d ?c" using called_sound [OF s0 allowed, of ?c] f True by simp
    have e1: "res_error (res ?c) = CONTROL_NONE" using f True err tr by simp
    obtain p c2 where p: "c_loop (poll_started_round H req began (budget_ns (startup_timeout_ms req))) (Poll_break, ?c) = Some (p, c2)"
      using run down n hs k True by (auto simp: start_def Let_def split: option.splits)
    note spec = poll_started_spec [OF p]
    obtain e where e: "quietly req ?c c2 e" using spec by (auto simp: start_poll_result_def fresh_look_def split: start_poll.splits bool.splits)
    have s2: "calls_sound req h (?d @ e) c2" by (rule quietly_sound [OF s1 e])
    show ?thesis
    proof (cases p)
      case (Poll_return b)
      then have "r = (b, c2)" using run down n hs k True p by (simp add: start_def Let_def)
      then show ?thesis using spec Poll_return s1 e1 s2
        by (cases b) (fastforce simp: start_poll_result_def outcome_def fresh_look_def shows_last_def observed_append dest: quietly_sound)+
    next
      case Poll_break
      then have c: "start_compensate H req started c2 = Some r" using run down n hs k True p by (simp add: start_def Let_def)
      obtain e2 where e2: "quietly req ?c c2 e2" "\<forall>s. observed e2 s = Some (res_snapshot (res c2))" "res_error (res c2) = CONTROL_NONE"
        using spec Poll_break e1 by (auto simp: start_poll_result_def fresh_look_def)
      have "shows_last (?d @ e2) c2" using e2(2) by (simp add: shows_last_def observed_append)
      from start_compensate_outcome [OF quietly_sound [OF s1 e2(1)] _ _ c this e2(3)] show ?thesis using f True by auto
    qed
  qed
qed

lemma restart_outcome:
  assumes sound: "calls_sound req h d c" and last: "shows_last d c" and err: "res_error (res c) = CONTROL_NONE"
    and op: "operation req = Some PROCESS_RESTART" and run: "restart H req c = Some r"
  shows "outcome req h True r"
proof -
  obtain b1 c1 where st: "stop H req c = Some (b1, c1)" using run by (auto simp: restart_def split: option.splits)
  have "outcome req h False (b1, c1)" using stop_outcome [OF sound last err _ st] op by simp
  then obtain d1 where d1: "calls_sound req h d1 c1" "b1 \<Longrightarrow> res_error (res c1) = CONTROL_NONE" "\<not> b1 \<Longrightarrow> res_error (res c1) \<noteq> CONTROL_NONE"
    by (auto simp: outcome_def split: if_splits)
  show ?thesis
  proof (cases b1)
    case False
    then show ?thesis using run st d1 by (auto simp: restart_def intro: failed_outcome)
  next
    case True
    obtain b2 c2 where q: "query H req ''restart_query'' c1 = (b2, c2)" by fastforce
    obtain e where e: "calls_sound req h (d1 @ e) c2" "b2 \<Longrightarrow> shows_last (d1 @ e) c2" "b2 \<Longrightarrow> res_error (res c2) = CONTROL_NONE"
      "\<not> b2 \<Longrightarrow> res_error (res c2) \<in> {CONTROL_BACKEND_FAILURE, CONTROL_UNSUPPORTED_PLATFORM}"
      using query_sound [OF d1(1) q] d1(2) True by auto
    show ?thesis
    proof (cases b2)
      case False
      then show ?thesis using run st True q e by (auto simp: restart_def intro!: failed_outcome)
    next
      case b2: True
      then have "start H req c2 = Some r" using run st True q by (simp add: restart_def)
      then show ?thesis using start_outcome [OF e(1,2,3)] b2 op by simp
    qed
  qed
qed

lemma run_outcome:
  assumes valid: "request_valid req" and run: "control_run H req \<lparr>calls = h @ [Call_now], res = zero_result\<rparr> = Some r"
  shows "\<exists>d. calls_sound req h d (snd r) \<and>
    (if fst r then res_error (res (snd r)) = CONTROL_NONE \<and> shows_last d (snd r) \<and>
       (operation req \<in> {Some PROCESS_START, Some PROCESS_RESTART} \<longrightarrow> is_running (res_snapshot (res (snd r)))) \<and>
       (operation req = Some PROCESS_STOP \<longrightarrow> \<not> is_running (res_snapshot (res (snd r))))
     else res_error (res (snd r)) \<noteq> CONTROL_NONE)"
proof -
  let ?c = "\<lparr>calls = h @ [Call_now], res = zero_result\<rparr>"
  have s0: "calls_sound req h [Call_now] ?c" by (simp add: calls_sound_def zero_result_def)
  obtain b c1 where q: "query H req ''query'' ?c = (b, c1)" by fastforce
  obtain e where e: "calls_sound req h ([Call_now] @ e) c1" "b \<Longrightarrow> shows_last ([Call_now] @ e) c1"
    "b \<Longrightarrow> res_error (res c1) = CONTROL_NONE" "\<not> b \<Longrightarrow> res_error (res c1) \<in> {CONTROL_BACKEND_FAILURE, CONTROL_UNSUPPORTED_PLATFORM}"
    using query_sound [OF s0 q] by (auto simp: zero_result_def)
  show ?thesis
  proof (cases b)
    case False
    then show ?thesis using run valid q e by (auto simp: control_run_def)
  next
    case True
    then have d: "dispatch H req c1 = Some r" using run valid q by (simp add: control_run_def)
    consider (status) "operation req = Some PROCESS_STATUS" | (start) "operation req = Some PROCESS_START"
      | (stop) "operation req = Some PROCESS_STOP" | (restart) "operation req = Some PROCESS_RESTART"
      using valid by (cases "operation req") (auto simp: request_valid_def intro: process_operation.exhaust)
    then show ?thesis
    proof cases
      case status
      then show ?thesis using d e True by (auto simp: dispatch_def)
    next
      case start
      then have "outcome req h True r" using start_outcome [OF e(1,2,3)] True d by (simp add: dispatch_def)
      then show ?thesis using start by (auto simp: outcome_def)
    next
      case stop
      then have "outcome req h False r" using stop_outcome [OF e(1,2,3)] True d by (simp add: dispatch_def)
      then show ?thesis using stop by (auto simp: outcome_def)
    next
      case restart
      then have "outcome req h True r" using restart_outcome [OF e(1,2,3)] True d by (simp add: dispatch_def)
      then show ?thesis using restart by (auto simp: outcome_def)
    qed
  qed
qed

text \<open>An execution that returns: the run between its two readings of the clock.\<close>

lemma execute_cases:
  assumes "control_execute H req h = Some (Inr c)"
  obtains r where "control_run H req \<lparr>calls = h @ [Call_now], res = zero_result\<rparr> = Some r"
    "calls c = calls (snd r) @ [Call_now]" "\<exists>t. res c = (res (snd r))\<lparr>res_ok := fst r, res_duration_ms := t\<rparr>"
  using assms by (fastforce simp: control_execute_def now_def split: if_splits option.splits prod.splits)

lemma invalid_run:
  "\<not> request_valid req \<Longrightarrow> control_run H req c = Some r \<Longrightarrow>
   calls (snd r) = calls c \<and> \<not> fst r \<and> res_error (res (snd r)) = CONTROL_INVALID_PARAMETERS \<and>
   res_changed (res (snd r)) = res_changed (res c)"
  by (auto simp: control_run_def control_fail_def)

lemma execute_sound:
  assumes "control_execute H req h = Some (Inr c)"
  shows "\<exists>d. calls_sound req h d c \<and>
    (if res_ok (res c) then request_valid req \<and> res_error (res c) = CONTROL_NONE \<and> shows_last d c \<and>
       (operation req \<in> {Some PROCESS_START, Some PROCESS_RESTART} \<longrightarrow> is_running (res_snapshot (res c))) \<and>
       (operation req = Some PROCESS_STOP \<longrightarrow> \<not> is_running (res_snapshot (res c)))
     else res_error (res c) \<noteq> CONTROL_NONE) \<and> (request_valid req \<or> d = [Call_now, Call_now])"
proof -
  obtain r where r: "control_run H req \<lparr>calls = h @ [Call_now], res = zero_result\<rparr> = Some r"
    "calls c = calls (snd r) @ [Call_now]" "\<exists>t. res c = (res (snd r))\<lparr>res_ok := fst r, res_duration_ms := t\<rparr>"
    by (rule execute_cases [OF assms])
  show ?thesis
  proof (cases "request_valid req")
    case True
    from run_outcome [OF True r(1)] obtain d where d: "calls_sound req h d (snd r)"
      "if fst r then res_error (res (snd r)) = CONTROL_NONE \<and> shows_last d (snd r) \<and>
       (operation req \<in> {Some PROCESS_START, Some PROCESS_RESTART} \<longrightarrow> is_running (res_snapshot (res (snd r)))) \<and>
       (operation req = Some PROCESS_STOP \<longrightarrow> \<not> is_running (res_snapshot (res (snd r))))
     else res_error (res (snd r)) \<noteq> CONTROL_NONE" by blast
    have "calls_sound req h (d @ [Call_now]) c" using called_sound [OF d(1), of Call_now c] r(2,3) by auto
    moreover have "shows_last (d @ [Call_now]) c = shows_last d (snd r)" using r(3) by (auto simp: shows_last_def observed_append)
    ultimately show ?thesis using d(2) r(3) True by (intro exI [of _ "d @ [Call_now]"]) auto
  next
    case False
    note inv = invalid_run [OF False r(1)]
    have "calls_sound req h [Call_now, Call_now] c" using r(2,3) inv by (auto simp: calls_sound_def zero_result_def)
    then show ?thesis using r(3) inv by (intro exI [of _ "[Call_now, Call_now]"]) auto
  qed
qed

text \<open>
  C23. Every execution signals only instances that it may signal: a stop request goes to the running
  instance seen last, a termination goes to the instance that this execution itself has started, or,
  only with \<open>force_terminate\<close> and after a successful stop request, to the running instance seen last;
  a process is started only when the instance seen last was not running; a status request and an
  invalid request change nothing; and \<open>changed\<close> tells whether a start or stop request has succeeded.
\<close>

theorem control_execute_signals:
  assumes "control_execute H req h = Some (Inr c)"
  shows "\<exists>d. calls c = h @ d \<and> history_allowed req [] d \<and> (res_changed (res c) \<longleftrightarrow> (\<exists>x\<in>set d. mutates x)) \<and>
    (request_valid req \<or> d = [Call_now, Call_now])"
  using execute_sound [OF assms] unfolding calls_sound_def by blast

text \<open>
  What the result means: success is reported without an error and shows the instance of the last
  successful query, which is running after a start or restart and is not running after a stop; a
  failure always carries an error.
\<close>

theorem control_execute_result:
  assumes "control_execute H req h = Some (Inr c)"
  shows "if res_ok (res c)
    then request_valid req \<and> res_error (res c) = CONTROL_NONE \<and>
      (\<exists>d. calls c = h @ d \<and> last_seen d = Some (res_snapshot (res c))) \<and>
      (operation req \<in> {Some PROCESS_START, Some PROCESS_RESTART} \<longrightarrow> is_running (res_snapshot (res c))) \<and>
      (operation req = Some PROCESS_STOP \<longrightarrow> \<not> is_running (res_snapshot (res c)))
    else res_error (res c) \<noteq> CONTROL_NONE"
  using execute_sound [OF assms] unfolding calls_sound_def shows_last_def by (auto split: if_splits)

section \<open>Termination\<close>

text \<open>While less than the budget is spent at a reading, the next readings stay below the wrap.\<close>

lemma expired_spent:
  assumes "clock_advances (host_now H) time D" and "runs_since hb (calls c)" and "spent time hb (calls c) < 2 ^ 64"
  shows "expired H (host_now H hb) budget c = (unat budget \<le> spent time hb (calls c), c\<lparr>calls := calls c @ [Call_now]\<rparr>)"
  using elapsed_spent [OF assms] by (simp add: expired_def now_def word_le_nat_alt)

lemma pause_calls: "\<exists>e. calls (pause_poll H began budget c) = calls c @ e \<and> length e \<le> 2"
  by (auto simp: pause_poll_def now_def Let_def)

lemma query_calls: "query H req phase c = (b, c') \<Longrightarrow> \<exists>x. calls c' = calls c @ [x]"
  by (auto simp: query_def backend_def control_fail_def split: prod.splits if_splits)

definition fits :: "nat \<Rightarrow> 64 word \<Rightarrow> bool" where
  "fits D budget \<longleftrightarrow> unat budget + 8 * D < 2 ^ 64"

text \<open>One round of the poll either ends or spends time within the budget.\<close>

definition poll_bounded :: "(control_history \<Rightarrow> nat) \<Rightarrow> control_history \<Rightarrow> nat \<Rightarrow> 64 word \<Rightarrow> control \<Rightarrow> bool" where
  "poll_bounded time hb D budget c \<longleftrightarrow> runs_since hb (calls c) \<and> spent time hb (calls c) \<le> unat budget + 5 * D"

lemma poll_stopped_returns:
  assumes clock: "clock_advances (host_now H) time D" and fit: "fits D budget" and start: "poll_bounded time hb D budget c"
  shows "\<exists>r. poll_for_stopped H req (host_now H hb) budget phase c = Some r"
proof -
  let ?m = "\<lambda>(_, c). unat budget + 1 - spent time hb (calls c)"
  have "\<exists>r. c_loop (poll_stopped_round H req (host_now H hb) budget phase) (False, c) = Some r \<and> True"
  proof (rule c_loop_total [where I = "\<lambda>(_, c). poll_bounded time hb D budget c" and m = ?m])
    show "case (False, c) of (_, c) \<Rightarrow> poll_bounded time hb D budget c" using start by simp
  next
    fix s :: "bool \<times> control"
    assume "case s of (_, c) \<Rightarrow> poll_bounded time hb D budget c"
    then obtain b c1 where s: "s = (b, c1)" and b1: "runs_since hb (calls c1)" "spent time hb (calls c1) \<le> unat budget + 5 * D"
      by (cases s) (auto simp: poll_bounded_def)
    have small: "spent time hb (calls c1) < 2 ^ 64" using b1(2) fit by (simp add: fits_def)
    note ex1 = expired_spent [OF clock b1(1) small, of budget]
    show "(\<exists>t. poll_stopped_round H req (host_now H hb) budget phase s = Some (Inl t) \<and>
        (case t of (_, c) \<Rightarrow> poll_bounded time hb D budget c) \<and> ?m t < ?m s) \<or>
      (\<exists>t. poll_stopped_round H req (host_now H hb) budget phase s = Some (Inr t) \<and> True)"
    proof (cases "unat budget \<le> spent time hb (calls c1)")
      case True
      then show ?thesis using ex1 s by (simp add: poll_stopped_round_def)
    next
      case False
      let ?c2 = "c1\<lparr>calls := calls c1 @ [Call_now]\<rparr>"
      obtain x c3 where q: "query H req phase ?c2 = (x, c3)" by fastforce
      obtain y c4 where e2: "expired H (host_now H hb) budget c3 = (y, c4)" by fastforce
      obtain xq where "calls c3 = calls c1 @ [Call_now, xq]" using query_calls [OF q] by auto
      moreover have "calls c4 = calls c3 @ [Call_now]" using e2 by (auto simp: expired_def now_def)
      moreover obtain e where "calls (pause_poll H (host_now H hb) budget c4) = calls c4 @ e" "length e \<le> 2" using pause_calls by blast
      ultimately have d: "calls (pause_poll H (host_now H hb) budget c4) = calls c1 @ ([Call_now, xq, Call_now] @ e)" "length e \<le> 2"
        by auto
      have next_round: "poll_bounded time hb D budget (pause_poll H (host_now H hb) budget c4)"
        "spent time hb (calls c1) < spent time hb (calls (pause_poll H (host_now H hb) budget c4))"
        using spent_step(1,2) [OF clock b1(1) d(1)] spent_at_most [OF clock b1(1) d(1), of 5] d(2) False by (auto simp: poll_bounded_def)
      then have less: "?m (False, pause_poll H (host_now H hb) budget c4) < ?m s" using False s by simp
      have round: "poll_stopped_round H req (host_now H hb) budget phase s =
          (let late = control_fail CONTROL_TIMEOUT phase (Some ''managed process did not reach not_running before the deadline'') 0 in
           if \<not> x then Some (Inr (False, c3)) else if y then Some (Inr (late c4))
           else if \<not> is_running (res_snapshot (res c4)) then Some (Inr (True, c4))
           else Some (Inl (False, pause_poll H (host_now H hb) budget c4)))"
        using ex1 False q e2 s by (cases x; cases y) (simp_all add: poll_stopped_round_def)
      show ?thesis unfolding round Let_def using next_round(1) less by auto
    qed
  qed
  then show ?thesis by (simp add: poll_for_stopped_def)
qed

lemma start_poll_returns:
  assumes clock: "clock_advances (host_now H) time D" and fit: "fits D budget" and start: "poll_bounded time hb D budget c"
  shows "\<exists>r. c_loop (poll_started_round H req (host_now H hb) budget) (Poll_break, c) = Some r"
proof -
  let ?m = "\<lambda>(_, c). unat budget + 1 - spent time hb (calls c)"
  have "\<exists>r. c_loop (poll_started_round H req (host_now H hb) budget) (Poll_break, c) = Some r \<and> True"
  proof (rule c_loop_total [where I = "\<lambda>(_, c). poll_bounded time hb D budget c" and m = ?m])
    show "case (Poll_break, c) of (_, c) \<Rightarrow> poll_bounded time hb D budget c" using start by simp
  next
    fix s :: "start_poll \<times> control"
    assume "case s of (_, c) \<Rightarrow> poll_bounded time hb D budget c"
    then obtain b c1 where s: "s = (b, c1)" and b1: "runs_since hb (calls c1)" "spent time hb (calls c1) \<le> unat budget + 5 * D"
      by (cases s) (auto simp: poll_bounded_def)
    obtain x c2 where q: "query H req ''start_poll'' c1 = (x, c2)" by fastforce
    obtain y c3 where e1: "(if is_running (res_snapshot (res c2)) then expired H (host_now H hb) budget c2 else (True, c2)) = (y, c3)"
      by fastforce
    obtain xq where c2: "calls c2 = calls c1 @ [xq]" using query_calls [OF q] by blast
    obtain e where c3: "calls c3 = calls c1 @ (xq # e)" "length e \<le> 1"
      using e1 c2 by (cases "is_running (res_snapshot (res c2))") (auto simp: expired_def now_def)
    have b3: "runs_since hb (calls c3)" "spent time hb (calls c1) < spent time hb (calls c3)" "spent time hb (calls c3) < 2 ^ 64" "spent time hb (calls c3) \<le> spent time hb (calls c1) + 2 * D"
      using spent_step(1,2) [OF clock b1(1) c3(1)] spent_at_most [OF clock b1(1) c3(1), of 2] c3(2) b1(2) fit by (auto simp: fits_def)
    let ?c4 = "c3\<lparr>calls := calls c3 @ [Call_now]\<rparr>"
    note ex = expired_spent [OF clock b3(1,3), of budget]
    have round: "poll_started_round H req (host_now H hb) budget s =
        (if \<not> x then Some (Inr (Poll_return False, c2)) else if \<not> y then Some (Inr (Poll_return True, c3))
         else if unat budget \<le> spent time hb (calls c3) then Some (Inr (Poll_break, ?c4))
         else Some (Inl (Poll_break, pause_poll H (host_now H hb) budget ?c4)))"
      using q e1 ex s by (cases x; cases y; cases "unat budget \<le> spent time hb (calls c3)") (simp_all add: poll_started_round_def)
    obtain f where f: "calls (pause_poll H (host_now H hb) budget ?c4) = calls c3 @ (Call_now # f)" "length f \<le> 2"
      using pause_calls [of H "host_now H hb" budget ?c4] by auto
    have "unat budget \<le> spent time hb (calls c3) \<or>
      poll_bounded time hb D budget (pause_poll H (host_now H hb) budget ?c4) \<and>
      ?m (Poll_break, pause_poll H (host_now H hb) budget ?c4) < ?m s"
      using spent_step(1,2) [OF clock b3(1) f(1)] spent_at_most [OF clock b3(1) f(1), of 3] f(2) b3(2) s by (auto simp: poll_bounded_def)
    then show "(\<exists>t. poll_started_round H req (host_now H hb) budget s = Some (Inl t) \<and>
        (case t of (_, c) \<Rightarrow> poll_bounded time hb D budget c) \<and> ?m t < ?m s) \<or>
      (\<exists>t. poll_started_round H req (host_now H hb) budget s = Some (Inr t) \<and> True)"
      unfolding round by auto
  qed
  then show ?thesis by simp
qed

text \<open>A poll that begins with its own reading of the clock.\<close>

lemma poll_now_returns:
  assumes "clock_advances (host_now H) time D" and "fits D budget" and "now H c = (t, c1)"
  shows "\<exists>r. poll_for_stopped H req t budget phase c1 = Some r"
proof -
  have c1: "t = host_now H (calls c)" "calls c1 = calls c @ [Call_now]" using assms(3) by (auto simp: now_def)
  have "runs_since (calls c) (calls c)" "spent time (calls c) (calls c) = 0" by (simp_all add: runs_since_def spent_def)
  then have "poll_bounded time (calls c) D budget c1"
    using spent_step [OF assms(1) _ c1(2), of "calls c"] by (simp add: poll_bounded_def)
  then show ?thesis using poll_stopped_returns [OF assms(1,2)] c1(1) by simp
qed

lemma stop_returns:
  assumes clock: "clock_advances (host_now H) time D" and fit: "fits D (budget_ns (stop_timeout_ms req))"
  shows "\<exists>r. stop H req c = Some r"
proof -
  have force: "\<exists>r. stop_force H req c = Some r" for c
    using poll_now_returns [OF clock fit] by (auto simp: stop_force_def Let_def split: prod.splits bool.splits)
  show ?thesis using poll_now_returns [OF clock fit] force
    by (auto simp: stop_def Let_def split: prod.splits bool.splits option.splits) (metis option.distinct(1))+
qed

lemma start_returns:
  assumes clock: "clock_advances (host_now H) time D" and fit: "fits D (budget_ns (stop_timeout_ms req))" "fits D (budget_ns (startup_timeout_ms req))"
  shows "\<exists>r. start H req c = Some r"
proof -
  have comp: "\<exists>r. start_compensate H req started c = Some r" for started c
    using poll_now_returns [OF clock fit(1)]
    by (auto simp: start_compensate_def Let_def split: prod.splits bool.splits option.splits) (metis option.distinct(1))+
  obtain began c0 where n: "now H c = (began, c0)" by fastforce
  then have c0: "began = host_now H (calls c)" "calls c0 = calls c @ [Call_now]" by (auto simp: now_def)
  obtain r started where hs: "host_start H (calls c0) req = (r, started)" by fastforce
  obtain b c1 where k: "backend r ''start'' (c0\<lparr>calls := calls c0 @ [Call_start req r started]\<rparr>) = (b, c1)" by fastforce
  let ?c = "c1\<lparr>res := (res c1)\<lparr>res_snapshot := started, res_changed := True\<rparr>\<rparr>"
  have c1: "calls ?c = calls c @ [Call_now, Call_start req r started]" using c0 backend_fields [OF k] by simp
  have "runs_since (calls c) (calls c)" "spent time (calls c) (calls c) = 0" by (simp_all add: runs_since_def spent_def)
  then have "poll_bounded time (calls c) D (budget_ns (startup_timeout_ms req)) ?c"
    using spent_step(1) [OF clock _ c1] spent_at_most [OF clock _ c1, of "calls c" 2] by (simp add: poll_bounded_def)
  then obtain p where "c_loop (poll_started_round H req began (budget_ns (startup_timeout_ms req))) (Poll_break, ?c) = Some p"
    using start_poll_returns [OF clock fit(2)] c0(1) by blast
  then show ?thesis using comp n hs k
    by (cases b; cases p) (auto simp: start_def Let_def split: start_poll.splits)
qed

lemma restart_returns:
  assumes "clock_advances (host_now H) time D" "fits D (budget_ns (stop_timeout_ms req))" "fits D (budget_ns (startup_timeout_ms req))"
  shows "\<exists>r. restart H req c = Some r"
proof -
  obtain b c1 where "stop H req c = Some (b, c1)" using stop_returns [OF assms(1,2)] by fastforce
  moreover obtain b2 c2 where "query H req ''restart_query'' c1 = (b2, c2)" by fastforce
  moreover obtain r where "start H req c2 = Some r" using start_returns [OF assms] by blast
  ultimately show ?thesis by (cases b; cases b2) (auto simp: restart_def)
qed

lemma run_returns:
  assumes "clock_advances (host_now H) time D" "fits D (budget_ns (stop_timeout_ms req))" "fits D (budget_ns (startup_timeout_ms req))"
  shows "\<exists>r. control_run H req c = Some r"
proof -
  have "\<exists>r. dispatch H req c = Some r" for c
    using stop_returns [OF assms(1,2)] start_returns [OF assms] restart_returns [OF assms]
    by (auto simp: dispatch_def split: option.splits process_operation.splits)
  then show ?thesis by (auto simp: control_run_def split: prod.splits bool.splits)
qed

text \<open>
  C24. With a clock that advances and host calls of bounded length, every valid request is answered: no
  poll runs forever, because the deadlines, which the validation keeps from overflowing 64 bits, pass.
\<close>

theorem control_execute_returns:
  assumes "clock_advances (host_now H) time D" and "request_valid req"
    and "nat (startup_timeout_ms req) * 1000000 + 8 * D < 2 ^ 64" and "nat (stop_timeout_ms req) * 1000000 + 8 * D < 2 ^ 64"
  shows "\<exists>r. control_execute H req h = Some r"
proof -
  have "fits D (budget_ns (stop_timeout_ms req))" "fits D (budget_ns (startup_timeout_ms req))"
    using assms(2-4) budget_ns_exact by (auto simp: fits_def request_valid_def)
  from run_returns [OF assms(1) this] obtain b c where "control_run H req (snd (now H \<lparr>calls = h, res = zero_result\<rparr>)) = Some (b, c)"
    by fastforce
  then show ?thesis by (simp add: control_execute_def now_def)
qed

section \<open>A simulated process\<close>

fun is_start :: "control_call \<Rightarrow> bool" where
  "is_start (Call_start _ _ _) = True"
| "is_start _ = False"

definition ok_result :: backend_result where
  "ok_result = \<lparr>br_ok = True, br_native_error = 0, br_message = None\<rparr>"

definition sim_snapshot :: "bool \<Rightarrow> snapshot" where
  "sim_snapshot up = \<lparr>is_running = up, pid = 7, session_id = 1, instance_token = 9, canonical_image_name = Some ''app''\<rparr>"

text \<open>A process that runs once it has been started; each call takes a microsecond.\<close>

definition sim_host :: control_host where
  "sim_host = \<lparr>host_query = (\<lambda>h img. (ok_result, sim_snapshot (list_ex is_start h))),
     host_start = (\<lambda>h req. (ok_result, sim_snapshot True)),
     host_request_stop = (\<lambda>h s. ok_result), host_terminate = (\<lambda>h s. ok_result),
     host_now = (\<lambda>h. of_nat (1000 * length h)), poll_interval_ms = 10\<rparr>"

definition start_request :: control_request where
  "start_request = \<lparr>operation = Some PROCESS_START, image_name = Some ''app'', executable = Some ''app.exe'',
     arguments = [], working_directory = None, startup_timeout_ms = 5, stop_timeout_ms = 5, force_terminate = False\<rparr>"

definition sim_done :: control where
  "sim_done = (case control_execute sim_host start_request [] of Some (Inr c) \<Rightarrow> c | _ \<Rightarrow> \<lparr>calls = [], res = zero_result\<rparr>)"

lemma sim_run: "(case control_execute sim_host start_request [] of Some (Inr c) \<Rightarrow> res_ok (res c) \<and> res_changed (res c) | _ \<Rightarrow> False)"
  by code_simp

lemma sim_execute: "control_execute sim_host start_request [] = Some (Inr sim_done)" "res_ok (res sim_done)" "res_changed (res sim_done)"
  using sim_run by (auto simp: sim_done_def split: option.splits sum.splits)

theorem control_execute_signals_witness: "\<exists>x\<in>set (calls sim_done). mutates x"
  using control_execute_signals [OF sim_execute(1)] sim_execute(3) by auto

theorem control_execute_result_witness: "is_running (res_snapshot (res sim_done)) \<and> res_error (res sim_done) = CONTROL_NONE"
  using control_execute_result [OF sim_execute(1)] sim_execute(2) by (simp add: start_request_def)

theorem control_execute_returns_witness: "\<exists>r. control_execute sim_host start_request [] = Some r"
proof (rule control_execute_returns [where time = "\<lambda>h. 1000 * length h" and D = 1000])
  show "clock_advances (host_now sim_host) (\<lambda>h. 1000 * length h) 1000" by (simp add: clock_advances_def sim_host_def)
  show "request_valid start_request" by (simp add: request_valid_def start_request_def max_timeout_ms_def)
qed (simp_all add: start_request_def)

end
