(* ===== verification/Service_Control.thy ===== *)
theory Service_Control
  imports Process_Control "HOL-Library.Monad_Syntax"
begin

text \<open>
  The control of a system service through command lines: \<open>shared/process/src/service_control.c\<close>. It
  renders the status, start and stop commands of a profile into a bounded buffer, runs them under one
  deadline and reads the state from the output of the status command. The lemmas show what rendering
  produces and when it is refused, that the parser reads back a printed state, which commands may
  follow which states, what a result means, and that an execution returns.

  The host is a parameter as in \<open>Process_Control\<close>. Texts have no NUL character inside; a NULL text is
  \<open>None\<close>. The rendered commands are kept as texts with the count of the bytes they take in the buffer.
\<close>

section \<open>Data\<close>

datatype service_state = SERVICE_UNKNOWN | SERVICE_STOPPED | SERVICE_START_PENDING | SERVICE_STOP_PENDING | SERVICE_RUNNING

datatype service_error =
    SERVICE_NONE | SERVICE_INVALID | SERVICE_STATE_FAILED | SERVICE_SPAWN_FAILED | SERVICE_TIMEOUT | SERVICE_CANCELLED

datatype process_state =
    PROCESS_STARTING | PROCESS_RUNNING | PROCESS_CANCELLING | PROCESS_EXITED | PROCESS_SIGNALED | PROCESS_TIMED_OUT
  | PROCESS_CANCELLED | PROCESS_SPAWN_FAILED | PROCESS_WAIT_FAILED | PROCESS_OUTPUT_LIMIT_EXCEEDED

text \<open>An argument vector; \<open>None\<close> is a NULL vector with a positive count.\<close>

type_synonym service_args = "string option list option"

record service_profile =
  prof_program :: "string option"
  prof_status :: service_args
  prof_start :: service_args
  prof_stop :: service_args

record service_request =
  srv_operation :: "process_operation option"
  srv_name :: "string option"
  srv_profile_name :: "string option"
  srv_profile :: "service_profile option"
  srv_arguments :: service_args
  srv_timeout_ms :: int
  srv_poll_interval_ms :: int

record service_config =
  max_arguments :: nat
  max_metadata_bytes :: nat
  max_output_bytes :: nat

record service_command =
  cmd_program :: string
  cmd_arguments :: "string list"
  cmd_timeout_ms :: "32 word"
  cmd_max_output_bytes :: nat

text \<open>The output has \<open>resp_size\<close> bytes when it is given.\<close>

record service_response =
  resp_state :: process_state
  resp_exit_code :: int
  resp_output :: "string option"
  resp_size :: nat
  resp_failure :: "string option"

record service_result =
  sr_ok :: bool
  sr_changed :: bool
  sr_include_state :: bool
  sr_include_process :: bool
  sr_state :: service_state
  sr_error :: service_error
  sr_process_state :: process_state
  sr_exit_code :: int
  sr_phase :: string
  sr_message :: string
  sr_duration_ms :: "64 word"

section \<open>States\<close>

fun service_state_name :: "service_state \<Rightarrow> string" where
  "service_state_name SERVICE_STOPPED = ''stopped''"
| "service_state_name SERVICE_START_PENDING = ''start_pending''"
| "service_state_name SERVICE_STOP_PENDING = ''stop_pending''"
| "service_state_name SERVICE_RUNNING = ''running''"
| "service_state_name SERVICE_UNKNOWN = []"

text \<open>The cast of a number to the enumeration.\<close>

definition service_state_of :: "32 word \<Rightarrow> service_state" where
  "service_state_of n =
     (if n = 1 then SERVICE_STOPPED else if n = 2 then SERVICE_START_PENDING
      else if n = 3 then SERVICE_STOP_PENDING else if n = 4 then SERVICE_RUNNING else SERVICE_UNKNOWN)"

definition is_blank :: "char \<Rightarrow> bool" where "is_blank c \<longleftrightarrow> c = CHR '' '' \<or> c = CHR 0x09"
definition is_digit :: "char \<Rightarrow> bool" where "is_digit c \<longleftrightarrow> (let n = (of_char c :: nat) in 48 \<le> n \<and> n \<le> 57)"
definition digit_value :: "char \<Rightarrow> 32 word" where "digit_value c = of_char c - of_char CHR ''0''"

text \<open>\<open>isspace\<close> in the C locale.\<close>

definition is_space :: "char \<Rightarrow> bool" where
  "is_space c \<longleftrightarrow> (let n = (of_char c :: nat) in n = 32 \<or> 9 \<le> n \<and> n \<le> 13)"

definition int_max :: "32 word" where "int_max = 0x7FFFFFFF"

text \<open>The digits: the value and what follows them; \<open>None\<close> when it would exceed \<open>INT_MAX\<close>.\<close>

fun scan_value :: "string \<Rightarrow> 32 word \<Rightarrow> (32 word \<times> string) option" where
  "scan_value [] v = Some (v, [])"
| "scan_value (c # cs) v =
     (if is_digit c then
        (if v > (int_max - digit_value c) div 10 then None else scan_value cs (v * 10 + digit_value c))
      else Some (v, c # cs))"

definition state_prefix :: "string \<Rightarrow> bool" where
  "state_prefix p \<longleftrightarrow> length p \<ge> 5 \<and> take 5 p = ''STATE'' \<and>
     (length p = 5 \<or> p ! 5 = CHR '':'' \<or> p ! 5 = CHR '' '' \<or> p ! 5 = CHR 0x09)"

text \<open>The rest of a STATE line after the field name.\<close>

definition parse_field :: "string \<Rightarrow> salts_status + service_state" where
  "parse_field p =
     (case dropWhile (\<lambda>c. c \<noteq> CHR '':'') p of
        [] \<Rightarrow> Inl SALTS_EINVAL
      | _ # q \<Rightarrow>
          let digits = dropWhile is_blank q in
          (case scan_value digits 0 of
             None \<Rightarrow> Inl SALTS_EINVAL
           | Some (v, rest) \<Rightarrow>
               if length rest = length digits \<or> (rest \<noteq> [] \<and> \<not> is_space (hd rest)) \<or> v < 1 \<or> v > 4
               then Inl SALTS_EINVAL
               else Inr (service_state_of v)))"

function parse_state :: "string \<Rightarrow> salts_status + service_state" where
  "parse_state output =
     (if output = [] then Inl SALTS_EINVAL
      else
        let line = takeWhile (\<lambda>c. c \<noteq> CHR 0x0A) output;
            p = dropWhile (\<lambda>c. is_blank c \<or> c = CHR 0x0D) line
        in if state_prefix p then parse_field (drop 5 p)
           else parse_state (drop (length line + 1) output))"
  by pat_completeness auto

termination
  by (relation "measure length") auto

declare parse_state.simps [simp del]

section \<open>Rendering\<close>

record render_state =
  used_bytes :: nat
  args :: "string list"

definition text_size :: "service_config \<Rightarrow> string option \<Rightarrow> nat option" where
  "text_size cfg t =
     (case t of None \<Rightarrow> None | Some s \<Rightarrow> if length s < max_metadata_bytes cfg then Some (length s) else None)"

definition add_bytes :: "service_config \<Rightarrow> nat \<Rightarrow> nat \<Rightarrow> nat option" where
  "add_bytes cfg n u = (if n > max_metadata_bytes cfg - u then None else Some (u + n))"

definition copy_text :: "service_config \<Rightarrow> string option \<Rightarrow> nat \<Rightarrow> (string \<times> nat) option" where
  "copy_text cfg t u =
     (case text_size cfg t of
        None \<Rightarrow> None
      | Some n \<Rightarrow> map_option (\<lambda>u'. (the t, u')) (add_bytes cfg (n + 1) u))"

text \<open>The loop over the request's arguments.\<close>

fun copy_arguments :: "service_config \<Rightarrow> string option list \<Rightarrow> render_state \<Rightarrow> render_state option" where
  "copy_arguments cfg [] r = Some r"
| "copy_arguments cfg (t # ts) r =
     (if length (args r) = max_arguments cfg then None
      else case copy_text cfg t (used_bytes r) of
        None \<Rightarrow> None
      | Some (s, u) \<Rightarrow> copy_arguments cfg ts \<lparr>used_bytes = u, args = args r @ [s]\<rparr>)"

definition placeholder :: string where "placeholder = ''{service_name}''"

text \<open>The loop over the characters of a template, with the text rendered so far.\<close>

function render_text :: "service_config \<Rightarrow> string \<Rightarrow> string \<Rightarrow> string \<Rightarrow> nat \<Rightarrow> (string \<times> nat) option" where
  "render_text cfg name t out u =
     (if t = [] then Some (out, u)
      else if length t \<ge> 14 \<and> take 14 t = placeholder then
        (case add_bytes cfg (length name) u of
           None \<Rightarrow> None
         | Some u' \<Rightarrow> render_text cfg name (drop 14 t) (out @ name) u')
      else
        (case add_bytes cfg 1 u of
           None \<Rightarrow> None
         | Some u' \<Rightarrow> render_text cfg name (tl t) (out @ [hd t]) u'))"
  by pat_completeness auto

termination
  by (relation "measure (\<lambda>(cfg, name, t, out, u). length t)") auto

declare render_text.simps [simp del]

fun render_templates :: "service_config \<Rightarrow> string \<Rightarrow> string option list \<Rightarrow> string option list \<Rightarrow> render_state \<Rightarrow> render_state option" where
  "render_templates cfg name extra [] r = Some r"
| "render_templates cfg name extra (t # ts) r =
     (case text_size cfg t of
        None \<Rightarrow> None
      | Some n \<Rightarrow>
          if the t = ''{arguments}'' then
            (case copy_arguments cfg extra r of
               None \<Rightarrow> None
             | Some r' \<Rightarrow> render_templates cfg name extra ts r')
          else if length (args r) = max_arguments cfg then None
          else
            (case render_text cfg name (the t) [] (used_bytes r) of
               None \<Rightarrow> None
             | Some (s, u) \<Rightarrow>
                 (case add_bytes cfg 1 u of
                    None \<Rightarrow> None
                  | Some u' \<Rightarrow> render_templates cfg name extra ts \<lparr>used_bytes = u', args = args r @ [s]\<rparr>)))"

text \<open>One command; the result is its arguments and the bytes used.\<close>

definition render :: "service_config \<Rightarrow> service_request \<Rightarrow> service_args \<Rightarrow> nat \<Rightarrow> (string list \<times> nat) option" where
  "render cfg req input u =
     (case (text_size cfg (srv_name req), input) of
        (Some _, Some templates) \<Rightarrow>
          if length templates > max_arguments cfg then None
          else (case render_templates cfg (the (srv_name req)) (the (srv_arguments req)) templates
                       \<lparr>used_bytes = u, args = []\<rparr> of
                  None \<Rightarrow> None
                | Some r \<Rightarrow>
                    if (length (args r) + 1) * 8 > max_metadata_bytes cfg - used_bytes r then None
                    else Some (args r, used_bytes r + (length (args r) + 1) * 8))
      | _ \<Rightarrow> None)"

section \<open>Execution\<close>

text \<open>
  The calls to the host. A run is recorded with the slot of its command (0 status, 1 start, 2 stop),
  the return status and the response.
\<close>

datatype service_call =
    SCall_now
  | SCall_sleep "32 word"
  | SCall_run nat service_command salts_status service_response

type_synonym service_history = "service_call list"

record service_host =
  srv_run :: "service_history \<Rightarrow> service_command \<Rightarrow> salts_status \<times> service_response"
  srv_now :: "service_history \<Rightarrow> 64 word"

text \<open>What stays fixed during an execution after \<open>prepare\<close>.\<close>

record service_plan =
  plan_config :: service_config
  plan_request :: service_request
  plan_program :: string
  plan_commands :: "string list list"
  plan_began :: "64 word"
  plan_budget :: "64 word"

record execution =
  xcalls :: service_history
  xres :: service_result

definition zero_service_result :: service_result where
  "zero_service_result = \<lparr>sr_ok = False, sr_changed = False, sr_include_state = False, sr_include_process = False,
     sr_state = SERVICE_UNKNOWN, sr_error = SERVICE_NONE, sr_process_state = PROCESS_STARTING, sr_exit_code = 0,
     sr_phase = [], sr_message = [], sr_duration_ms = 0\<rparr>"

definition service_now :: "service_host \<Rightarrow> execution \<Rightarrow> 64 word \<times> execution" where
  "service_now H e = (srv_now H (xcalls e), e\<lparr>xcalls := xcalls e @ [SCall_now]\<rparr>)"

definition service_elapsed :: "service_host \<Rightarrow> 64 word \<Rightarrow> execution \<Rightarrow> 64 word \<times> execution" where
  "service_elapsed H began e = (case service_now H e of (t, e') \<Rightarrow> (t - began, e'))"

definition service_fail :: "service_error \<Rightarrow> string \<Rightarrow> string \<Rightarrow> bool \<Rightarrow> execution \<Rightarrow> bool \<times> execution" where
  "service_fail code phase message st e =
     (False, e\<lparr>xres := (xres e)\<lparr>sr_error := code, sr_phase := phase, sr_message := message, sr_include_state := st\<rparr>\<rparr>)"

definition too_late :: string where "too_late = ''service operation exceeded its deadline''"

text \<open>The request's bytes; \<open>None\<close> when they exceed the bound.\<close>

fun input_bytes :: "service_config \<Rightarrow> string option list \<Rightarrow> nat \<Rightarrow> nat option" where
  "input_bytes cfg [] n = Some n"
| "input_bytes cfg (t # ts) n =
     (case text_size cfg t of
        None \<Rightarrow> None
      | Some k \<Rightarrow> if k + 1 > max_metadata_bytes cfg - n then None else input_bytes cfg ts (n + (k + 1)))"

definition int32_max :: int where "int32_max = 2 ^ 31 - 1"

definition service_request_valid :: "service_config \<Rightarrow> service_request \<Rightarrow> bool" where
  "service_request_valid cfg req \<longleftrightarrow> srv_operation req \<noteq> None \<and> given (srv_name req) \<and> given (srv_profile_name req) \<and>
     srv_timeout_ms req > 0 \<and> srv_timeout_ms req \<le> int32_max \<and>
     srv_poll_interval_ms req > 0 \<and> srv_poll_interval_ms req \<le> int32_max \<and>
     (case srv_arguments req of None \<Rightarrow> False | Some ts \<Rightarrow> length ts \<le> max_arguments cfg)"

definition render_commands :: "service_config \<Rightarrow> service_request \<Rightarrow> service_profile \<Rightarrow> (string \<times> string list list) option" where
  "render_commands cfg req prof =
     (if \<not> given (prof_program prof) then None
      else do {
        (program, u0) \<leftarrow> copy_text cfg (prof_program prof) 0;
        (c0, u1) \<leftarrow> render cfg req (prof_status prof) u0;
        (c1, u2) \<leftarrow> render cfg req (prof_start prof) u1;
        (c2, u3) \<leftarrow> render cfg req (prof_stop prof) u2;
        Some (program, [c0, c1, c2]) })"

definition service_limit :: "execution \<Rightarrow> bool \<times> execution" where
  "service_limit = service_fail SERVICE_INVALID ''validate'' ''service metadata exceeds configured bounds'' False"

text \<open>\<open>Inl\<close> is a refusal, \<open>Inr\<close> the plan of the execution.\<close>

definition prepare :: "service_config \<Rightarrow> service_request \<Rightarrow> 64 word \<Rightarrow> execution \<Rightarrow> (bool \<times> execution) + service_plan" where
  "prepare cfg req began e =
     (if \<not> service_request_valid cfg req
      then Inl (service_fail SERVICE_INVALID ''validate'' ''service parameters are invalid'' False e)
      else case text_size cfg (srv_name req) of
        None \<Rightarrow> Inl (service_limit e)
      | Some k \<Rightarrow>
          if input_bytes cfg (srv_profile_name req # the (srv_arguments req)) (k + 1) = None then Inl (service_limit e)
          else case srv_profile req of
            None \<Rightarrow> Inl (service_fail SERVICE_STATE_FAILED ''profile''
                      (''unknown service command profile: '' @ take 900 (the (srv_profile_name req))) False e)
          | Some prof \<Rightarrow>
              (case render_commands cfg req prof of
                 None \<Rightarrow> Inl (service_limit e)
               | Some (program, commands) \<Rightarrow>
                   Inr \<lparr>plan_config = cfg, plan_request = req, plan_program = program, plan_commands = commands,
                        plan_began = began, plan_budget = budget_ns (srv_timeout_ms req)\<rparr>))"

text \<open>The command of a slot when \<open>used\<close> of the budget is spent.\<close>

definition slot_command :: "service_plan \<Rightarrow> nat \<Rightarrow> 64 word \<Rightarrow> service_command" where
  "slot_command P slot used =
     (let remaining = (plan_budget P - used) div ns_per_ms in
      \<lparr>cmd_program = plan_program P, cmd_arguments = plan_commands P ! slot,
       cmd_timeout_ms = ucast (if remaining \<noteq> 0 then remaining else 1),
       cmd_max_output_bytes = max_output_bytes (plan_config P)\<rparr>)"

text \<open>The refusals after a run callback returned, before the deadline is read again.\<close>

definition response_refused :: "string \<Rightarrow> salts_status \<Rightarrow> service_response \<Rightarrow> execution \<Rightarrow> (bool \<times> execution) option" where
  "response_refused phase st out e =
     (if st \<noteq> SALTS_OK
      then Some (service_fail SERVICE_SPAWN_FAILED phase
             (take 1023 (case resp_failure out of None \<Rightarrow> ''failed to run service command'' | Some t \<Rightarrow> t)) False e)
      else if resp_state out = PROCESS_SPAWN_FAILED
      then Some (service_fail SERVICE_SPAWN_FAILED phase ''failed to spawn service command'' False e)
      else if resp_state out = PROCESS_TIMED_OUT
      then Some (service_fail SERVICE_TIMEOUT phase ''service command timed out'' False e)
      else if resp_state out = PROCESS_CANCELLED
      then Some (service_fail SERVICE_CANCELLED phase ''service command was cancelled'' False e)
      else if resp_state out \<noteq> PROCESS_EXITED \<or> resp_exit_code out \<noteq> 0
      then Some (service_fail SERVICE_STATE_FAILED phase ''service command failed'' False
             (e\<lparr>xres := (xres e)\<lparr>sr_include_process := True, sr_process_state := resp_state out,
                 sr_exit_code := resp_exit_code out\<rparr>\<rparr>))
      else None)"

definition run_command :: "service_host \<Rightarrow> service_plan \<Rightarrow> nat \<Rightarrow> string \<Rightarrow> execution \<Rightarrow> (bool \<times> execution) \<times> service_response option" where
  "run_command H P slot phase e =
     (case service_elapsed H (plan_began P) e of (used, e) \<Rightarrow>
      if used \<ge> plan_budget P then (service_fail SERVICE_TIMEOUT phase too_late False e, None)
      else
        let command = slot_command P slot used in
        case srv_run H (xcalls e) command of (st, out) \<Rightarrow>
          let e = e\<lparr>xcalls := xcalls e @ [SCall_run slot command st out]\<rparr> in
          (case response_refused phase st out e of
             Some r \<Rightarrow> (r, None)
           | None \<Rightarrow>
               let e = (if slot \<noteq> 0 then e\<lparr>xres := (xres e)\<lparr>sr_changed := True\<rparr>\<rparr> else e) in
               (case service_elapsed H (plan_began P) e of (used, e) \<Rightarrow>
                if used \<ge> plan_budget P then (service_fail SERVICE_TIMEOUT phase too_late False e, None)
                else if (resp_output out = None \<and> resp_size out \<noteq> 0) \<or> resp_size out > max_output_bytes (plan_config P)
                then (service_fail SERVICE_STATE_FAILED phase ''service command output exceeds configured bounds'' False e, None)
                else ((True, e), Some out))))"

definition response_text :: "service_response \<Rightarrow> string" where
  "response_text out = (case resp_output out of None \<Rightarrow> [] | Some t \<Rightarrow> take (resp_size out) t)"

definition service_query :: "service_host \<Rightarrow> service_plan \<Rightarrow> string \<Rightarrow> execution \<Rightarrow> bool \<times> execution" where
  "service_query H P phase e =
     (case run_command H P 0 phase e of
        (r, None) \<Rightarrow> r
      | ((b, e), Some out) \<Rightarrow>
          (case parse_state (response_text out) of
             Inl _ \<Rightarrow> service_fail SERVICE_STATE_FAILED phase
                       ''service status did not contain a supported numeric STATE field'' False e
           | Inr st \<Rightarrow> (True, e\<lparr>xres := (xres e)\<lparr>sr_state := st\<rparr>\<rparr>)))"

definition poll_round ::
  "service_host \<Rightarrow> service_plan \<Rightarrow> service_state \<Rightarrow> bool \<times> execution \<Rightarrow> ((bool \<times> execution) + (bool \<times> execution)) option" where
  "poll_round H P target = (\<lambda>(_, e).
     case service_elapsed H (plan_began P) e of (used, e) \<Rightarrow>
     if used \<ge> plan_budget P
     then Some (Inr (service_fail SERVICE_TIMEOUT ''poll''
            (''service did not reach '' @ service_state_name target @ '' before the deadline'') True e))
     else
       let remaining = (plan_budget P - used + 999999) div ns_per_ms;
           interval = of_int (srv_poll_interval_ms (plan_request P)) :: 64 word;
           ms = ucast (if interval < remaining then interval else remaining) :: 32 word
       in (case service_query H P ''poll'' (e\<lparr>xcalls := xcalls e @ [SCall_sleep ms]\<rparr>) of
             (False, e) \<Rightarrow> Some (Inr (False, e))
           | (True, e) \<Rightarrow>
               if sr_state (xres e) = target then Some (Inr (True, e)) else Some (Inl (False, e))))"

definition poll_for :: "service_host \<Rightarrow> service_plan \<Rightarrow> service_state \<Rightarrow> execution \<Rightarrow> (bool \<times> execution) option" where
  "poll_for H P target e = c_loop (poll_round H P target) (False, e)"

definition service_start :: "service_host \<Rightarrow> service_plan \<Rightarrow> execution \<Rightarrow> (bool \<times> execution) option" where
  "service_start H P e =
     (if sr_state (xres e) = SERVICE_RUNNING then Some (True, e)
      else if sr_state (xres e) = SERVICE_STOP_PENDING
      then Some (service_fail SERVICE_STATE_FAILED ''transition'' ''cannot start a service while it is stopping'' True e)
      else case (if sr_state (xres e) = SERVICE_STOPPED then fst (run_command H P 1 ''start'' e) else (True, e)) of
        (False, e) \<Rightarrow> Some (False, e)
      | (True, e) \<Rightarrow> poll_for H P SERVICE_RUNNING e)"

definition service_stop :: "service_host \<Rightarrow> service_plan \<Rightarrow> execution \<Rightarrow> (bool \<times> execution) option" where
  "service_stop H P e =
     (if sr_state (xres e) = SERVICE_STOPPED then Some (True, e)
      else if sr_state (xres e) = SERVICE_START_PENDING
      then Some (service_fail SERVICE_STATE_FAILED ''transition'' ''cannot stop a service while it is starting'' True e)
      else case (if sr_state (xres e) = SERVICE_RUNNING then fst (run_command H P 2 ''stop'' e) else (True, e)) of
        (False, e) \<Rightarrow> Some (False, e)
      | (True, e) \<Rightarrow> poll_for H P SERVICE_STOPPED e)"

text \<open>\<open>a && b\<close> on results that may not be reached.\<close>

definition and_then :: "(bool \<times> 's) option \<Rightarrow> ('s \<Rightarrow> (bool \<times> 's) option) \<Rightarrow> (bool \<times> 's) option" where
  "and_then x f = (case x of None \<Rightarrow> None | Some (False, s) \<Rightarrow> Some (False, s) | Some (True, s) \<Rightarrow> f s)"

definition service_restart :: "service_host \<Rightarrow> service_plan \<Rightarrow> execution \<Rightarrow> (bool \<times> execution) option" where
  "service_restart H P e =
     and_then (if sr_state (xres e) = SERVICE_START_PENDING then poll_for H P SERVICE_RUNNING e else Some (True, e))
       (\<lambda>e. and_then (service_stop H P e) (service_start H P))"

definition service_dispatch :: "service_host \<Rightarrow> service_plan \<Rightarrow> execution \<Rightarrow> (bool \<times> execution) option" where
  "service_dispatch H P e =
     (case srv_operation (plan_request P) of
        Some PROCESS_START \<Rightarrow> service_start H P e
      | Some PROCESS_STOP \<Rightarrow> service_stop H P e
      | Some PROCESS_RESTART \<Rightarrow> service_restart H P e
      | _ \<Rightarrow> Some (True, e))"

definition service_body :: "service_host \<Rightarrow> service_config \<Rightarrow> service_request \<Rightarrow> 64 word \<Rightarrow> execution \<Rightarrow> (bool \<times> execution) option" where
  "service_body H cfg req began e =
     (case prepare cfg req began e of
        Inl r \<Rightarrow> Some r
      | Inr P \<Rightarrow> and_then (Some (service_query H P ''query'' e)) (service_dispatch H P))"

text \<open>\<open>busy\<close> is the controller's flag, which is set only during a call and thus for a reentrant one.\<close>

definition service_execute ::
  "service_host \<Rightarrow> service_config \<Rightarrow> bool \<Rightarrow> service_request \<Rightarrow> service_history \<Rightarrow> (salts_status + execution) option" where
  "service_execute H cfg busy req h =
     (if busy then Some (Inl SALTS_EBUSY)
      else case service_now H \<lparr>xcalls = h, xres = zero_service_result\<rparr> of (began, e) \<Rightarrow>
        (case service_body H cfg req began e of
           None \<Rightarrow> None
         | Some (ok, e) \<Rightarrow>
             (case service_elapsed H began (e\<lparr>xres := (xres e)\<lparr>sr_ok := ok\<rparr>\<rparr>) of (t, e) \<Rightarrow>
              Some (Inr (e\<lparr>xres := (xres e)\<lparr>sr_duration_ms := t div ns_per_ms\<rparr>\<rparr>)))))"

section \<open>The controller\<close>

datatype service_site = Site_service | Site_service_argv | Site_service_metadata

text \<open>The handle of a controller is empty or holds its configuration and the busy flag.\<close>

definition service_control_init ::
  "service_site allocator \<Rightarrow> (service_config \<times> bool) option \<Rightarrow> service_config \<Rightarrow> salts_status \<times> (service_config \<times> bool) option" where
  "service_control_init mem control cfg =
     (if control \<noteq> None \<or> max_arguments cfg = 0 \<or> max_arguments cfg > size_max div (3 * 8) \<or>
         max_metadata_bytes cfg = 0 \<or> max_output_bytes cfg = 0 then (SALTS_EINVAL, control)
      else if \<not> mem Site_service \<or> \<not> mem Site_service_argv \<or> \<not> mem Site_service_metadata then (SALTS_ENOMEM, control)
      else (SALTS_OK, Some (cfg, False)))"

definition service_control_destroy :: "(service_config \<times> bool) option \<Rightarrow> (service_config \<times> bool) option" where
  "service_control_destroy control =
     (case control of Some (cfg, True) \<Rightarrow> Some (cfg, True) | _ \<Rightarrow> None)"

definition windows_scm :: service_profile where
  "windows_scm = \<lparr>prof_program = Some ''sc.exe'', prof_status = Some [Some ''query'', Some ''{service_name}''],
     prof_start = Some [Some ''start'', Some ''{service_name}'', Some ''{arguments}''],
     prof_stop = Some [Some ''stop'', Some ''{service_name}'', Some ''{arguments}'']\<rparr>"

section \<open>What rendering produces\<close>

text \<open>The reference: the placeholder is replaced everywhere, and the arguments are spliced in.\<close>

function subst_name :: "string \<Rightarrow> string \<Rightarrow> string" where
  "subst_name name t =
     (if t = [] then []
      else if take 14 t = placeholder then name @ subst_name name (drop 14 t)
      else hd t # subst_name name (tl t))"
  by pat_completeness auto

termination
  by (relation "measure (\<lambda>(name, t). length t)") auto

declare subst_name.simps [simp del]

definition expand :: "string \<Rightarrow> string list \<Rightarrow> string list \<Rightarrow> string list" where
  "expand name extra ts = concat (map (\<lambda>t. if t = ''{arguments}'' then extra else [subst_name name t]) ts)"

definition text_bytes :: "string list \<Rightarrow> nat" where
  "text_bytes ts = sum_list (map (\<lambda>t. length t + 1) ts)"

lemma text_bytes_append [simp]: "text_bytes (a @ b) = text_bytes a + text_bytes b" "text_bytes [] = 0"
  "text_bytes (t # ts) = length t + 1 + text_bytes ts"
  by (simp_all add: text_bytes_def)

lemma placeholder_length: "take 14 t = placeholder \<Longrightarrow> 14 \<le> length t"
  using length_take [of 14 t] by (simp add: placeholder_def split: if_splits)

lemma render_text_spec:
  "u \<le> max_metadata_bytes cfg \<Longrightarrow> render_text cfg name t out u =
     (if u + length (subst_name name t) \<le> max_metadata_bytes cfg
      then Some (out @ subst_name name t, u + length (subst_name name t)) else None)"
proof (induction cfg name t out u rule: render_text.induct)
  case (1 cfg name t out u)
  consider "t = []" | (hole) "t \<noteq> []" "take 14 t = placeholder" | (plain) "t \<noteq> []" "take 14 t \<noteq> placeholder" by blast
  then show ?case
  proof cases
    case hole
    then have len: "14 \<le> length t" by (simp add: placeholder_length)
    show ?thesis using 1 hole len by (subst render_text.simps, subst (1 2 3) subst_name.simps) (auto simp: add_bytes_def)
  next
    case plain
    show ?thesis using 1 plain by (subst render_text.simps, subst (1 2 3) subst_name.simps) (auto simp: add_bytes_def)
  qed (use 1 in \<open>simp add: render_text.simps [of cfg name "[]"] subst_name.simps [of name "[]"]\<close>)
qed

lemma copy_arguments_spec:
  assumes "used_bytes r \<le> max_metadata_bytes cfg" and "length (args r) \<le> max_arguments cfg"
  shows "copy_arguments cfg (map Some ts) r =
     (if length (args r) + length ts \<le> max_arguments cfg \<and> used_bytes r + text_bytes ts \<le> max_metadata_bytes cfg
      then Some \<lparr>used_bytes = used_bytes r + text_bytes ts, args = args r @ ts\<rparr> else None)"
  using assms
proof (induction ts arbitrary: r)
  case (Cons t ts)
  then show ?case
    by (auto simp: copy_text_def text_size_def add_bytes_def)
qed simp

lemma render_templates_spec:
  assumes "used_bytes r \<le> max_metadata_bytes cfg" and "length (args r) \<le> max_arguments cfg"
  shows "render_templates cfg name (map Some extra) (map Some ts) r =
     (if (\<forall>t\<in>set ts. length t < max_metadata_bytes cfg) \<and>
         length (args r) + length (expand name extra ts) \<le> max_arguments cfg \<and>
         used_bytes r + text_bytes (expand name extra ts) \<le> max_metadata_bytes cfg
      then Some \<lparr>used_bytes = used_bytes r + text_bytes (expand name extra ts), args = args r @ expand name extra ts\<rparr>
      else None)"
  using assms
proof (induction ts arbitrary: r)
  case Nil
  then show ?case by (simp add: expand_def)
next
  case (Cons t ts)
  let ?rest = "expand name extra ts" and ?max = "max_metadata_bytes cfg"
  have ex: "expand name extra (t # ts) = (if t = ''{arguments}'' then extra else [subst_name name t]) @ ?rest"
    by (simp add: expand_def)
  consider (long) "\<not> length t < ?max" | (splice) "length t < ?max" "t = ''{arguments}''"
    | (plain) "length t < ?max" "t \<noteq> ''{arguments}''" by blast
  then show ?case
  proof cases
    case long
    then show ?thesis by (simp add: text_size_def)
  next
    case splice
    let ?r = "\<lparr>used_bytes = used_bytes r + text_bytes extra, args = args r @ extra\<rparr>"
    have copy: "copy_arguments cfg (map Some extra) r =
        (if length (args r) + length extra \<le> max_arguments cfg \<and> used_bytes r + text_bytes extra \<le> ?max then Some ?r else None)"
      by (rule copy_arguments_spec [OF Cons.prems])
    show ?thesis
    proof (cases "length (args r) + length extra \<le> max_arguments cfg \<and> used_bytes r + text_bytes extra \<le> ?max")
      case True
      then show ?thesis using Cons.IH [of ?r] splice copy unfolding ex by (simp add: text_size_def add.assoc)
    next
      case False
      then show ?thesis using splice copy unfolding ex by (auto simp: text_size_def)
    qed
  next
    case plain
    let ?s = "subst_name name t" let ?u = "used_bytes r + (length ?s + 1)"
    let ?r = "\<lparr>used_bytes = ?u, args = args r @ [?s]\<rparr>"
    have rt: "render_text cfg name t [] (used_bytes r) =
        (if used_bytes r + length ?s \<le> ?max then Some (?s, used_bytes r + length ?s) else None)"
      using render_text_spec [OF Cons.prems(1), of name t "[]"] by simp
    show ?thesis
    proof (cases "length (args r) + 1 \<le> max_arguments cfg \<and> ?u \<le> ?max")
      case True
      then show ?thesis using Cons.IH [of ?r] plain rt unfolding ex by (simp add: text_size_def add_bytes_def add.assoc)
    next
      case False
      then show ?thesis using plain rt Cons.prems unfolding ex by (auto simp: text_size_def add_bytes_def)
    qed
  qed
qed

text \<open>
  C26. Rendering a command is the reference expansion of its templates, and it is refused exactly when a
  bound is exceeded: the name or a template is too long, there are too many templates or arguments, or
  the texts with their terminators and the argument vector do not fit what is left of the buffer.
\<close>

theorem render_correct:
  assumes "u \<le> max_metadata_bytes cfg" and "srv_name req = Some name" and "srv_arguments req = Some (map Some extra)"
  shows "render cfg req (Some (map Some ts)) u =
    (let out = expand name extra ts; need = text_bytes out + (length out + 1) * 8 in
     if length name < max_metadata_bytes cfg \<and> length ts \<le> max_arguments cfg \<and>
        (\<forall>t\<in>set ts. length t < max_metadata_bytes cfg) \<and> length out \<le> max_arguments cfg \<and>
        u + need \<le> max_metadata_bytes cfg
     then Some (out, u + need) else None)"
proof -
  have r: "render_templates cfg name (map Some extra) (map Some ts) \<lparr>used_bytes = u, args = []\<rparr> =
      (if (\<forall>t\<in>set ts. length t < max_metadata_bytes cfg) \<and> length (expand name extra ts) \<le> max_arguments cfg \<and>
          u + text_bytes (expand name extra ts) \<le> max_metadata_bytes cfg
       then Some \<lparr>used_bytes = u + text_bytes (expand name extra ts), args = expand name extra ts\<rparr> else None)"
    using render_templates_spec [of "\<lparr>used_bytes = u, args = []\<rparr>" cfg name extra ts] assms(1) by simp
  show ?thesis using r assms by (auto simp: render_def text_size_def Let_def)
qed

section \<open>Printed states are read back\<close>

fun state_code :: "service_state \<Rightarrow> 32 word" where
  "state_code SERVICE_UNKNOWN = 0"
| "state_code SERVICE_STOPPED = 1"
| "state_code SERVICE_START_PENDING = 2"
| "state_code SERVICE_STOP_PENDING = 3"
| "state_code SERVICE_RUNNING = 4"

fun state_digit :: "service_state \<Rightarrow> char" where
  "state_digit SERVICE_UNKNOWN = CHR ''0''"
| "state_digit SERVICE_STOPPED = CHR ''1''"
| "state_digit SERVICE_START_PENDING = CHR ''2''"
| "state_digit SERVICE_STOP_PENDING = CHR ''3''"
| "state_digit SERVICE_RUNNING = CHR ''4''"

text \<open>A status report: lines without a STATE field, then the field with blanks around the colon.\<close>

definition other_line :: "string \<Rightarrow> bool" where
  "other_line l \<longleftrightarrow> CHR 0x0A \<notin> set l \<and> \<not> state_prefix (dropWhile (\<lambda>c. is_blank c \<or> c = CHR 0x0D) l)"

definition report :: "string list \<Rightarrow> string \<Rightarrow> string \<Rightarrow> string \<Rightarrow> service_state \<Rightarrow> string \<Rightarrow> string" where
  "report ls b1 b2 b3 st rest =
     concat (map (\<lambda>l. l @ [CHR 0x0A]) ls) @ b1 @ ''STATE'' @ b2 @ '':'' @ b3 @ [state_digit st] @ rest"

lemma takeWhile_line: "CHR 0x0A \<notin> set l \<Longrightarrow> takeWhile (\<lambda>c. c \<noteq> CHR 0x0A) (l @ CHR 0x0A # r) = l"
  by (subst takeWhile_append2) auto

lemma parse_other_lines:
  "list_all other_line ls \<Longrightarrow> r \<noteq> [] \<Longrightarrow> parse_state (concat (map (\<lambda>l. l @ [CHR 0x0A]) ls) @ r) = parse_state r"
proof (induction ls)
  case (Cons l ls)
  let ?r = "concat (map (\<lambda>l. l @ [CHR 0x0A]) ls) @ r"
  have l: "CHR 0x0A \<notin> set l" "\<not> state_prefix (dropWhile (\<lambda>c. is_blank c \<or> c = CHR 0x0D) l)"
    using Cons.prems by (auto simp: other_line_def)
  have "parse_state (l @ CHR 0x0A # ?r) = parse_state ?r"
    by (subst parse_state.simps) (simp add: takeWhile_line [OF l(1)] l(2))
  then show ?case using Cons by simp
qed simp

lemma scan_digit:
  assumes "st \<noteq> SERVICE_UNKNOWN" and "rest = [] \<or> is_space (hd rest)"
  shows "scan_value (state_digit st # rest) 0 = Some (state_code st, rest)" "is_digit (state_digit st)" "\<not> is_blank (state_digit st)"
    "state_digit st \<noteq> CHR 0x0A"
proof -
  have "\<not> is_digit c" if "is_space c" for c using that by (auto simp: is_space_def is_digit_def Let_def)
  then have stop: "scan_value rest v = Some (v, rest)" for v using assms(2) by (cases rest) auto
  have d: "is_digit (state_digit st)" "digit_value (state_digit st) = state_code st" "\<not> is_blank (state_digit st)" "state_digit st \<noteq> CHR 0x0A"
    by (cases st; simp add: is_digit_def digit_value_def is_blank_def)+
  have "\<not> (int_max - state_code st) div 10 < 0" by simp
  then show "scan_value (state_digit st # rest) 0 = Some (state_code st, rest)" using d stop by simp
  show "is_digit (state_digit st)" "\<not> is_blank (state_digit st)" "state_digit st \<noteq> CHR 0x0A" by (rule d)+
qed

lemma parse_field_digit:
  assumes "st \<noteq> SERVICE_UNKNOWN" and "rest = [] \<or> is_space (hd rest)" and "list_all is_blank b2" "list_all is_blank b3"
  shows "parse_field (b2 @ CHR '':'' # b3 @ state_digit st # rest) = Inr st"
proof -
  have "dropWhile (\<lambda>c. c \<noteq> CHR '':'') (b2 @ CHR '':'' # b3 @ state_digit st # rest) = CHR '':'' # b3 @ state_digit st # rest"
    using assms(3) by (induction b2) (auto simp: is_blank_def)
  moreover have "dropWhile is_blank (b3 @ state_digit st # rest) = state_digit st # rest"
    using assms(4) scan_digit(3) [OF assms(1,2)] by (induction b3) auto
  moreover have "service_state_of (state_code st) = st" "1 \<le> state_code st" "state_code st \<le> 4"
    using assms(1) by (cases st; simp add: service_state_of_def)+
  ultimately show ?thesis using scan_digit(1) [OF assms(1,2)] assms(2)
    by (auto simp: parse_field_def)
qed

text \<open>
  Round trip: the state printed in a status report is the state that the parser returns, behind any
  lines without a STATE field, with any blanks around the colon, and with any text after the number
  that begins with white space.
\<close>

theorem parse_state_report:
  assumes "st \<noteq> SERVICE_UNKNOWN" and "list_all other_line ls" and "list_all is_blank b1" "list_all is_blank b2" "list_all is_blank b3"
    and "rest = [] \<or> is_space (hd rest)"
  shows "parse_state (report ls b1 b2 b3 st rest) = Inr st"
proof -
  let ?body = "b2 @ CHR '':'' # b3 @ state_digit st # rest"
  let ?nl = "\<lambda>c. c \<noteq> CHR 0x0A" and ?line = "b2 @ CHR '':'' # b3 @ state_digit st # takeWhile (\<lambda>c. c \<noteq> CHR 0x0A) rest"
  have "\<not> is_blank (CHR 0x0A)" by (simp add: is_blank_def)
  then have nb: "list_all is_blank b \<Longrightarrow> \<forall>c\<in>set b. ?nl c" for b unfolding list_all_iff by blast
  have tw: "takeWhile ?nl (b1 @ ''STATE'' @ ?body) = b1 @ ''STATE'' @ ?line"
  proof -
    let ?pre = "b1 @ ''STATE'' @ b2 @ '':'' @ b3 @ [state_digit st]"
    have "\<forall>c\<in>set ''STATE''. ?nl c" "\<forall>c\<in>set '':''. ?nl c" "\<forall>c\<in>set [state_digit st]. ?nl c"
      using scan_digit(4) [OF assms(1,6)] by simp_all
    then have "\<forall>c\<in>set ?pre. ?nl c"
      using nb [OF assms(3)] nb [OF assms(4)] nb [OF assms(5)] unfolding set_append ball_Un by blast
    then have "takeWhile ?nl (?pre @ rest) = ?pre @ takeWhile ?nl rest" by (intro takeWhile_append2) blast
    then show ?thesis by simp
  qed
  have dw: "dropWhile (\<lambda>c. is_blank c \<or> c = CHR 0x0D) (b1 @ ''STATE'' @ ?line) = ''STATE'' @ ?line"
    using assms(3) by (induction b1) (auto simp: is_blank_def)
  have pre: "state_prefix (''STATE'' @ ?line)"
    using assms(4) by (cases b2) (auto simp: state_prefix_def is_blank_def)
  have "takeWhile ?nl rest = [] \<or> is_space (hd (takeWhile ?nl rest))" using assms(6) by (cases rest) auto
  then have "parse_field ?line = Inr st" by (rule parse_field_digit [OF assms(1) _ assms(4,5)])
  then have "parse_state (b1 @ ''STATE'' @ ?body) = Inr st"
    by (subst parse_state.simps) (simp add: tw [simplified] dw [simplified] pre [simplified])
  then show ?thesis using parse_other_lines [OF assms(2), of "b1 @ ''STATE'' @ ?body"] by (simp add: report_def)
qed

section \<open>Which commands are run\<close>

definition run_succeeded :: "salts_status \<Rightarrow> service_response \<Rightarrow> bool" where
  "run_succeeded st out \<longleftrightarrow> st = SALTS_OK \<and> resp_state out = PROCESS_EXITED \<and> resp_exit_code out = 0"

fun call_succeeded :: "service_call \<Rightarrow> bool" where
  "call_succeeded (SCall_run _ _ st out) = run_succeeded st out"
| "call_succeeded _ = True"

text \<open>The state that the last successful status command has reported.\<close>

fun reported :: "service_history \<Rightarrow> service_state option \<Rightarrow> service_state option" where
  "reported [] s = s"
| "reported (SCall_run 0 _ st out # h) s =
     reported h (if run_succeeded st out then (case parse_state (response_text out) of Inl _ \<Rightarrow> s | Inr x \<Rightarrow> Some x) else s)"
| "reported (_ # h) s = reported h s"

text \<open>
  When a command may follow a history: every command before it has succeeded; it is the rendered command
  of its slot, with a timeout; a start command follows a report that the service is stopped, a stop
  command one that it is running, and the request asked for it.
\<close>

fun command_allowed :: "service_plan \<Rightarrow> service_history \<Rightarrow> service_call \<Rightarrow> bool" where
  "command_allowed P h (SCall_run slot cmd _ _) \<longleftrightarrow> list_all call_succeeded h \<and>
     cmd_program cmd = plan_program P \<and> cmd_arguments cmd = plan_commands P ! slot \<and>
     cmd_max_output_bytes cmd = max_output_bytes (plan_config P) \<and>
     (slot = 0 \<or>
      slot = 1 \<and> reported h None = Some SERVICE_STOPPED \<and> srv_operation (plan_request P) \<in> {Some PROCESS_START, Some PROCESS_RESTART} \<or>
      slot = 2 \<and> reported h None = Some SERVICE_RUNNING \<and> srv_operation (plan_request P) \<in> {Some PROCESS_STOP, Some PROCESS_RESTART})"
| "command_allowed P h _ \<longleftrightarrow> True"

fun commands_allowed :: "service_plan \<Rightarrow> service_history \<Rightarrow> service_history \<Rightarrow> bool" where
  "commands_allowed P h [] = True"
| "commands_allowed P h (c # cs) = (command_allowed P h c \<and> commands_allowed P (h @ [c]) cs)"

fun changes :: "service_call \<Rightarrow> bool" where
  "changes (SCall_run slot _ st out) = (slot \<noteq> 0 \<and> run_succeeded st out)"
| "changes _ = False"

lemma reported_append: "reported (a @ b) s = reported b (reported a s)"
  by (induction a s rule: reported.induct) simp_all

lemma commands_append: "commands_allowed P h (a @ b) \<longleftrightarrow> commands_allowed P h a \<and> commands_allowed P (h @ a) b"
  by (induction a arbitrary: h) auto

definition commands_sound :: "service_plan \<Rightarrow> service_history \<Rightarrow> service_history \<Rightarrow> execution \<Rightarrow> bool" where
  "commands_sound P h d e \<longleftrightarrow> xcalls e = h @ d \<and> commands_allowed P [] d \<and>
     (sr_changed (xres e) \<longleftrightarrow> (\<exists>x\<in>set d. changes x))"

text \<open>An execution that has not failed: every command has succeeded and no error is set.\<close>

definition live :: "service_history \<Rightarrow> execution \<Rightarrow> bool" where
  "live d e \<longleftrightarrow> list_all call_succeeded d \<and> sr_error (xres e) = SERVICE_NONE"

definition shows_report :: "service_history \<Rightarrow> execution \<Rightarrow> bool" where
  "shows_report d e \<longleftrightarrow> reported d None = Some (sr_state (xres e))"

lemma sound_call:
  assumes "commands_sound P h d e" and "command_allowed P d x" and "xcalls e' = xcalls e @ [x]"
    and "sr_changed (xres e') = (changes x \<or> sr_changed (xres e))"
  shows "commands_sound P h (d @ [x]) e'"
  using assms by (auto simp: commands_sound_def commands_append)

lemma elapsed_step:
  assumes "service_elapsed H began e = (t, e')"
  shows "xcalls e' = xcalls e @ [SCall_now]" "xres e' = xres e"
  using assms by (auto simp: service_elapsed_def service_now_def)

lemma elapsed_sound:
  assumes "commands_sound P h d e" and "service_elapsed H began e = (t, e')"
  shows "commands_sound P h (d @ [SCall_now]) e'"
  using sound_call [OF assms(1), of SCall_now e'] elapsed_step [OF assms(2)] by simp

lemma service_fail_sound:
  "commands_sound P h d e \<Longrightarrow> service_fail code phase msg inc e = (b, e') \<Longrightarrow> code \<noteq> SERVICE_NONE \<Longrightarrow>
   \<not> b \<and> commands_sound P h d e' \<and> sr_error (xres e') \<noteq> SERVICE_NONE"
  by (auto simp: service_fail_def commands_sound_def)

text \<open>The result of a step: it goes on in a live execution, or it has failed with an error.\<close>

definition step_result :: "service_plan \<Rightarrow> service_history \<Rightarrow> (service_history \<Rightarrow> execution \<Rightarrow> bool) \<Rightarrow> bool \<times> execution \<Rightarrow> bool" where
  "step_result P h good r \<longleftrightarrow> (\<exists>d. commands_sound P h d (snd r) \<and>
     (if fst r then live d (snd r) \<and> good d (snd r) else sr_error (xres (snd r)) \<noteq> SERVICE_NONE))"

lemma fail_result:
  "commands_sound P h d e \<Longrightarrow> code \<noteq> SERVICE_NONE \<Longrightarrow> step_result P h good (service_fail code phase msg inc e)"
  unfolding step_result_def by (auto simp: service_fail_def commands_sound_def)

lemma response_refused_None: "response_refused phase st out e = None \<longleftrightarrow> run_succeeded st out"
  by (auto simp: response_refused_def run_succeeded_def)

lemma response_refused_result:
  assumes "response_refused phase st out e = Some r" and "commands_sound P h d e"
  shows "step_result P h good r"
proof -
  have "commands_sound P h d (e\<lparr>xres := (xres e)\<lparr>sr_include_process := True, sr_process_state := resp_state out,
      sr_exit_code := resp_exit_code out\<rparr>\<rparr>)" using assms(2) by (simp add: commands_sound_def)
  then show ?thesis using assms by (auto simp: response_refused_def intro: fail_result split: if_splits)
qed

text \<open>One command: when it goes on, the report may only have changed through a status command.\<close>

lemma run_command_result:
  assumes sound: "commands_sound P h d e" and live: "live d e"
    and allowed: "slot = 0 \<or> slot = 1 \<and> reported d None = Some SERVICE_STOPPED \<and> srv_operation (plan_request P) \<in> {Some PROCESS_START, Some PROCESS_RESTART} \<or>
      slot = 2 \<and> reported d None = Some SERVICE_RUNNING \<and> srv_operation (plan_request P) \<in> {Some PROCESS_STOP, Some PROCESS_RESTART}"
    and run: "run_command H P slot phase e = (r, out)"
  shows "fst r = (out \<noteq> None) \<and>
    step_result P h (\<lambda>d' e'. sr_state (xres e') = sr_state (xres e) \<and>
      reported d' None = (if slot = 0 then (case parse_state (response_text (the out)) of Inl _ \<Rightarrow> reported d None | Inr x \<Rightarrow> Some x)
                          else reported d None)) r"
proof -
  obtain used e1 where e1: "service_elapsed H (plan_began P) e = (used, e1)" by fastforce
  have s1: "commands_sound P h (d @ [SCall_now]) e1" by (rule elapsed_sound [OF sound e1])
  show ?thesis
  proof (cases "used \<ge> plan_budget P")
    case True
    then show ?thesis using run e1 fail_result [OF s1] by (auto simp: run_command_def service_fail_def)
  next
    case False
    let ?cmd = "slot_command P slot used"
    obtain st res where h: "srv_run H (xcalls e1) ?cmd = (st, res)" by fastforce
    let ?x = "SCall_run slot ?cmd st res" and ?e2 = "e1\<lparr>xcalls := xcalls e1 @ [SCall_run slot (slot_command P slot used) st res]\<rparr>"
    let ?d = "(d @ [SCall_now]) @ [?x]"
    have ok: "command_allowed P (d @ [SCall_now]) ?x"
      using live allowed by (auto simp: slot_command_def Let_def live_def reported_append)
    show ?thesis
    proof (cases "response_refused phase st res ?e2")
      case (Some q)
      then have "\<not> run_succeeded st res" using response_refused_None [of phase st res ?e2] by auto
      then have "commands_sound P h ?d ?e2" using sound_call [OF s1 ok, of ?e2] by simp
      then show ?thesis using run e1 False h Some response_refused_result [OF Some]
        by (auto simp: run_command_def Let_def response_refused_def service_fail_def split: if_splits)
    next
      case None
      then have succ: "run_succeeded st res" by (simp add: response_refused_None)
      let ?e3 = "if slot \<noteq> 0 then ?e2\<lparr>xres := (xres ?e2)\<lparr>sr_changed := True\<rparr>\<rparr> else ?e2"
      have s3: "commands_sound P h ?d ?e3" using sound_call [OF s1 ok, of ?e3] succ by auto
      obtain used4 e4 where e4: "service_elapsed H (plan_began P) ?e3 = (used4, e4)" by fastforce
      have s4: "commands_sound P h (?d @ [SCall_now]) e4" by (rule elapsed_sound [OF s3 e4])
      have x4: "xres e4 = (if slot \<noteq> 0 then (xres e)\<lparr>sr_changed := True\<rparr> else xres e)"
        using elapsed_step(2) [OF e4] elapsed_step(2) [OF e1] by auto
      have res: "(r, out) = (if used4 \<ge> plan_budget P then (service_fail SERVICE_TIMEOUT phase too_late False e4, None)
          else if (resp_output res = None \<and> resp_size res \<noteq> 0) \<or> resp_size res > max_output_bytes (plan_config P)
          then (service_fail SERVICE_STATE_FAILED phase ''service command output exceeds configured bounds'' False e4, None)
          else ((True, e4), Some res))"
        using run e1 False h None e4 by (simp add: run_command_def Let_def)
      have good: "live (?d @ [SCall_now]) e4"
        using live succ x4 by (auto simp: live_def)
      have rep: "reported (?d @ [SCall_now]) None =
          (if slot = 0 then (case parse_state (response_text res) of Inl _ \<Rightarrow> reported d None | Inr x \<Rightarrow> Some x) else reported d None)"
        using succ by (cases slot) (simp_all add: reported_append)
      show ?thesis
      proof (cases out)
        case None
        then show ?thesis using res fail_result [OF s4] by (auto simp: service_fail_def split: if_splits)
      next
        case (Some o1)
        then have "r = (True, e4)" "o1 = res" using res by (auto split: if_splits)
        then show ?thesis using Some s4 good rep x4 unfolding step_result_def
          by (auto intro!: exI [of _ "?d @ [SCall_now]"])
      qed
    qed
  qed
qed

lemma query_result:
  assumes sound: "commands_sound P h d e" and live: "live d e"
  shows "step_result P h shows_report (service_query H P phase e)"
proof -
  obtain r out where run: "run_command H P 0 phase e = (r, out)" by fastforce
  note spec = run_command_result [OF sound live _ run, simplified]
  show ?thesis
  proof (cases out)
    case None
    then show ?thesis using spec run by (auto simp: service_query_def step_result_def)
  next
    case (Some res)
    obtain e1 where r: "r = (True, e1)" using spec Some by (cases r) auto
    from spec obtain d1 where d1: "commands_sound P h d1 e1" "live d1 e1"
      "reported d1 None = (case parse_state (response_text res) of Inl _ \<Rightarrow> reported d None | Inr x \<Rightarrow> Some x)"
      using r Some by (auto simp: step_result_def)
    show ?thesis
    proof (cases "parse_state (response_text res)")
      case (Inl err)
      then show ?thesis using run Some r fail_result [OF d1(1)] by (simp add: service_query_def)
    next
      case (Inr st)
      let ?e = "e1\<lparr>xres := (xres e1)\<lparr>sr_state := st\<rparr>\<rparr>"
      have "commands_sound P h d1 ?e" "live d1 ?e" "shows_report d1 ?e"
        using d1 Inr by (simp_all add: commands_sound_def live_def shows_report_def)
      then show ?thesis using run Some r Inr by (auto simp: service_query_def step_result_def)
    qed
  qed
qed

lemma go_on: "commands_sound P h d e \<Longrightarrow> live d e \<Longrightarrow> good d e \<Longrightarrow> step_result P h good (True, e)"
  by (auto simp: step_result_def)

definition reaches :: "service_state \<Rightarrow> service_history \<Rightarrow> execution \<Rightarrow> bool" where
  "reaches target d e \<longleftrightarrow> shows_report d e \<and> sr_state (xres e) = target"

lemma poll_round_cases:
  assumes sound: "commands_sound P h d e" and live: "live d e"
  shows "(\<exists>d' e'. poll_round H P target (b, e) = Some (Inl (False, e')) \<and> commands_sound P h d' e' \<and> live d' e') \<or>
    (\<exists>r. poll_round H P target (b, e) = Some (Inr r) \<and> step_result P h (reaches target) r)"
proof -
  obtain used e1 where e1: "service_elapsed H (plan_began P) e = (used, e1)" by fastforce
  have s1: "commands_sound P h (d @ [SCall_now]) e1" by (rule elapsed_sound [OF sound e1])
  show ?thesis
  proof (cases "used \<ge> plan_budget P")
    case True
    then show ?thesis using e1 fail_result [OF s1] by (simp add: poll_round_def)
  next
    case False
    define ms :: "32 word" where "ms = ucast (if of_int (srv_poll_interval_ms (plan_request P)) < (plan_budget P - used + 999999) div ns_per_ms
       then of_int (srv_poll_interval_ms (plan_request P)) else (plan_budget P - used + 999999) div ns_per_ms)"
    let ?e2 = "e1\<lparr>xcalls := xcalls e1 @ [SCall_sleep ms]\<rparr>"
    have s2: "commands_sound P h ((d @ [SCall_now]) @ [SCall_sleep ms]) ?e2" using sound_call [OF s1, of "SCall_sleep ms" ?e2] by simp
    have l2: "live ((d @ [SCall_now]) @ [SCall_sleep ms]) ?e2" using live elapsed_step(2) [OF e1] by (simp add: live_def)
    obtain b3 e3 where q: "service_query H P ''poll'' ?e2 = (b3, e3)" by fastforce
    have round: "poll_round H P target (b, e) = (if \<not> b3 then Some (Inr (False, e3))
        else if sr_state (xres e3) = target then Some (Inr (True, e3)) else Some (Inl (False, e3)))"
      using e1 False q by (cases b3) (simp_all add: poll_round_def Let_def ms_def)
    have "step_result P h shows_report (b3, e3)" using query_result [OF s2 l2, of H "''poll''"] q by simp
    then show ?thesis unfolding round step_result_def reaches_def by (cases b3) auto
  qed
qed

lemma poll_for_result:
  assumes sound: "commands_sound P h d e" and live: "live d e" and run: "poll_for H P target e = Some r"
  shows "step_result P h (reaches target) r"
proof (rule c_loop_partial [OF run [unfolded poll_for_def], where I = "\<lambda>(_, e). \<exists>d. commands_sound P h d e \<and> live d e"])
  show "case (False, e) of (_, e) \<Rightarrow> \<exists>d. commands_sound P h d e \<and> live d e" using sound live by auto
next
  fix s s' assume "case s of (_, e) \<Rightarrow> \<exists>d. commands_sound P h d e \<and> live d e" and "poll_round H P target s = Some (Inl s')"
  then show "case s' of (_, e) \<Rightarrow> \<exists>d. commands_sound P h d e \<and> live d e"
    using poll_round_cases [of P h _ "snd s" H target "fst s"] by (cases s) fastforce
next
  fix s t assume "case s of (_, e) \<Rightarrow> \<exists>d. commands_sound P h d e \<and> live d e" and "poll_round H P target s = Some (Inr t)"
  then show "step_result P h (reaches target) t"
    using poll_round_cases [of P h _ "snd s" H target "fst s"] by (cases s) fastforce
qed

text \<open>A transition: nothing to do, a refusal, or a command where the state asks for it and then the poll.\<close>

lemma transition_result:
  assumes sound: "commands_sound P h d e" and live: "live d e" and rep: "shows_report d e"
    and slot: "from_state = SERVICE_STOPPED \<and> slot = 1 \<and> srv_operation (plan_request P) \<in> {Some PROCESS_START, Some PROCESS_RESTART} \<or>
      from_state = SERVICE_RUNNING \<and> slot = 2 \<and> srv_operation (plan_request P) \<in> {Some PROCESS_STOP, Some PROCESS_RESTART}"
    and run: "(case (if sr_state (xres e) = from_state then fst (run_command H P slot phase e) else (True, e)) of
        (False, e) \<Rightarrow> Some (False, e) | (True, e) \<Rightarrow> poll_for H P target e) = Some r"
  shows "step_result P h (reaches target) r"
proof (cases "sr_state (xres e) = from_state")
  case False
  then show ?thesis using run poll_for_result [OF sound live] by simp
next
  case True
  obtain q out where cmd: "run_command H P slot phase e = (q, out)" by fastforce
  have allowed: "slot = 0 \<or> slot = 1 \<and> reported d None = Some SERVICE_STOPPED \<and> srv_operation (plan_request P) \<in> {Some PROCESS_START, Some PROCESS_RESTART} \<or>
      slot = 2 \<and> reported d None = Some SERVICE_RUNNING \<and> srv_operation (plan_request P) \<in> {Some PROCESS_STOP, Some PROCESS_RESTART}"
    using slot rep True by (auto simp: shows_report_def)
  obtain b1 e1 where q: "q = (b1, e1)" by (cases q)
  from run_command_result [OF sound live allowed cmd] obtain d1 where d1: "commands_sound P h d1 e1" "b1 \<Longrightarrow> live d1 e1"
    "\<not> b1 \<Longrightarrow> sr_error (xres e1) \<noteq> SERVICE_NONE" using q by (auto simp: step_result_def split: if_splits)
  show ?thesis
  proof (cases b1)
    case False
    then show ?thesis using run True cmd q d1 by (auto simp: step_result_def)
  next
    case b1: True
    then show ?thesis using run True cmd q poll_for_result [OF d1(1) d1(2)] by simp
  qed
qed

lemma start_result:
  assumes "commands_sound P h d e" "live d e" "shows_report d e"
    and op: "srv_operation (plan_request P) \<in> {Some PROCESS_START, Some PROCESS_RESTART}" and run: "service_start H P e = Some r"
  shows "step_result P h (reaches SERVICE_RUNNING) r"
proof -
  consider (there) "sr_state (xres e) = SERVICE_RUNNING" | (refused) "sr_state (xres e) = SERVICE_STOP_PENDING"
    | (go) "sr_state (xres e) \<noteq> SERVICE_RUNNING" "sr_state (xres e) \<noteq> SERVICE_STOP_PENDING" by blast
  then show ?thesis
  proof cases
    case go
    then show ?thesis using run op by (intro transition_result [OF assms(1-3), where from_state = SERVICE_STOPPED and slot = 1 and H = H and phase = "''start''"]) (simp_all add: service_start_def)
  next
    case there
    then have "r = (True, e)" using run by (simp add: service_start_def)
    then show ?thesis using there go_on [OF assms(1,2), of "reaches SERVICE_RUNNING"] assms(3) by (simp add: reaches_def)
  next
    case refused
    then show ?thesis using run fail_result [OF assms(1)] by (auto simp: service_start_def)
  qed
qed

lemma stop_result:
  assumes "commands_sound P h d e" "live d e" "shows_report d e"
    and op: "srv_operation (plan_request P) \<in> {Some PROCESS_STOP, Some PROCESS_RESTART}" and run: "service_stop H P e = Some r"
  shows "step_result P h (reaches SERVICE_STOPPED) r"
proof -
  consider (there) "sr_state (xres e) = SERVICE_STOPPED" | (refused) "sr_state (xres e) = SERVICE_START_PENDING"
    | (go) "sr_state (xres e) \<noteq> SERVICE_STOPPED" "sr_state (xres e) \<noteq> SERVICE_START_PENDING" by blast
  then show ?thesis
  proof cases
    case go
    then show ?thesis using run op by (intro transition_result [OF assms(1-3), where from_state = SERVICE_RUNNING and slot = 2 and H = H and phase = "''stop''"]) (simp_all add: service_stop_def)
  next
    case there
    then have "r = (True, e)" using run by (simp add: service_stop_def)
    then show ?thesis using there go_on [OF assms(1,2), of "reaches SERVICE_STOPPED"] assms(3) by (simp add: reaches_def)
  next
    case refused
    then show ?thesis using run fail_result [OF assms(1)] by (auto simp: service_stop_def)
  qed
qed

text \<open>Steps in sequence.\<close>

lemma and_then_result:
  assumes "and_then x f = Some r" and "\<And>q. x = Some q \<Longrightarrow> step_result P h mid q"
    and "\<And>d e r. commands_sound P h d e \<Longrightarrow> live d e \<Longrightarrow> mid d e \<Longrightarrow> f e = Some r \<Longrightarrow> step_result P h goal r"
  shows "step_result P h goal r"
proof -
  obtain b e where x: "x = Some (b, e)" using assms(1) by (auto simp: and_then_def split: option.splits)
  show ?thesis
  proof (cases b)
    case True
    obtain d where "commands_sound P h d e" "live d e" "mid d e" using assms(2) [OF x] True by (auto simp: step_result_def)
    then show ?thesis using assms(1) x True by (intro assms(3)) (simp_all add: and_then_def)
  next
    case False
    then show ?thesis using assms(1) assms(2) [OF x] x by (auto simp: and_then_def step_result_def)
  qed
qed

lemma restart_result:
  assumes "commands_sound P h d e" "live d e" "shows_report d e"
    and op: "srv_operation (plan_request P) = Some PROCESS_RESTART" and run: "service_restart H P e = Some r"
  shows "step_result P h (reaches SERVICE_RUNNING) r"
proof (rule and_then_result [where mid = shows_report, OF run [unfolded service_restart_def]])
  fix q assume q: "(if sr_state (xres e) = SERVICE_START_PENDING then poll_for H P SERVICE_RUNNING e else Some (True, e)) = Some q"
  show "step_result P h shows_report q"
  proof (cases "sr_state (xres e) = SERVICE_START_PENDING")
    case True
    then have "step_result P h (reaches SERVICE_RUNNING) q" using q poll_for_result [OF assms(1,2)] by simp
    then show ?thesis by (auto simp: step_result_def reaches_def)
  next
    case False
    then show ?thesis using q go_on [of P h d e shows_report] assms(1-3) by auto
  qed
next
  fix d e r assume de: "commands_sound P h d e" "live d e" "shows_report d e" and f: "and_then (service_stop H P e) (service_start H P) = Some r"
  show "step_result P h (reaches SERVICE_RUNNING) r"
  proof (rule and_then_result [where mid = "reaches SERVICE_STOPPED", OF f])
    show "step_result P h (reaches SERVICE_STOPPED) q" if "service_stop H P e = Some q" for q
      using stop_result [OF de _ that] op by simp
    show "step_result P h (reaches SERVICE_RUNNING) r" if "commands_sound P h d e" "live d e" "reaches SERVICE_STOPPED d e" "service_start H P e = Some r" for d e r
      using that start_result [of P h d e H r] op by (simp add: reaches_def)
  qed
qed

text \<open>The state that a successful operation has reached.\<close>

definition target_reached :: "service_plan \<Rightarrow> service_history \<Rightarrow> execution \<Rightarrow> bool" where
  "target_reached P d e \<longleftrightarrow> shows_report d e \<and>
     (srv_operation (plan_request P) \<in> {Some PROCESS_START, Some PROCESS_RESTART} \<longrightarrow> sr_state (xres e) = SERVICE_RUNNING) \<and>
     (srv_operation (plan_request P) = Some PROCESS_STOP \<longrightarrow> sr_state (xres e) = SERVICE_STOPPED)"

lemma step_result_mono:
  "step_result P h good r \<Longrightarrow> (\<And>d e. good d e \<Longrightarrow> good' d e) \<Longrightarrow> step_result P h good' r"
  by (auto simp: step_result_def split: if_splits)

lemma dispatch_result:
  assumes "commands_sound P h d e" "live d e" "shows_report d e" and run: "service_dispatch H P e = Some r"
  shows "step_result P h (target_reached P) r"
proof -
  consider (none) "srv_operation (plan_request P) = None \<or> srv_operation (plan_request P) = Some PROCESS_STATUS"
    | (start) "srv_operation (plan_request P) = Some PROCESS_START" | (stop) "srv_operation (plan_request P) = Some PROCESS_STOP"
    | (restart) "srv_operation (plan_request P) = Some PROCESS_RESTART"
    by (cases "srv_operation (plan_request P)") (auto intro: process_operation.exhaust)
  then show ?thesis
  proof cases
    case none
    then have "r = (True, e)" using run by (auto simp: service_dispatch_def)
    then show ?thesis using none go_on [OF assms(1,2), of "target_reached P"] assms(3) by (auto simp: target_reached_def)
  next
    case start
    have "step_result P h (reaches SERVICE_RUNNING) r" using start_result [OF assms(1-3)] run start by (simp add: service_dispatch_def)
    then show ?thesis by (rule step_result_mono) (simp add: start reaches_def target_reached_def)
  next
    case stop
    have "step_result P h (reaches SERVICE_STOPPED) r" using stop_result [OF assms(1-3)] run stop by (simp add: service_dispatch_def)
    then show ?thesis by (rule step_result_mono) (simp add: stop reaches_def target_reached_def)
  next
    case restart
    have "step_result P h (reaches SERVICE_RUNNING) r" using restart_result [OF assms(1-3)] run restart by (simp add: service_dispatch_def)
    then show ?thesis by (rule step_result_mono) (simp add: restart reaches_def target_reached_def)
  qed
qed

lemma prepare_plan:
  assumes "prepare cfg req began e = Inr P"
  shows "plan_config P = cfg" "plan_request P = req" "plan_began P = began" "plan_budget P = budget_ns (srv_timeout_ms req)"
    "service_request_valid cfg req"
    "\<exists>prof. srv_profile req = Some prof \<and> render_commands cfg req prof = Some (plan_program P, plan_commands P)"
  using assms by (auto simp: prepare_def split: if_splits option.splits prod.splits)

lemma prepare_refused:
  assumes "prepare cfg req began e = Inl r"
  shows "\<not> fst r \<and> xcalls (snd r) = xcalls e \<and> sr_changed (xres (snd r)) = sr_changed (xres e) \<and> sr_error (xres (snd r)) \<noteq> SERVICE_NONE"
  using assms by (auto simp: prepare_def service_fail_def service_limit_def split: if_splits option.splits prod.splits)

text \<open>An execution that returns: refused before any command, or run along a plan.\<close>

lemma service_execute_cases:
  assumes "service_execute H cfg False req h = Some (Inr e)"
  obtains (refused) "xcalls e = h @ [SCall_now, SCall_now]" "\<not> sr_ok (xres e)" "\<not> sr_changed (xres e)" "sr_error (xres e) \<noteq> SERVICE_NONE"
      "\<nexists>P. prepare cfg req (srv_now H h) \<lparr>xcalls = h @ [SCall_now], xres = zero_service_result\<rparr> = Inr P"
  | (run) P d where "prepare cfg req (srv_now H h) \<lparr>xcalls = h @ [SCall_now], xres = zero_service_result\<rparr> = Inr P"
      "commands_sound P h d e" "if sr_ok (xres e) then live d e \<and> target_reached P d e else sr_error (xres e) \<noteq> SERVICE_NONE"
proof -
  let ?e0 = "\<lparr>xcalls = h @ [SCall_now], xres = zero_service_result\<rparr>" and ?t = "srv_now H h"
  obtain ok e1 where body: "service_body H cfg req ?t ?e0 = Some (ok, e1)" and
    e: "xcalls e = xcalls e1 @ [SCall_now]" "\<exists>t. xres e = (xres e1)\<lparr>sr_ok := ok, sr_duration_ms := t\<rparr>"
    using assms by (fastforce simp: service_execute_def service_now_def service_elapsed_def split: option.splits prod.splits)
  show thesis
  proof (cases "prepare cfg req ?t ?e0")
    case (Inl r)
    then have "r = (ok, e1)" using body by (simp add: service_body_def)
    then show thesis using prepare_refused [OF Inl] e Inl by (intro refused) (auto simp: zero_service_result_def)
  next
    case (Inr P)
    have s0: "commands_sound P h [SCall_now] ?e0" "live [SCall_now] ?e0"
      by (simp_all add: commands_sound_def live_def zero_service_result_def)
    have "step_result P h (target_reached P) (ok, e1)"
    proof (rule and_then_result [where mid = shows_report])
      show "and_then (Some (service_query H P ''query'' ?e0)) (service_dispatch H P) = Some (ok, e1)"
        using body Inr by (simp add: service_body_def)
      show "step_result P h shows_report q" if "Some (service_query H P ''query'' ?e0) = Some q" for q
        using query_result [OF s0, of H "''query''"] that by simp
    qed (rule dispatch_result)
    then obtain d where d: "commands_sound P h d e1" "if ok then live d e1 \<and> target_reached P d e1 else sr_error (xres e1) \<noteq> SERVICE_NONE"
      by (auto simp: step_result_def split: if_splits)
    have "commands_sound P h (d @ [SCall_now]) e" using sound_call [OF d(1), of SCall_now e] e by auto
    moreover have "live (d @ [SCall_now]) e = live d e1" "target_reached P (d @ [SCall_now]) e = target_reached P d e1" "sr_ok (xres e) = ok"
      using e(2) by (auto simp: live_def target_reached_def shows_report_def reported_append)
    ultimately show thesis using run [OF Inr] d(2) e(2) by auto
  qed
qed

text \<open>
  C25. Which commands an execution runs: none unless the request and all three rendered commands passed
  the bounds; every command runs only when all commands before it have succeeded, is the rendered
  command of its kind, and a start or stop command runs only for a request that asks for it, right
  after a report that the service is stopped or running. \<open>changed\<close> tells whether a start or stop
  command has succeeded, also when it came too late.
\<close>

theorem service_execute_commands:
  assumes "service_execute H cfg False req h = Some (Inr e)"
  shows "\<exists>d. xcalls e = h @ d \<and> (sr_changed (xres e) \<longleftrightarrow> (\<exists>x\<in>set d. changes x)) \<and>
    (d = [SCall_now, SCall_now] \<or>
     (\<exists>P prof. srv_profile req = Some prof \<and> service_request_valid cfg req \<and> plan_request P = req \<and> plan_config P = cfg \<and>
        render_commands cfg req prof = Some (plan_program P, plan_commands P) \<and> commands_allowed P [] d))"
proof (cases rule: service_execute_cases [OF assms, case_names refused run])
  case refused
  then show ?thesis by auto
next
  case (run P d)
  then show ?thesis using prepare_plan [OF run(1)] unfolding commands_sound_def by blast
qed

text \<open>
  What the result means: success carries no error, every command has succeeded, and the state is the
  one reported last, running after a start or restart and stopped after a stop; a failure always carries
  an error.
\<close>

theorem service_execute_result:
  assumes "service_execute H cfg False req h = Some (Inr e)"
  shows "if sr_ok (xres e)
    then sr_error (xres e) = SERVICE_NONE \<and>
      (\<exists>d. xcalls e = h @ d \<and> list_all call_succeeded d \<and> reported d None = Some (sr_state (xres e))) \<and>
      (srv_operation req \<in> {Some PROCESS_START, Some PROCESS_RESTART} \<longrightarrow> sr_state (xres e) = SERVICE_RUNNING) \<and>
      (srv_operation req = Some PROCESS_STOP \<longrightarrow> sr_state (xres e) = SERVICE_STOPPED)
    else sr_error (xres e) \<noteq> SERVICE_NONE"
proof (cases rule: service_execute_cases [OF assms, case_names refused run])
  case refused
  then show ?thesis by simp
next
  case (run P d)
  then show ?thesis using prepare_plan(2) [OF run(1)]
    by (auto simp: commands_sound_def live_def target_reached_def shows_report_def)
qed

section \<open>Termination\<close>

lemma service_elapsed_spent:
  assumes "clock_advances (srv_now H) time D" and "runs_since hb (xcalls e)" and "spent time hb (xcalls e) < 2 ^ 64"
  shows "service_elapsed H (srv_now H hb) e = (of_nat (spent time hb (xcalls e)), e\<lparr>xcalls := xcalls e @ [SCall_now]\<rparr>)"
proof -
  have "srv_now H (xcalls e) - srv_now H hb = of_nat (unat (srv_now H (xcalls e) - srv_now H hb))" by simp
  then show ?thesis using elapsed_spent [OF assms] by (simp add: service_elapsed_def service_now_def)
qed

lemma run_command_calls: "\<exists>d. xcalls (snd (fst (run_command H P slot phase e))) = xcalls e @ d \<and> 1 \<le> length d \<and> length d \<le> 3"
  by (auto simp: run_command_def service_elapsed_def service_now_def Let_def service_fail_def response_refused_def
      split: prod.splits option.splits if_splits)

lemma service_query_calls:
  assumes "service_query H P phase e = (b, e')"
  shows "\<exists>d. xcalls e' = xcalls e @ d \<and> length d \<le> 3"
proof -
  obtain r out where run: "run_command H P 0 phase e = (r, out)" by fastforce
  have "xcalls e' = xcalls (snd r)" using assms run
    by (cases r) (auto simp: service_query_def service_fail_def split: option.splits sum.splits)
  then show ?thesis using run_command_calls [of H P 0 phase e] run by auto
qed

text \<open>An execution that is not past its budget by more than a few calls: the clock has not wrapped.\<close>

definition timely :: "(service_history \<Rightarrow> nat) \<Rightarrow> service_history \<Rightarrow> nat \<Rightarrow> service_plan \<Rightarrow> execution \<Rightarrow> bool" where
  "timely time hb D P e \<longleftrightarrow> runs_since hb (xcalls e) \<and> spent time hb (xcalls e) \<le> unat (plan_budget P) + 5 * D"

definition clocked :: "service_host \<Rightarrow> (service_history \<Rightarrow> nat) \<Rightarrow> service_history \<Rightarrow> nat \<Rightarrow> service_plan \<Rightarrow> bool" where
  "clocked H time hb D P \<longleftrightarrow> clock_advances (srv_now H) time D \<and> plan_began P = srv_now H hb \<and>
     unat (plan_budget P) + 6 * D < 2 ^ 64"

lemma run_command_timely:
  assumes clk: "clocked H time hb D P" and e: "timely time hb D P e" and run: "fst (fst (run_command H P slot phase e))"
  shows "timely time hb D P (snd (fst (run_command H P slot phase e)))"
proof -
  have clock: "clock_advances (srv_now H) time D" and began: "plan_began P = srv_now H hb" and small: "spent time hb (xcalls e) < 2 ^ 64"
    and since: "runs_since hb (xcalls e)" using clk e by (auto simp: clocked_def timely_def)
  have "service_elapsed H (plan_began P) e = (of_nat (spent time hb (xcalls e)), e\<lparr>xcalls := xcalls e @ [SCall_now]\<rparr>)"
    unfolding began by (rule service_elapsed_spent [OF clock since small])
  then have "\<not> (of_nat (spent time hb (xcalls e)) \<ge> plan_budget P)"
    using run by (auto simp: run_command_def service_fail_def)
  then have "spent time hb (xcalls e) < unat (plan_budget P)" using small by (simp add: word_le_nat_alt unat_of_nat)
  moreover obtain d where d: "xcalls (snd (fst (run_command H P slot phase e))) = xcalls e @ d" "length d \<le> 3"
    using run_command_calls by blast
  ultimately show ?thesis using spent_step(1) [OF clock since d(1)] spent_at_most [OF clock since d] by (simp add: timely_def)
qed

lemma service_query_timely:
  assumes "clocked H time hb D P" and "timely time hb D P e" and "service_query H P phase e = (True, e')"
  shows "timely time hb D P e'"
proof -
  obtain r out where run: "run_command H P 0 phase e = (r, out)" by fastforce
  have "fst r \<and> xcalls e' = xcalls (snd r)" using assms(3) run
    by (cases r) (auto simp: service_query_def service_fail_def run_command_def response_refused_def Let_def
        split: option.splits sum.splits prod.splits if_splits)
  then show ?thesis using run_command_timely [OF assms(1,2), of 0 phase] run by (auto simp: timely_def)
qed

lemma poll_for_returns:
  assumes clk: "clocked H time hb D P" and e: "timely time hb D P e"
  shows "\<exists>r. poll_for H P target e = Some r \<and> (fst r \<longrightarrow> timely time hb D P (snd r))"
proof -
  let ?B = "unat (plan_budget P)"
  have clock: "clock_advances (srv_now H) time D" and began: "plan_began P = srv_now H hb" and fit: "?B + 6 * D < 2 ^ 64"
    using clk by (simp_all add: clocked_def)
  let ?I = "\<lambda>(_ :: bool, e). timely time hb D P e" and ?Q = "\<lambda>r. fst r \<longrightarrow> timely time hb D P (snd r)"
  let ?m = "\<lambda>(_ :: bool, e). ?B + 1 - spent time hb (xcalls e)"
  have "\<exists>r. c_loop (poll_round H P target) (False, e) = Some r \<and> ?Q r"
  proof (rule c_loop_total [where I = ?I and m = ?m])
    show "?I (False, e)" using e by simp
  next
    fix s :: "bool \<times> execution"
    assume "?I s"
    then obtain b e1 where s: "s = (b, e1)" and b1: "runs_since hb (xcalls e1)" "spent time hb (xcalls e1) \<le> ?B + 5 * D"
      by (cases s) (auto simp: timely_def)
    have small: "spent time hb (xcalls e1) < 2 ^ 64" using b1(2) fit by simp
    note el = service_elapsed_spent [OF clock b1(1) small, folded began]
    have w: "unat (of_nat (spent time hb (xcalls e1)) :: 64 word) = spent time hb (xcalls e1)" using small by (simp add: unat_of_nat)
    show "(\<exists>t. poll_round H P target s = Some (Inl t) \<and> ?I t \<and> ?m t < ?m s) \<or> (\<exists>t. poll_round H P target s = Some (Inr t) \<and> ?Q t)"
    proof (cases "?B \<le> spent time hb (xcalls e1)")
      case True
      then show ?thesis using el s w by (simp add: poll_round_def word_le_nat_alt service_fail_def)
    next
      case False
      define ms :: "32 word" where "ms = ucast (if of_int (srv_poll_interval_ms (plan_request P)) < (plan_budget P - of_nat (spent time hb (xcalls e1)) + 999999) div ns_per_ms
         then of_int (srv_poll_interval_ms (plan_request P)) else (plan_budget P - of_nat (spent time hb (xcalls e1)) + 999999) div ns_per_ms)"
      let ?e2 = "e1\<lparr>xcalls := xcalls e1 @ [SCall_now, SCall_sleep ms]\<rparr>"
      obtain b3 e3 where q: "service_query H P ''poll'' ?e2 = (b3, e3)" by fastforce
      obtain d where d: "xcalls e3 = xcalls e1 @ ([SCall_now, SCall_sleep ms] @ d)" "length d \<le> 3" using service_query_calls [OF q] by auto
      have round: "poll_round H P target s = (if \<not> b3 then Some (Inr (False, e3))
          else if sr_state (xres e3) = target then Some (Inr (True, e3)) else Some (Inl (False, e3)))"
        using el False q s w by (cases b3) (simp_all add: poll_round_def Let_def ms_def word_le_nat_alt)
      have "?I (False, e3)" "spent time hb (xcalls e1) < spent time hb (xcalls e3)"
        using spent_step(1,2) [OF clock b1(1) d(1)] spent_at_most [OF clock b1(1) d(1), of 5] d(2) False
        by (auto simp: timely_def)
      then show ?thesis unfolding round using False s by auto
    qed
  qed
  then show ?thesis by (simp add: poll_for_def)
qed

lemma transition_returns:
  assumes clk: "clocked H time hb D P" and e: "timely time hb D P e"
  shows "\<exists>r. (case (if c then fst (run_command H P slot phase e) else (True, e)) of
      (False, e) \<Rightarrow> Some (False, e) | (True, e) \<Rightarrow> poll_for H P target e) = Some r \<and> (fst r \<longrightarrow> timely time hb D P (snd r))"
proof -
  obtain b1 e1 where r: "(if c then fst (run_command H P slot phase e) else (True, e)) = (b1, e1)" by fastforce
  have "b1 \<Longrightarrow> timely time hb D P e1" using r e run_command_timely [OF clk e, of slot phase] by (auto split: if_splits)
  then show ?thesis using poll_for_returns [OF clk] r by (cases b1) auto
qed

lemma start_stop_returns:
  assumes "clocked H time hb D P" and "timely time hb D P e"
  shows "\<exists>r. service_start H P e = Some r \<and> (fst r \<longrightarrow> timely time hb D P (snd r))"
    and "\<exists>r. service_stop H P e = Some r \<and> (fst r \<longrightarrow> timely time hb D P (snd r))"
  using transition_returns [OF assms] assms(2) unfolding service_start_def service_stop_def by (auto simp: service_fail_def)

lemma and_then_returns:
  assumes "\<exists>r. x = Some r \<and> (fst r \<longrightarrow> T (snd r))" and "\<And>e. T e \<Longrightarrow> \<exists>r. f e = Some r \<and> (fst r \<longrightarrow> T (snd r))"
  shows "\<exists>r. and_then x f = Some r \<and> (fst r \<longrightarrow> T (snd r))"
proof -
  obtain b e where "x = Some (b, e)" "b \<longrightarrow> T e" using assms(1) by auto
  then show ?thesis using assms(2) [of e] by (cases b) (auto simp: and_then_def)
qed

lemma service_dispatch_returns:
  assumes "clocked H time hb D P" and "timely time hb D P e"
  shows "\<exists>r. service_dispatch H P e = Some r \<and> (fst r \<longrightarrow> timely time hb D P (snd r))"
proof -
  have "\<exists>r. service_restart H P e = Some r \<and> (fst r \<longrightarrow> timely time hb D P (snd r))"
    unfolding service_restart_def
    by (intro and_then_returns start_stop_returns [OF assms(1)]) (use poll_for_returns [OF assms] assms(2) in auto)
  then show ?thesis using start_stop_returns [OF assms] assms(2)
    by (auto simp: service_dispatch_def split: option.splits process_operation.splits)
qed

text \<open>
  With a clock that advances and host calls of bounded length every execution returns: one deadline
  bounds all its commands and polls.
\<close>

theorem service_execute_returns:
  assumes clock: "clock_advances (srv_now H) time D" and fit: "nat (srv_timeout_ms req) * 1000000 + 6 * D < 2 ^ 64"
  shows "\<exists>r. service_execute H cfg busy req h = Some r"
proof -
  let ?e0 = "\<lparr>xcalls = h @ [SCall_now], xres = zero_service_result\<rparr>" and ?t = "srv_now H h"
  have "\<exists>r. service_body H cfg req ?t ?e0 = Some r"
  proof (cases "prepare cfg req ?t ?e0")
    case (Inr P)
    note P = prepare_plan [OF Inr]
    have "0 < srv_timeout_ms req" "srv_timeout_ms req \<le> max_timeout_ms"
      using P(5) by (auto simp: service_request_valid_def int32_max_def max_timeout_ms_def)
    then have "unat (plan_budget P) = nat (srv_timeout_ms req) * 1000000" using budget_ns_exact P(4) by simp
    then have clk: "clocked H time h D P" using clock fit P(3) by (simp add: clocked_def)
    have "timely time h D P ?e0"
      using spent_step(1) [OF clock runs_since_refl(1), of "h @ [SCall_now]" h "[SCall_now]"]
        spent_at_most [OF clock runs_since_refl(1), of "h @ [SCall_now]" h "[SCall_now]" 1]
      by (simp add: timely_def runs_since_refl(2))
    then have "\<exists>r. and_then (Some (service_query H P ''query'' ?e0)) (service_dispatch H P) = Some r \<and> (fst r \<longrightarrow> timely time h D P (snd r))"
      by (intro and_then_returns service_dispatch_returns [OF clk])
        (use service_query_timely [OF clk, of ?e0 "''query''"] in \<open>cases "service_query H P ''query'' ?e0"; auto\<close>)
    then show ?thesis using Inr by (auto simp: service_body_def)
  qed (simp add: service_body_def)
  then obtain ok e where "service_body H cfg req ?t ?e0 = Some (ok, e)" by fastforce
  then show ?thesis by (simp add: service_execute_def service_now_def service_elapsed_def)
qed

section \<open>A simulated service\<close>

definition sim_config :: service_config where
  "sim_config = \<lparr>max_arguments = 4, max_metadata_bytes = 200, max_output_bytes = 100\<rparr>"

definition sim_request :: service_request where
  "sim_request = \<lparr>srv_operation = Some PROCESS_STOP, srv_name = Some ''db'', srv_profile_name = Some ''scm'',
     srv_profile = Some windows_scm, srv_arguments = Some [], srv_timeout_ms = 5, srv_poll_interval_ms = 1\<rparr>"

fun is_stop_run :: "service_call \<Rightarrow> bool" where
  "is_stop_run (SCall_run slot _ _ _) = (slot = 2)"
| "is_stop_run _ = False"

text \<open>A service that stops when it is told to; each call takes a nanosecond.\<close>

definition sim_service :: service_host where
  "sim_service = \<lparr>srv_run = (\<lambda>h cmd. (SALTS_OK, \<lparr>resp_state = PROCESS_EXITED, resp_exit_code = 0,
       resp_output = Some (if list_ex is_stop_run h then '' STATE : 1  STOPPED'' else '' STATE : 4  RUNNING''),
       resp_size = 19, resp_failure = None\<rparr>)),
     srv_now = (\<lambda>h. of_nat (length h))\<rparr>"

definition service_done :: execution where
  "service_done = (case service_execute sim_service sim_config False sim_request [] of
     Some (Inr e) \<Rightarrow> e | _ \<Rightarrow> \<lparr>xcalls = [], xres = zero_service_result\<rparr>)"

lemma service_sim: "case service_execute sim_service sim_config False sim_request [] of
    Some (Inr e) \<Rightarrow> sr_ok (xres e) \<and> sr_changed (xres e) | _ \<Rightarrow> False"
  by code_simp

lemma service_sim_run:
  "service_execute sim_service sim_config False sim_request [] = Some (Inr service_done)"
  "sr_ok (xres service_done)" "sr_changed (xres service_done)"
  using service_sim by (auto simp: service_done_def split: option.splits sum.splits)

theorem service_execute_commands_witness: "\<exists>x\<in>set (xcalls service_done). changes x"
  using service_execute_commands [OF service_sim_run(1)] service_sim_run(3) by auto

theorem service_execute_result_witness: "sr_state (xres service_done) = SERVICE_STOPPED"
  using service_execute_result [OF service_sim_run(1)] service_sim_run(2) by (simp add: sim_request_def)

theorem service_execute_returns_witness: "\<exists>r. service_execute sim_service sim_config False sim_request [] = Some r"
  by (rule service_execute_returns [where time = length and D = 1])
    (simp_all add: clock_advances_def sim_service_def sim_request_def)

theorem render_correct_witness:
  "render sim_config sim_request (Some (map Some [''query'', ''-{service_name}-''])) 7 = Some ([''query'', ''-db-''], 42)"
proof -
  have e: "expand ''db'' [] [''query'', ''-{service_name}-''] = [''query'', ''-db-'']"
    by (simp add: expand_def subst_name.simps placeholder_def)
  show ?thesis
    using render_correct [of 7 sim_config sim_request "''db''" "[]" "[''query'', ''-{service_name}-'']"]
    unfolding e by (simp add: sim_config_def sim_request_def Let_def)
qed

theorem parse_state_report_witness:
  "parse_state (report [''SERVICE_NAME: db''] '' '' '' '' '' '' SERVICE_RUNNING '' RUNNING'') = Inr SERVICE_RUNNING"
  by (rule parse_state_report) (simp_all add: other_line_def is_blank_def state_prefix_def is_space_def)

end
