(* ===== verification/Workflow_Value.thy ===== *)
theory Workflow_Value
  imports Json_Api Complex_Main
begin

text \<open>
  Typed access to workflow values: \<open>praktor/src/data/workflow_value.c\<close>. Integers are read from the
  number's text without passing through floating point when it is an integer lexeme, and from the
  number otherwise; paths are looked up and array elements erased. The lemmas show that an integer is
  read exactly, at every width, or refused, that a lookup is the lookup in the value's tree, and that
  an erasure removes one element or changes nothing.

  The JSON library is the parameter of \<open>Json_Api\<close>, with two array operations. The double of a number is
  a rational, \<open>None\<close> when it is not finite. A key is \<open>None\<close> when it is not a valid view.
\<close>

section \<open>Integers\<close>

definition integer_token :: "'j json_api \<Rightarrow> 'j \<Rightarrow> string option" where
  "integer_token J v =
     (case json_number_text J v of
        None \<Rightarrow> None
      | Some t \<Rightarrow> if t = [] then None
          else if list_ex (\<lambda>c. c = CHR ''.'' \<or> c = CHR ''e'' \<or> c = CHR ''E'') t then None else Some t)"

text \<open>The loop of \<open>magnitude\<close>: a digit that would exceed the limit, or is none, ends it.\<close>

fun magnitude_digits :: "string \<Rightarrow> 64 word \<Rightarrow> 64 word \<Rightarrow> 64 word option" where
  "magnitude_digits [] limit result = Some result"
| "magnitude_digits (c # cs) limit result =
     (let digit = (of_char c :: 32 word) - 48 in
      if digit > 9 \<or> result > limit div 10 \<or> (result = limit div 10 \<and> ucast digit > limit mod 10) then None
      else magnitude_digits cs limit (result * 10 + ucast digit))"

text \<open>The magnitude and the sign.\<close>

definition magnitude :: "string \<Rightarrow> bool \<Rightarrow> 64 word \<Rightarrow> 64 word \<Rightarrow> (64 word \<times> bool) option" where
  "magnitude token allow_negative positive_limit negative_limit =
     (let sign = (token \<noteq> [] \<and> hd token = CHR ''-'');
          digits = (if sign then tl token else token);
          limit = (if sign then negative_limit else positive_limit)
      in if sign \<and> \<not> allow_negative then None
         else if digits = [] then None
         else map_option (\<lambda>r. (r, sign)) (magnitude_digits digits limit 0))"

definition int64_max :: "64 word" where "int64_max = 0x7FFFFFFFFFFFFFFF"

definition value_is_int64 :: "'j json_api \<Rightarrow> 'j option \<Rightarrow> bool" where
  "value_is_int64 J v =
     (case v of
        None \<Rightarrow> False
      | Some v \<Rightarrow> json_type J v = JSON_NUMBER \<and>
          (case integer_token J v of None \<Rightarrow> False | Some t \<Rightarrow> magnitude t True int64_max (push_bit 63 1) \<noteq> None))"

definition value_is_uint64 :: "'j json_api \<Rightarrow> 'j option \<Rightarrow> bool" where
  "value_is_uint64 J v =
     (case v of
        None \<Rightarrow> False
      | Some v \<Rightarrow> json_type J v = JSON_NUMBER \<and>
          (case integer_token J v of None \<Rightarrow> False | Some t \<Rightarrow> magnitude t False (- 1) 0 \<noteq> None))"

definition negative_limit :: "nat \<Rightarrow> bool \<Rightarrow> 64 word" where
  "negative_limit bits is_signed = (if is_signed then push_bit (bits - 1) 1 else 0)"

definition positive_limit :: "nat \<Rightarrow> bool \<Rightarrow> 64 word" where
  "positive_limit bits is_signed =
     (if is_signed then negative_limit bits is_signed - 1 else if bits = 64 then - 1 else push_bit bits 1 - 1)"

text \<open>The conversion of a double, which is its exact rational value here.\<close>

definition integral_value :: "rat option \<Rightarrow> nat \<Rightarrow> bool \<Rightarrow> salts_status + (64 word \<times> bool)" where
  "integral_value number bits is_signed =
     (case number of
        None \<Rightarrow> Inl SALTS_ERANGE
      | Some q \<Rightarrow>
          let upper = 2 ^ (if is_signed then bits - 1 else bits); integral = \<lfloor>q\<rfloor> in
          if of_int integral \<noteq> q \<or> integral < (if is_signed then - upper else 0) \<or> integral \<ge> upper
          then Inl SALTS_ERANGE
          else Inr (of_int \<bar>integral\<bar>, integral < 0))"

definition integer_value :: "'j json_api \<Rightarrow> ('j \<Rightarrow> rat option) \<Rightarrow> 'j option \<Rightarrow> nat \<Rightarrow> bool \<Rightarrow> salts_status + (64 word \<times> bool)" where
  "integer_value J number v bits is_signed =
     (case v of
        None \<Rightarrow> Inl SALTS_EINVAL
      | Some v \<Rightarrow>
          if json_type J v \<noteq> JSON_NUMBER then Inl SALTS_EINVAL
          else if bits = 0 \<or> bits > 64 then Inl SALTS_EINVAL
          else case integer_token J v of
            Some t \<Rightarrow>
              (case magnitude t is_signed (positive_limit bits is_signed) (negative_limit bits is_signed) of
                 None \<Rightarrow> Inl SALTS_ERANGE
               | Some r \<Rightarrow> Inr r)
          | None \<Rightarrow> integral_value (number v) bits is_signed)"

definition value_as_signed :: "'j json_api \<Rightarrow> ('j \<Rightarrow> rat option) \<Rightarrow> 'j option \<Rightarrow> nat \<Rightarrow> salts_status + 64 word" where
  "value_as_signed J number v bits =
     (case integer_value J number v bits True of
        Inl e \<Rightarrow> Inl e
      | Inr (result, negative) \<Rightarrow>
          Inr (if negative then (if result = push_bit 63 1 then push_bit 63 1 else - result) else result))"

definition value_as_unsigned :: "'j json_api \<Rightarrow> ('j \<Rightarrow> rat option) \<Rightarrow> 'j option \<Rightarrow> nat \<Rightarrow> salts_status + 64 word" where
  "value_as_unsigned J number v bits = map_sum id fst (integer_value J number v bits False)"

section \<open>Paths\<close>

definition value_max_path :: nat where "value_max_path = 128"

definition valid_path :: "string option list \<Rightarrow> bool" where
  "valid_path keys \<longleftrightarrow> length keys \<le> value_max_path \<and>
     list_all (\<lambda>k. case k of None \<Rightarrow> False | Some t \<Rightarrow> length t \<noteq> size_max) keys"

fun find_path :: "'j json_api \<Rightarrow> 'j option \<Rightarrow> string option list \<Rightarrow> salts_status + 'j" where
  "find_path J doc [] = (case doc of None \<Rightarrow> Inl SALTS_ENOENT | Some v \<Rightarrow> Inr v)"
| "find_path J doc (k # ks) =
     (case doc of
        None \<Rightarrow> Inl SALTS_ENOENT
      | Some v \<Rightarrow> if json_type J v \<noteq> JSON_OBJECT then Inl SALTS_ENOENT
          else find_path J (json_object_get J v (the k)) ks)"

definition value_find :: "'j json_api \<Rightarrow> 'j option \<Rightarrow> string option list \<Rightarrow> salts_status + 'j" where
  "value_find J doc keys = (if \<not> valid_path keys then Inl SALTS_EINVAL else find_path J doc keys)"

definition value_size :: "'j json_api \<Rightarrow> 'j option \<Rightarrow> nat" where
  "value_size J v =
     (case v of
        None \<Rightarrow> 0
      | Some v \<Rightarrow>
          (case json_type J v of
             JSON_OBJECT \<Rightarrow> length (json_members J v)
           | JSON_ARRAY \<Rightarrow> length (json_array J v)
           | JSON_STRING \<Rightarrow> (case json_string J v of None \<Rightarrow> 0 | Some t \<Rightarrow> length t)
           | _ \<Rightarrow> 0))"

section \<open>Erasure\<close>

record 'j array_api =
  json_create_array :: "'j option"
  json_array_add_checked :: "'j \<Rightarrow> 'j \<Rightarrow> 'j option"

text \<open>The loop that copies the other elements.\<close>

fun copy_others :: "'j json_api \<Rightarrow> 'j array_api \<Rightarrow> nat \<Rightarrow> nat \<Rightarrow> 'j list \<Rightarrow> 'j \<Rightarrow> 'j option" where
  "copy_others J A index current [] replacement = Some replacement"
| "copy_others J A index current (x # xs) replacement =
     (if current = index then copy_others J A index (current + 1) xs replacement
      else case json_clone J x of
        None \<Rightarrow> None
      | Some child \<Rightarrow>
          (case json_array_add_checked A replacement child of
             None \<Rightarrow> None
           | Some replacement' \<Rightarrow> copy_others J A index (current + 1) xs replacement'))"

definition value_erase :: "'j json_api \<Rightarrow> 'j array_api \<Rightarrow> 'j option \<Rightarrow> nat \<Rightarrow> salts_status \<times> 'j option" where
  "value_erase J A doc index =
     (case doc of
        None \<Rightarrow> (SALTS_ENOENT, doc)
      | Some v \<Rightarrow>
          if json_type J v \<noteq> JSON_ARRAY \<or> index \<ge> length (json_array J v) then (SALTS_ENOENT, doc)
          else case json_create_array A of
            None \<Rightarrow> (SALTS_ENOMEM, doc)
          | Some replacement \<Rightarrow>
              (case copy_others J A index 0 (json_array J v) replacement of
                 None \<Rightarrow> (SALTS_ENOMEM, doc)
               | Some r \<Rightarrow> (SALTS_OK, Some r)))"

section \<open>Decimal numbers\<close>

definition decimal_digit :: "char \<Rightarrow> bool" where
  "decimal_digit c \<longleftrightarrow> 48 \<le> (of_char c :: nat) \<and> (of_char c :: nat) \<le> 57"

fun decimal :: "string \<Rightarrow> nat \<Rightarrow> nat" where
  "decimal [] r = r"
| "decimal (c # cs) r = decimal cs (r * 10 + (of_char c - 48))"

lemma decimal_ge: "r \<le> decimal ds r"
  by (induction ds r rule: decimal.induct) (auto intro: order_trans [rotated])

lemma digit_word:
  "unat ((of_char c :: 32 word) - 48) = (if 48 \<le> (of_char c :: nat) then of_char c - 48 else 2 ^ 32 + of_char c - 48)"
proof -
  have c: "(of_char c :: nat) < 256" using of_char_mod_256 [where 'a = nat, of c] by (metis mod_less_divisor zero_less_numeral)
  have w: "unat (of_char c :: 32 word) = of_char c"
  proof -
    have "(of_char c :: 32 word) = of_nat (of_char c)" by (simp add: of_nat_of_char)
    moreover have "(of_char c :: nat) mod 2 ^ 32 = of_char c" by (rule mod_less, rule less_trans [OF c]) simp
    ultimately show ?thesis by (simp add: unat_of_nat)
  qed
  show ?thesis
  proof (cases "48 \<le> (of_char c :: nat)")
    case True
    then have "(48 :: 32 word) \<le> of_char c" using w by (simp add: word_le_nat_alt)
    then show ?thesis using True w by (simp add: unat_sub)
  next
    case False
    then have "\<not> (48 :: 32 word) \<le> of_char c" using w by (simp add: word_le_nat_alt)
    then show ?thesis using False w by (simp add: unat_sub_if')
  qed
qed

lemma digit_above_9: "(of_char c :: 32 word) - 48 > 9 \<longleftrightarrow> \<not> decimal_digit c"
  by (auto simp: word_less_nat_alt digit_word decimal_digit_def)

lemma digit_over:
  fixes L r d :: nat
  assumes "d \<le> 9"
  shows "(L div 10 < r \<or> (r = L div 10 \<and> L mod 10 < d)) \<longleftrightarrow> L < r * 10 + d"
proof -
  have "L = L div 10 * 10 + L mod 10" "L mod 10 \<le> 9" by simp_all
  then obtain q m where L: "L div 10 = q" "L mod 10 = m" "L = q * 10 + m" "m \<le> 9" by blast
  show ?thesis unfolding L(1,2) by (cases r q rule: linorder_cases) (use L(3,4) assms in linarith)+
qed

text \<open>The loop computes the decimal value, as long as it stays within the limit.\<close>

lemma magnitude_digits_spec:
  "unat r \<le> unat limit \<Longrightarrow> magnitude_digits ds limit r =
     (if list_all decimal_digit ds \<and> decimal ds (unat r) \<le> unat limit then Some (of_nat (decimal ds (unat r))) else None)"
proof (induction ds limit r rule: magnitude_digits.induct)
  case (1 limit r)
  then show ?case by simp
next
  case (2 c cs limit r)
  let ?w = "(of_char c :: 32 word) - 48" and ?d = "of_char c - 48 :: nat"
  show ?case
  proof (cases "decimal_digit c")
    case False
    then show ?thesis using digit_above_9 [of c] by simp
  next
    case True
    have d: "unat ?w = ?d" "?d \<le> 9" using True digit_word [of c] by (auto simp: decimal_digit_def)
    have u: "unat (ucast ?w :: 64 word) = ?d" using d by (simp add: unsigned_ucast_eq take_bit_eq_mod)
    have over: "(r > limit div 10 \<or> (r = limit div 10 \<and> (ucast ?w :: 64 word) > limit mod 10)) \<longleftrightarrow> unat r * 10 + ?d > unat limit"
      unfolding word_less_nat_alt word_unat_eq_iff unat_div unat_mod u using digit_over [OF d(2)] by simp
    show ?thesis
    proof (cases "unat r * 10 + ?d > unat limit")
      case stop: True
      then have "decimal cs (unat r * 10 + ?d) > unat limit" using decimal_ge [of "unat r * 10 + ?d" cs] by simp
      then show ?thesis using stop over digit_above_9 [of c] by auto
    next
      case go: False
      have "unat limit < 2 ^ 64" using unsigned_less [where 'a = nat, of limit] by simp
      then have val: "unat (r * 10 + ucast ?w) = unat r * 10 + ?d"
        using go u by (simp add: unat_word_ariths)
      have step: "magnitude_digits (c # cs) limit r = magnitude_digits cs limit (r * 10 + ucast ?w)"
        using go over True digit_above_9 [of c] by auto
      have "magnitude_digits cs limit (r * 10 + ucast ?w) =
          (if list_all decimal_digit cs \<and> decimal cs (unat r * 10 + ?d) \<le> unat limit then Some (of_nat (decimal cs (unat r * 10 + ?d))) else None)"
        using 2 go over True digit_above_9 [of c] val by auto
      then show ?thesis unfolding step using True by simp
    qed
  qed
qed

definition decimal_int :: "string \<Rightarrow> int option" where
  "decimal_int t =
     (let sign = (t \<noteq> [] \<and> hd t = CHR ''-''); ds = (if sign then tl t else t) in
      if ds = [] \<or> \<not> list_all decimal_digit ds then None
      else Some (if sign then - int (decimal ds 0) else int (decimal ds 0)))"

text \<open>The integer that a number denotes, if any: its lexeme's value, else its exact value when integral.\<close>

definition exact_value :: "'j json_api \<Rightarrow> ('j \<Rightarrow> rat option) \<Rightarrow> 'j \<Rightarrow> int option" where
  "exact_value J number v =
     (case integer_token J v of
        Some t \<Rightarrow> decimal_int t
      | None \<Rightarrow> (case number v of None \<Rightarrow> None | Some q \<Rightarrow> if of_int \<lfloor>q\<rfloor> = q then Some \<lfloor>q\<rfloor> else None))"

definition lexeme_signed :: "'j json_api \<Rightarrow> 'j \<Rightarrow> bool" where
  "lexeme_signed J v = (case integer_token J v of None \<Rightarrow> False | Some t \<Rightarrow> t \<noteq> [] \<and> hd t = CHR ''-'')"

lemma unat_power: "n < 64 \<Longrightarrow> unat (push_bit n 1 :: 64 word) = 2 ^ n"
proof -
  assume n: "n < 64"
  have "(push_bit n 1 :: 64 word) = of_nat (2 ^ n)" by (simp add: push_bit_eq_mult)
  moreover have "(2 ^ n :: nat) < 2 ^ 64" using n by (intro power_strict_increasing) simp_all
  ultimately show ?thesis by (simp only: unat_of_nat) simp
qed

lemma limits:
  assumes "0 < bits" "bits \<le> 64"
  shows "unat (negative_limit bits True) = 2 ^ (bits - 1)" "unat (positive_limit bits True) = 2 ^ (bits - 1) - 1"
    "unat (positive_limit bits False) = 2 ^ bits - 1"
proof -
  have b: "bits - 1 < 64" using assms by simp
  show n: "unat (negative_limit bits True) = 2 ^ (bits - 1)" using unat_power [OF b] by (simp add: negative_limit_def)
  have pos: "x = 0 \<or> unat (x - 1) = unat x - 1" for x :: "64 word"
    using word_le_less_eq unat_minus_one [of x] by blast
  show "unat (positive_limit bits True) = 2 ^ (bits - 1) - 1"
    using n pos [of "negative_limit bits True"] by (auto simp: positive_limit_def)
  show "unat (positive_limit bits False) = 2 ^ bits - 1"
  proof (cases "bits = 64")
    case True
    then show ?thesis by (simp add: positive_limit_def unsigned_minus_1_eq_mask mask_eq_exp_minus_1)
  next
    case False
    then have "unat (push_bit bits 1 :: 64 word) = 2 ^ bits" using assms by (intro unat_power) simp
    then show ?thesis using pos [of "push_bit bits 1"] False assms by (auto simp: positive_limit_def)
  qed
qed

lemma magnitude_spec:
  "magnitude t allow pos neg =
     (let sign = (t \<noteq> [] \<and> hd t = CHR ''-''); ds = (if sign then tl t else t); limit = (if sign then neg else pos) in
      if sign \<and> \<not> allow \<or> ds = [] \<or> \<not> list_all decimal_digit ds \<or> decimal ds 0 > unat limit then None
      else Some (of_nat (decimal ds 0), sign))"
  using magnitude_digits_spec [of 0] by (auto simp: magnitude_def Let_def)

text \<open>The magnitude and the sign of an integer.\<close>

definition parts :: "int \<Rightarrow> 64 word" where
  "parts n = of_int \<bar>n\<bar>"

lemma integer_signed:
  assumes "json_type J v = JSON_NUMBER" "0 < bits" "bits \<le> 64"
  shows "case exact_value J number v of
      None \<Rightarrow> integer_value J number (Some v) bits True = Inl SALTS_ERANGE
    | Some n \<Rightarrow> if - (2 ^ (bits - 1)) \<le> n \<and> n < 2 ^ (bits - 1)
        then \<exists>neg. integer_value J number (Some v) bits True = Inr (of_int \<bar>n\<bar>, neg) \<and> (n < 0 \<longrightarrow> neg) \<and> (n > 0 \<longrightarrow> \<not> neg)
        else integer_value J number (Some v) bits True = Inl SALTS_ERANGE"
proof (cases "integer_token J v")
  case None
  then show ?thesis using assms by (auto simp: exact_value_def integer_value_def integral_value_def Let_def split: option.splits)
next
  case (Some t)
  have p: "int (2 ^ (bits - 1)) = 2 ^ (bits - 1)" "(1 :: nat) \<le> 2 ^ (bits - 1)" by simp_all
  have le: "(decimal ds 0 \<le> 2 ^ (bits - 1)) \<longleftrightarrow> (- (2 ^ (bits - 1)) \<le> - int (decimal ds 0))" for ds
    using p by linarith
  have lt: "(decimal ds 0 \<le> 2 ^ (bits - 1) - 1) \<longleftrightarrow> (int (decimal ds 0) < 2 ^ (bits - 1))" for ds
    using p by linarith
  have rest: "- int (decimal ds 0) < 2 ^ (bits - 1)" "- (2 ^ (bits - 1)) \<le> int (decimal ds 0)" for ds
    using p by linarith+
  have v: "integer_value J number (Some v) bits True =
      (case magnitude t True (positive_limit bits True) (negative_limit bits True) of None \<Rightarrow> Inl SALTS_ERANGE | Some r \<Rightarrow> Inr r)"
    using assms Some by (simp add: integer_value_def)
  show ?thesis
  proof (cases "t \<noteq> [] \<and> hd t = CHR ''-''")
    case True
    define ds where "ds = tl t"
    have "magnitude t True (positive_limit bits True) (negative_limit bits True) =
        (if ds = [] \<or> \<not> list_all decimal_digit ds \<or> decimal ds 0 > 2 ^ (bits - 1) then None
         else Some (of_nat (decimal ds 0), True))"
      unfolding magnitude_spec using True limits [OF assms(2,3)] by (simp add: ds_def)
    moreover have "exact_value J number v =
        (if ds = [] \<or> \<not> list_all decimal_digit ds then None else Some (- int (decimal ds 0)))"
      using Some True by (simp add: exact_value_def decimal_int_def ds_def)
    ultimately show ?thesis using v le [of ds] rest [of ds] by (auto simp: not_less)
  next
    case False
    have "magnitude t True (positive_limit bits True) (negative_limit bits True) =
        (if t = [] \<or> \<not> list_all decimal_digit t \<or> decimal t 0 > 2 ^ (bits - 1) - 1 then None
         else Some (of_nat (decimal t 0), False))"
      unfolding magnitude_spec using False limits [OF assms(2,3)] by auto
    moreover have "exact_value J number v =
        (if t = [] \<or> \<not> list_all decimal_digit t then None else Some (int (decimal t 0)))"
      using Some False by (auto simp: exact_value_def decimal_int_def)
    ultimately show ?thesis using v lt [of t] rest [of t] by (auto simp: not_less)
  qed
qed


lemma integer_unsigned:
  assumes "json_type J v = JSON_NUMBER" "0 < bits" "bits \<le> 64"
  shows "integer_value J number (Some v) bits False =
    (case exact_value J number v of
      None \<Rightarrow> Inl SALTS_ERANGE
    | Some n \<Rightarrow> if \<not> lexeme_signed J v \<and> 0 \<le> n \<and> n < 2 ^ bits then Inr (of_int n, False) else Inl SALTS_ERANGE)"
proof (cases "integer_token J v")
  case None
  then show ?thesis using assms
    by (auto simp: exact_value_def integer_value_def integral_value_def lexeme_signed_def Let_def split: option.splits)
next
  case (Some t)
  have p: "int (2 ^ bits) = 2 ^ bits" "(1 :: nat) \<le> 2 ^ bits" by simp_all
  have lt: "(decimal t 0 \<le> 2 ^ bits - 1) \<longleftrightarrow> (int (decimal t 0) < 2 ^ bits)" using p by linarith
  have v: "integer_value J number (Some v) bits False =
      (case magnitude t False (positive_limit bits False) (negative_limit bits False) of None \<Rightarrow> Inl SALTS_ERANGE | Some r \<Rightarrow> Inr r)"
    using assms Some by (simp add: integer_value_def)
  show ?thesis
  proof (cases "t \<noteq> [] \<and> hd t = CHR ''-''")
    case True
    then show ?thesis using v Some by (simp add: magnitude_spec lexeme_signed_def split: option.split)
  next
    case False
    have "magnitude t False (positive_limit bits False) (negative_limit bits False) =
        (if t = [] \<or> \<not> list_all decimal_digit t \<or> decimal t 0 > 2 ^ bits - 1 then None
         else Some (of_nat (decimal t 0), False))"
      unfolding magnitude_spec using False limits [OF assms(2,3)] by auto
    moreover have "exact_value J number v =
        (if t = [] \<or> \<not> list_all decimal_digit t then None else Some (int (decimal t 0)))"
      using Some False by (auto simp: exact_value_def decimal_int_def)
    moreover have "\<not> lexeme_signed J v" using Some False by (simp add: lexeme_signed_def)
    ultimately show ?thesis using v lt by (auto simp: not_less)
  qed
qed

text \<open>The signed word of a magnitude and a sign.\<close>

lemma signed_result:
  fixes n :: int
  assumes "- (2 ^ 63) \<le> n" "n < 2 ^ 63" "n < 0 \<longrightarrow> neg" "n > 0 \<longrightarrow> \<not> neg"
  shows "(let result = (of_int \<bar>n\<bar> :: 64 word) in
      if neg then (if result = push_bit 63 1 then push_bit 63 1 else - result) else result) = of_int n"
proof -
  have top: "- (push_bit 63 1 :: 64 word) = push_bit 63 1" by simp
  have "(if neg then - of_int \<bar>n\<bar> else of_int \<bar>n\<bar>) = (of_int n :: 64 word)"
    using assms(3,4) by (cases n "0 :: int" rule: linorder_cases) auto
  then show ?thesis using top by (simp only: Let_def) metis
qed

lemma integer_rejected:
  "v = None \<or> json_type J (the v) \<noteq> JSON_NUMBER \<or> bits = 0 \<or> bits > 64 \<Longrightarrow>
     integer_value J number v bits is_signed = Inl SALTS_EINVAL"
  by (auto simp: integer_value_def split: option.split)

lemma within_64:
  assumes "- (2 ^ (bits - 1)) \<le> n" "n < 2 ^ (bits - 1)" "0 < bits" "bits \<le> 64"
  shows "- (2 ^ 63) \<le> n" "n < (2 ^ 63 :: int)"
proof -
  have "(2 ^ (bits - 1) :: int) \<le> 2 ^ 63" using assms(3,4) by (intro power_increasing) auto
  then show "- (2 ^ 63) \<le> n" "n < (2 ^ 63 :: int)" using assms(1,2) by linarith+
qed

lemma signed_exact:
  "value_as_signed J number v bits =
     (if v = None \<or> json_type J (the v) \<noteq> JSON_NUMBER \<or> bits = 0 \<or> bits > 64 then Inl SALTS_EINVAL
      else case exact_value J number (the v) of
        None \<Rightarrow> Inl SALTS_ERANGE
      | Some n \<Rightarrow> if - (2 ^ (bits - 1)) \<le> n \<and> n < 2 ^ (bits - 1) then Inr (of_int n) else Inl SALTS_ERANGE)"
proof (cases "v = None \<or> json_type J (the v) \<noteq> JSON_NUMBER \<or> bits = 0 \<or> bits > 64")
  case True
  then show ?thesis by (simp add: value_as_signed_def integer_rejected)
next
  case False
  then obtain x where x: "v = Some x" "json_type J x = JSON_NUMBER" "0 < bits" "bits \<le> 64" by auto
  note spec = integer_signed [OF x(2-4), of number]
  show ?thesis
  proof (cases "exact_value J number x")
    case None
    then show ?thesis using spec x by (simp add: value_as_signed_def)
  next
    case (Some n)
    show ?thesis
    proof (cases "- (2 ^ (bits - 1)) \<le> n \<and> n < 2 ^ (bits - 1)")
      case True
      then obtain neg where neg: "integer_value J number v bits True = Inr (of_int \<bar>n\<bar>, neg)" "n < 0 \<longrightarrow> neg" "n > 0 \<longrightarrow> \<not> neg"
        using spec Some x(1) by (auto simp del: One_nat_def)
      have "value_as_signed J number v bits = Inr (of_int n)"
        unfolding value_as_signed_def neg(1)
        using signed_result [OF within_64 [OF _ _ x(3,4)] neg(2,3)] True by (simp add: Let_def del: One_nat_def)
      then show ?thesis using Some True x by simp
    next
      case False
      then show ?thesis using spec Some x by (simp add: value_as_signed_def)
    qed
  qed
qed


lemma sint_within: "- (2 ^ 63) \<le> n \<Longrightarrow> n < 2 ^ 63 \<Longrightarrow> sint (of_int n :: 64 word) = n"
  by (simp add: signed_of_int signed_take_bit_int_eq_self)

text \<open>
  C27. A signed integer is read exactly or refused: an absent value, a value that is not a number and a
  width outside 1 to 64 are \<open>SALTS_EINVAL\<close>; a number that denotes no integer, or one outside the two's
  complement range of the width, is \<open>SALTS_ERANGE\<close>; every other number gives the 64-bit word whose signed
  value is the integer that the number denotes, the decimal value of its text when that has neither
  fraction nor exponent. So a result always fits the requested width.
\<close>

theorem value_as_signed_exact:
  "map_sum id sint (value_as_signed J number v bits) =
     (if v \<noteq> None \<and> json_type J (the v) = JSON_NUMBER \<and> 0 < bits \<and> bits \<le> 64 then
        (case exact_value J number (the v) of
           None \<Rightarrow> Inl SALTS_ERANGE
         | Some n \<Rightarrow> if - (2 ^ (bits - 1)) \<le> n \<and> n < 2 ^ (bits - 1) then Inr n else Inl SALTS_ERANGE)
      else Inl SALTS_EINVAL)"
proof -
  have "sint (of_int n :: 64 word) = n" if "- (2 ^ (bits - 1)) \<le> n" "n < 2 ^ (bits - 1)" "0 < bits" "bits \<le> 64" for n
    using within_64 [OF that] by (rule sint_within)
  then show ?thesis unfolding signed_exact by (auto simp del: One_nat_def split: option.split)
qed

text \<open>
  An unsigned integer is read exactly or refused, with the same errors: the range is that of the
  width's unsigned integers, and an integer lexeme with a minus sign is out of range whatever its digits,
  a negative zero included.
\<close>

theorem value_as_unsigned_exact:
  "map_sum id uint (value_as_unsigned J number v bits) =
     (if v = None \<or> json_type J (the v) \<noteq> JSON_NUMBER \<or> bits = 0 \<or> bits > 64 then Inl SALTS_EINVAL
      else case exact_value J number (the v) of
        None \<Rightarrow> Inl SALTS_ERANGE
      | Some n \<Rightarrow> if \<not> lexeme_signed J (the v) \<and> 0 \<le> n \<and> n < 2 ^ bits then Inr n else Inl SALTS_ERANGE)"
proof (cases "v = None \<or> json_type J (the v) \<noteq> JSON_NUMBER \<or> bits = 0 \<or> bits > 64")
  case True
  then show ?thesis by (simp add: value_as_unsigned_def integer_rejected)
next
  case False
  then obtain x where x: "v = Some x" "json_type J x = JSON_NUMBER" "0 < bits" "bits \<le> 64" by auto
  have "uint (of_int n :: 64 word) = n" if "0 \<le> n" "n < 2 ^ bits" for n
  proof -
    have "(2 ^ bits :: int) \<le> 2 ^ 64" using x(4) by (intro power_increasing) auto
    then have "n < 2 ^ 64" using that(2) by linarith
    then show ?thesis using that(1) by (simp add: uint_word_of_int_eq take_bit_int_eq_self_iff)
  qed
  then show ?thesis using x unfolding value_as_unsigned_def x(1) integer_unsigned [OF x(2-4)]
    by (auto split: option.split)
qed

section \<open>Lookup and erasure\<close>

text \<open>The lookup in a tree.\<close>

fun tree_path :: "json option \<Rightarrow> string list \<Rightarrow> json option" where
  "tree_path t [] = t"
| "tree_path t (k # ks) = tree_path (case t of Some (JObject ms) \<Rightarrow> map_of ms k | _ \<Rightarrow> None) ks"

lemma tree_path_None [simp]: "tree_path None ks = None"
  by (induction ks) auto

lemma find_path_tree:
  assumes laws: "json_laws J view"
  shows "map_sum id view (find_path J doc keys) =
    (case tree_path (map_option view doc) (map the keys) of None \<Rightarrow> Inl SALTS_ENOENT | Some t \<Rightarrow> Inr t)"
proof (induction keys arbitrary: doc)
  case Nil
  then show ?case by (simp split: option.split)
next
  case (Cons k keys)
  show ?case
  proof (cases doc)
    case None
    then show ?thesis by simp
  next
    case (Some v)
    then show ?thesis using Cons.IH json_laws_read(1,6) [OF laws, of v]
      by (cases "view v") simp_all
  qed
qed

text \<open>
  C28. Finding a path is looking it up in the tree that the document denotes: an overlong path or an
  invalid key is \<open>SALTS_EINVAL\<close>, a path that leaves the objects or names an absent member is
  \<open>SALTS_ENOENT\<close>, and otherwise the value found denotes the subtree at the path.
\<close>

theorem value_find_refines:
  assumes "json_laws J view"
  shows "map_sum id view (value_find J doc keys) =
    (if length keys > 128 \<or> (\<exists>i < length keys. keys ! i = None \<or> length (the (keys ! i)) = size_max) then Inl SALTS_EINVAL
     else case tree_path (map_option view doc) (map the keys) of None \<Rightarrow> Inl SALTS_ENOENT | Some t \<Rightarrow> Inr t)"
proof -
  have key: "(case k of None \<Rightarrow> False | Some t \<Rightarrow> length t \<noteq> size_max) \<longleftrightarrow> \<not> (k = None \<or> length (the k) = size_max)"
    for k :: "string option" by (cases k) auto
  have "valid_path keys \<longleftrightarrow> \<not> (length keys > 128 \<or> (\<exists>i < length keys. keys ! i = None \<or> length (the (keys ! i)) = size_max))"
    unfolding valid_path_def key list_all_length value_max_path_def by auto
  then show ?thesis using find_path_tree [OF assms, of doc keys] by (auto simp: value_find_def)
qed

theorem value_find_refines_witness:
  "value_find tree_api (Some (JObject [(''a'', JObject [(''b'', JBool True)])])) [Some ''a'', Some ''b''] = Inr (JBool True)"
proof -
  have "map_sum id (\<lambda>j. j) (value_find tree_api (Some (JObject [(''a'', JObject [(''b'', JBool True)])])) [Some ''a'', Some ''b'']) =
      Inr (JBool True)"
    unfolding value_find_refines [OF tree_api_laws] by (auto simp: less_Suc_eq nth_Cons' size_max_def)
  then show ?thesis by (simp add: map_sum.identity [unfolded id_def] id_def)
qed

text \<open>The array operations: a new array is empty and an added element comes last.\<close>

definition array_laws :: "'j array_api \<Rightarrow> ('j \<Rightarrow> json) \<Rightarrow> bool" where
  "array_laws A view \<longleftrightarrow>
     (\<forall>a. json_create_array A = Some a \<longrightarrow> view a = JArray []) \<and>
     (\<forall>a x b xs. view a = JArray xs \<longrightarrow> json_array_add_checked A a x = Some b \<longrightarrow> view b = JArray (xs @ [view x]))"

definition tree_array_api :: "json array_api" where
  "tree_array_api = \<lparr>json_create_array = Some (JArray []),
     json_array_add_checked = (\<lambda>a x. case a of JArray xs \<Rightarrow> Some (JArray (xs @ [x])) | _ \<Rightarrow> None)\<rparr>"

lemma tree_array_api_laws: "array_laws tree_array_api (\<lambda>j. j)"
  by (auto simp: array_laws_def tree_array_api_def)

text \<open>The elements of a list without the one that the loop reaches at the index.\<close>

definition without :: "nat \<Rightarrow> 'a list \<Rightarrow> 'a list" where
  "without i xs = take i xs @ drop (Suc i) xs"

lemma copy_others_spec:
  assumes "json_laws J view" "array_laws A view"
  shows "copy_others J A index current xs r = Some r' \<Longrightarrow> view r = JArray ys \<Longrightarrow>
    view r' = JArray (ys @ (if index < current then map view xs else without (index - current) (map view xs)))"
proof (induction xs arbitrary: current r ys)
  case Nil
  then show ?case by (simp add: without_def)
next
  case (Cons x xs)
  show ?case
  proof (cases "current = index")
    case True
    then show ?thesis using Cons.prems Cons.IH [of "Suc current" r ys] by (simp add: without_def)
  next
    case False
    then obtain c r1 where c: "json_clone J x = Some c" "json_array_add_checked A r c = Some r1"
      and rest: "copy_others J A index (current + 1) xs r1 = Some r'"
      using Cons.prems(1) by (auto split: option.splits)
    have "view r1 = JArray (ys @ [view x])"
      using assms(2) Cons.prems(2) c json_laws_clone [OF assms(1) c(1)] by (simp add: array_laws_def)
    from Cons.IH [OF rest this]
    show ?thesis using False by (cases "index < current") (auto simp: without_def take_Cons' drop_Cons' Suc_diff_Suc)
  qed
qed

text \<open>
  Erasing an array element removes that element and keeps the order of the others, or changes
  nothing: an absent value, a value that is no array and an index past its end are \<open>SALTS_ENOENT\<close>, a
  failed allocation or copy is \<open>SALTS_ENOMEM\<close>, and both leave the document as it was.
\<close>

theorem value_erase_correct:
  assumes "json_laws J view" "array_laws A view"
  shows "case value_erase J A doc index of
      (SALTS_OK, doc') \<Rightarrow> \<exists>v v' xs. doc = Some v \<and> doc' = Some v' \<and> view v = JArray xs \<and> index < length xs \<and>
        view v' = JArray (take index xs @ drop (Suc index) xs)
    | (e, doc') \<Rightarrow> doc' = doc \<and>
        (e = SALTS_ENOENT \<and> \<not> (\<exists>v xs. doc = Some v \<and> view v = JArray xs \<and> index < length xs) \<or>
         e = SALTS_ENOMEM \<and> (\<exists>v xs. doc = Some v \<and> view v = JArray xs \<and> index < length xs))"
proof (cases "\<exists>v xs. doc = Some v \<and> view v = JArray xs \<and> index < length xs")
  case False
  have "value_erase J A doc index = (SALTS_ENOENT, doc)"
  proof (cases doc)
    case (Some v)
    have "length (json_array J v) = length (tree_elements (view v))"
      using json_laws_read(4) [OF assms(1), of v] by (metis length_map)
    then show ?thesis using False Some json_laws_read(1) [OF assms(1), of v]
      by (cases "view v") (auto simp: value_erase_def)
  qed (simp add: value_erase_def)
  then show ?thesis using False by simp
next
  case True
  then obtain v xs where v: "doc = Some v" "view v = JArray xs" "index < length xs" by blast
  have m: "map view (json_array J v) = xs" using json_laws_read(4) [OF assms(1), of v] v(2) by simp
  have "\<not> (json_type J v \<noteq> JSON_ARRAY \<or> index \<ge> length (json_array J v))"
    using m v json_laws_read(1) [OF assms(1), of v] by auto
  moreover have "view r' = JArray (take index xs @ drop (Suc index) xs)"
    if "json_create_array A = Some r" "copy_others J A index 0 (json_array J v) r = Some r'" for r r'
    using copy_others_spec [OF assms that(2), of "[]"] that(1) assms(2) m by (simp add: array_laws_def without_def)
  ultimately show ?thesis using v by (auto simp: value_erase_def split: option.split)
qed

theorem value_erase_correct_witness:
  "value_erase tree_api tree_array_api (Some (JArray [JNull, JBool True, JString ''x''])) 1 = (SALTS_OK, Some (JArray [JNull, JString ''x'']))"
proof -
  have "value_erase tree_api tree_array_api (Some (JArray [JNull, JBool True, JString ''x''])) 1 =
      (SALTS_OK, snd (value_erase tree_api tree_array_api (Some (JArray [JNull, JBool True, JString ''x''])) 1))"
    by (simp add: value_erase_def tree_array_api_def)
  with value_erase_correct [OF tree_api_laws tree_array_api_laws, of "Some (JArray [JNull, JBool True, JString ''x''])" 1]
  show ?thesis by (auto split: prod.splits salts_status.splits)
qed

text \<open>
  A value is an \<open>int64\<close> exactly when it is a number with an integer lexeme that reads as a signed
  64-bit integer: the test and the conversion agree.
\<close>

theorem value_is_int64_agrees:
  "value_is_int64 J v \<longleftrightarrow> v \<noteq> None \<and> integer_token J (the v) \<noteq> None \<and> (\<exists>w. value_as_signed J number v 64 = Inr w)"
proof (cases v)
  case (Some x)
  have "int64_max = positive_limit 64 True" "push_bit 63 1 = negative_limit 64 True"
    by (simp_all add: int64_max_def positive_limit_def negative_limit_def)
  then show ?thesis using Some
    by (auto simp: value_is_int64_def value_as_signed_def integer_value_def split: option.splits)
qed (simp add: value_is_int64_def)

end
