(* ===== verification/Value_Assign.thy ===== *)
theory Value_Assign
  imports Workflow_Value
begin

text \<open>
  Assignment and append along a path: \<open>set_value\<close> and \<open>append_value\<close> of
  \<open>praktor/src/data/workflow_value.c\<close>. Both change a document in place, so the document is the tree that
  it denotes, and a value inside it is addressed by its path. The lemmas show that an assignment puts
  the value at its path and nowhere else, creating the objects in between, or changes nothing.

  Every call of the JSON library that allocates may fail: an allocator says which succeed. The calls of
  a recursive \<open>set_value\<close> have sites of their own. A caller may hand over the root itself as the source.
\<close>

datatype assign_site =
    Clone_Source | Create_Member nat | Add_Member nat | Assign_Member
  | Clone_Root | Create_Empty | Empty_Parent | Within_Parents assign_site | Within_Self assign_site

text \<open>
  The source: a value to copy or to take over, or the root itself, to copy or through the root's own
  pointer. A pointer that is taken over owns its value, so it is never the root or a part of it.
\<close>

datatype assign_source = Copy_Value "json option" | Take_Value "json option" | Copy_Root | Take_Root

fun source_value :: "json option \<Rightarrow> assign_source \<Rightarrow> json option" where
  "source_value doc (Copy_Value v) = v"
| "source_value doc (Take_Value v) = v"
| "source_value doc Copy_Root = doc"
| "source_value doc Take_Root = doc"

definition from_root :: "assign_source \<Rightarrow> bool" where
  "from_root src \<longleftrightarrow> src = Copy_Root \<or> src = Take_Root"

fun takes_over :: "assign_source \<Rightarrow> bool" where
  "takes_over (Take_Value v) = True"
| "takes_over _ = False"

text \<open>The walk to the deepest existing parent: how many keys it consumed, and the parent.\<close>

fun walk_parents :: "json \<Rightarrow> string list \<Rightarrow> nat \<Rightarrow> (nat \<times> json) option" where
  "walk_parents parent (k # k' # ks) index =
     (if tree_kind parent \<noteq> JSON_OBJECT then None
      else case map_of (tree_members parent) k of
        None \<Rightarrow> Some (index, parent)
      | Some child \<Rightarrow> walk_parents child (k' # ks) (index + 1))"
| "walk_parents parent ks index = Some (index, parent)"

text \<open>The loop that nests the pending value into new objects, from key number \<open>n\<close> down to \<open>stop\<close>.\<close>

fun nest_pending :: "assign_site allocator \<Rightarrow> string list \<Rightarrow> nat \<Rightarrow> nat \<Rightarrow> json \<Rightarrow> json option" where
  "nest_pending mem keys 0 stop pending = Some pending"
| "nest_pending mem keys (Suc n) stop pending =
     (if Suc n > stop then
        if \<not> mem (Create_Member n) \<or> \<not> mem (Add_Member n) then None
        else nest_pending mem keys n stop (JObject [(keys ! n, pending)])
      else Some pending)"

text \<open>The document after a member of the object at a path was assigned.\<close>

fun put_member :: "json \<Rightarrow> string list \<Rightarrow> string \<Rightarrow> json \<Rightarrow> json" where
  "put_member (JObject ms) [] key v = JObject (json_replace key v ms)"
| "put_member (JObject ms) (k # ks) key v =
     (case map_of ms k of
        None \<Rightarrow> JObject ms
      | Some child \<Rightarrow> JObject (json_replace k (put_member child ks key v) ms))"
| "put_member j ks key v = j"

text \<open>
  The result: the status, the root pointer, and whether the source was taken, that is, the taken
  pointer cleared.
\<close>

type_synonym assign_result = "salts_status \<times> json option \<times> bool"

text \<open>The part after the walk: \<open>missing\<close> is the number of keys that the walk consumed.\<close>

definition assign_missing ::
  "assign_site allocator \<Rightarrow> json option \<Rightarrow> string list \<Rightarrow> json \<Rightarrow> assign_source \<Rightarrow> bool \<Rightarrow> nat \<Rightarrow> assign_result" where
  "assign_missing mem doc keys source src replace_root missing =
     (let n = length keys;
          copy = (\<not> takes_over src \<or> replace_root \<or> missing + 1 < n) in
      if copy \<and> \<not> mem Clone_Source then (SALTS_ENOMEM, doc, False)
      else case nest_pending mem keys n (missing + (if replace_root then 0 else 1)) source of
        None \<Rightarrow> (SALTS_ENOMEM, doc, False)
      | Some pending \<Rightarrow>
          if replace_root then (SALTS_OK, Some pending, takes_over src)
          else if \<not> mem Assign_Member then (SALTS_ENOMEM, doc, False)
          else (SALTS_OK, Some (put_member (the doc) (take missing keys) (keys ! missing) pending), takes_over src))"

text \<open>The body of \<open>set_value\<close>; \<open>again\<close> is the recursive call.\<close>

type_synonym assign_call = "assign_site allocator \<Rightarrow> json option \<Rightarrow> string option list \<Rightarrow> assign_source \<Rightarrow> assign_result option"

text \<open>The branch that assigns a root to a path inside itself whose parents do not exist yet.\<close>

definition assign_provisional :: "assign_call \<Rightarrow> assign_site allocator \<Rightarrow> json option \<Rightarrow> string option list \<Rightarrow> bool \<Rightarrow> assign_result option" where
  "assign_provisional again mem doc path replace_root =
     (if \<not> (if replace_root then mem Create_Empty else mem Clone_Root) then Some (SALTS_ENOMEM, doc, False)
      else
        let provisional = (if replace_root then JObject [] else the doc); n = length path in
        case (if n > 1 then
                if \<not> mem Empty_Parent then Some (SALTS_ENOMEM, Some provisional, False)
                else again (\<lambda>s. mem (Within_Parents s)) (Some provisional) (take (n - 1) path) (Take_Value (Some (JObject [])))
              else Some (SALTS_OK, Some provisional, False)) of
          None \<Rightarrow> None
        | Some (status, provisional, _) \<Rightarrow>
            (case (if status = SALTS_OK then again (\<lambda>s. mem (Within_Self s)) provisional path Copy_Root
                   else Some (status, provisional, False)) of
               None \<Rightarrow> None
             | Some (status, provisional, _) \<Rightarrow>
                 if status \<noteq> SALTS_OK then Some (status, doc, False) else Some (SALTS_OK, provisional, False)))"

definition set_step :: "assign_call \<Rightarrow> assign_call" where
  "set_step again mem doc path src =
     (case source_value doc src of
        None \<Rightarrow> Some (SALTS_EINVAL, doc, False)
      | Some source \<Rightarrow>
          if \<not> valid_path path then Some (SALTS_EINVAL, doc, False)
          else
            let keys = map the path; n = length keys; replace_root = (doc = None \<or> doc = Some JNull) in
            if n = 0 then
              (if src = Take_Root then Some (SALTS_OK, doc, False)
               else if \<not> takes_over src \<and> \<not> mem Clone_Source then Some (SALTS_ENOMEM, doc, False)
               else Some (SALTS_OK, Some source, takes_over src))
            else
              case (if replace_root then Some (0, JNull) else walk_parents (the doc) keys 0) of
                None \<Rightarrow> Some (SALTS_EINVAL, doc, False)
              | Some (missing, parent) \<Rightarrow>
                  if \<not> replace_root \<and> tree_kind parent \<noteq> JSON_OBJECT then Some (SALTS_EINVAL, doc, False)
                  else if from_root src \<and> (replace_root \<or> missing + 1 < n) then assign_provisional again mem doc path replace_root
                  else Some (assign_missing mem doc keys source src replace_root missing))"

text \<open>\<open>set_value\<close>; the fuel bounds the recursion, and no fuel is no result.\<close>

primrec set_value :: "nat \<Rightarrow> assign_call" where
  "set_value 0 = set_step (\<lambda>_ _ _ _. None)"
| "set_value (Suc fuel) = set_step (set_value fuel)"

text \<open>The two entry points: \<open>set_copy\<close> for the sources that are copied, \<open>set_take\<close> for the others.\<close>

definition value_set :: assign_call where
  "value_set mem doc path src = set_value 1 mem doc path src"

section \<open>Append\<close>

text \<open>The document after an element was appended to the array at a path.\<close>

fun push_element :: "json \<Rightarrow> string list \<Rightarrow> json \<Rightarrow> json" where
  "push_element (JArray xs) [] v = JArray (xs @ [v])"
| "push_element (JObject ms) (k # ks) v =
     (case map_of ms k of None \<Rightarrow> JObject ms | Some child \<Rightarrow> JObject (json_replace k (push_element child ks v) ms))"
| "push_element j ks v = j"

definition append_value :: "assign_site allocator \<Rightarrow> json option \<Rightarrow> string option list \<Rightarrow> assign_source \<Rightarrow> assign_result" where
  "append_value mem doc path src =
     (case source_value doc src of
        None \<Rightarrow> (SALTS_EINVAL, doc, False)
      | Some source \<Rightarrow>
          if \<not> valid_path path then (SALTS_EINVAL, doc, False)
          else case value_find tree_api doc path of
            Inl _ \<Rightarrow> (SALTS_EINVAL, doc, False)
          | Inr a \<Rightarrow>
              if tree_kind a \<noteq> JSON_ARRAY then (SALTS_EINVAL, doc, False)
              else if \<not> takes_over src \<and> \<not> mem Clone_Source then (SALTS_ENOMEM, doc, False)
              else if \<not> mem Assign_Member then (SALTS_ENOMEM, doc, False)
              else (SALTS_OK, Some (push_element (the doc) (map the path) source), takes_over src))"

section \<open>The reference assignment\<close>

fun tree_nest :: "string list \<Rightarrow> json \<Rightarrow> json" where
  "tree_nest [] v = v"
| "tree_nest (k # ks) v = JObject [(k, tree_nest ks v)]"

text \<open>Assignment in a tree, \<open>None\<close> when the path leaves the objects.\<close>

fun tree_set :: "json \<Rightarrow> string list \<Rightarrow> json \<Rightarrow> json option" where
  "tree_set j [] v = Some v"
| "tree_set (JObject ms) (k # ks) v =
     (case map_of ms k of
        None \<Rightarrow> Some (JObject (json_replace k (tree_nest ks v) ms))
      | Some child \<Rightarrow> map_option (\<lambda>c. JObject (json_replace k c ms)) (tree_set child ks v))"
| "tree_set _ (k # ks) v = None"

text \<open>Assignment in a document: an absent or null document is replaced.\<close>

definition assigned :: "json option \<Rightarrow> string list \<Rightarrow> json \<Rightarrow> json option" where
  "assigned doc keys v =
     (if keys = [] then Some v else if doc = None \<or> doc = Some JNull then Some (tree_nest keys v) else tree_set (the doc) keys v)"

lemma tree_set_nest: "tree_set (tree_nest ks w) ks v = Some (tree_nest ks v)"
  by (induction ks) auto

lemma tree_set_snoc: "tree_set j (ks @ [k]) v \<noteq> None \<Longrightarrow> tree_set j ks w \<noteq> None"
proof (induction j ks w rule: tree_set.induct)
  case (2 ms k' ks w)
  then show ?case by (auto split: option.splits)
qed auto

section \<open>The walk\<close>

lemma nest_pending_spec:
  "nest_pending mem keys n stop p = Some q \<Longrightarrow> n \<le> length keys \<Longrightarrow> q = tree_nest (drop stop (take n keys)) p"
proof (induction mem keys n stop p rule: nest_pending.induct)
  case (2 mem keys n stop p)
  have nest: "tree_nest (xs @ [k]) p = tree_nest xs (JObject [(k, p)])" for xs k by (induction xs) auto
  show ?case
  proof (cases "Suc n > stop")
    case True
    then have "drop stop (take (Suc n) keys) = drop stop (take n keys) @ [keys ! n]"
      using "2.prems"(2) by (simp add: take_Suc_conv_app_nth)
    then show ?thesis using 2 True by (auto simp: nest split: if_splits)
  next
    case False
    then show ?thesis using "2.prems" by simp
  qed
qed simp

lemma tree_set_single: "tree_set j [k] v = (if tree_kind j = JSON_OBJECT then Some (put_member j [] k v) else None)"
  by (cases j) (auto split: option.split)

text \<open>The walk decides whether the assignment is possible, and where it happens.\<close>

lemma walk_parents_spec:
  "keys \<noteq> [] \<Longrightarrow>
   (case walk_parents j keys i of
      None \<Rightarrow> tree_set j keys v = None
    | Some (m, parent) \<Rightarrow> i \<le> m \<and> m - i < length keys \<and>
        (if tree_kind parent = JSON_OBJECT
         then tree_set j keys v = Some (put_member j (take (m - i) keys) (keys ! (m - i)) (tree_nest (drop (Suc (m - i)) keys) v)) \<and>
           (Suc (m - i) < length keys \<longrightarrow> map_of (tree_members parent) (keys ! (m - i)) = None)
         else tree_set j keys v = None))"
proof (induction j keys i rule: walk_parents.induct)
  case (1 parent k k' ks i)
  show ?case
  proof (cases parent)
    case (JObject ms)
    show ?thesis
    proof (cases "map_of ms k")
      case None
      then show ?thesis using JObject by simp
    next
      case (Some child)
      have IH: "case walk_parents child (k' # ks) (i + 1) of
          None \<Rightarrow> tree_set child (k' # ks) v = None
        | Some (m, parent) \<Rightarrow> i + 1 \<le> m \<and> m - (i + 1) < length (k' # ks) \<and>
            (if tree_kind parent = JSON_OBJECT
             then tree_set child (k' # ks) v = Some (put_member child (take (m - (i + 1)) (k' # ks)) ((k' # ks) ! (m - (i + 1)))
               (tree_nest (drop (Suc (m - (i + 1))) (k' # ks)) v)) \<and>
               (Suc (m - (i + 1)) < length (k' # ks) \<longrightarrow> map_of (tree_members parent) ((k' # ks) ! (m - (i + 1))) = None)
             else tree_set child (k' # ks) v = None)"
        by (rule "1.IH") (use JObject Some in simp_all)
      show ?thesis
      proof (cases "walk_parents child (k' # ks) (i + 1)")
        case None
        then show ?thesis using IH JObject Some by simp
      next
        case w: (Some mp)
        obtain m p where mp: "mp = (m, p)" by fastforce
        have "i + 1 \<le> m" using IH w mp by simp
        then obtain d where d: "m = Suc (i + d)" by (metis Suc_eq_plus1 add_Suc le_Suc_ex)
        show ?thesis using IH JObject Some w mp d by (simp split: if_splits)
      qed
    qed
  qed simp_all
qed (auto simp: tree_set_single)

section \<open>Assignment\<close>

abbreviation no_document :: "json option \<Rightarrow> bool" where
  "no_document doc \<equiv> doc = None \<or> doc = Some JNull"

lemma nest_pending_fails: "nest_pending mem keys n stop p = None \<Longrightarrow> \<exists>s. \<not> mem s"
  by (induction mem keys n stop p rule: nest_pending.induct) (auto split: if_splits)

text \<open>What a call may return when \<open>target\<close> is the assigned document.\<close>

definition assign_spec :: "assign_site allocator \<Rightarrow> json option \<Rightarrow> json option \<Rightarrow> bool \<Rightarrow> assign_result \<Rightarrow> bool" where
  "assign_spec mem doc target taking r \<longleftrightarrow>
     r = (SALTS_OK, target, taking) \<and> target \<noteq> None \<or> r = (SALTS_EINVAL, doc, False) \<and> target = None \<or>
     r = (SALTS_ENOMEM, doc, False) \<and> target \<noteq> None \<and> (\<exists>s. \<not> mem s)"

lemma assign_missing_spec:
  assumes keys: "keys \<noteq> []"
    and at: "if no_document doc then missing = 0 else
      (\<exists>parent. walk_parents (the doc) keys 0 = Some (missing, parent) \<and> tree_kind parent = JSON_OBJECT)"
  shows "assign_spec mem doc (assigned doc keys source) (takes_over src) (assign_missing mem doc keys source src (no_document doc) missing)"
proof (cases "no_document doc")
  case True
  have "assigned doc keys source = Some (tree_nest keys source)" using True keys by (auto simp: assigned_def)
  moreover have "pending = tree_nest keys source" if "nest_pending mem keys (length keys) 0 source = Some pending" for pending
    using nest_pending_spec [OF that] by simp
  ultimately show ?thesis using True at nest_pending_fails [of mem keys "length keys" 0 source]
    by (auto simp: assign_missing_def assign_spec_def Let_def split: option.split)
next
  case False
  then obtain parent where w: "walk_parents (the doc) keys 0 = Some (missing, parent)" "tree_kind parent = JSON_OBJECT" using at by auto
  have t: "assigned doc keys source = Some (put_member (the doc) (take missing keys) (keys ! missing) (tree_nest (drop (Suc missing) keys) source))"
    using walk_parents_spec [OF keys, where j = "the doc" and i = 0 and v = source] w False keys by (auto simp: assigned_def)
  have "pending = tree_nest (drop (Suc missing) keys) source" if "nest_pending mem keys (length keys) (Suc missing) source = Some pending" for pending
    using nest_pending_spec [OF that] by simp
  then show ?thesis using t False nest_pending_fails [of mem keys "length keys" "Suc missing" source]
    by (auto simp: assign_missing_def assign_spec_def Let_def split: option.split)
qed

text \<open>A root that is assigned into itself gets its missing parent objects first.\<close>

definition parents_made :: "json option \<Rightarrow> string list \<Rightarrow> json" where
  "parents_made doc keys = (if no_document doc then tree_nest (butlast keys) (JObject [])
     else the (tree_set (the doc) (butlast keys) (JObject [])))"

definition assigned_value :: "json option \<Rightarrow> string list \<Rightarrow> assign_source \<Rightarrow> json" where
  "assigned_value doc keys src =
     (if from_root src \<and> keys \<noteq> [] \<and> (no_document doc \<or> tree_path doc (butlast keys) = None) then parents_made doc keys
      else the (source_value doc src))"

lemma walk_missing:
  "keys \<noteq> [] \<Longrightarrow> walk_parents j keys i = Some (m, parent) \<Longrightarrow> tree_kind parent = JSON_OBJECT \<Longrightarrow>
     Suc (m - i) < length keys \<longleftrightarrow> tree_path (Some j) (butlast keys) = None"
proof (induction j keys i rule: walk_parents.induct)
  case (1 p k k' ks i)
  obtain ms where p: "p = JObject ms" using "1.prems" by (cases p) auto
  show ?case
  proof (cases "map_of ms k")
    case None
    then show ?thesis using "1.prems" p by auto
  next
    case (Some child)
    have w: "walk_parents child (k' # ks) (i + 1) = Some (m, parent)" using "1.prems" p Some by simp
    have IH: "Suc (m - (i + 1)) < length (k' # ks) \<longleftrightarrow> tree_path (Some child) (butlast (k' # ks)) = None"
      by (rule "1.IH") (use p Some w "1.prems"(3) in simp_all)
    have "i + 1 \<le> m" using walk_parents_spec [where keys = "k' # ks" and j = child and i = "i + 1" and v = JNull] w by simp
    then have "Suc (m - (i + 1)) = m - i" by simp
    then show ?thesis using IH p Some by simp
  qed
qed auto

lemma json_replace_twice: "json_replace k v (json_replace k w ms) = json_replace k v ms"
  by (induction ms) auto

lemma walk_made:
  "tree_set j ks (JObject []) = Some j' \<Longrightarrow> walk_parents j' (ks @ [k]) i = Some (i + length ks, JObject [])"
proof (induction j ks "JObject [] :: json" arbitrary: j' i rule: tree_set.induct)
  case (2 ms k' ks)
  have nest: "walk_parents (tree_nest ks (JObject [])) (ks @ [k]) i = Some (i + length ks, JObject [])" for i
  proof (induction ks arbitrary: i)
    case (Cons a ks)
    then show ?case by (cases ks) auto
  qed simp
  obtain c where c: "j' = JObject (json_replace k' c ms)"
      "walk_parents c (ks @ [k]) (i + 1) = Some (i + 1 + length ks, JObject [])"
    using 2 nest [of "i + 1"] by (auto split: option.splits)
  then show ?case by (cases ks) (auto simp: map_of_json_replace)
qed auto

lemma set_made:
  "tree_set j ks (JObject []) = Some j' \<Longrightarrow> tree_path (Some j) ks = None \<Longrightarrow> tree_set j' (ks @ [k]) v = tree_set j (ks @ [k]) v"
proof (induction j ks "JObject [] :: json" arbitrary: j' rule: tree_set.induct)
  case (2 ms k' ks)
  show ?case
  proof (cases "map_of ms k'")
    case None
    have "tree_set (tree_nest ks (JObject [])) (ks @ [k]) v = Some (tree_nest (ks @ [k]) v)" by (induction ks) auto
    then show ?thesis using 2 None by (auto simp: map_of_json_replace json_replace_twice)
  next
    case (Some child)
    then obtain c where c: "tree_set child ks (JObject []) = Some c" "j' = JObject (json_replace k' c ms)" using "2.prems" by auto
    have "tree_set c (ks @ [k]) v = tree_set child (ks @ [k]) v"
      by (rule "2.hyps" [OF Some c(1)]) (use "2.prems"(2) Some in simp)
    then show ?thesis using Some c by (auto simp: map_of_json_replace json_replace_twice option.map_comp comp_def)
  qed
qed auto

lemma set_nested: "tree_set (tree_nest ks (JObject [])) (ks @ [k]) v = Some (tree_nest (ks @ [k]) v)"
  by (induction ks) auto

text \<open>A call that does not assign a root below missing parents makes no recursive call.\<close>

lemma set_step_direct:
  assumes source: "source_value doc src = Some source" "valid_path path" "path \<noteq> []"
    and direct: "\<not> (from_root src \<and> (no_document doc \<or> tree_path doc (butlast (map the path)) = None)) \<or>
      tree_set (the doc) (map the path) source = None \<and> \<not> no_document doc"
  shows "\<exists>r. set_step again mem doc path src = Some r \<and>
    assign_spec mem doc (assigned doc (map the path) source) (takes_over src) r"
proof -
  let ?keys = "map the path"
  have keys: "?keys \<noteq> []" using source(3) by simp
  show ?thesis
  proof (cases "no_document doc")
    case True
    then have "set_step again mem doc path src = Some (assign_missing mem doc ?keys source src True 0)"
      using source direct by (auto simp: set_step_def)
    then show ?thesis using assign_missing_spec [OF keys, where doc = doc and missing = 0] True by simp
  next
    case False
    then obtain j where j: "doc = Some j" "j \<noteq> JNull" by auto
    note spec = walk_parents_spec [OF keys, where j = j and i = 0 and v = source]
    show ?thesis
    proof (cases "walk_parents j ?keys 0")
      case None
      then show ?thesis using spec source j keys by (auto simp: set_step_def assign_spec_def assigned_def)
    next
      case (Some mp)
      obtain m parent where w: "walk_parents j ?keys 0 = Some (m, parent)" using Some by (cases mp) auto
      show ?thesis
      proof (cases "tree_kind parent = JSON_OBJECT")
        case False
        then show ?thesis using spec w source j keys by (auto simp: set_step_def assign_spec_def assigned_def)
      next
        case obj: True
        have "tree_set j ?keys source \<noteq> None" using spec w obj by simp
        then have "\<not> (from_root src \<and> m + 1 < length ?keys)" using walk_missing [OF keys w obj] direct j by auto
        then have "set_step again mem doc path src = Some (assign_missing mem doc ?keys source src False m)"
          using source j w obj by (auto simp: set_step_def)
        then show ?thesis using assign_missing_spec [OF keys, where doc = doc and missing = m] w obj j by auto
      qed
    qed
  qed
qed

text \<open>The parent objects that a self assignment makes.\<close>

lemma parents_made_object:
  assumes "tree_set j ks (JObject []) = Some made"
  shows "made \<noteq> JNull" "tree_path (Some made) ks \<noteq> None"
proof -
  note w = walk_made [OF assms, where k = "[]" and i = 0]
  show "made \<noteq> JNull"
  proof
    assume "made = JNull"
    then show False using w by (cases ks rule: rev_cases) (auto simp: neq_Nil_conv split: list.splits elim: walk_parents.elims)
  qed
  show "tree_path (Some made) ks \<noteq> None" using walk_missing [OF _ w] by simp
qed

lemma provisional_spec:
  assumes path: "valid_path path" "path \<noteq> []" and multi: "no_document doc \<or> 1 < length path"
    and prov: "prov = (if no_document doc then JObject [] else the doc)"
    and made: "tree_set prov (butlast (map the path)) (JObject []) = Some (parents_made doc (map the path))"
    and same: "tree_set (parents_made doc (map the path)) (map the path) (parents_made doc (map the path)) =
      assigned doc (map the path) (parents_made doc (map the path))"
    and some: "assigned doc (map the path) (parents_made doc (map the path)) \<noteq> None"
  shows "\<exists>r. assign_provisional (set_value 0) mem doc path (no_document doc) = Some r \<and>
    assign_spec mem doc (assigned doc (map the path) (parents_made doc (map the path))) False r"
proof -
  let ?keys = "map the path" and ?n = "length path"
  let ?made = "parents_made doc ?keys"
  let ?first = "if ?n > 1 then
      if \<not> mem Empty_Parent then Some (SALTS_ENOMEM, Some prov, False)
      else set_value 0 (\<lambda>s. mem (Within_Parents s)) (Some prov) (take (?n - 1) path) (Take_Value (Some (JObject [])))
    else Some (SALTS_OK, Some prov, False)"
  have first: "(\<exists>t. ?first = Some (SALTS_OK, Some ?made, t)) \<or> (\<exists>p t. ?first = Some (SALTS_ENOMEM, p, t)) \<and> (\<exists>s. \<not> mem s)"
  proof (cases "?n > 1")
    case True
    have b: "map the (take (?n - 1) path) = butlast ?keys" by (simp add: butlast_conv_take take_map)
    have "valid_path (take (?n - 1) path)" using path(1) by (auto simp: valid_path_def list_all_length)
    moreover have "take (?n - 1) path \<noteq> []" using True by (cases path) auto
    ultimately obtain r where r: "set_value 0 (\<lambda>s. mem (Within_Parents s)) (Some prov) (take (?n - 1) path) (Take_Value (Some (JObject []))) = Some r"
      "assign_spec (\<lambda>s. mem (Within_Parents s)) (Some prov) (assigned (Some prov) (butlast ?keys) (JObject [])) True r"
      using set_step_direct [where doc = "Some prov" and src = "Take_Value (Some (JObject []))" and source = "JObject []"
          and path = "take (?n - 1) path" and again = "\<lambda>_ _ _ _. None" and mem = "\<lambda>s. mem (Within_Parents s)"] b
      by (auto simp: from_root_def)
    have "butlast ?keys \<noteq> []" using b True by (metis length_map length_take list.size(3) min.absorb2 diff_le_self zero_less_diff less_irrefl)
    moreover have "prov \<noteq> JNull" using prov by (auto split: if_splits)
    ultimately have "assigned (Some prov) (butlast ?keys) (JObject []) = Some ?made" using made by (simp add: assigned_def)
    then show ?thesis using r True by (auto simp: assign_spec_def)
  next
    case False
    then have "butlast ?keys = []" using path(2) by (cases path) auto
    then show ?thesis using False made multi prov by auto
  qed
  obtain r where r: "set_value 0 (\<lambda>s. mem (Within_Self s)) (Some ?made) path Copy_Root = Some r"
      "assign_spec (\<lambda>s. mem (Within_Self s)) (Some ?made) (assigned (Some ?made) ?keys ?made) False r"
    using set_step_direct [where doc = "Some ?made" and src = Copy_Root and source = ?made and path = path
        and again = "\<lambda>_ _ _ _. None" and mem = "\<lambda>s. mem (Within_Self s)"] path parents_made_object [OF made] by auto
  have "assigned (Some ?made) ?keys ?made = assigned doc ?keys ?made"
    using same parents_made_object(1) [OF made] path(2) by (simp add: assigned_def)
  with r(2) have second: "r = (SALTS_OK, assigned doc ?keys ?made, False) \<or> (\<exists>p t. r = (SALTS_ENOMEM, p, t)) \<and> (\<exists>s. \<not> mem s)"
    using some by (auto simp: assign_spec_def)
  show ?thesis
  proof (cases "if no_document doc then mem Create_Empty else mem Clone_Root")
    case True
    then have "assign_provisional (set_value 0) mem doc path (no_document doc) =
        (case ?first of None \<Rightarrow> None | Some (status, p, _) \<Rightarrow>
          (case (if status = SALTS_OK then set_value 0 (\<lambda>s. mem (Within_Self s)) p path Copy_Root else Some (status, p, False)) of
             None \<Rightarrow> None
           | Some (status, p, _) \<Rightarrow> if status \<noteq> SALTS_OK then Some (status, doc, False) else Some (SALTS_OK, p, False)))"
      unfolding assign_provisional_def prov Let_def by simp
    then show ?thesis using first second r(1) some by (auto simp: assign_spec_def)
  next
    case False
    then show ?thesis using some by (auto simp: assign_provisional_def assign_spec_def split: if_splits)
  qed
qed


section \<open>The promises of an assignment\<close>

lemma self_assignment:
  assumes path: "valid_path path" "path \<noteq> []"
    and missing: "no_document doc \<or> tree_path doc (butlast (map the path)) = None \<and> tree_set (the doc) (map the path) v \<noteq> None"
  shows "\<exists>r. assign_provisional (set_value 0) mem doc path (no_document doc) = Some r \<and>
    assign_spec mem doc (assigned doc (map the path) (parents_made doc (map the path))) False r"
proof -
  define prov where "prov = (if no_document doc then JObject [] else the doc)"
  obtain ks k where keys: "map the path = ks @ [k]" using path(2) by (cases "map the path" rule: rev_cases) auto
  let ?made = "parents_made doc (ks @ [k])"
  show ?thesis
  proof (cases "no_document doc")
    case True
    have made: "?made = tree_nest ks (JObject [])" using True by (simp add: parents_made_def)
    have "tree_set prov ks (JObject []) = Some ?made" using True unfolding made prov_def by (cases ks) auto
    moreover have "tree_set ?made (ks @ [k]) ?made = assigned doc (ks @ [k]) ?made"
      unfolding made set_nested using True by (simp add: assigned_def)
    moreover have "assigned doc (ks @ [k]) ?made \<noteq> None" using True by (simp add: assigned_def)
    ultimately show ?thesis
      using provisional_spec [OF path _ prov_def] True unfolding keys by auto
  next
    case False
    then have m: "tree_path doc ks = None" "tree_set (the doc) (ks @ [k]) v \<noteq> None" using missing keys by auto
    obtain j where j: "doc = Some j" using False by auto
    obtain made where t: "tree_set j ks (JObject []) = Some made" using tree_set_snoc [OF m(2)] j by auto
    have made: "?made = made" using False t j by (simp add: parents_made_def)
    have some: "tree_set j (ks @ [k]) w \<noteq> None" for w
      using m(2) j walk_parents_spec [where keys = "ks @ [k]" and j = j and i = 0 and v = v]
        walk_parents_spec [where keys = "ks @ [k]" and j = j and i = 0 and v = w] by (auto split: option.splits prod.splits if_splits)
    have "ks \<noteq> []" using m(1) j by auto
    then have "1 < length path" using arg_cong [OF keys, of length] by (cases ks) auto
    moreover have "tree_set ?made (ks @ [k]) ?made = assigned doc (ks @ [k]) ?made"
      unfolding made using set_made [OF t] m(1) j False by (simp add: assigned_def)
    moreover have "assigned doc (ks @ [k]) ?made \<noteq> None" using some j False by (simp add: assigned_def)
    ultimately show ?thesis
      using provisional_spec [OF path _ prov_def] t j False unfolding keys made [symmetric] by (auto simp: prov_def)
  qed
qed

lemma value_set_result:
  "\<exists>status doc' taken. value_set mem doc path src = Some (status, doc', taken) \<and>
     (if source_value doc src \<noteq> None \<and> valid_path path then
        (case assigned doc (map the path) (assigned_value doc (map the path) src) of
           None \<Rightarrow> status = SALTS_EINVAL \<and> doc' = doc \<and> taken = False
         | Some target \<Rightarrow>
             status = SALTS_OK \<and> doc' = Some target \<and> taken = takes_over src \<or>
             status = SALTS_ENOMEM \<and> doc' = doc \<and> taken = False \<and> (\<exists>s. \<not> mem s))
      else status = SALTS_EINVAL \<and> doc' = doc \<and> taken = False)"
proof -
  let ?keys = "map the path"
  have spec: "\<exists>r. value_set mem doc path src = Some r \<and>
      assign_spec mem doc (assigned doc ?keys (assigned_value doc ?keys src)) (takes_over src) r"
    if ok: "source_value doc src = Some source" "valid_path path" for source
  proof (cases "path = []")
    case True
    then show ?thesis using ok
      by (cases src) (auto simp: value_set_def set_step_def assigned_value_def assigned_def assign_spec_def)
  next
    case path: False
    let ?self = "from_root src \<and> (no_document doc \<or> tree_path doc (butlast ?keys) = None)"
    show ?thesis
    proof (cases "\<not> ?self \<or> tree_set (the doc) ?keys source = None \<and> \<not> no_document doc")
      case True
      have "assigned doc ?keys (assigned_value doc ?keys src) = assigned doc ?keys source"
      proof (cases ?self)
        case self: True
        then have "tree_set (the doc) ?keys v = None" for v
          using True path walk_parents_spec [where keys = ?keys and j = "the doc" and i = 0 and v = v]
            walk_parents_spec [where keys = ?keys and j = "the doc" and i = 0 and v = source]
          by (auto split: option.splits prod.splits if_splits)
        then show ?thesis using self True path by (auto simp: assigned_def)
      qed (use ok in \<open>auto simp: assigned_value_def\<close>)
      then show ?thesis using set_step_direct [OF ok path True] by (simp add: value_set_def)
    next
      case False
      then have src: "from_root src" "assigned_value doc ?keys src = parents_made doc ?keys" "\<not> takes_over src"
        using path by (auto simp: assigned_value_def from_root_def)
      have "value_set mem doc path src = assign_provisional (set_value 0) mem doc path (no_document doc)"
      proof (cases "no_document doc")
        case True
        then show ?thesis using src ok path by (auto simp: value_set_def set_step_def)
      next
        case doc: False
        then obtain j where j: "doc = Some j" by auto
        have keys: "?keys \<noteq> []" using path by simp
        obtain m parent where w: "walk_parents j ?keys 0 = Some (m, parent)" "tree_kind parent = JSON_OBJECT"
          using False doc j walk_parents_spec [OF keys, where j = j and i = 0 and v = source]
          by (auto split: option.splits prod.splits if_splits)
        have "m + 1 < length ?keys" using walk_missing [OF keys w] False doc j by auto
        then show ?thesis using src ok path doc j w by (auto simp: value_set_def set_step_def)
      qed
      moreover have "no_document doc \<or> tree_path doc (butlast ?keys) = None \<and> tree_set (the doc) ?keys source \<noteq> None"
        using False by auto
      ultimately show ?thesis using self_assignment [OF ok(2) path, where v = source and mem = mem and doc = doc] src by simp
    qed
  qed
  show ?thesis
  proof (cases "source_value doc src \<noteq> None \<and> valid_path path")
    case True
    then obtain source where "source_value doc src = Some source" "valid_path path" by auto
    from spec [OF this] show ?thesis using True by (auto simp: assign_spec_def)
  next
    case False
    then show ?thesis by (auto simp: value_set_def set_step_def split: option.split)
  qed
qed

text \<open>
  C29. An assignment puts its value at its path or changes nothing, and always returns. A missing source or
  an invalid path is \<open>SALTS_EINVAL\<close>, and so is a path that traverses a value that is no object; a
  failed allocation is \<open>SALTS_ENOMEM\<close>, and then some allocation failed; both leave the document as it was and the
  source untaken. On success the document is the old one with the value at the path, objects created
  where there were none, an absent or null document replaced, and the source is taken exactly when it
  was handed over. The value is the source; for a root assigned below parents that do not exist
  it is the root with these parents.
\<close>

theorem value_set_correct:
  "\<exists>status doc' taken. value_set mem doc path src = Some (status, doc', taken) \<and>
     (if source_value doc src \<noteq> None \<and> valid_path path then
        (case assigned doc (map the path) (assigned_value doc (map the path) src) of
           None \<Rightarrow> status = SALTS_EINVAL \<and> doc' = doc \<and> taken = False
         | Some target \<Rightarrow>
             status = SALTS_OK \<and> doc' = Some target \<and> taken = takes_over src \<or>
             status = SALTS_ENOMEM \<and> doc' = doc \<and> taken = False \<and> (\<exists>s. \<not> mem s))
      else status = SALTS_EINVAL \<and> doc' = doc \<and> taken = False)"
  by (rule value_set_result)

section \<open>Reading back\<close>

definition apart :: "'a list \<Rightarrow> 'a list \<Rightarrow> bool" where
  "apart p q \<longleftrightarrow> (\<forall>r. p \<noteq> q @ r \<and> q \<noteq> p @ r)"

lemma apart_simps [simp]: "\<not> apart [] q" "\<not> apart p []" "apart (a # p) (b # q) \<longleftrightarrow> a \<noteq> b \<or> apart p q"
  by (auto simp: apart_def)

lemma tree_path_nest: "tree_path (Some (tree_nest ks v)) ks = Some v"
  by (induction ks) auto

lemma tree_path_nest_apart: "apart ks qs \<Longrightarrow> tree_path (Some (tree_nest ks v)) qs = None"
proof (induction ks arbitrary: qs)
  case (Cons k ks)
  then show ?case by (cases qs) auto
qed simp

lemma tree_set_path: "tree_set j ks v = Some j' \<Longrightarrow> tree_path (Some j') ks = Some v"
proof (induction j ks v arbitrary: j' rule: tree_set.induct)
  case (2 ms k ks v)
  then show ?case by (auto simp: map_of_json_replace tree_path_nest split: option.splits)
qed auto

lemma tree_set_apart: "tree_set j ks v = Some j' \<Longrightarrow> apart ks qs \<Longrightarrow> tree_path (Some j') qs = tree_path (Some j) qs"
proof (induction j ks v arbitrary: j' qs rule: tree_set.induct)
  case (2 ms k ks v)
  obtain q qs' where q: "qs = q # qs'" using "2.prems" by (cases qs) auto
  show ?case
  proof (cases "q = k")
    case True
    then show ?thesis using 2 q by (auto simp: map_of_json_replace tree_path_nest_apart split: option.splits)
  next
    case False
    then show ?thesis using "2.prems" q by (auto simp: map_of_json_replace split: option.splits)
  qed
qed auto

lemma value_find_tree:
  "value_find tree_api d p = (if valid_path p then case tree_path d (map the p) of None \<Rightarrow> Inl SALTS_ENOENT | Some t \<Rightarrow> Inr t
     else Inl SALTS_EINVAL)"
  using find_path_tree [OF tree_api_laws, of d p] by (simp add: value_find_def sum.map_ident option.map_ident id_def)

text \<open>
  C30. What was assigned is found at its path, and every path apart from it reads as before: after a
  successful assignment, finding the path gives the assigned value, and finding a path of which
  neither is a beginning of the other gives what it gave before.
\<close>

theorem value_set_find:
  assumes "value_set mem doc path src = Some (SALTS_OK, doc', taken)"
  shows "value_find tree_api doc' path = Inr (assigned_value doc (map the path) src) \<and>
    (\<forall>q. apart (map the path) (map the q) \<longrightarrow> value_find tree_api doc' q = value_find tree_api doc q)"
proof -
  let ?keys = "map the path" and ?v = "assigned_value doc (map the path) src"
  have ok: "valid_path path" "assigned doc ?keys ?v = doc'" "doc' \<noteq> None"
    using value_set_result [of mem doc path src] assms by (auto split: if_splits option.splits)
  have found: "tree_path doc' ?keys = Some ?v"
    using ok(2,3) tree_set_path by (auto simp: assigned_def tree_path_nest split: if_splits)
  have keep: "tree_path doc' qs = tree_path doc qs" if a: "apart ?keys qs" for qs
  proof -
    have ne: "?keys \<noteq> []" "qs \<noteq> []" using a by auto
    show ?thesis
    proof (cases "no_document doc")
      case True
      then have "doc' = Some (tree_nest ?keys ?v)" using ok(2) ne by (auto simp: assigned_def)
      moreover have "tree_path doc qs = None" using True ne by (cases qs) auto
      ultimately show ?thesis using tree_path_nest_apart [OF a] by simp
    next
      case False
      then obtain j where j: "doc = Some j" by auto
      obtain j' where j': "doc' = Some j'" using ok(3) by auto
      have "tree_set j ?keys ?v = Some j'" using ok(2) ne False unfolding j j' by (simp add: assigned_def)
      from tree_set_apart [OF this a] show ?thesis using j j' by simp
    qed
  qed
  show ?thesis unfolding value_find_tree using ok(1) found keep by auto
qed


theorem value_set_find_witness:
  "value_find tree_api (Some (JObject [(''a'', JObject [(''b'', JBool True)]), (''c'', JNull)])) [Some ''a'', Some ''b''] = Inr (JBool True) \<and>
   value_find tree_api (Some (JObject [(''a'', JObject [(''b'', JBool True)]), (''c'', JNull)])) [Some ''c''] =
     value_find tree_api (Some (JObject [(''a'', JObject []), (''c'', JNull)])) [Some ''c'']"
proof -
  have run: "value_set no_oom (Some (JObject [(''a'', JObject []), (''c'', JNull)])) [Some ''a'', Some ''b''] (Copy_Value (Some (JBool True))) =
      Some (SALTS_OK, Some (JObject [(''a'', JObject [(''b'', JBool True)]), (''c'', JNull)]), False)"
    by (simp add: value_set_def set_step_def valid_path_def value_max_path_def size_max_def from_root_def assign_missing_def)
  have "assigned_value (Some (JObject [(''a'', JObject []), (''c'', JNull)])) (map the [Some ''a'', Some ''b'']) (Copy_Value (Some (JBool True))) = JBool True"
    by (simp add: assigned_value_def from_root_def)
  moreover have "apart (map the [Some ''a'', Some ''b'']) (map the [Some ''c''])" by simp
  ultimately show ?thesis using value_set_find [OF run] by metis
qed

text \<open>An append puts the element at the end of the array at its path, or changes nothing.\<close>

lemma push_element_set:
  "tree_path (Some j) keys = Some (JArray xs) \<Longrightarrow> tree_set j keys (JArray (xs @ [v])) = Some (push_element j keys v)"
proof (induction keys arbitrary: j)
  case (Cons k ks)
  then obtain ms where j: "j = JObject ms" "tree_path (map_of ms k) ks = Some (JArray xs)" by (cases j) auto
  then obtain c where "map_of ms k = Some c" by (cases "map_of ms k") auto
  then show ?case using Cons.IH j by simp
qed simp

theorem append_value_correct:
  "case append_value mem doc path src of (status, doc', taken) \<Rightarrow>
     status = SALTS_OK \<and> taken = takes_over src \<and> valid_path path \<and>
       (\<exists>source xs. source_value doc src = Some source \<and> tree_path doc (map the path) = Some (JArray xs) \<and>
          assigned doc (map the path) (JArray (xs @ [source])) = doc') \<or>
     (status = SALTS_EINVAL \<or> status = SALTS_ENOMEM \<and> (\<exists>s. \<not> mem s)) \<and> doc' = doc \<and> taken = False"
proof (cases "\<exists>source xs. source_value doc src = Some source \<and> valid_path path \<and> tree_path doc (map the path) = Some (JArray xs)")
  case True
  then obtain source xs where ok: "source_value doc src = Some source" "valid_path path" "tree_path doc (map the path) = Some (JArray xs)" by blast
  then obtain j where j: "doc = Some j" by (cases doc) auto
  have "j \<noteq> JNull \<or> path = []" using ok(3) j by (cases path) auto
  then have "assigned doc (map the path) (JArray (xs @ [source])) = Some (push_element j (map the path) source)"
    using push_element_set [OF ok(3) [unfolded j]] j by (auto simp: assigned_def)
  moreover have "value_find tree_api doc path = Inr (JArray xs)" using ok by (simp add: value_find_tree)
  ultimately show ?thesis using ok j by (auto simp: append_value_def)
next
  case False
  have "tree_kind a \<noteq> JSON_ARRAY" if "value_find tree_api doc path = Inr a" "source_value doc src \<noteq> None" "valid_path path" for a
    using False that by (cases a) (auto simp: value_find_tree split: option.splits)
  then show ?thesis by (auto simp: append_value_def split: option.split sum.split)
qed

end
