(* ===== verification/Orch_Tree.thy ===== *)
theory Orch_Tree
  imports Praktor_Prelude
begin

text \<open>
  The orchestration tree: \<open>praktor/src/yml/orch_tree.c\<close> with its catalog \<open>orch_nodes.def\<close>. A tree is
  built from a command with a postprocessor, or from a flat list in which parents come first; its
  nodes are owned by one array, and the edges to children are pointers into it, here indices. The
  lemmas show that a returned tree is a tree in the order of the list, within its bounds and with
  canonical parameters, and which inputs are accepted.

  A node type out of the enumeration's range, and a text view that is not valid, are \<open>None\<close>. The lower
  case of a byte is that of the C locale. Failures carry the status and the message.
\<close>

section \<open>The catalog\<close>

datatype orch_type =
    ORCH_SEQUENCE | ORCH_FALLBACK | ORCH_SELECTOR | ORCH_PARALLEL | ORCH_REACTIVE_SEQUENCE | ORCH_SWITCH | ORCH_WHILE_DO
  | ORCH_IF_THEN_ELSE | ORCH_INVERTER | ORCH_FORCE_SUCCESS | ORCH_FORCE_FAILURE | ORCH_REPEAT | ORCH_TIMEOUT | ORCH_DELAY
  | ORCH_SUB_TREE | ORCH_KEEP_RUNNING_UNTIL_FAILURE | ORCH_RUN_ONCE | ORCH_CONSUME_QUEUE | ORCH_PRECONDITION
  | ORCH_ENTRY_UPDATED | ORCH_PIPELINE_SEQUENCE | ORCH_SHELL | ORCH_PARSE_JSON | ORCH_PARSE_REGEX | ORCH_PARSE_LINES
  | ORCH_PARSE_KEY_VALUE | ORCH_CHECK_EXIT_CODE | ORCH_WAIT_EVENT | ORCH_SLEEP | ORCH_FILE_EXISTS | ORCH_SET_VARIABLE

record orch_spec =
  spec_name :: string
  spec_control :: bool
  allows_children :: bool
  spec_required :: "string list"
  spec_optional :: "string list"

definition control_spec :: "string \<Rightarrow> string list \<Rightarrow> string list \<Rightarrow> orch_spec" where
  "control_spec n req opt = \<lparr>spec_name = n, spec_control = True, allows_children = True, spec_required = req, spec_optional = opt\<rparr>"

definition leaf_spec :: "string \<Rightarrow> string list \<Rightarrow> string list \<Rightarrow> orch_spec" where
  "leaf_spec n req opt = \<lparr>spec_name = n, spec_control = False, allows_children = False, spec_required = req, spec_optional = opt\<rparr>"

primrec spec_for :: "orch_type \<Rightarrow> orch_spec" where
  "spec_for ORCH_SEQUENCE = control_spec ''Sequence'' [] []"
| "spec_for ORCH_FALLBACK = control_spec ''Fallback'' [] []"
| "spec_for ORCH_SELECTOR = control_spec ''Selector'' [] []"
| "spec_for ORCH_PARALLEL = control_spec ''Parallel'' [] []"
| "spec_for ORCH_REACTIVE_SEQUENCE = control_spec ''ReactiveSequence'' [] []"
| "spec_for ORCH_SWITCH = control_spec ''Switch'' [''variable''] []"
| "spec_for ORCH_WHILE_DO = control_spec ''WhileDo'' [] [''condition'', ''max_iterations'']"
| "spec_for ORCH_IF_THEN_ELSE = control_spec ''IfThenElse'' [] [''condition'']"
| "spec_for ORCH_INVERTER = control_spec ''Inverter'' [] []"
| "spec_for ORCH_FORCE_SUCCESS = control_spec ''ForceSuccess'' [] []"
| "spec_for ORCH_FORCE_FAILURE = control_spec ''ForceFailure'' [] []"
| "spec_for ORCH_REPEAT = control_spec ''Repeat'' [] [''num_cycles'']"
| "spec_for ORCH_TIMEOUT = control_spec ''Timeout'' [] [''timeout_ms'']"
| "spec_for ORCH_DELAY = control_spec ''Delay'' [] [''delay_ms'']"
| "spec_for ORCH_SUB_TREE = leaf_spec ''SubTree'' [''tree''] []"
| "spec_for ORCH_KEEP_RUNNING_UNTIL_FAILURE = control_spec ''KeepRunningUntilFailure'' [] [''max_iterations'']"
| "spec_for ORCH_RUN_ONCE = control_spec ''RunOnce'' [] []"
| "spec_for ORCH_CONSUME_QUEUE = control_spec ''ConsumeQueue'' [''queue_key''] [''item_key'']"
| "spec_for ORCH_PRECONDITION = control_spec ''Precondition'' [''condition''] []"
| "spec_for ORCH_ENTRY_UPDATED = control_spec ''EntryUpdated'' [''watch_key''] []"
| "spec_for ORCH_PIPELINE_SEQUENCE = control_spec ''PipelineSequence'' [] [''input_key'', ''output_key'']"
| "spec_for ORCH_SHELL = leaf_spec ''Shell'' [''cmd'']
     [''output_key'', ''stderr_key'', ''exit_code_key'', ''working_dir'', ''timeout'', ''stream_output'']"
| "spec_for ORCH_PARSE_JSON = leaf_spec ''ParseJson'' [''input_key''] [''path'', ''output_key'']"
| "spec_for ORCH_PARSE_REGEX = leaf_spec ''ParseRegex'' [''input_key'', ''pattern''] [''capture_group'', ''output_key'']"
| "spec_for ORCH_PARSE_LINES = leaf_spec ''ParseLines'' [''input_key''] [''filter'', ''output_key'']"
| "spec_for ORCH_PARSE_KEY_VALUE = leaf_spec ''ParseKeyValue'' [''input_key''] [''delimiter'', ''line_separator'', ''output_key'']"
| "spec_for ORCH_CHECK_EXIT_CODE = leaf_spec ''CheckExitCode'' [''expected''] [''input_key'']"
| "spec_for ORCH_WAIT_EVENT = leaf_spec ''WaitEvent'' [''event''] [''timeout'']"
| "spec_for ORCH_SLEEP = leaf_spec ''Sleep'' [''duration''] []"
| "spec_for ORCH_FILE_EXISTS = leaf_spec ''FileExists'' [''path''] [''output_key'', ''fail_if_missing'']"
| "spec_for ORCH_SET_VARIABLE = leaf_spec ''SetVariable'' [''key''] [''value'', ''from'']"

definition orch_types :: "orch_type list" where
  "orch_types =
     [ORCH_SEQUENCE, ORCH_FALLBACK, ORCH_SELECTOR, ORCH_PARALLEL, ORCH_REACTIVE_SEQUENCE, ORCH_SWITCH, ORCH_WHILE_DO,
      ORCH_IF_THEN_ELSE, ORCH_INVERTER, ORCH_FORCE_SUCCESS, ORCH_FORCE_FAILURE, ORCH_REPEAT, ORCH_TIMEOUT, ORCH_DELAY,
      ORCH_SUB_TREE, ORCH_KEEP_RUNNING_UNTIL_FAILURE, ORCH_RUN_ONCE, ORCH_CONSUME_QUEUE, ORCH_PRECONDITION,
      ORCH_ENTRY_UPDATED, ORCH_PIPELINE_SEQUENCE, ORCH_SHELL, ORCH_PARSE_JSON, ORCH_PARSE_REGEX, ORCH_PARSE_LINES,
      ORCH_PARSE_KEY_VALUE, ORCH_CHECK_EXIT_CODE, ORCH_WAIT_EVENT, ORCH_SLEEP, ORCH_FILE_EXISTS, ORCH_SET_VARIABLE]"

section \<open>Names\<close>

definition lower_case :: "char \<Rightarrow> char" where
  "lower_case c = (let n = of_char c :: nat in if 65 \<le> n \<and> n \<le> 90 then char_of (n + 32) else c)"

definition skip_underscores :: "string \<Rightarrow> string" where
  "skip_underscores = dropWhile (\<lambda>c. c = CHR ''_'')"

fun orch_name_is :: "string \<Rightarrow> string \<Rightarrow> bool" where
  "orch_name_is [] canonical \<longleftrightarrow> skip_underscores canonical = []"
| "orch_name_is (byte # name) canonical \<longleftrightarrow>
     (if byte = CHR ''_'' then orch_name_is name canonical
      else case skip_underscores canonical of
        [] \<Rightarrow> False
      | c # cs \<Rightarrow> lower_case byte = lower_case c \<and> orch_name_is name cs)"

definition orch_find_type :: "string option \<Rightarrow> salts_status + orch_type" where
  "orch_find_type name =
     (case name of
        None \<Rightarrow> Inl SALTS_EINVAL
      | Some n \<Rightarrow> (case List.find (\<lambda>t. orch_name_is n (spec_name (spec_for t))) orch_types of
          None \<Rightarrow> Inl SALTS_ENOENT
        | Some t \<Rightarrow> Inr t))"

section \<open>Storage\<close>

text \<open>A growing array: its elements and its capacity.\<close>

record 'a items =
  item_values :: "'a list"
  item_capacity :: nat

text \<open>The doubling loop of \<open>orch_reserve\<close>.\<close>

function grow_capacity :: "nat \<Rightarrow> nat \<Rightarrow> nat \<Rightarrow> nat" where
  "grow_capacity limit need n =
     (if n < need \<and> 0 < n then if n > limit div 2 then limit else grow_capacity limit need (n * 2) else n)"
  by pat_completeness auto
termination
  by (relation "measure (\<lambda>(limit, need, n). need - n)") auto

declare grow_capacity.simps [simp del]

text \<open>The new capacity; \<open>ok\<close> says whether a reallocation succeeds.\<close>

definition orch_reserve :: "bool \<Rightarrow> nat \<Rightarrow> nat \<Rightarrow> nat \<Rightarrow> nat \<Rightarrow> nat option" where
  "orch_reserve ok capacity need element limit =
     (if need > limit \<or> element = 0 \<or> need > size_max div element then None
      else if need \<le> capacity then Some capacity
      else let n = grow_capacity limit need (if capacity \<noteq> 0 then capacity else 4); n = (if n > limit then limit else n) in
        if n < need \<or> n > size_max div element then None
        else if ok then Some n else None)"

definition items_append :: "bool \<Rightarrow> nat \<Rightarrow> nat \<Rightarrow> 'a items \<Rightarrow> 'a \<Rightarrow> 'a items option" where
  "items_append ok element limit items v =
     map_option (\<lambda>c. \<lparr>item_values = item_values items @ [v], item_capacity = c\<rparr>)
       (orch_reserve ok (item_capacity items) (length (item_values items) + 1) element limit)"

abbreviation no_items :: "'a items" where "no_items \<equiv> \<lparr>item_values = [], item_capacity = 0\<rparr>"

record orch_node =
  orch_node_type :: orch_type
  orch_params :: "(string \<times> string) items"
  orch_children :: "nat items"

record orch_tree =
  orch_nodes :: "orch_node items"
  retained_bytes :: nat

definition max_commands :: nat where "max_commands = 4096"
definition max_orch_nodes :: nat where "max_orch_nodes = max_commands + 2"
definition max_params :: nat where "max_params = 8"
definition max_bytes :: nat where "max_bytes = 1024 * 1024"

abbreviation node_at :: "orch_tree \<Rightarrow> nat \<Rightarrow> orch_node" where
  "node_at t i \<equiv> item_values (orch_nodes t) ! i"

abbreviation tree_size :: "orch_tree \<Rightarrow> nat" where
  "tree_size t \<equiv> length (item_values (orch_nodes t))"

abbreviation params_of :: "orch_node \<Rightarrow> (string \<times> string) list" where
  "params_of n \<equiv> item_values (orch_params n)"

abbreviation children_of :: "orch_node \<Rightarrow> nat list" where
  "children_of n \<equiv> item_values (orch_children n)"

definition set_node :: "orch_tree \<Rightarrow> nat \<Rightarrow> orch_node \<Rightarrow> orch_tree" where
  "set_node t i n = t\<lparr>orch_nodes := (orch_nodes t)\<lparr>item_values := (item_values (orch_nodes t))[i := n]\<rparr>\<rparr>"

text \<open>The allocations: nodes by their index, parameters and children also by their position.\<close>

datatype orch_site =
    Tree_Calloc | Node_Calloc nat | Nodes_Realloc nat | Param_Copy nat nat | Params_Realloc nat nat
  | Children_Realloc nat nat | Capture_Format

type_synonym 'a build = "(salts_status \<times> string) + 'a"

abbreviation orch_oom :: "'a build" where
  "orch_oom \<equiv> Inl (SALTS_ENOMEM, ''Failed to construct orchestration tree'')"

definition orch_add_node :: "orch_site allocator \<Rightarrow> orch_type \<Rightarrow> orch_tree \<Rightarrow> (orch_tree \<times> nat) build" where
  "orch_add_node mem ty t =
     (let i = tree_size t in
      if i = max_orch_nodes then Inl (SALTS_EINVAL, ''Orchestration tree exceeds maximum node count'')
      else if \<not> mem (Node_Calloc i) then orch_oom
      else case items_append (mem (Nodes_Realloc i)) 8 max_orch_nodes (orch_nodes t)
          \<lparr>orch_node_type = ty, orch_params = no_items, orch_children = no_items\<rparr> of
        None \<Rightarrow> orch_oom
      | Some ns \<Rightarrow> Inr (t\<lparr>orch_nodes := ns\<rparr>, i))"

definition orch_add_param :: "orch_site allocator \<Rightarrow> nat \<Rightarrow> string \<Rightarrow> string option \<Rightarrow> orch_tree \<Rightarrow> orch_tree build" where
  "orch_add_param mem i key v t =
     (case v of
        None \<Rightarrow> Inl (SALTS_EINVAL, ''Invalid orchestration parameter view'')
      | Some v \<Rightarrow>
          let n = node_at t i; p = length (params_of n) in
          if length v \<ge> size_sub max_bytes (retained_bytes t)
          then Inl (SALTS_EINVAL, ''Orchestration retained text exceeds maximum of 1048576 bytes'')
          else if p = max_params then Inl (SALTS_EINVAL, ''Orchestration node exceeds maximum parameter count'')
          else if \<not> mem (Param_Copy i p) then orch_oom
          else case items_append (mem (Params_Realloc i p)) 16 max_params (orch_params n) (key, v) of
            None \<Rightarrow> orch_oom
          | Some ps \<Rightarrow> Inr ((set_node t i (n\<lparr>orch_params := ps\<rparr>))\<lparr>retained_bytes := retained_bytes t + length v + 1\<rparr>))"

definition orch_append :: "orch_site allocator \<Rightarrow> nat \<Rightarrow> nat \<Rightarrow> orch_tree \<Rightarrow> orch_tree build" where
  "orch_append mem parent child t =
     (let n = node_at t parent in
      case items_append (mem (Children_Realloc parent (length (children_of n)))) 8 (max_commands + 1) (orch_children n) child of
        None \<Rightarrow> orch_oom
      | Some cs \<Rightarrow> Inr (set_node t parent (n\<lparr>orch_children := cs\<rparr>)))"

definition empty_tree :: orch_tree where
  "empty_tree = \<lparr>orch_nodes = no_items, retained_bytes = 0\<rparr>"


fun and_then :: "'a build \<Rightarrow> ('a \<Rightarrow> 'b build) \<Rightarrow> 'b build" where
  "and_then (Inl e) f = Inl e"
| "and_then (Inr x) f = f x"

section \<open>Commands\<close>

datatype output_format = OUTPUT_TEXT | OUTPUT_JSON

record regex_options =
  regex_pattern :: "string option"
  regex_output_key :: "string option"
  capture_group :: int

record json_options =
  json_path :: "string option"
  json_output_key :: "string option"

record lines_options =
  lines_filter :: "string option"
  lines_output_key :: "string option"

record keyvalue_options =
  kv_delimiter :: "string option"
  kv_line_separator :: "string option"
  kv_output_key :: "string option"

text \<open>A postprocessor that is not present is \<open>None\<close>; an invalid text view inside one is \<open>None\<close>.\<close>

record orch_command =
  cmd_sequence :: bool
  cmd_command :: "string option"
  cmd_commands :: "string option list"
  cmd_output_format :: output_format
  cmd_regex :: "regex_options option"
  cmd_json :: "json_options option"
  cmd_lines :: "lines_options option"
  cmd_keyvalue :: "keyvalue_options option"

text \<open>In what follows \<open>fmt\<close> is the text that the external \<open>tstr_format\<close> makes of an integer.\<close>

definition orch_literal :: "orch_site allocator \<Rightarrow> nat \<Rightarrow> string \<Rightarrow> string \<Rightarrow> orch_tree \<Rightarrow> orch_tree build" where
  "orch_literal mem i key v t = orch_add_param mem i key (Some v) t"

definition postprocessor_type :: "orch_command \<Rightarrow> orch_type option" where
  "postprocessor_type c =
     (if cmd_regex c \<noteq> None then Some ORCH_PARSE_REGEX
      else if cmd_json c \<noteq> None then Some ORCH_PARSE_JSON
      else if cmd_lines c \<noteq> None then Some ORCH_PARSE_LINES
      else if cmd_keyvalue c \<noteq> None then Some ORCH_PARSE_KEY_VALUE
      else if cmd_output_format c = OUTPUT_JSON then Some ORCH_PARSE_JSON
      else None)"

text \<open>The parameters of the postprocessor at index \<open>i\<close>.\<close>

definition postprocessor_params :: "(int \<Rightarrow> string) \<Rightarrow> orch_site allocator \<Rightarrow> orch_command \<Rightarrow> nat \<Rightarrow> orch_tree \<Rightarrow> orch_tree build" where
  "postprocessor_params fmt mem c i t =
     (case cmd_regex c of
        Some r \<Rightarrow>
          and_then (orch_add_param mem i ''pattern'' (regex_pattern r) t) (\<lambda>t.
            if \<not> mem Capture_Format then orch_oom
            else and_then (orch_add_param mem i ''capture_group'' (Some (fmt (capture_group r))) t)
              (orch_add_param mem i ''output_key'' (regex_output_key r)))
      | None \<Rightarrow>
          (case cmd_json c of
             Some j \<Rightarrow> and_then (orch_add_param mem i ''path'' (json_path j) t) (orch_add_param mem i ''output_key'' (json_output_key j))
           | None \<Rightarrow>
               (case cmd_lines c of
                  Some l \<Rightarrow>
                    and_then (if lines_filter l \<noteq> Some [] then orch_add_param mem i ''filter'' (lines_filter l) t else Inr t)
                      (orch_add_param mem i ''output_key'' (lines_output_key l))
                | None \<Rightarrow>
                    (case cmd_keyvalue c of
                       Some k \<Rightarrow>
                         and_then (orch_add_param mem i ''delimiter'' (kv_delimiter k) t) (\<lambda>t.
                           and_then (orch_add_param mem i ''line_separator'' (kv_line_separator k) t)
                             (orch_add_param mem i ''output_key'' (kv_output_key k)))
                     | None \<Rightarrow> and_then (orch_literal mem i ''path'' ''$'' t) (orch_literal mem i ''output_key'' ''data'')))))"

definition orch_postprocessor :: "(int \<Rightarrow> string) \<Rightarrow> orch_site allocator \<Rightarrow> orch_command \<Rightarrow> orch_tree \<Rightarrow> orch_tree build" where
  "orch_postprocessor fmt mem c t =
     (case postprocessor_type c of
        None \<Rightarrow> Inr t
      | Some ty \<Rightarrow>
          and_then (orch_add_node mem ty t) (\<lambda>(t, i).
            and_then (orch_literal mem i ''input_key'' ''stdout'' t) (\<lambda>t.
              and_then (postprocessor_params fmt mem c i t) (orch_append mem 0 i))))"

text \<open>The loop over the commands; the last one names its output.\<close>

fun command_loop :: "orch_site allocator \<Rightarrow> string option list \<Rightarrow> orch_tree \<Rightarrow> orch_tree build" where
  "command_loop mem [] t = Inr t"
| "command_loop mem (c # cs) t =
     and_then (orch_add_node mem ORCH_SHELL t) (\<lambda>(t, i).
       and_then (orch_add_param mem i ''cmd'' c t) (\<lambda>t.
         and_then (if cs = [] then orch_literal mem i ''output_key'' ''stdout'' t else Inr t) (\<lambda>t.
           and_then (orch_append mem 0 i t) (command_loop mem cs))))"

definition orch_from_command :: "(int \<Rightarrow> string) \<Rightarrow> orch_site allocator \<Rightarrow> orch_command \<Rightarrow> orch_tree build" where
  "orch_from_command fmt mem c =
     (if cmd_sequence c \<and> length (cmd_commands c) > max_commands
      then Inl (SALTS_EINVAL, ''Invalid orchestration command list or maximum of 4096 exceeded'')
      else if \<not> mem Tree_Calloc then orch_oom
      else and_then (orch_add_node mem ORCH_SEQUENCE empty_tree) (\<lambda>(t, _).
        and_then (command_loop mem (if cmd_sequence c then cmd_commands c else [cmd_command c]) t)
          (orch_postprocessor fmt mem c)))"

section \<open>Flat nodes\<close>

definition orch_param_key :: "orch_spec \<Rightarrow> string \<Rightarrow> string option" where
  "orch_param_key spec key =
     (case List.find (orch_name_is key) (spec_required spec) of
        Some k \<Rightarrow> Some k
      | None \<Rightarrow> List.find (orch_name_is key) (spec_optional spec))"

definition orch_has_param :: "orch_node \<Rightarrow> string \<Rightarrow> bool" where
  "orch_has_param n key \<longleftrightarrow> list_ex (\<lambda>p. fst p = key) (params_of n)"

definition orch_single_child :: "orch_type \<Rightarrow> bool" where
  "orch_single_child ty \<longleftrightarrow> ty \<in> {ORCH_INVERTER, ORCH_FORCE_SUCCESS, ORCH_FORCE_FAILURE, ORCH_REPEAT, ORCH_TIMEOUT, ORCH_DELAY,
     ORCH_KEEP_RUNNING_UNTIL_FAILURE, ORCH_RUN_ONCE, ORCH_CONSUME_QUEUE, ORCH_PRECONDITION, ORCH_ENTRY_UPDATED}"

text \<open>The root's parent is \<open>PRAKTOR_ORCH_ROOT_PARENT\<close>, here \<open>None\<close>.\<close>

record flat_node =
  flat_type :: "orch_type option"
  flat_parent :: "nat option"
  flat_params :: "(string option \<times> string option) list"

fun flat_params_loop :: "orch_site allocator \<Rightarrow> orch_spec \<Rightarrow> nat \<Rightarrow> (string option \<times> string option) list \<Rightarrow> orch_tree \<Rightarrow> orch_tree build" where
  "flat_params_loop mem spec i [] t = Inr t"
| "flat_params_loop mem spec i ((k, v) # ps) t =
     (if k = None \<or> v = None then Inl (SALTS_EINVAL, ''Invalid orchestration parameter view'')
      else case orch_param_key spec (the k) of
        None \<Rightarrow> Inl (SALTS_EINVAL, ''Unknown orchestration parameter'')
      | Some key \<Rightarrow>
          if orch_has_param (node_at t i) key then Inl (SALTS_EINVAL, ''Duplicate orchestration parameter'')
          else and_then (orch_add_param mem i key v t) (flat_params_loop mem spec i ps))"

definition flat_invalid :: "nat \<Rightarrow> flat_node \<Rightarrow> bool" where
  "flat_invalid i input \<longleftrightarrow> flat_type input = None \<or>
     (if i = 0 then flat_parent input \<noteq> None else case flat_parent input of None \<Rightarrow> True | Some p \<Rightarrow> p \<ge> i) \<or>
     length (flat_params input) > max_params"

definition flat_attach :: "orch_site allocator \<Rightarrow> nat \<Rightarrow> nat option \<Rightarrow> orch_tree \<Rightarrow> orch_tree build" where
  "flat_attach mem i parent t =
     (case parent of
        None \<Rightarrow> Inr t
      | Some p \<Rightarrow>
          if \<not> allows_children (spec_for (orch_node_type (node_at t p)))
          then Inl (SALTS_EINVAL, ''Leaf orchestration node cannot have children'')
          else orch_append mem p i t)"

fun flat_loop :: "orch_site allocator \<Rightarrow> nat \<Rightarrow> flat_node list \<Rightarrow> orch_tree \<Rightarrow> orch_tree build" where
  "flat_loop mem i [] t = Inr t"
| "flat_loop mem i (input # inputs) t =
     (if flat_invalid i input then Inl (SALTS_EINVAL, ''Invalid orchestration node type, parent or params'')
      else and_then (orch_add_node mem (the (flat_type input)) t) (\<lambda>(t, j).
        and_then (flat_params_loop mem (spec_for (the (flat_type input))) j (flat_params input) t) (\<lambda>t.
          and_then (flat_attach mem j (flat_parent input) t) (flat_loop mem (i + 1) inputs))))"

text \<open>The second pass: required parameters and child counts.\<close>

definition check_node :: "orch_node \<Rightarrow> (salts_status \<times> string) option" where
  "check_node n =
     (let ty = orch_node_type n; spec = spec_for ty; children = length (children_of n); scalar = orch_has_param n ''condition'' in
      if list_ex (\<lambda>k. \<not> orch_has_param n k) (spec_required spec) then Some (SALTS_EINVAL, ''Missing required orchestration parameter'')
      else if ty = ORCH_IF_THEN_ELSE then
        (if children < (if scalar then 1 else 2) \<or> children > (if scalar then 2 else 3)
         then Some (SALTS_EINVAL, ''if requires a condition plus then/else branches'') else None)
      else if ty = ORCH_WHILE_DO then
        (if children \<noteq> (if scalar then 1 else 2) then Some (SALTS_EINVAL, ''while requires a condition and a do branch'') else None)
      else if (spec_control spec \<and> children = 0) \<or> (orch_single_child ty \<and> children \<noteq> 1)
      then Some (SALTS_EINVAL, ''Invalid orchestration control child count'')
      else None)"

fun check_nodes :: "orch_node list \<Rightarrow> (salts_status \<times> string) option" where
  "check_nodes [] = None"
| "check_nodes (n # ns) = (case check_node n of None \<Rightarrow> check_nodes ns | Some e \<Rightarrow> Some e)"

definition orch_from_flat_nodes :: "orch_site allocator \<Rightarrow> flat_node list \<Rightarrow> orch_tree build" where
  "orch_from_flat_nodes mem inputs =
     (if inputs = [] \<or> length inputs > max_orch_nodes
      then Inl (SALTS_EINVAL, ''Invalid orchestration flat-node input or node limit'')
      else if \<not> mem Tree_Calloc then orch_oom
      else and_then (flat_loop mem 0 inputs empty_tree) (\<lambda>t.
        case check_nodes (item_values (orch_nodes t)) of None \<Rightarrow> Inr t | Some e \<Rightarrow> Inl e))"

section \<open>Name matching\<close>

definition plain_name :: "string \<Rightarrow> string" where
  "plain_name s = map lower_case (filter (\<lambda>c. c \<noteq> CHR ''_'') s)"

lemma plain_name_skip: "plain_name (skip_underscores s) = plain_name s"
  by (induction s) (auto simp: plain_name_def skip_underscores_def)

lemma skip_underscores_cases:
  obtains "skip_underscores s = []" "plain_name s = []"
  | c cs where "skip_underscores s = c # cs" "plain_name s = lower_case c # plain_name cs"
proof (cases "skip_underscores s")
  case Nil
  then show ?thesis using that(1) plain_name_skip [of s] by (simp add: plain_name_def)
next
  case (Cons c cs)
  have "c \<noteq> CHR ''_''" using Cons by (induction s) (auto simp: skip_underscores_def split: if_splits)
  then have "plain_name (c # cs) = lower_case c # plain_name cs" by (simp add: plain_name_def)
  then show ?thesis using that(2) [OF Cons] plain_name_skip [of s] Cons by simp
qed

lemma orch_name_is_iff: "orch_name_is name canonical \<longleftrightarrow> plain_name name = plain_name canonical"
proof (induction name canonical rule: orch_name_is.induct)
  case (1 canonical)
  show ?case by (cases rule: skip_underscores_cases [of canonical]) (auto simp: plain_name_def)
next
  case (2 byte name canonical)
  show ?case
  proof (cases "byte = CHR ''_''")
    case True
    then show ?thesis using 2(1) by (simp add: plain_name_def)
  next
    case False
    have b: "plain_name (byte # name) = lower_case byte # plain_name name" using False by (simp add: plain_name_def)
    show ?thesis
      by (cases rule: skip_underscores_cases [of canonical]) (use False b 2(2) [OF False] in auto)
  qed
qed

section \<open>Reservation\<close>

lemma grow_capacity_ge: "0 < n \<Longrightarrow> need \<le> limit \<Longrightarrow> need \<le> grow_capacity limit need n"
proof (induction limit need n rule: grow_capacity.induct)
  case (1 limit need n)
  then show ?case by (subst grow_capacity.simps) auto
qed

text \<open>Within the limit a reservation fails only for lack of memory, and the capacity covers the need.\<close>

lemma orch_reserve_within:
  assumes "need \<le> limit" "0 < element" "limit \<le> size_max div element"
  shows "case orch_reserve ok capacity need element limit of None \<Rightarrow> \<not> ok | Some c \<Rightarrow> need \<le> c"
proof -
  have "need \<le> size_max div element" using assms by simp
  moreover have "need \<le> grow_capacity limit need (if capacity \<noteq> 0 then capacity else 4)"
    using assms(1) by (intro grow_capacity_ge) auto
  ultimately show ?thesis using assms by (auto simp: orch_reserve_def Let_def)
qed

lemma items_append_within:
  assumes "length (item_values items) < limit" "0 < element" "limit \<le> size_max div element"
  shows "case items_append ok element limit items v of None \<Rightarrow> \<not> ok
    | Some items' \<Rightarrow> item_values items' = item_values items @ [v] \<and> length (item_values items') \<le> item_capacity items'"
proof -
  have "length (item_values items) + 1 \<le> limit" using assms by simp
  from orch_reserve_within [OF this assms(2,3), of ok "item_capacity items"]
  show ?thesis by (auto simp: items_append_def split: option.splits)
qed

section \<open>Outcomes\<close>

text \<open>A call succeeds on valid input, fails on invalid input, or lacks memory.\<close>

definition outcome :: "'site allocator \<Rightarrow> bool \<Rightarrow> ('a \<Rightarrow> bool) \<Rightarrow> 'a build \<Rightarrow> bool" where
  "outcome mem valid post r \<longleftrightarrow>
     (\<exists>x. r = Inr x \<and> valid \<and> post x) \<or> (\<exists>m. r = Inl (SALTS_EINVAL, m) \<and> \<not> valid) \<or>
     (\<exists>m. r = Inl (SALTS_ENOMEM, m) \<and> (\<exists>s. \<not> mem s))"

lemma outcome_then:
  assumes "outcome mem valid post r" "\<And>x. post x \<Longrightarrow> valid \<Longrightarrow> outcome mem valid' post' (f x)"
  shows "outcome mem (valid \<and> valid') post' (and_then r f)"
  using assms(1) unfolding outcome_def
proof (elim disjE exE conjE)
  fix x assume "r = Inr x" "valid" "post x"
  then show "(\<exists>x. and_then r f = Inr x \<and> (valid \<and> valid') \<and> post' x) \<or>
      (\<exists>m. and_then r f = Inl (SALTS_EINVAL, m) \<and> \<not> (valid \<and> valid')) \<or> (\<exists>m. and_then r f = Inl (SALTS_ENOMEM, m) \<and> (\<exists>s. \<not> mem s))"
    using assms(2) [of x] unfolding outcome_def by auto
qed auto

lemma outcome_weaken: "outcome mem valid post r \<Longrightarrow> valid = valid' \<Longrightarrow> (\<And>x. valid \<Longrightarrow> post x \<Longrightarrow> post' x) \<Longrightarrow> outcome mem valid' post' r"
  unfolding outcome_def by auto

lemma outcome_return: "post x \<Longrightarrow> outcome mem True post (Inr x)"
  by (simp add: outcome_def)

lemma outcome_refuse: "\<not> valid \<Longrightarrow> outcome mem valid post (Inl (SALTS_EINVAL, m))"
  by (simp add: outcome_def)

lemma limits_fit: "max_orch_nodes \<le> size_max div 8" "max_params \<le> size_max div 16" "max_commands + 1 \<le> size_max div 8" "max_bytes \<le> size_max"
  by (simp_all add: max_orch_nodes_def max_commands_def max_params_def max_bytes_def size_max_def)

text \<open>The nodes of a tree, without the capacities of the arrays.\<close>

type_synonym node_view = "orch_type \<times> (string \<times> string) list \<times> nat list"

definition node_view :: "orch_node \<Rightarrow> node_view" where
  "node_view n = (orch_node_type n, params_of n, children_of n)"

definition tree_view :: "orch_tree \<Rightarrow> node_view list" where
  "tree_view t = map node_view (item_values (orch_nodes t))"

lemma length_tree_view [simp]: "length (tree_view t) = tree_size t"
  by (simp add: tree_view_def)

lemma tree_view_nth: "i < tree_size t \<Longrightarrow> tree_view t ! i = node_view (node_at t i)"
  by (simp add: tree_view_def)

lemma add_node_outcome:
  assumes "tree_size t < max_orch_nodes"
  shows "outcome mem True (\<lambda>(t', i). i = tree_size t \<and> tree_view t' = tree_view t @ [(ty, [], [])] \<and> retained_bytes t' = retained_bytes t)
    (orch_add_node mem ty t)"
  using items_append_within [OF assms _ limits_fit(1), of "mem (Nodes_Realloc (tree_size t))"
      "\<lparr>orch_node_type = ty, orch_params = no_items, orch_children = no_items\<rparr>"] assms
  by (auto simp: orch_add_node_def outcome_def tree_view_def node_view_def Let_def split: option.splits)

lemma set_node_view: "tree_view (set_node t i n) = (tree_view t)[i := node_view n]" "retained_bytes (set_node t i n) = retained_bytes t"
  "tree_size (set_node t i n) = tree_size t"
  by (simp_all add: set_node_def tree_view_def map_update)

lemma add_param_outcome:
  assumes i: "i < tree_size t" "tree_view t ! i = (ty, ps, cs)"
    and bytes: "retained_bytes t \<le> max_bytes" and len: "length ps \<le> max_params"
  shows "outcome mem (v \<noteq> None \<and> retained_bytes t + length (the v) + 1 \<le> max_bytes \<and> length ps < max_params)
    (\<lambda>t'. tree_view t' = (tree_view t)[i := (ty, ps @ [(key, the v)], cs)] \<and> retained_bytes t' = retained_bytes t + length (the v) + 1)
    (orch_add_param mem i key v t)"
proof (cases v)
  case None
  then show ?thesis by (simp add: orch_add_param_def outcome_def)
next
  case (Some w)
  let ?n = "node_at t i"
  have view: "params_of ?n = ps" "orch_node_type ?n = ty" "children_of ?n = cs" using i by (simp_all add: tree_view_nth node_view_def)
  have sub: "size_sub max_bytes (retained_bytes t) = max_bytes - retained_bytes t" using bytes limits_fit(4) by (rule size_sub_le)
  show ?thesis
  proof (cases "length w \<ge> max_bytes - retained_bytes t \<or> length ps = max_params")
    case True
    then show ?thesis using Some view sub bytes by (auto simp: orch_add_param_def outcome_def Let_def)
  next
    case False
    then have "length (params_of ?n) < max_params" using len view by simp
    note app = items_append_within [OF this _ limits_fit(2), of "mem (Params_Realloc i (length ps))" "(key, w)"]
    show ?thesis
    proof (cases "items_append (mem (Params_Realloc i (length ps))) 16 max_params (orch_params ?n) (key, w)")
      case None
      then show ?thesis using False Some view sub app by (auto simp: orch_add_param_def outcome_def Let_def)
    next
      case (Some items)
      let ?t = "(set_node t i (?n\<lparr>orch_params := items\<rparr>))\<lparr>retained_bytes := retained_bytes t + length w + 1\<rparr>"
      have "item_values items = ps @ [(key, w)]" using app Some view by simp
      then have "tree_view ?t = (tree_view t)[i := (ty, ps @ [(key, w)], cs)]"
        using view set_node_view(1) [of t i "?n\<lparr>orch_params := items\<rparr>"] by (simp add: tree_view_def node_view_def)
      moreover have "orch_add_param mem i key (Some w) t = (if mem (Param_Copy i (length ps)) then Inr ?t else orch_oom)"
        using False Some view sub by (simp add: orch_add_param_def Let_def)
      ultimately show ?thesis using \<open>v = Some w\<close> False len bytes by (auto simp: outcome_def)
    qed
  qed
qed

lemma append_outcome:
  assumes "parent < tree_size t" "tree_view t ! parent = (ty, ps, cs)" "length cs \<le> max_commands"
  shows "outcome mem True (\<lambda>t'. tree_view t' = (tree_view t)[parent := (ty, ps, cs @ [child])] \<and> retained_bytes t' = retained_bytes t)
    (orch_append mem parent child t)"
proof -
  let ?n = "node_at t parent"
  have view: "params_of ?n = ps" "orch_node_type ?n = ty" "children_of ?n = cs" using assms by (simp_all add: tree_view_nth node_view_def)
  have "length (children_of ?n) < max_commands + 1" using assms(3) view by simp
  note app = items_append_within [OF this _ limits_fit(3), of "mem (Children_Realloc parent (length cs))" child]
  show ?thesis
  proof (cases "items_append (mem (Children_Realloc parent (length cs))) 8 (max_commands + 1) (orch_children ?n) child")
    case None
    then show ?thesis using view app by (auto simp: orch_append_def outcome_def Let_def)
  next
    case (Some items)
    then have "node_view (?n\<lparr>orch_children := items\<rparr>) = (ty, ps, cs @ [child])" using app view by (simp add: node_view_def)
    then show ?thesis using Some view by (auto simp: orch_append_def outcome_def Let_def set_node_view)
  qed
qed

section \<open>Trees from flat nodes\<close>

text \<open>The canonical parameters of a flat node and their retained bytes.\<close>

definition canonical_param :: "orch_spec \<Rightarrow> string option \<times> string option \<Rightarrow> string \<times> string" where
  "canonical_param spec p = (the (orch_param_key spec (the (fst p))), the (snd p))"

definition params_bytes :: "(string \<times> string) list \<Rightarrow> nat" where
  "params_bytes ps = sum_list (map (\<lambda>p. length (snd p) + 1) ps)"

definition flat_spec :: "flat_node \<Rightarrow> orch_spec" where
  "flat_spec input = spec_for (the (flat_type input))"

definition flat_canonical :: "flat_node \<Rightarrow> (string \<times> string) list" where
  "flat_canonical input = map (canonical_param (flat_spec input)) (flat_params input)"

definition param_known :: "orch_spec \<Rightarrow> string option \<times> string option \<Rightarrow> bool" where
  "param_known spec p \<longleftrightarrow> fst p \<noteq> None \<and> snd p \<noteq> None \<and> orch_param_key spec (the (fst p)) \<noteq> None"

lemma params_bytes_simps [simp]: "params_bytes [] = 0" "params_bytes (p # ps) = length (snd p) + 1 + params_bytes ps"
  "params_bytes (ps @ qs) = params_bytes ps + params_bytes qs"
  by (simp_all add: params_bytes_def)

lemma has_param_view: "i < tree_size t \<Longrightarrow> tree_view t ! i = (ty, ps, cs) \<Longrightarrow> orch_has_param (node_at t i) key \<longleftrightarrow> key \<in> fst ` set ps"
  by (auto simp: tree_view_nth node_view_def orch_has_param_def list_ex_iff)

lemma flat_params_outcome:
  assumes "i < tree_size t" "tree_view t ! i = (ty, ps0, cs)" "retained_bytes t \<le> max_bytes" "length ps0 + length ps \<le> max_params"
    and "distinct (map fst ps0)"
  shows "outcome mem (list_all (param_known spec) ps \<and> distinct (map fst (ps0 @ map (canonical_param spec) ps)) \<and>
      retained_bytes t + params_bytes (map (canonical_param spec) ps) \<le> max_bytes)
    (\<lambda>t'. tree_view t' = (tree_view t)[i := (ty, ps0 @ map (canonical_param spec) ps, cs)] \<and>
      retained_bytes t' = retained_bytes t + params_bytes (map (canonical_param spec) ps))
    (flat_params_loop mem spec i ps t)"
  using assms
proof (induction ps arbitrary: t ps0)
  case Nil
  then show ?case by (simp add: outcome_def) (metis list_update_id)
next
  case (Cons p ps)
  obtain k v where p: "p = (k, v)" by fastforce
  show ?case
  proof (cases "param_known spec p \<and> fst (canonical_param spec p) \<notin> fst ` set ps0")
    case False
    have "\<exists>m. flat_params_loop mem spec i (p # ps) t = Inl (SALTS_EINVAL, m)"
    proof (cases "param_known spec p")
      case known: True
      then have "orch_has_param (node_at t i) (fst (canonical_param spec p))" using False has_param_view [OF Cons.prems(1,2)] by simp
      then show ?thesis using known by (auto simp: p param_known_def canonical_param_def)
    qed (auto simp: p param_known_def split: option.split)
    moreover have "\<not> (list_all (param_known spec) (p # ps) \<and> distinct (map fst (ps0 @ map (canonical_param spec) (p # ps))))"
      using False by auto
    ultimately show ?thesis unfolding outcome_def by blast
  next
    case True
    obtain key w where known: "k \<noteq> None" "v = Some w" "orch_param_key spec (the k) = Some key"
      using True by (auto simp: p param_known_def)
    have c: "canonical_param spec p = (key, w)" using known by (simp add: p canonical_param_def)
    have new: "key \<notin> fst ` set ps0" using True c by simp
    have "outcome mem ((v \<noteq> None \<and> retained_bytes t + length (the v) + 1 \<le> max_bytes \<and> length ps0 < max_params) \<and>
        (list_all (param_known spec) ps \<and> distinct (map fst ((ps0 @ [(key, w)]) @ map (canonical_param spec) ps)) \<and>
          retained_bytes t + length w + 1 + params_bytes (map (canonical_param spec) ps) \<le> max_bytes))
      (\<lambda>t'. tree_view t' = (tree_view t)[i := (ty, (ps0 @ [(key, w)]) @ map (canonical_param spec) ps, cs)] \<and>
        retained_bytes t' = retained_bytes t + length w + 1 + params_bytes (map (canonical_param spec) ps))
      (and_then (orch_add_param mem i key v t) (flat_params_loop mem spec i ps))"
    proof (rule outcome_then [OF add_param_outcome [OF Cons.prems(1,2,3)]])
      show "length ps0 \<le> max_params" using Cons.prems(4) by simp
    next
      fix t' assume t': "tree_view t' = (tree_view t)[i := (ty, ps0 @ [(key, the v)], cs)] \<and> retained_bytes t' = retained_bytes t + length (the v) + 1"
        and ok: "v \<noteq> None \<and> retained_bytes t + length (the v) + 1 \<le> max_bytes \<and> length ps0 < max_params"
      have size: "tree_size t' = tree_size t" using arg_cong [OF conjunct1 [OF t'], of length] by simp
      have at: "tree_view t' ! i = (ty, ps0 @ [(key, w)], cs)" using t' known Cons.prems(1) by (simp del: tree_view_nth)
      have IH: "outcome mem (list_all (param_known spec) ps \<and> distinct (map fst ((ps0 @ [(key, w)]) @ map (canonical_param spec) ps)) \<and>
          retained_bytes t' + params_bytes (map (canonical_param spec) ps) \<le> max_bytes)
        (\<lambda>t''. tree_view t'' = (tree_view t')[i := (ty, (ps0 @ [(key, w)]) @ map (canonical_param spec) ps, cs)] \<and>
          retained_bytes t'' = retained_bytes t' + params_bytes (map (canonical_param spec) ps))
        (flat_params_loop mem spec i ps t')"
        by (rule Cons.IH [OF _ at]) (use size Cons.prems new ok t' in auto)
      then show "outcome mem (list_all (param_known spec) ps \<and> distinct (map fst ((ps0 @ [(key, w)]) @ map (canonical_param spec) ps)) \<and>
          retained_bytes t + length w + 1 + params_bytes (map (canonical_param spec) ps) \<le> max_bytes)
        (\<lambda>t'. tree_view t' = (tree_view t)[i := (ty, (ps0 @ [(key, w)]) @ map (canonical_param spec) ps, cs)] \<and>
          retained_bytes t' = retained_bytes t + length w + 1 + params_bytes (map (canonical_param spec) ps))
        (flat_params_loop mem spec i ps t')"
        using t' known by (auto intro: outcome_weaken)
    qed
    note out = this
    have loop: "flat_params_loop mem spec i (p # ps) t = and_then (orch_add_param mem i key v t) (flat_params_loop mem spec i ps)"
      using known new has_param_view [OF Cons.prems(1,2)] by (auto simp: p)
    have len: "length ps0 < max_params" and kn: "param_known spec p" using Cons.prems(4) True by simp_all
    show ?thesis unfolding loop
    proof (rule outcome_weaken [OF out])
      show "((v \<noteq> None \<and> retained_bytes t + length (the v) + 1 \<le> max_bytes \<and> length ps0 < max_params) \<and>
          (list_all (param_known spec) ps \<and> distinct (map fst ((ps0 @ [(key, w)]) @ map (canonical_param spec) ps)) \<and>
            retained_bytes t + length w + 1 + params_bytes (map (canonical_param spec) ps) \<le> max_bytes)) =
        (list_all (param_known spec) (p # ps) \<and> distinct (map fst (ps0 @ map (canonical_param spec) (p # ps))) \<and>
          retained_bytes t + params_bytes (map (canonical_param spec) (p # ps)) \<le> max_bytes)"
        using len kn c known(2) by auto
    qed (simp_all add: c)
  qed
qed

text \<open>What makes the flat node number \<open>i\<close> acceptable, child counts aside.\<close>

definition flat_node_ok :: "flat_node list \<Rightarrow> nat \<Rightarrow> bool" where
  "flat_node_ok inputs i \<longleftrightarrow> \<not> flat_invalid i (inputs ! i) \<and> list_all (param_known (flat_spec (inputs ! i))) (flat_params (inputs ! i)) \<and>
     distinct (map fst (flat_canonical (inputs ! i))) \<and>
     (case flat_parent (inputs ! i) of None \<Rightarrow> True | Some p \<Rightarrow> allows_children (flat_spec (inputs ! p)))"

definition flat_bytes :: "flat_node list \<Rightarrow> nat" where
  "flat_bytes inputs = sum_list (map (\<lambda>n. params_bytes (flat_canonical n)) inputs)"

text \<open>The children of node \<open>j\<close> among the first \<open>n\<close> flat nodes.\<close>

definition flat_children :: "flat_node list \<Rightarrow> nat \<Rightarrow> nat \<Rightarrow> nat list" where
  "flat_children inputs n j = filter (\<lambda>m. flat_parent (inputs ! m) = Some j) [0..<n]"

definition flat_view :: "flat_node list \<Rightarrow> nat \<Rightarrow> node_view list" where
  "flat_view inputs n = map (\<lambda>j. (the (flat_type (inputs ! j)), flat_canonical (inputs ! j), flat_children inputs n j)) [0..<n]"

definition flat_built :: "flat_node list \<Rightarrow> nat \<Rightarrow> orch_tree \<Rightarrow> bool" where
  "flat_built inputs i t \<longleftrightarrow> tree_view t = flat_view inputs i \<and> retained_bytes t = flat_bytes (take i inputs) \<and>
     (\<forall>m < i. case flat_parent (inputs ! m) of None \<Rightarrow> m = 0 | Some p \<Rightarrow> p < m)"

lemma flat_view_length [simp]: "length (flat_view inputs n) = n"
  by (simp add: flat_view_def)

lemma flat_children_few:
  assumes "\<forall>m < i. case flat_parent (inputs ! m) of None \<Rightarrow> m = 0 | Some p \<Rightarrow> p < m"
  shows "length (flat_children inputs i j) \<le> i - 1"
proof (cases i)
  case (Suc k)
  have "flat_parent (inputs ! 0) = None" using assms [rule_format, of 0] Suc by (auto split: option.splits)
  moreover have "[0..<i] = 0 # [1..<i]" using Suc by (simp add: upt_conv_Cons del: upt_Suc)
  ultimately have "flat_children inputs i j = filter (\<lambda>m. flat_parent (inputs ! m) = Some j) [1..<i]"
    unfolding flat_children_def by simp
  then show ?thesis using length_filter_le [of _ "[1..<i]"] by simp
qed (simp add: flat_children_def)

lemma flat_view_step:
  assumes order: "\<forall>m \<le> i. case flat_parent (inputs ! m) of None \<Rightarrow> m = 0 | Some p \<Rightarrow> p < m"
  shows "flat_view inputs (Suc i) =
    (let vs = flat_view inputs i @ [(the (flat_type (inputs ! i)), flat_canonical (inputs ! i), [])] in
     case flat_parent (inputs ! i) of None \<Rightarrow> vs
     | Some p \<Rightarrow> vs[p := (the (flat_type (inputs ! p)), flat_canonical (inputs ! p), flat_children inputs i p @ [i])])"
proof -
  have own: "flat_children inputs (Suc i) i = []"
  proof -
    have "flat_parent (inputs ! m) \<noteq> Some i" if "m < Suc i" for m
      using order [rule_format, of m] that by auto
    then show ?thesis by (auto simp: flat_children_def filter_empty_conv)
  qed
  have others: "flat_children inputs (Suc i) j = flat_children inputs i j @ (if flat_parent (inputs ! i) = Some j then [i] else [])" for j
    by (simp add: flat_children_def)
  have last: "flat_view inputs (Suc i) = map (\<lambda>j. (the (flat_type (inputs ! j)), flat_canonical (inputs ! j), flat_children inputs (Suc i) j)) [0..<i]
      @ [(the (flat_type (inputs ! i)), flat_canonical (inputs ! i), [])]"
    using own by (simp add: flat_view_def)
  show ?thesis
  proof (cases "flat_parent (inputs ! i)")
    case None
    then show ?thesis unfolding last using others by (simp add: flat_view_def)
  next
    case (Some p)
    then have p: "p < i" using order by (auto dest!: spec [of _ i])
    show ?thesis unfolding last Let_def Some option.case
      by (rule nth_equalityI) (use p others Some in \<open>auto simp: flat_view_def nth_append nth_list_update\<close>)
  qed
qed

lemma flat_bytes_snoc: "i < length inputs \<Longrightarrow> flat_bytes (take (Suc i) inputs) = flat_bytes (take i inputs) + params_bytes (flat_canonical (inputs ! i))"
  by (simp add: flat_bytes_def take_Suc_conv_app_nth)

text \<open>One flat node: added, given its parameters, attached to its parent.\<close>

lemma flat_node_outcome:
  assumes built: "flat_built inputs i t" and i: "i < length inputs" "length inputs \<le> max_orch_nodes"
    and bytes: "flat_bytes (take i inputs) \<le> max_bytes" and valid: "\<not> flat_invalid i (inputs ! i)"
  defines "input \<equiv> inputs ! i"
  shows "outcome mem (flat_node_ok inputs i \<and> flat_bytes (take (Suc i) inputs) \<le> max_bytes) (flat_built inputs (Suc i))
    (and_then (orch_add_node mem (the (flat_type input)) t) (\<lambda>(t, j).
      and_then (flat_params_loop mem (spec_for (the (flat_type input))) j (flat_params input) t) (\<lambda>t.
        flat_attach mem j (flat_parent input) t)))"
proof -
  let ?ty = "the (flat_type input)" and ?ps = "flat_canonical input"
  let ?vs = "flat_view inputs i @ [(?ty, ?ps, [])]"
  have order: "\<forall>m \<le> i. case flat_parent (inputs ! m) of None \<Rightarrow> m = 0 | Some p \<Rightarrow> p < m"
    using built valid by (auto simp: flat_built_def flat_invalid_def le_less split: option.splits if_splits)
  have size: "tree_size t = i" using built by (metis flat_built_def flat_view_length length_tree_view)
  have params: "length (flat_params input) \<le> max_params" using valid by (simp add: flat_invalid_def input_def)
  have "outcome mem (True \<and> ((list_all (param_known (flat_spec input)) (flat_params input) \<and> distinct (map fst ?ps) \<and>
        flat_bytes (take (Suc i) inputs) \<le> max_bytes) \<and> (case flat_parent input of None \<Rightarrow> True | Some p \<Rightarrow> allows_children (flat_spec (inputs ! p)))))
      (flat_built inputs (Suc i))
    (and_then (orch_add_node mem ?ty t) (\<lambda>(t, j).
      and_then (flat_params_loop mem (spec_for ?ty) j (flat_params input) t) (\<lambda>t. flat_attach mem j (flat_parent input) t)))"
  proof (rule outcome_then [OF add_node_outcome])
    show "tree_size t < max_orch_nodes" using size i by simp
  next
    fix x assume x: "case x of (t', j) \<Rightarrow> j = tree_size t \<and> tree_view t' = tree_view t @ [(?ty, [], [])] \<and> retained_bytes t' = retained_bytes t"
    obtain t1 j where t1: "x = (t1, j)" by fastforce
    have v1: "j = i" "tree_view t1 = flat_view inputs i @ [(?ty, [], [])]" "retained_bytes t1 = flat_bytes (take i inputs)"
      using x t1 size built by (auto simp: flat_built_def)
    have s1: "tree_size t1 = Suc i" using arg_cong [OF v1(2), of length] by simp
    have at: "tree_view t1 ! i = (?ty, [], [])" using v1(2) by (simp add: nth_append)
    have p: "outcome mem (list_all (param_known (flat_spec input)) (flat_params input) \<and> distinct (map fst ([] @ map (canonical_param (flat_spec input)) (flat_params input))) \<and>
          retained_bytes t1 + params_bytes (map (canonical_param (flat_spec input)) (flat_params input)) \<le> max_bytes)
        (\<lambda>t'. tree_view t' = (tree_view t1)[i := (?ty, [] @ map (canonical_param (flat_spec input)) (flat_params input), [])] \<and>
          retained_bytes t' = retained_bytes t1 + params_bytes (map (canonical_param (flat_spec input)) (flat_params input)))
        (flat_params_loop mem (flat_spec input) i (flat_params input) t1)"
      by (rule flat_params_outcome [OF _ at]) (use s1 v1(3) bytes params in simp_all)
    have step: "flat_bytes (take (Suc i) inputs) = flat_bytes (take i inputs) + params_bytes ?ps" using flat_bytes_snoc [OF i(1)] by (simp add: input_def)
    have p': "outcome mem (list_all (param_known (flat_spec input)) (flat_params input) \<and> distinct (map fst ?ps) \<and> flat_bytes (take (Suc i) inputs) \<le> max_bytes)
        (\<lambda>t'. tree_view t' = ?vs \<and> retained_bytes t' = flat_bytes (take (Suc i) inputs))
        (flat_params_loop mem (flat_spec input) i (flat_params input) t1)"
      by (rule outcome_weaken [OF p]) (use v1 step in \<open>auto simp: flat_canonical_def list_update_append\<close>)
    have "outcome mem ((list_all (param_known (flat_spec input)) (flat_params input) \<and> distinct (map fst ?ps) \<and> flat_bytes (take (Suc i) inputs) \<le> max_bytes) \<and>
        (case flat_parent input of None \<Rightarrow> True | Some p \<Rightarrow> allows_children (flat_spec (inputs ! p)))) (flat_built inputs (Suc i))
      (and_then (flat_params_loop mem (flat_spec input) i (flat_params input) t1) (\<lambda>t. flat_attach mem i (flat_parent input) t))"
    proof (rule outcome_then [OF p'])
      fix t2 assume t2: "tree_view t2 = ?vs \<and> retained_bytes t2 = flat_bytes (take (Suc i) inputs)"
      have s2: "tree_size t2 = Suc i" using arg_cong [OF conjunct1 [OF t2], of length] by simp
      have order': "\<forall>m < Suc i. case flat_parent (inputs ! m) of None \<Rightarrow> m = 0 | Some p \<Rightarrow> p < m" using order by (simp add: less_Suc_eq_le)
      show "outcome mem (case flat_parent input of None \<Rightarrow> True | Some p \<Rightarrow> allows_children (flat_spec (inputs ! p))) (flat_built inputs (Suc i))
        (flat_attach mem i (flat_parent input) t2)"
      proof (cases "flat_parent input")
        case None
        then show ?thesis using t2 flat_view_step [OF order] order' by (simp add: flat_attach_def outcome_def flat_built_def input_def)
      next
        case (Some p)
        have pi: "p < i" using order Some by (auto simp: input_def dest!: spec [of _ i])
        have vp: "tree_view t2 ! p = (the (flat_type (inputs ! p)), flat_canonical (inputs ! p), flat_children inputs i p)"
          using t2 pi by (simp add: nth_append flat_view_def)
        then have ty: "orch_node_type (node_at t2 p) = the (flat_type (inputs ! p))" using pi s2 by (simp add: tree_view_nth node_view_def)
        have few: "length (flat_children inputs i p) \<le> max_commands"
        proof -
          have "length (flat_children inputs i p) \<le> i - 1" by (rule flat_children_few) (use order in simp)
          then show ?thesis using i by (simp add: max_orch_nodes_def)
        qed
        have "outcome mem True (\<lambda>t'. tree_view t' = (tree_view t2)[p := (the (flat_type (inputs ! p)), flat_canonical (inputs ! p), flat_children inputs i p @ [i])] \<and>
            retained_bytes t' = retained_bytes t2) (orch_append mem p i t2)"
          by (rule append_outcome [OF _ vp few]) (use pi s2 in simp)
        then have "outcome mem True (flat_built inputs (Suc i)) (orch_append mem p i t2)"
          by (rule outcome_weaken) (use t2 Some order' flat_view_step [OF order] in \<open>auto simp: flat_built_def input_def\<close>)
        then show ?thesis using Some ty by (auto simp: flat_attach_def flat_spec_def outcome_def)
      qed
    qed
    then show "outcome mem ((list_all (param_known (flat_spec input)) (flat_params input) \<and> distinct (map fst ?ps) \<and> flat_bytes (take (Suc i) inputs) \<le> max_bytes) \<and>
        (case flat_parent input of None \<Rightarrow> True | Some p \<Rightarrow> allows_children (flat_spec (inputs ! p)))) (flat_built inputs (Suc i))
      (case x of (t, j) \<Rightarrow> and_then (flat_params_loop mem (spec_for ?ty) j (flat_params input) t) (\<lambda>t. flat_attach mem j (flat_parent input) t))"
      using t1 v1(1) by (simp add: flat_spec_def)
  qed
  then show ?thesis by (rule outcome_weaken) (use valid in \<open>auto simp: flat_node_ok_def input_def\<close>)
qed

lemma and_then_assoc: "and_then (and_then r f) g = and_then r (\<lambda>x. and_then (f x) g)"
  by (cases r) simp_all

lemma flat_bytes_take: "flat_bytes (take i inputs) \<le> flat_bytes inputs"
proof -
  have "flat_bytes inputs = flat_bytes (take i inputs) + flat_bytes (drop i inputs)"
    unfolding flat_bytes_def by (simp flip: sum_list_append map_append)
  then show ?thesis by simp
qed

lemma flat_loop_outcome:
  assumes "flat_built inputs i t" "i \<le> length inputs" "length inputs \<le> max_orch_nodes" "flat_bytes (take i inputs) \<le> max_bytes"
  shows "outcome mem ((\<forall>j. i \<le> j \<and> j < length inputs \<longrightarrow> flat_node_ok inputs j) \<and> flat_bytes inputs \<le> max_bytes)
    (flat_built inputs (length inputs)) (flat_loop mem i (drop i inputs) t)"
  using assms
proof (induction "length inputs - i" arbitrary: i t)
  case 0
  then show ?case by (auto simp: outcome_def)
next
  case (Suc k)
  then have i: "i < length inputs" by simp
  let ?input = "inputs ! i"
  have "drop i inputs = ?input # drop (Suc i) inputs" using i by (rule Cons_nth_drop_Suc [symmetric])
  then have loop: "flat_loop mem i (drop i inputs) t =
      (if flat_invalid i ?input then Inl (SALTS_EINVAL, ''Invalid orchestration node type, parent or params'')
       else and_then (and_then (orch_add_node mem (the (flat_type ?input)) t) (\<lambda>(t, j).
         and_then (flat_params_loop mem (spec_for (the (flat_type ?input))) j (flat_params ?input) t) (\<lambda>t.
           flat_attach mem j (flat_parent ?input) t))) (flat_loop mem (Suc i) (drop (Suc i) inputs)))"
    by (simp add: and_then_assoc case_prod_unfold)
  show ?case
  proof (cases "flat_invalid i ?input")
    case True
    then have "\<not> flat_node_ok inputs i" by (simp add: flat_node_ok_def)
    then show ?thesis unfolding loop using True i by (auto intro!: outcome_refuse)
  next
    case False
    note step = flat_node_outcome [OF Suc.prems(1) i Suc.prems(3,4) False, of mem]
    have "outcome mem ((flat_node_ok inputs i \<and> flat_bytes (take (Suc i) inputs) \<le> max_bytes) \<and>
        ((\<forall>j. Suc i \<le> j \<and> j < length inputs \<longrightarrow> flat_node_ok inputs j) \<and> flat_bytes inputs \<le> max_bytes))
      (flat_built inputs (length inputs)) (flat_loop mem i (drop i inputs) t)"
      unfolding loop if_not_P [OF False]
      by (rule outcome_then [OF step]) (use Suc i in simp_all)
    moreover have "(\<forall>j. i \<le> j \<and> j < length inputs \<longrightarrow> flat_node_ok inputs j) \<longleftrightarrow>
        flat_node_ok inputs i \<and> (\<forall>j. Suc i \<le> j \<and> j < length inputs \<longrightarrow> flat_node_ok inputs j)"
      using i by (metis Suc_leI le_eq_less_or_eq Suc_leD order_refl)
    moreover have "flat_bytes inputs \<le> max_bytes \<Longrightarrow> flat_bytes (take (Suc i) inputs) \<le> max_bytes"
      using flat_bytes_take [of "Suc i" inputs] by simp
    ultimately show ?thesis by (elim outcome_weaken) auto
  qed
qed


section \<open>Accepted lists\<close>

text \<open>Required parameters and child counts, on the view of a node. A condition that is a parameter takes the place of
  the leading child.\<close>

definition shape_ok :: "node_view \<Rightarrow> bool" where
  "shape_ok v = (case v of (ty, ps, cs) \<Rightarrow>
     set (spec_required (spec_for ty)) \<subseteq> fst ` set ps \<and>
     (let branches = length cs + (if ''condition'' \<in> fst ` set ps then 1 else 0) in
      if ty = ORCH_IF_THEN_ELSE then branches = 2 \<or> branches = 3
      else if ty = ORCH_WHILE_DO then branches = 2
      else if orch_single_child ty then length cs = 1
      else spec_control (spec_for ty) \<longrightarrow> cs \<noteq> []))"

definition flat_admissible :: "flat_node list \<Rightarrow> bool" where
  "flat_admissible inputs \<longleftrightarrow> inputs \<noteq> [] \<and> length inputs \<le> max_orch_nodes \<and> (\<forall>i < length inputs. flat_node_ok inputs i) \<and>
     flat_bytes inputs \<le> max_bytes \<and> list_all shape_ok (flat_view inputs (length inputs))"

lemma check_node_shape: "check_node n = None \<longleftrightarrow> shape_ok (node_view n)" "check_node n = Some e \<Longrightarrow> fst e = SALTS_EINVAL"
proof -
  have has: "orch_has_param n k \<longleftrightarrow> k \<in> fst ` set (params_of n)" for k by (auto simp: orch_has_param_def list_ex_iff)
  have req: "list_ex (\<lambda>k. \<not> orch_has_param n k) ks \<longleftrightarrow> \<not> set ks \<subseteq> fst ` set (params_of n)" for ks by (auto simp: has list_ex_iff)
  define R S where "R \<longleftrightarrow> set (spec_required (spec_for (orch_node_type n))) \<subseteq> fst ` set (params_of n)"
    and "S \<longleftrightarrow> ''condition'' \<in> fst ` set (params_of n)"
  define l where "l = length (children_of n)"
  have R: "list_ex (\<lambda>k. \<not> orch_has_param n k) (spec_required (spec_for (orch_node_type n))) \<longleftrightarrow> \<not> R" by (simp only: req R_def)
  have S: "orch_has_param n ''condition'' \<longleftrightarrow> S" by (simp only: has S_def)
  have l: "children_of n = [] \<longleftrightarrow> l = 0" by (simp add: l_def)
  show "check_node n = None \<longleftrightarrow> shape_ok (node_view n)"
    unfolding check_node_def shape_ok_def node_view_def Let_def prod.case R S l l_def [symmetric] R_def [symmetric] S_def [symmetric]
    by (cases R; cases S) auto
  show "check_node n = Some e \<Longrightarrow> fst e = SALTS_EINVAL" unfolding check_node_def by (auto simp: Let_def split: if_splits)
qed

lemma check_nodes_shape: "case check_nodes ns of None \<Rightarrow> list_all shape_ok (map node_view ns) | Some e \<Rightarrow> fst e = SALTS_EINVAL \<and> \<not> list_all shape_ok (map node_view ns)"
proof (induction ns)
  case (Cons n ns)
  show ?case using Cons check_node_shape [of n] by (cases "check_node n") (auto split: option.splits)
qed simp

lemma flat_built_start: "flat_built inputs 0 empty_tree"
  by (simp add: flat_built_def tree_view_def flat_view_def empty_tree_def flat_bytes_def)

lemma flat_nodes_outcome:
  "outcome mem (flat_admissible inputs) (flat_built inputs (length inputs)) (orch_from_flat_nodes mem inputs)"
proof (cases "inputs = [] \<or> length inputs > max_orch_nodes \<or> \<not> mem Tree_Calloc")
  case True
  then show ?thesis by (auto simp: orch_from_flat_nodes_def outcome_def flat_admissible_def)
next
  case False
  let ?check = "\<lambda>t. case check_nodes (item_values (orch_nodes t)) of None \<Rightarrow> Inr t | Some e \<Rightarrow> Inl e"
  have loop: "outcome mem ((\<forall>j. 0 \<le> j \<and> j < length inputs \<longrightarrow> flat_node_ok inputs j) \<and> flat_bytes inputs \<le> max_bytes)
      (flat_built inputs (length inputs)) (flat_loop mem 0 (drop 0 inputs) empty_tree)"
    by (rule flat_loop_outcome [OF flat_built_start]) (use False in \<open>simp_all add: flat_bytes_def\<close>)
  have check: "outcome mem (list_all shape_ok (flat_view inputs (length inputs))) (flat_built inputs (length inputs)) (?check t)"
    if t: "flat_built inputs (length inputs) t" for t
    using check_nodes_shape [of "item_values (orch_nodes t)"] t
    by (cases "check_nodes (item_values (orch_nodes t))") (auto simp: outcome_def flat_built_def tree_view_def)
  have "orch_from_flat_nodes mem inputs = and_then (flat_loop mem 0 (drop 0 inputs) empty_tree) ?check"
    using False by (auto simp: orch_from_flat_nodes_def)
  moreover have "outcome mem (((\<forall>j. 0 \<le> j \<and> j < length inputs \<longrightarrow> flat_node_ok inputs j) \<and> flat_bytes inputs \<le> max_bytes) \<and>
      list_all shape_ok (flat_view inputs (length inputs))) (flat_built inputs (length inputs)) (and_then (flat_loop mem 0 (drop 0 inputs) empty_tree) ?check)"
    by (rule outcome_then [OF loop]) (rule check)
  ultimately show ?thesis using False by (auto simp: flat_admissible_def outcome_def)
qed

section \<open>Trees from commands\<close>

text \<open>The nodes under the root of a command's tree, with their parameters; an invalid text view is \<open>None\<close>.\<close>

type_synonym pending_node = "orch_type \<times> (string \<times> string option) list"

definition post_params :: "(int \<Rightarrow> string) \<Rightarrow> orch_command \<Rightarrow> (string \<times> string option) list" where
  "post_params fmt c =
     (case (cmd_regex c, cmd_json c, cmd_lines c, cmd_keyvalue c) of
        (Some r, _, _, _) \<Rightarrow> [(''pattern'', regex_pattern r), (''capture_group'', Some (fmt (capture_group r))), (''output_key'', regex_output_key r)]
      | (None, Some j, _, _) \<Rightarrow> [(''path'', json_path j), (''output_key'', json_output_key j)]
      | (None, None, Some l, _) \<Rightarrow> (if lines_filter l = Some [] then [] else [(''filter'', lines_filter l)]) @ [(''output_key'', lines_output_key l)]
      | (None, None, None, Some k) \<Rightarrow> [(''delimiter'', kv_delimiter k), (''line_separator'', kv_line_separator k), (''output_key'', kv_output_key k)]
      | (None, None, None, None) \<Rightarrow> [(''path'', Some ''$''), (''output_key'', Some ''data'')])"

definition post_nodes :: "(int \<Rightarrow> string) \<Rightarrow> orch_command \<Rightarrow> pending_node list" where
  "post_nodes fmt c = (case postprocessor_type c of None \<Rightarrow> [] | Some ty \<Rightarrow> [(ty, (''input_key'', Some ''stdout'') # post_params fmt c)])"

fun shell_nodes :: "string option list \<Rightarrow> pending_node list" where
  "shell_nodes [] = []"
| "shell_nodes (c # cs) = (ORCH_SHELL, (''cmd'', c) # (if cs = [] then [(''output_key'', Some ''stdout'')] else [])) # shell_nodes cs"

definition command_list :: "orch_command \<Rightarrow> string option list" where
  "command_list c = (if cmd_sequence c then cmd_commands c else [cmd_command c])"

definition command_nodes :: "(int \<Rightarrow> string) \<Rightarrow> orch_command \<Rightarrow> pending_node list" where
  "command_nodes fmt c = shell_nodes (command_list c) @ post_nodes fmt c"

fun pending_valid :: "pending_node \<Rightarrow> bool" where
  "pending_valid (ty, ps) \<longleftrightarrow> list_all (\<lambda>p. snd p \<noteq> None) ps"

fun pending_view :: "pending_node \<Rightarrow> node_view" where
  "pending_view (ty, ps) = (ty, map (\<lambda>p. (fst p, the (snd p))) ps, [])"

abbreviation pending_bytes :: "(string \<times> string option) list \<Rightarrow> nat" where
  "pending_bytes ps \<equiv> params_bytes (map (\<lambda>p. (fst p, the (snd p))) ps)"

definition nodes_bytes :: "pending_node list \<Rightarrow> nat" where
  "nodes_bytes ns = sum_list (map (\<lambda>n. pending_bytes (snd n)) ns)"

definition command_view :: "(int \<Rightarrow> string) \<Rightarrow> orch_command \<Rightarrow> node_view list" where
  "command_view fmt c = (ORCH_SEQUENCE, [], [1..<length (command_nodes fmt c) + 1]) # map pending_view (command_nodes fmt c)"

text \<open>The generic loop that both parts of the construction follow.\<close>

fun add_params :: "orch_site allocator \<Rightarrow> nat \<Rightarrow> (string \<times> string option) list \<Rightarrow> orch_tree \<Rightarrow> orch_tree build" where
  "add_params mem i [] t = Inr t"
| "add_params mem i ((k, v) # ps) t = and_then (orch_add_param mem i k v t) (add_params mem i ps)"

fun attach_nodes :: "orch_site allocator \<Rightarrow> pending_node list \<Rightarrow> orch_tree \<Rightarrow> orch_tree build" where
  "attach_nodes mem [] t = Inr t"
| "attach_nodes mem ((ty, ps) # ns) t =
     and_then (and_then (orch_add_node mem ty t) (\<lambda>(t, i). and_then (add_params mem i ps t) (orch_append mem 0 i))) (attach_nodes mem ns)"

lemma and_then_return: "and_then r Inr = r"
  by (cases r) simp_all

lemma and_then_cong: "r = r' \<Longrightarrow> (\<And>x. f x = g x) \<Longrightarrow> and_then r f = and_then r' g"
  by (cases r; cases r') simp_all

lemma attach_append: "attach_nodes mem (ns @ ms) t = and_then (attach_nodes mem ns t) (attach_nodes mem ms)"
proof (induction ns arbitrary: t)
  case (Cons n ns)
  obtain ty ps where "n = (ty, ps)" by fastforce
  then show ?case by (simp add: and_then_assoc Cons cong: and_then_cong)
qed simp

lemma add_params_loop:
  "add_params mem i [] = Inr" "add_params mem i ((k, v) # ps) = (\<lambda>t. and_then (orch_add_param mem i k v t) (add_params mem i ps))"
  "orch_literal mem i k w = orch_add_param mem i k (Some w)"
  by (auto simp: orch_literal_def)

lemma command_loop_attach: "command_loop mem cs = attach_nodes mem (shell_nodes cs)"
proof (induction cs)
  case (Cons c cs)
  show ?case
    by (rule ext) (simp add: Cons and_then_assoc case_prod_unfold add_params_loop and_then_return del: add_params.simps)
qed (auto intro!: ext)

text \<open>The text of the capture group may find no memory before the output key is added.\<close>

lemma post_params_add:
  "postprocessor_params fmt mem c i t = add_params mem i (post_params fmt c) t \<or> \<not> mem Capture_Format \<and> (\<exists>m. postprocessor_params fmt mem c i t = Inl (SALTS_ENOMEM, m))"
proof (cases "cmd_regex c")
  case None
  then show ?thesis
    by (cases "cmd_json c"; cases "cmd_lines c"; cases "cmd_keyvalue c")
      (simp_all add: postprocessor_params_def post_params_def add_params_loop and_then_return del: add_params.simps)
next
  case (Some r)
  then show ?thesis
    by (cases "orch_add_param mem i ''pattern'' (regex_pattern r) t")
      (simp_all add: postprocessor_params_def post_params_def add_params_loop and_then_return del: add_params.simps)
qed


lemma add_params_outcome:
  assumes "i < tree_size t" "tree_view t ! i = (ty, ps0, cs)" "retained_bytes t \<le> max_bytes" "length ps0 + length ps \<le> max_params"
  shows "outcome mem (list_all (\<lambda>p. snd p \<noteq> None) ps \<and> retained_bytes t + pending_bytes ps \<le> max_bytes)
    (\<lambda>t'. tree_view t' = (tree_view t)[i := (ty, ps0 @ map (\<lambda>p. (fst p, the (snd p))) ps, cs)] \<and>
      retained_bytes t' = retained_bytes t + pending_bytes ps) (add_params mem i ps t)"
  using assms
proof (induction ps arbitrary: t ps0)
  case Nil
  then show ?case by (simp add: outcome_def) (metis list_update_id)
next
  case (Cons p ps)
  obtain k v where p: "p = (k, v)" by fastforce
  let ?vs = "map (\<lambda>p. (fst p, the (snd p)))"
  have len: "length ps0 \<le> max_params" using Cons.prems(4) by simp
  have "outcome mem ((v \<noteq> None \<and> retained_bytes t + length (the v) + 1 \<le> max_bytes \<and> length ps0 < max_params) \<and>
      (list_all (\<lambda>p. snd p \<noteq> None) ps \<and> retained_bytes t + length (the v) + 1 + pending_bytes ps \<le> max_bytes))
    (\<lambda>t'. tree_view t' = (tree_view t)[i := (ty, (ps0 @ [(k, the v)]) @ ?vs ps, cs)] \<and>
      retained_bytes t' = retained_bytes t + length (the v) + 1 + pending_bytes ps) (add_params mem i (p # ps) t)"
    unfolding p add_params.simps
  proof (rule outcome_then [OF add_param_outcome [OF Cons.prems(1,2,3) len]])
    fix t' assume t': "tree_view t' = (tree_view t)[i := (ty, ps0 @ [(k, the v)], cs)] \<and> retained_bytes t' = retained_bytes t + length (the v) + 1"
      and ok: "v \<noteq> None \<and> retained_bytes t + length (the v) + 1 \<le> max_bytes \<and> length ps0 < max_params"
    have size: "tree_size t' = tree_size t" using arg_cong [OF conjunct1 [OF t'], of length] by simp
    have at: "tree_view t' ! i = (ty, ps0 @ [(k, the v)], cs)" using t' Cons.prems(1) by simp
    have "outcome mem (list_all (\<lambda>p. snd p \<noteq> None) ps \<and> retained_bytes t' + pending_bytes ps \<le> max_bytes)
      (\<lambda>t''. tree_view t'' = (tree_view t')[i := (ty, (ps0 @ [(k, the v)]) @ ?vs ps, cs)] \<and> retained_bytes t'' = retained_bytes t' + pending_bytes ps)
      (add_params mem i ps t')"
      by (rule Cons.IH [OF _ at]) (use size t' ok Cons.prems in simp_all)
    then show "outcome mem (list_all (\<lambda>p. snd p \<noteq> None) ps \<and> retained_bytes t + length (the v) + 1 + pending_bytes ps \<le> max_bytes)
      (\<lambda>t''. tree_view t'' = (tree_view t)[i := (ty, (ps0 @ [(k, the v)]) @ ?vs ps, cs)] \<and> retained_bytes t'' = retained_bytes t + length (the v) + 1 + pending_bytes ps)
      (add_params mem i ps t')" using t' by simp
  qed
  then show ?case by (rule outcome_weaken) (use Cons.prems in \<open>auto simp: p\<close>)
qed

text \<open>A tree under construction: the root with its children, and the nodes attached so far.\<close>

definition rooted :: "node_view list \<Rightarrow> nat \<Rightarrow> orch_tree \<Rightarrow> bool" where
  "rooted vs b t \<longleftrightarrow> tree_view t = (ORCH_SEQUENCE, [], [1..<length vs + 1]) # vs \<and> retained_bytes t = b"

definition pending_small :: "pending_node list \<Rightarrow> bool" where
  "pending_small ns \<longleftrightarrow> list_all (\<lambda>n. length (snd n) \<le> max_params) ns"

lemma attach_step_outcome:
  assumes t: "rooted vs b t" and small: "b \<le> max_bytes" "length vs \<le> max_commands" "length ps \<le> max_params"
  shows "outcome mem (pending_valid (ty, ps) \<and> b + pending_bytes ps \<le> max_bytes) (rooted (vs @ [pending_view (ty, ps)]) (b + pending_bytes ps))
    (and_then (orch_add_node mem ty t) (\<lambda>(t, i). and_then (add_params mem i ps t) (orch_append mem 0 i)))"
proof -
  let ?n = "length vs + 1"
  have view: "tree_view t = (ORCH_SEQUENCE, [], [1..<?n]) # vs" "retained_bytes t = b" using t by (simp_all add: rooted_def)
  have size: "tree_size t = ?n" using arg_cong [OF view(1), of length] by simp
  have "outcome mem (True \<and> (pending_valid (ty, ps) \<and> b + pending_bytes ps \<le> max_bytes)) (rooted (vs @ [pending_view (ty, ps)]) (b + pending_bytes ps))
    (and_then (orch_add_node mem ty t) (\<lambda>(t, i). and_then (add_params mem i ps t) (orch_append mem 0 i)))"
  proof (rule outcome_then [OF add_node_outcome])
    show "tree_size t < max_orch_nodes" using size small by (simp add: max_orch_nodes_def)
  next
    fix x assume x: "case x of (t', i) \<Rightarrow> i = tree_size t \<and> tree_view t' = tree_view t @ [(ty, [], [])] \<and> retained_bytes t' = retained_bytes t"
    obtain t1 where t1: "x = (t1, ?n)" "tree_view t1 = (ORCH_SEQUENCE, [], [1..<?n]) # vs @ [(ty, [], [])]" "retained_bytes t1 = b"
      using x size view by (cases x) auto
    have s1: "tree_size t1 = Suc ?n" using arg_cong [OF t1(2), of length] by simp
    have "outcome mem ((list_all (\<lambda>p. snd p \<noteq> None) ps \<and> retained_bytes t1 + pending_bytes ps \<le> max_bytes) \<and> True)
        (rooted (vs @ [pending_view (ty, ps)]) (b + pending_bytes ps)) (and_then (add_params mem ?n ps t1) (orch_append mem 0 ?n))"
    proof (rule outcome_then [OF add_params_outcome [where ty = ty and ?ps0.0 = "[]" and cs = "[]"]])
      fix t2 assume t2: "tree_view t2 = (tree_view t1)[?n := (ty, [] @ map (\<lambda>p. (fst p, the (snd p))) ps, [])] \<and> retained_bytes t2 = retained_bytes t1 + pending_bytes ps"
      then have v2: "tree_view t2 = (ORCH_SEQUENCE, [], [1..<?n]) # vs @ [pending_view (ty, ps)]" using t1(2) by simp
      have s2: "0 < tree_size t2" using arg_cong [OF v2, of length] by simp
      have "outcome mem True (\<lambda>t'. tree_view t' = (tree_view t2)[0 := (ORCH_SEQUENCE, [], [1..<?n] @ [?n])] \<and> retained_bytes t' = retained_bytes t2) (orch_append mem 0 ?n t2)"
        by (rule append_outcome [OF s2]) (use v2 small in \<open>simp_all del: upt_Suc\<close>)
      then show "outcome mem True (rooted (vs @ [pending_view (ty, ps)]) (b + pending_bytes ps)) (orch_append mem 0 ?n t2)"
        by (rule outcome_weaken) (use v2 t2 t1 in \<open>auto simp: rooted_def\<close>)
    qed (use s1 t1 small in \<open>simp_all add: nth_append\<close>)
    then show "outcome mem (pending_valid (ty, ps) \<and> b + pending_bytes ps \<le> max_bytes) (rooted (vs @ [pending_view (ty, ps)]) (b + pending_bytes ps))
      (case x of (t, i) \<Rightarrow> and_then (add_params mem i ps t) (orch_append mem 0 i))" using t1 by simp
  qed
  then show ?thesis by simp
qed

lemma nodes_bytes_simps [simp]: "nodes_bytes [] = 0" "nodes_bytes (n # ns) = pending_bytes (snd n) + nodes_bytes ns"
  "nodes_bytes (ns @ ms) = nodes_bytes ns + nodes_bytes ms"
  by (simp_all add: nodes_bytes_def)

lemma attach_nil: "attach_nodes mem [] = Inr"
  by (rule ext) simp

lemma attach_outcome:
  assumes "rooted vs b t" "b \<le> max_bytes" "length vs + length ns \<le> max_commands + 1" "list_all (\<lambda>n. length (snd n) \<le> max_params) ns"
  shows "outcome mem (list_all pending_valid ns \<and> b + nodes_bytes ns \<le> max_bytes) (rooted (vs @ map pending_view ns) (b + nodes_bytes ns)) (attach_nodes mem ns t)"
  using assms
proof (induction ns arbitrary: vs b t)
  case Nil
  then show ?case by (simp add: outcome_def)
next
  case (Cons n ns)
  obtain ty ps where n: "n = (ty, ps)" by fastforce
  have "outcome mem ((pending_valid (ty, ps) \<and> b + pending_bytes ps \<le> max_bytes) \<and> (list_all pending_valid ns \<and> b + pending_bytes ps + nodes_bytes ns \<le> max_bytes))
      (rooted ((vs @ [pending_view (ty, ps)]) @ map pending_view ns) (b + pending_bytes ps + nodes_bytes ns)) (attach_nodes mem (n # ns) t)"
    unfolding n attach_nodes.simps
    by (rule outcome_then [OF attach_step_outcome [OF Cons.prems(1,2)] Cons.IH]) (use Cons.prems n in simp_all)
  then show ?case by (rule outcome_weaken) (auto simp: n add.assoc)
qed

lemma postprocessor_attach:
  "orch_postprocessor fmt mem c t = attach_nodes mem (post_nodes fmt c) t \<or> \<not> mem Capture_Format \<and> (\<exists>m. orch_postprocessor fmt mem c t = Inl (SALTS_ENOMEM, m))"
proof (cases "postprocessor_type c")
  case None
  then show ?thesis by (simp add: orch_postprocessor_def post_nodes_def)
next
  case (Some ty)
  show ?thesis
  proof (cases "orch_add_node mem ty t")
    case (Inr x)
    obtain t1 i where x: "x = (t1, i)" by fastforce
    show ?thesis
    proof (cases "orch_add_param mem i ''input_key'' (Some ''stdout'') t1")
      case t2: (Inr t2)
      show ?thesis using Some Inr x t2 post_params_add [of fmt mem c i t2]
        by (auto simp: orch_postprocessor_def post_nodes_def orch_literal_def attach_nil and_then_return)
    qed (use Some Inr x in \<open>simp add: orch_postprocessor_def post_nodes_def orch_literal_def\<close>)
  qed (use Some in \<open>simp add: orch_postprocessor_def post_nodes_def\<close>)
qed

lemma command_nodes_small: "list_all (\<lambda>n. length (snd n) \<le> max_params) (command_nodes fmt c)"
proof -
  have "list_all (\<lambda>n. length (snd n) \<le> max_params) (shell_nodes cs)" for cs by (induction cs) (auto simp: max_params_def)
  moreover have "length (post_params fmt c) \<le> 3" by (simp add: post_params_def split: option.splits)
  ultimately show ?thesis by (auto simp: command_nodes_def post_nodes_def max_params_def split: option.splits)
qed

lemma command_nodes_few: "length (command_nodes fmt c) \<le> length (command_list c) + 1"
proof -
  have "length (shell_nodes cs) = length cs" for cs by (induction cs) auto
  then show ?thesis by (simp add: command_nodes_def post_nodes_def split: option.splits)
qed

definition command_admissible :: "(int \<Rightarrow> string) \<Rightarrow> orch_command \<Rightarrow> bool" where
  "command_admissible fmt c \<longleftrightarrow> length (command_list c) \<le> max_commands \<and> list_all pending_valid (command_nodes fmt c) \<and> nodes_bytes (command_nodes fmt c) \<le> max_bytes"

lemma command_outcome:
  "outcome mem (command_admissible fmt c) (\<lambda>t. tree_view t = command_view fmt c \<and> retained_bytes t = nodes_bytes (command_nodes fmt c)) (orch_from_command fmt mem c)"
proof (cases "length (command_list c) > max_commands \<or> \<not> mem Tree_Calloc")
  case True
  then show ?thesis by (auto simp: orch_from_command_def outcome_def command_admissible_def command_list_def max_commands_def split: if_splits)
next
  case False
  let ?body = "\<lambda>(t, i). attach_nodes mem (command_nodes fmt c) t"
  have "outcome mem (True \<and> (list_all pending_valid (command_nodes fmt c) \<and> 0 + nodes_bytes (command_nodes fmt c) \<le> max_bytes))
      (rooted ([] @ map pending_view (command_nodes fmt c)) (0 + nodes_bytes (command_nodes fmt c))) (and_then (orch_add_node mem ORCH_SEQUENCE empty_tree) ?body)"
  proof (rule outcome_then [OF add_node_outcome])
    fix x assume "case x of (t', i) \<Rightarrow> i = tree_size empty_tree \<and> tree_view t' = tree_view empty_tree @ [(ORCH_SEQUENCE, [], [])] \<and> retained_bytes t' = retained_bytes empty_tree"
    then obtain t i where x: "x = (t, i)" and t: "rooted [] 0 t" by (cases x) (auto simp: rooted_def tree_view_def empty_tree_def)
    show "outcome mem (list_all pending_valid (command_nodes fmt c) \<and> 0 + nodes_bytes (command_nodes fmt c) \<le> max_bytes)
      (rooted ([] @ map pending_view (command_nodes fmt c)) (0 + nodes_bytes (command_nodes fmt c))) (case x of (t, i) \<Rightarrow> attach_nodes mem (command_nodes fmt c) t)"
      unfolding x prod.case by (rule attach_outcome [OF t]) (use False command_nodes_small command_nodes_few [of fmt c] in simp_all)
  qed (simp add: empty_tree_def max_orch_nodes_def)
  moreover have "orch_from_command fmt mem c = and_then (orch_add_node mem ORCH_SEQUENCE empty_tree) ?body \<or>
      (\<exists>s. \<not> mem s) \<and> (\<exists>m. orch_from_command fmt mem c = Inl (SALTS_ENOMEM, m))"
  proof -
    have start: "orch_from_command fmt mem c = and_then (orch_add_node mem ORCH_SEQUENCE empty_tree) (\<lambda>(t, _).
        and_then (attach_nodes mem (shell_nodes (command_list c)) t) (orch_postprocessor fmt mem c))"
      using False by (auto simp: orch_from_command_def command_list_def command_loop_attach max_commands_def)
    show ?thesis
    proof (cases "orch_add_node mem ORCH_SEQUENCE empty_tree")
      case (Inr x)
      show ?thesis
      proof (cases "attach_nodes mem (shell_nodes (command_list c)) (fst x)")
        case (Inr t)
        then show ?thesis using start \<open>orch_add_node mem ORCH_SEQUENCE empty_tree = Inr x\<close> postprocessor_attach [of fmt mem c t]
          by (auto simp: command_nodes_def attach_append case_prod_unfold)
      qed (use start Inr in \<open>simp add: command_nodes_def attach_append case_prod_unfold\<close>)
    qed (use start in simp)
  qed
  ultimately show ?thesis using False
    by (auto simp: outcome_def command_admissible_def rooted_def command_view_def)
qed

section \<open>Claims\<close>

lemma orch_types_all: "set orch_types = UNIV"
proof -
  have "t \<in> set orch_types" for t by (cases t) (simp_all add: orch_types_def)
  then show ?thesis by blast
qed

lemma orch_names_distinct: "distinct (map (\<lambda>t. plain_name (spec_name (spec_for t))) orch_types)"
  by code_simp

lemma find_in_distinct:
  assumes "distinct (map f xs)" "x \<in> set xs"
  shows "List.find (\<lambda>y. k = f y) xs = Some x \<longleftrightarrow> k = f x"
  using assms by (induction xs) (auto simp: find_Some_iff)

text \<open>
  A node name denotes a type exactly when it equals the type's catalog name up to letter case and
  underscores; the catalog's names are distinct in this sense, so the search order does not matter.
\<close>

theorem find_type_by_plain_name: "orch_find_type (Some name) = Inr ty \<longleftrightarrow> plain_name name = plain_name (spec_name (spec_for ty))"
  using find_in_distinct [OF orch_names_distinct, of ty "plain_name name"] orch_types_all
  by (auto simp: orch_find_type_def orch_name_is_iff split: option.splits)

text \<open>
  C34. A flat list is accepted exactly when it is admissible, memory permitting: every node has a known
  type, an earlier parent that may have children, known parameters without duplicates after their
  names are made canonical, the required parameters and the child count of its type, all within the
  bounds on nodes and bytes. The tree then has the list's nodes in the list's order, each with its
  canonical parameters and its children in list order.
\<close>

theorem flat_nodes_accepted:
  "case orch_from_flat_nodes mem inputs of
     Inr t \<Rightarrow> flat_admissible inputs \<and> tree_view t = flat_view inputs (length inputs) \<and> retained_bytes t = flat_bytes inputs
   | Inl (e, m) \<Rightarrow> e = SALTS_EINVAL \<and> \<not> flat_admissible inputs \<or> e = SALTS_ENOMEM \<and> (\<exists>s. \<not> mem s)"
  using flat_nodes_outcome [of mem inputs] by (auto simp: outcome_def flat_built_def split: sum.splits)

lemma flat_tree:
  assumes "orch_from_flat_nodes mem inputs = Inr t" "j < tree_size t"
  shows "distinct (children_of (node_at t j))" "\<And>c. c \<in> set (children_of (node_at t j)) \<Longrightarrow> j < c \<and> c < tree_size t"
    "0 < j \<Longrightarrow> \<exists>!p. p < tree_size t \<and> j \<in> set (children_of (node_at t p))"
proof -
  have built: "flat_built inputs (length inputs) t" using flat_nodes_outcome [of mem inputs] assms(1) by (simp add: outcome_def)
  then have view: "tree_view t = flat_view inputs (length inputs)" by (simp add: flat_built_def)
  have size: "tree_size t = length inputs" using arg_cong [OF view, of length] by simp
  have kids: "children_of (node_at t p) = flat_children inputs (length inputs) p" if p: "p < tree_size t" for p
    using tree_view_nth [OF p] view p size by (simp add: flat_view_def node_view_def)
  have order: "case flat_parent (inputs ! m) of None \<Rightarrow> m = 0 | Some p \<Rightarrow> p < m" if m: "m < length inputs" for m
    using built m by (simp add: flat_built_def)
  have member: "c \<in> set (flat_children inputs (length inputs) p) \<longleftrightarrow> c < length inputs \<and> flat_parent (inputs ! c) = Some p" for c p
    by (auto simp: flat_children_def)
  have "distinct (flat_children inputs (length inputs) j)" by (simp add: flat_children_def)
  moreover have "j < c" if c: "c \<in> set (flat_children inputs (length inputs) j)" for c using c order [of c] by (simp add: member)
  moreover have "\<exists>!p. p < tree_size t \<and> j \<in> set (children_of (node_at t p))" if "0 < j"
  proof -
    obtain p where "flat_parent (inputs ! j) = Some p" "p < j" using order [of j] assms(2) size \<open>0 < j\<close> by (auto split: option.splits)
    then show ?thesis using assms(2) size kids member by (intro ex1I [of _ p]) auto
  qed
  ultimately show "distinct (children_of (node_at t j))" "\<And>c. c \<in> set (children_of (node_at t j)) \<Longrightarrow> j < c \<and> c < tree_size t"
    "0 < j \<Longrightarrow> \<exists>!p. p < tree_size t \<and> j \<in> set (children_of (node_at t p))"
    using assms(2) size kids member by auto
qed

text \<open>
  C35. The edges of an accepted list form a tree with the first node as its root: every other node is the
  child of exactly one node, which comes before it, and no node has the same child twice.
\<close>

theorem flat_nodes_form_a_tree:
  assumes "orch_from_flat_nodes mem inputs = Inr t" "j < tree_size t"
  shows "distinct (children_of (node_at t j)) \<and> (\<forall>c. c \<in> set (children_of (node_at t j)) \<longrightarrow> j < c \<and> c < tree_size t) \<and>
    (0 < j \<longrightarrow> (\<exists>!p. p < tree_size t \<and> j \<in> set (children_of (node_at t p))))"
  using flat_tree [OF assms] by blast

definition sample_flat :: "flat_node list" where
  "sample_flat =
     [\<lparr>flat_type = Some ORCH_SEQUENCE, flat_parent = None, flat_params = []\<rparr>,
      \<lparr>flat_type = Some ORCH_SHELL, flat_parent = Some 0, flat_params = [(Some ''CMD'', Some ''ls''), (Some ''OutputKey'', Some ''out'')]\<rparr>,
      \<lparr>flat_type = Some ORCH_SLEEP, flat_parent = Some 0, flat_params = [(Some ''duration'', Some ''5'')]\<rparr>]"

lemma sample_keys:
  "orch_param_key (spec_for ORCH_SHELL) ''CMD'' = Some ''cmd''" "orch_param_key (spec_for ORCH_SHELL) ''OutputKey'' = Some ''output_key''"
  "orch_param_key (spec_for ORCH_SLEEP) ''duration'' = Some ''duration''"
  by code_simp+

theorem flat_nodes_form_a_tree_witness:
  "case orch_from_flat_nodes no_oom sample_flat of Inl e \<Rightarrow> False | Inr t \<Rightarrow>
     tree_size t = 3 \<and> children_of (node_at t 0) = [1, 2] \<and> params_of (node_at t 1) = [(''cmd'', ''ls''), (''output_key'', ''out'')] \<and>
     (\<exists>!p. p < tree_size t \<and> 2 \<in> set (children_of (node_at t p)))"
proof -
  have run: "case orch_from_flat_nodes no_oom sample_flat of Inl e \<Rightarrow> False | Inr t \<Rightarrow>
     tree_size t = 3 \<and> children_of (node_at t 0) = [1, 2] \<and> params_of (node_at t 1) = [(''cmd'', ''ls''), (''output_key'', ''out'')]"
    by (simp add: sample_flat_def orch_from_flat_nodes_def flat_invalid_def flat_attach_def orch_add_node_def orch_add_param_def orch_append_def
        orch_has_param_def set_node_def items_append_def orch_reserve_def grow_capacity.simps check_node_def sample_keys [unfolded spec_for.simps leaf_spec_def] control_spec_def leaf_spec_def
        orch_single_child_def empty_tree_def max_orch_nodes_def max_commands_def max_params_def max_bytes_def size_max_def size_sub_def Let_def)
  then obtain t where t: "orch_from_flat_nodes no_oom sample_flat = Inr t" by (auto split: sum.splits)
  then show ?thesis using run flat_nodes_form_a_tree [OF t, of 2] by simp
qed

text \<open>
  C36. The tree of a command is accepted exactly when the commands are at most the maximum, every text is
  valid and the retained bytes fit, memory permitting. It is one sequence whose children are the shell
  nodes in command order, the last one naming its output, and then the postprocessor, if any.
\<close>

theorem command_tree:
  "case orch_from_command fmt mem c of
     Inr t \<Rightarrow> command_admissible fmt c \<and> tree_view t = command_view fmt c \<and> retained_bytes t = nodes_bytes (command_nodes fmt c)
   | Inl (e, m) \<Rightarrow> e = SALTS_EINVAL \<and> \<not> command_admissible fmt c \<or> e = SALTS_ENOMEM \<and> (\<exists>s. \<not> mem s)"
  using command_outcome [of mem fmt c] by (auto simp: outcome_def split: sum.splits)

end
