(* ===== verification/Tree_Adapter.thy ===== *)
theory Tree_Adapter
  imports Praktor_Prelude
begin

unbundle bit_operations_syntax

text \<open>
  The bridge from compiled node plans to the behaviour-tree runtime: \<open>actions/c11/tree_adapter.c\<close>. It
  checks a parent-first list of node descriptors against the callbacks of its host, builds the
  runtime tree from it, and forwards the runtime's callbacks to the host under the node's index. The
  lemmas show that the runtime tree has exactly the nodes of the plan, that a failed construction
  leaves nothing behind, and that a tick reports the failure of a leaf callback.

  The runtime (\<open>salts/behavior_tree.h\<close>) is a parameter: \<open>'rt\<close> is the state of a runtime tree, and a
  record holds its calls. Its node numbers are \<open>nat\<close>, a node status is an \<open>int\<close>. A callback's user
  pointer is the index of the node that it addresses. \<open>PRAKTOR_C11_BT_NO_PARENT\<close> is \<open>None\<close>.
\<close>

section \<open>Descriptors\<close>

datatype bt_node_kind =
    BT_LEAF | BT_SEQUENCE | BT_FALLBACK | BT_PARALLEL | BT_REACTIVE_SEQUENCE | BT_REACTIVE_FALLBACK
  | BT_RETRY | BT_REPEAT | BT_SWITCH | BT_IF_THEN_ELSE | BT_PRECONDITION | BT_WHILE_DO | BT_INVERTER
  | BT_FORCE_SUCCESS | BT_FORCE_FAILURE | BT_TIMEOUT | BT_DELAY | BT_KEEP_RUNNING_UNTIL_FAILURE
  | BT_RUN_ONCE | BT_PIPELINE_SEQUENCE | BT_ENTRY_UPDATED | BT_CONSUME_QUEUE

record bt_node_desc =
  parent_index :: "nat option"
  bt_kind :: bt_node_kind
  bt_limit :: nat
  duration_ns :: "64 word"
  condition_callback :: bool
  parallel_hooks :: bool
  dynamic_parameter_mask :: "32 word"

text \<open>The constants of the runtime's header, and the size of a node record.\<close>

record bt_constants =
  bt_max_depth :: nat
  bt_max_control_iterations :: nat
  dynamic_limit :: "32 word"
  dynamic_duration :: "32 word"
  node_bytes :: nat

record bt_tree_config =
  max_nodes :: nat
  max_depth :: nat
  max_control_iterations :: nat

text \<open>The host's callbacks; \<open>'h\<close> is the state behind its user pointer, \<open>'p\<close> the runtime's parameter record.\<close>

record ('h, 'p) bt_host =
  tick_leaf :: "(nat \<Rightarrow> 'h \<Rightarrow> salts_status \<times> int \<times> 'h) option"
  halt_leaf :: "(nat \<Rightarrow> 'h \<Rightarrow> 'h) option"
  host_condition :: "(nat \<Rightarrow> 'h \<Rightarrow> salts_status \<times> int \<times> 'h) option"
  select_child :: "(nat \<Rightarrow> 'h \<Rightarrow> salts_status \<times> nat \<times> 'h) option"
  parallel_enter :: "(nat \<Rightarrow> nat \<Rightarrow> bool \<Rightarrow> 'h \<Rightarrow> salts_status \<times> 'h) option"
  parallel_step :: "(nat \<Rightarrow> nat \<Rightarrow> int \<Rightarrow> 'h \<Rightarrow> salts_status \<times> 'h) option"
  parallel_join :: "(nat \<Rightarrow> int \<Rightarrow> 'h \<Rightarrow> salts_status \<times> 'h) option"
  parallel_finish :: "(nat \<Rightarrow> nat \<Rightarrow> int \<Rightarrow> 'h \<Rightarrow> salts_status \<times> 'h) option"
  parallel_abort :: "(nat \<Rightarrow> nat \<Rightarrow> 'h \<Rightarrow> 'h) option"
  pipeline_prepare :: "(nat \<Rightarrow> nat \<Rightarrow> 'h \<Rightarrow> salts_status \<times> 'h) option"
  pipeline_complete :: "(nat \<Rightarrow> nat \<Rightarrow> int \<Rightarrow> 'h \<Rightarrow> salts_status \<times> 'h) option"
  pipeline_abort :: "(nat \<Rightarrow> nat \<Rightarrow> 'h \<Rightarrow> 'h) option"
  entry_changed :: "(nat \<Rightarrow> 'h \<Rightarrow> salts_status \<times> bool \<times> 'h) option"
  queue_begin :: "(nat \<Rightarrow> 'h \<Rightarrow> salts_status \<times> bool \<times> 'h) option"
  queue_finish :: "(nat \<Rightarrow> 'h \<Rightarrow> salts_status \<times> bool \<times> 'h) option"
  queue_abort :: "(nat \<Rightarrow> 'h \<Rightarrow> 'h) option"
  resolve_dynamic_parameters :: "(nat \<Rightarrow> 'h \<Rightarrow> salts_status \<times> 'p \<times> 'h) option"

definition is_condition_kind :: "bt_node_kind \<Rightarrow> bool" where
  "is_condition_kind k \<longleftrightarrow> k = BT_IF_THEN_ELSE \<or> k = BT_PRECONDITION \<or> k = BT_WHILE_DO"

definition has_limit :: "bt_node_kind \<Rightarrow> bool" where
  "has_limit k \<longleftrightarrow> k = BT_RETRY \<or> k = BT_REPEAT \<or> k = BT_KEEP_RUNNING_UNTIL_FAILURE \<or> k = BT_WHILE_DO"

definition is_timed_kind :: "bt_node_kind \<Rightarrow> bool" where
  "is_timed_kind k \<longleftrightarrow> k = BT_TIMEOUT \<or> k = BT_DELAY"

definition callback_contract_valid :: "bt_constants \<Rightarrow> bt_node_desc \<Rightarrow> ('h, 'p) bt_host \<Rightarrow> bool" where
  "callback_contract_valid K desc host =
     (let valid_dynamic_mask = dynamic_limit K OR dynamic_duration K;
          k = bt_kind desc; mask = dynamic_parameter_mask desc in
      if condition_callback desc \<and> (\<not> is_condition_kind k \<or> host_condition host = None) then False
      else if parallel_hooks desc \<and>
          (k \<noteq> BT_PARALLEL \<or> parallel_enter host = None \<or> parallel_step host = None \<or> parallel_join host = None \<or>
           parallel_finish host = None \<or> parallel_abort host = None) then False
      else if k = BT_LEAF \<and> tick_leaf host = None then False
      else if k = BT_SWITCH \<and> select_child host = None then False
      else if k = BT_PIPELINE_SEQUENCE \<and> (pipeline_prepare host = None \<or> pipeline_complete host = None) then False
      else if k = BT_ENTRY_UPDATED \<and> entry_changed host = None then False
      else if k = BT_CONSUME_QUEUE \<and> (queue_begin host = None \<or> queue_finish host = None) then False
      else if \<not> has_limit k \<and> bt_limit desc \<noteq> 0 then False
      else if \<not> is_timed_kind k \<and> duration_ns desc \<noteq> 0 then False
      else if mask AND NOT valid_dynamic_mask \<noteq> 0 \<or> mask = valid_dynamic_mask then False
      else if mask \<noteq> 0 \<and> resolve_dynamic_parameters host = None then False
      else if mask AND dynamic_limit K \<noteq> 0 \<and> \<not> has_limit k then False
      else if mask AND dynamic_duration K \<noteq> 0 \<and> \<not> is_timed_kind k then False
      else if parallel_hooks desc \<and> k \<noteq> BT_PARALLEL then False
      else if condition_callback desc \<and> \<not> is_condition_kind k then False
      else if k \<noteq> BT_WHILE_DO \<and> k \<noteq> BT_IF_THEN_ELSE \<and> k \<noteq> BT_PRECONDITION \<and> condition_callback desc then False
      else True)"

section \<open>Callbacks\<close>

text \<open>
  Each callback of the runtime goes to the host under the node's index, and is \<open>SALTS_EINVAL\<close>, or
  nothing, when the host has none. An output that is not written is \<open>None\<close>.
\<close>

definition written :: "salts_status \<times> 'a \<times> 'h \<Rightarrow> salts_status \<times> 'a option \<times> 'h" where
  "written r = (case r of (e, x, h) \<Rightarrow> (e, Some x, h))"

definition adapter_resolve_dynamic_parameters :: "('h, 'p) bt_host \<Rightarrow> nat \<Rightarrow> 'h \<Rightarrow> salts_status \<times> 'p option \<times> 'h" where
  "adapter_resolve_dynamic_parameters host i h =
     (case resolve_dynamic_parameters host of None \<Rightarrow> (SALTS_EINVAL, None, h) | Some f \<Rightarrow> written (f i h))"

definition invalid_status :: int where "invalid_status = 99"

text \<open>The saved error of the leaf callbacks is the second component of the state.\<close>

definition adapter_leaf_tick :: "('h, 'p) bt_host \<Rightarrow> nat \<Rightarrow> 'h \<times> salts_status \<Rightarrow> int \<times> 'h \<times> salts_status" where
  "adapter_leaf_tick host i s =
     (case s of (h, leaf_callback_error) \<Rightarrow>
        case tick_leaf host of
          None \<Rightarrow> (invalid_status, h, leaf_callback_error)
        | Some f \<Rightarrow>
            (case f i h of (result, status, h') \<Rightarrow>
               if result \<noteq> SALTS_OK then (invalid_status, h', result) else (status, h', leaf_callback_error)))"

definition adapter_leaf_halt :: "('h, 'p) bt_host \<Rightarrow> nat \<Rightarrow> 'h \<Rightarrow> 'h" where
  "adapter_leaf_halt host i h = (case halt_leaf host of None \<Rightarrow> h | Some f \<Rightarrow> f i h)"

definition adapter_condition :: "('h, 'p) bt_host \<Rightarrow> nat \<Rightarrow> 'h \<Rightarrow> salts_status \<times> int option \<times> 'h" where
  "adapter_condition host i h =
     (case host_condition host of None \<Rightarrow> (SALTS_EINVAL, None, h) | Some f \<Rightarrow> written (f i h))"

definition adapter_select_child :: "('h, 'p) bt_host \<Rightarrow> nat \<Rightarrow> 'h \<Rightarrow> salts_status \<times> nat option \<times> 'h" where
  "adapter_select_child host i h =
     (case select_child host of None \<Rightarrow> (SALTS_EINVAL, None, h) | Some f \<Rightarrow> written (f i h))"

definition adapter_parallel_enter :: "('h, 'p) bt_host \<Rightarrow> nat \<Rightarrow> nat \<Rightarrow> bool \<Rightarrow> 'h \<Rightarrow> salts_status \<times> 'h" where
  "adapter_parallel_enter host i child first h =
     (case parallel_enter host of None \<Rightarrow> (SALTS_EINVAL, h) | Some f \<Rightarrow> f i child first h)"

definition adapter_parallel_step :: "('h, 'p) bt_host \<Rightarrow> nat \<Rightarrow> nat \<Rightarrow> int \<Rightarrow> 'h \<Rightarrow> salts_status \<times> 'h" where
  "adapter_parallel_step host i child status h =
     (case parallel_step host of None \<Rightarrow> (SALTS_EINVAL, h) | Some f \<Rightarrow> f i child status h)"

definition adapter_parallel_join :: "('h, 'p) bt_host \<Rightarrow> nat \<Rightarrow> int \<Rightarrow> 'h \<Rightarrow> salts_status \<times> 'h" where
  "adapter_parallel_join host i status h =
     (case parallel_join host of None \<Rightarrow> (SALTS_EINVAL, h) | Some f \<Rightarrow> f i status h)"

definition adapter_parallel_finish :: "('h, 'p) bt_host \<Rightarrow> nat \<Rightarrow> nat \<Rightarrow> int \<Rightarrow> 'h \<Rightarrow> salts_status \<times> 'h" where
  "adapter_parallel_finish host i child status h =
     (case parallel_finish host of None \<Rightarrow> (SALTS_EINVAL, h) | Some f \<Rightarrow> f i child status h)"

definition adapter_parallel_abort :: "('h, 'p) bt_host \<Rightarrow> nat \<Rightarrow> nat \<Rightarrow> 'h \<Rightarrow> 'h" where
  "adapter_parallel_abort host i child h = (case parallel_abort host of None \<Rightarrow> h | Some f \<Rightarrow> f i child h)"

definition adapter_pipeline_prepare :: "('h, 'p) bt_host \<Rightarrow> nat \<Rightarrow> nat \<Rightarrow> 'h \<Rightarrow> salts_status \<times> 'h" where
  "adapter_pipeline_prepare host i child h =
     (case pipeline_prepare host of None \<Rightarrow> (SALTS_EINVAL, h) | Some f \<Rightarrow> f i child h)"

definition adapter_pipeline_complete :: "('h, 'p) bt_host \<Rightarrow> nat \<Rightarrow> nat \<Rightarrow> int \<Rightarrow> 'h \<Rightarrow> salts_status \<times> 'h" where
  "adapter_pipeline_complete host i child status h =
     (case pipeline_complete host of None \<Rightarrow> (SALTS_EINVAL, h) | Some f \<Rightarrow> f i child status h)"

definition adapter_pipeline_abort :: "('h, 'p) bt_host \<Rightarrow> nat \<Rightarrow> nat \<Rightarrow> 'h \<Rightarrow> 'h" where
  "adapter_pipeline_abort host i child h = (case pipeline_abort host of None \<Rightarrow> h | Some f \<Rightarrow> f i child h)"

definition adapter_entry_changed :: "('h, 'p) bt_host \<Rightarrow> nat \<Rightarrow> 'h \<Rightarrow> salts_status \<times> bool option \<times> 'h" where
  "adapter_entry_changed host i h =
     (case entry_changed host of None \<Rightarrow> (SALTS_EINVAL, None, h) | Some f \<Rightarrow> written (f i h))"

definition adapter_queue_begin :: "('h, 'p) bt_host \<Rightarrow> nat \<Rightarrow> 'h \<Rightarrow> salts_status \<times> bool option \<times> 'h" where
  "adapter_queue_begin host i h =
     (case queue_begin host of None \<Rightarrow> (SALTS_EINVAL, None, h) | Some f \<Rightarrow> written (f i h))"

definition adapter_queue_finish :: "('h, 'p) bt_host \<Rightarrow> nat \<Rightarrow> 'h \<Rightarrow> salts_status \<times> bool option \<times> 'h" where
  "adapter_queue_finish host i h =
     (case queue_finish host of None \<Rightarrow> (SALTS_EINVAL, None, h) | Some f \<Rightarrow> written (f i h))"

definition adapter_queue_abort :: "('h, 'p) bt_host \<Rightarrow> nat \<Rightarrow> 'h \<Rightarrow> 'h" where
  "adapter_queue_abort host i h = (case queue_abort host of None \<Rightarrow> h | Some f \<Rightarrow> f i h)"

text \<open>The calls that the runtime makes of the adapter, and what they answer.\<close>

datatype bt_call =
    Call_Leaf_Tick nat | Call_Leaf_Halt nat | Call_Condition nat | Call_Select nat
  | Call_Enter nat nat bool | Call_Step nat nat int | Call_Join nat int | Call_Finish nat nat int | Call_Parallel_Abort nat nat
  | Call_Prepare nat nat | Call_Complete nat nat int | Call_Pipeline_Abort nat nat
  | Call_Entry nat | Call_Queue_Begin nat | Call_Queue_Finish nat | Call_Queue_Abort nat | Call_Resolve nat

datatype 'p bt_reply =
    Reply_Status int | Reply_Void | Reply_Code salts_status | Reply_Condition salts_status "int option"
  | Reply_Child salts_status "nat option" | Reply_Flag salts_status "bool option" | Reply_Parameters salts_status "'p option"

fun adapter_call :: "('h, 'p) bt_host \<Rightarrow> bt_call \<Rightarrow> 'h \<times> salts_status \<Rightarrow> 'p bt_reply \<times> 'h \<times> salts_status" where
  "adapter_call H (Call_Leaf_Tick i) s = (case adapter_leaf_tick H i s of (r, s') \<Rightarrow> (Reply_Status r, s'))"
| "adapter_call H (Call_Leaf_Halt i) (h, e) = (Reply_Void, adapter_leaf_halt H i h, e)"
| "adapter_call H (Call_Condition i) (h, e) = (case adapter_condition H i h of (c, x, h') \<Rightarrow> (Reply_Condition c x, h', e))"
| "adapter_call H (Call_Select i) (h, e) = (case adapter_select_child H i h of (c, x, h') \<Rightarrow> (Reply_Child c x, h', e))"
| "adapter_call H (Call_Enter i j f) (h, e) = (case adapter_parallel_enter H i j f h of (c, h') \<Rightarrow> (Reply_Code c, h', e))"
| "adapter_call H (Call_Step i j s) (h, e) = (case adapter_parallel_step H i j s h of (c, h') \<Rightarrow> (Reply_Code c, h', e))"
| "adapter_call H (Call_Join i s) (h, e) = (case adapter_parallel_join H i s h of (c, h') \<Rightarrow> (Reply_Code c, h', e))"
| "adapter_call H (Call_Finish i j s) (h, e) = (case adapter_parallel_finish H i j s h of (c, h') \<Rightarrow> (Reply_Code c, h', e))"
| "adapter_call H (Call_Parallel_Abort i j) (h, e) = (Reply_Void, adapter_parallel_abort H i j h, e)"
| "adapter_call H (Call_Prepare i j) (h, e) = (case adapter_pipeline_prepare H i j h of (c, h') \<Rightarrow> (Reply_Code c, h', e))"
| "adapter_call H (Call_Complete i j s) (h, e) = (case adapter_pipeline_complete H i j s h of (c, h') \<Rightarrow> (Reply_Code c, h', e))"
| "adapter_call H (Call_Pipeline_Abort i j) (h, e) = (Reply_Void, adapter_pipeline_abort H i j h, e)"
| "adapter_call H (Call_Entry i) (h, e) = (case adapter_entry_changed H i h of (c, x, h') \<Rightarrow> (Reply_Flag c x, h', e))"
| "adapter_call H (Call_Queue_Begin i) (h, e) = (case adapter_queue_begin H i h of (c, x, h') \<Rightarrow> (Reply_Flag c x, h', e))"
| "adapter_call H (Call_Queue_Finish i) (h, e) = (case adapter_queue_finish H i h of (c, x, h') \<Rightarrow> (Reply_Flag c x, h', e))"
| "adapter_call H (Call_Queue_Abort i) (h, e) = (Reply_Void, adapter_queue_abort H i h, e)"
| "adapter_call H (Call_Resolve i) (h, e) =
     (case adapter_resolve_dynamic_parameters H i h of (c, x, h') \<Rightarrow> (Reply_Parameters c x, h', e))"

section \<open>The tree\<close>

text \<open>The requests to the runtime: the parent's number, then the arguments; the last number is the node's index.\<close>

datatype node_request =
    Add_Leaf "nat option" nat
  | Add_Timed_Node "nat option" bt_node_kind "64 word"
  | Add_Condition_Node "nat option" bt_node_kind nat nat
  | Add_Switch_Node "nat option" nat
  | Add_Parallel_Node "nat option" nat
  | Add_Pipeline_Node "nat option" nat
  | Add_Entry_Updated_Node "nat option" nat
  | Add_Consume_Queue_Node "nat option" nat
  | Add_Node_With_Limit "nat option" bt_node_kind nat
  | Add_Node "nat option" bt_node_kind

type_synonym ('s, 'p) bt_dispatch = "bt_call \<Rightarrow> 's \<Rightarrow> 'p bt_reply \<times> 's"

text \<open>A failed creation may leave a runtime tree behind, the second component of its answer.\<close>

record ('rt, 's, 'p) bt_runtime =
  salts_bt_init :: "bt_tree_config \<Rightarrow> (salts_status \<times> 'rt option) + 'rt"
  salts_bt_add :: "'rt \<Rightarrow> node_request \<Rightarrow> salts_status \<times> 'rt \<times> nat"
  salts_bt_set_resolver :: "'rt \<Rightarrow> nat \<Rightarrow> 32 word \<Rightarrow> nat \<Rightarrow> salts_status \<times> 'rt"
  salts_bt_validate :: "'rt \<Rightarrow> salts_status"
  salts_bt_tick :: "'rt \<Rightarrow> ('s, 'p) bt_dispatch \<Rightarrow> 's \<Rightarrow> salts_status \<times> int \<times> 'rt \<times> 's"
  salts_bt_reset :: "'rt \<Rightarrow> ('s, 'p) bt_dispatch \<Rightarrow> 's \<Rightarrow> salts_status \<times> 'rt \<times> 's"
  salts_bt_cancel :: "'rt \<Rightarrow> ('s, 'p) bt_dispatch \<Rightarrow> 's \<Rightarrow> salts_status \<times> 'rt \<times> 's"
  salts_bt_destroy :: "'rt \<Rightarrow> ('s, 'p) bt_dispatch \<Rightarrow> 's \<Rightarrow> salts_status \<times> 'rt \<times> 's"

record bt_node =
  node_index :: nat
  runtime_id :: nat
  node_desc :: bt_node_desc

record ('rt, 'h, 'p) bt_impl =
  bt_tree_runtime :: 'rt
  bt_nodes :: "bt_node list"
  bt_tree_host :: "('h, 'p) bt_host"
  leaf_callback_error :: salts_status

datatype adapter_site = Calloc_Impl | Calloc_Nodes

definition node_request_of :: "bt_node list \<Rightarrow> nat \<Rightarrow> node_request" where
  "node_request_of nodes index =
     (let desc = node_desc (nodes ! index); k = bt_kind desc;
          parent = map_option (\<lambda>p. runtime_id (nodes ! p)) (parent_index desc) in
      if k = BT_LEAF then Add_Leaf parent index
      else if is_timed_kind k then Add_Timed_Node parent k (duration_ns desc)
      else if is_condition_kind k \<and> condition_callback desc then Add_Condition_Node parent k (bt_limit desc) index
      else if k = BT_SWITCH then Add_Switch_Node parent index
      else if k = BT_PARALLEL \<and> parallel_hooks desc then Add_Parallel_Node parent index
      else if k = BT_PIPELINE_SEQUENCE then Add_Pipeline_Node parent index
      else if k = BT_ENTRY_UPDATED then Add_Entry_Updated_Node parent index
      else if k = BT_CONSUME_QUEUE then Add_Consume_Queue_Node parent index
      else if has_limit k then Add_Node_With_Limit parent k (bt_limit desc)
      else Add_Node parent k)"

definition adapter_add_node :: "('rt, 's, 'p) bt_runtime \<Rightarrow> 'rt \<Rightarrow> bt_node list \<Rightarrow> nat \<Rightarrow> salts_status \<times> 'rt \<times> bt_node list" where
  "adapter_add_node R rt nodes index =
     (case salts_bt_add R rt (node_request_of nodes index) of (status, rt', new_id) \<Rightarrow>
        if status \<noteq> SALTS_OK then (status, rt', nodes)
        else let nodes' = nodes[index := (nodes ! index)\<lparr>runtime_id := new_id\<rparr>];
                 mask = dynamic_parameter_mask (node_desc (nodes ! index)) in
          if mask \<noteq> 0 then (case salts_bt_set_resolver R rt' new_id mask index of (status, rt'') \<Rightarrow> (status, rt'', nodes'))
          else (SALTS_OK, rt', nodes'))"

fun add_nodes :: "('rt, 's, 'p) bt_runtime \<Rightarrow> nat list \<Rightarrow> 'rt \<Rightarrow> bt_node list \<Rightarrow> salts_status \<times> 'rt \<times> bt_node list" where
  "add_nodes R [] rt nodes = (SALTS_OK, rt, nodes)"
| "add_nodes R (i # is) rt nodes =
     (case adapter_add_node R rt nodes i of (status, rt', nodes') \<Rightarrow>
        if status \<noteq> SALTS_OK then (status, rt', nodes') else add_nodes R is rt' nodes')"

text \<open>The loop that rejects a malformed order and missing callbacks.\<close>

fun descriptors_valid :: "bt_constants \<Rightarrow> ('h, 'p) bt_host \<Rightarrow> nat \<Rightarrow> bt_node_desc list \<Rightarrow> bool" where
  "descriptors_valid K host index [] = True"
| "descriptors_valid K host index (d # ds) =
     (if index \<noteq> 0 \<and> (case parent_index d of None \<Rightarrow> True | Some p \<Rightarrow> p \<ge> index) then False
      else if \<not> callback_contract_valid K d host then False
      else descriptors_valid K host (index + 1) ds)"

definition config_invalid :: "bt_constants \<Rightarrow> bt_tree_config \<Rightarrow> bool" where
  "config_invalid K c \<longleftrightarrow> max_nodes c = 0 \<or> max_nodes c > 2 ^ 32 - 1 \<or> max_depth c = 0 \<or> max_depth c > bt_max_depth K \<or>
     max_control_iterations c = 0 \<or> max_control_iterations c > bt_max_control_iterations K"

text \<open>
  The result of a construction: the status, the tree's implementation pointer, the runtime trees that
  were destroyed, and the host with the saved error.
\<close>

type_synonym ('rt, 'h, 'p) init_result = "salts_status \<times> ('rt, 'h, 'p) bt_impl option \<times> 'rt list \<times> 'h \<times> salts_status"

definition adapter_dispose_partial ::
  "('rt, 'h \<times> salts_status, 'p) bt_runtime \<Rightarrow> ('h, 'p) bt_host \<Rightarrow> salts_status \<Rightarrow> 'rt option \<Rightarrow> 'h \<times> salts_status \<Rightarrow> ('rt, 'h, 'p) init_result" where
  "adapter_dispose_partial R host status runtime s =
     (case runtime of
        None \<Rightarrow> (status, None, [], s)
      | Some rt \<Rightarrow> (case salts_bt_destroy R rt (adapter_call host) s of (_, _, s') \<Rightarrow> (status, None, [rt], s')))"

definition tree_init ::
  "('rt, 'h \<times> salts_status, 'p) bt_runtime \<Rightarrow> bt_constants \<Rightarrow> adapter_site allocator \<Rightarrow> ('rt, 'h, 'p) bt_impl option \<Rightarrow>
   bt_tree_config \<Rightarrow> bt_node_desc list \<Rightarrow> ('h, 'p) bt_host \<Rightarrow> 'h \<Rightarrow> ('rt, 'h, 'p) init_result" where
  "tree_init R K alloc tree config descs host h =
     (if tree \<noteq> None \<or> length descs = 0 \<or> length descs > 2 ^ 32 - 1 \<or> length descs > size_max div node_bytes K
      then (SALTS_EINVAL, tree, [], h, SALTS_OK)
      else if config_invalid K config then (SALTS_EINVAL, tree, [], h, SALTS_OK)
      else if max_nodes config < length descs then (SALTS_ENOBUFS, tree, [], h, SALTS_OK)
      else if parent_index (hd descs) \<noteq> None then (SALTS_EINVAL, tree, [], h, SALTS_OK)
      else if \<not> descriptors_valid K host 0 descs then (SALTS_EINVAL, tree, [], h, SALTS_OK)
      else if \<not> alloc Calloc_Impl \<or> \<not> alloc Calloc_Nodes then (SALTS_ENOMEM, tree, [], h, SALTS_OK)
      else
        let nodes = map (\<lambda>(i, d). \<lparr>node_index = i, runtime_id = 0, node_desc = d\<rparr>) (enumerate 0 descs) in
        case salts_bt_init R config of
          Inl (status, left) \<Rightarrow> adapter_dispose_partial R host status left (h, SALTS_OK)
        | Inr rt \<Rightarrow>
            (case add_nodes R [0..<length descs] rt nodes of (status, rt', nodes') \<Rightarrow>
               if status \<noteq> SALTS_OK then adapter_dispose_partial R host status (Some rt') (h, SALTS_OK)
               else let status = salts_bt_validate R rt' in
                 if status \<noteq> SALTS_OK then adapter_dispose_partial R host status (Some rt') (h, SALTS_OK)
                 else (SALTS_OK, Some \<lparr>bt_tree_runtime = rt', bt_nodes = nodes', bt_tree_host = host,
                        leaf_callback_error = SALTS_OK\<rparr>, [], h, SALTS_OK)))"

section \<open>Driving the tree\<close>

definition tree_tick ::
  "('rt, 'h \<times> salts_status, 'p) bt_runtime \<Rightarrow> ('rt, 'h, 'p) bt_impl option \<Rightarrow> 'h \<Rightarrow>
   salts_status \<times> int option \<times> ('rt, 'h, 'p) bt_impl option \<times> 'h" where
  "tree_tick R tree h =
     (case tree of
        None \<Rightarrow> (SALTS_EINVAL, None, tree, h)
      | Some impl \<Rightarrow>
          (case salts_bt_tick R (bt_tree_runtime impl) (adapter_call (bt_tree_host impl)) (h, SALTS_OK) of
             (status, out, rt', h', leaf_error) \<Rightarrow>
               let impl' = impl\<lparr>bt_tree_runtime := rt', leaf_callback_error := leaf_error\<rparr> in
               if leaf_error \<noteq> SALTS_OK then (leaf_error, Some out, Some (impl'\<lparr>leaf_callback_error := SALTS_OK\<rparr>), h')
               else (status, Some out, Some impl', h')))"

definition tree_reset ::
  "('rt, 'h \<times> salts_status, 'p) bt_runtime \<Rightarrow> ('rt, 'h, 'p) bt_impl option \<Rightarrow> 'h \<Rightarrow>
   salts_status \<times> ('rt, 'h, 'p) bt_impl option \<times> 'h" where
  "tree_reset R tree h =
     (case tree of
        None \<Rightarrow> (SALTS_EINVAL, tree, h)
      | Some impl \<Rightarrow>
          (case salts_bt_reset R (bt_tree_runtime impl) (adapter_call (bt_tree_host impl)) (h, leaf_callback_error impl) of
             (status, rt', h', e) \<Rightarrow> (status, Some (impl\<lparr>bt_tree_runtime := rt', leaf_callback_error := e\<rparr>), h')))"

definition tree_cancel ::
  "('rt, 'h \<times> salts_status, 'p) bt_runtime \<Rightarrow> ('rt, 'h, 'p) bt_impl option \<Rightarrow> 'h \<Rightarrow>
   salts_status \<times> ('rt, 'h, 'p) bt_impl option \<times> 'h" where
  "tree_cancel R tree h =
     (case tree of
        None \<Rightarrow> (SALTS_EINVAL, tree, h)
      | Some impl \<Rightarrow>
          (case salts_bt_cancel R (bt_tree_runtime impl) (adapter_call (bt_tree_host impl)) (h, leaf_callback_error impl) of
             (status, rt', h', e) \<Rightarrow> (status, Some (impl\<lparr>bt_tree_runtime := rt', leaf_callback_error := e\<rparr>), h')))"

definition tree_validate :: "('rt, 's, 'p) bt_runtime \<Rightarrow> ('rt, 'h, 'p) bt_impl option \<Rightarrow> salts_status" where
  "tree_validate R tree = (case tree of None \<Rightarrow> SALTS_EINVAL | Some impl \<Rightarrow> salts_bt_validate R (bt_tree_runtime impl))"

definition tree_destroy ::
  "('rt, 'h \<times> salts_status, 'p) bt_runtime \<Rightarrow> ('rt, 'h, 'p) bt_impl option \<Rightarrow> 'h \<Rightarrow>
   salts_status \<times> ('rt, 'h, 'p) bt_impl option \<times> 'h" where
  "tree_destroy R tree h =
     (case tree of
        None \<Rightarrow> (SALTS_OK, tree, h)
      | Some impl \<Rightarrow>
          (case salts_bt_destroy R (bt_tree_runtime impl) (adapter_call (bt_tree_host impl)) (h, leaf_callback_error impl) of
             (status, rt', h', e) \<Rightarrow>
               if status \<noteq> SALTS_OK then (status, Some (impl\<lparr>bt_tree_runtime := rt', leaf_callback_error := e\<rparr>), h')
               else (SALTS_OK, None, h')))"

section \<open>The runtime's promises\<close>

text \<open>The nodes of a runtime tree: parent, kind, parameters, callbacks, and the index that the callbacks are given.\<close>

record runtime_node =
  rn_parent :: "nat option"
  rn_kind :: bt_node_kind
  rn_limit :: nat
  rn_duration :: "64 word"
  rn_condition :: bool
  rn_parallel :: bool
  rn_user :: "nat option"
  rn_mask :: "32 word"

abbreviation plain_node :: "nat option \<Rightarrow> bt_node_kind \<Rightarrow> runtime_node" where
  "plain_node p k \<equiv> \<lparr>rn_parent = p, rn_kind = k, rn_limit = 0, rn_duration = 0, rn_condition = False,
     rn_parallel = False, rn_user = None, rn_mask = 0\<rparr>"

fun requested :: "node_request \<Rightarrow> runtime_node" where
  "requested (Add_Leaf p i) = (plain_node p BT_LEAF)\<lparr>rn_user := Some i\<rparr>"
| "requested (Add_Timed_Node p k d) = (plain_node p k)\<lparr>rn_duration := d\<rparr>"
| "requested (Add_Condition_Node p k l i) = (plain_node p k)\<lparr>rn_limit := l, rn_condition := True, rn_user := Some i\<rparr>"
| "requested (Add_Switch_Node p i) = (plain_node p BT_SWITCH)\<lparr>rn_user := Some i\<rparr>"
| "requested (Add_Parallel_Node p i) = (plain_node p BT_PARALLEL)\<lparr>rn_parallel := True, rn_user := Some i\<rparr>"
| "requested (Add_Pipeline_Node p i) = (plain_node p BT_PIPELINE_SEQUENCE)\<lparr>rn_user := Some i\<rparr>"
| "requested (Add_Entry_Updated_Node p i) = (plain_node p BT_ENTRY_UPDATED)\<lparr>rn_user := Some i\<rparr>"
| "requested (Add_Consume_Queue_Node p i) = (plain_node p BT_CONSUME_QUEUE)\<lparr>rn_user := Some i\<rparr>"
| "requested (Add_Node_With_Limit p k l) = (plain_node p k)\<lparr>rn_limit := l\<rparr>"
| "requested (Add_Node p k) = plain_node p k"

text \<open>
  What the construction relies on: a failed creation has an error, a new tree is empty, a node that was added comes last under a new
  number, a resolver is attached to the node it is set on.
\<close>

definition builder_laws :: "('rt, 's, 'p) bt_runtime \<Rightarrow> ('rt \<Rightarrow> (nat \<times> runtime_node) list) \<Rightarrow> bool" where
  "builder_laws R rt_nodes \<longleftrightarrow>
     (\<forall>c. \<forall>left. salts_bt_init R c \<noteq> Inl (SALTS_OK, left)) \<and> (\<forall>c rt. salts_bt_init R c = Inr rt \<longrightarrow> rt_nodes rt = []) \<and>
     (\<forall>rt r rt' x. salts_bt_add R rt r = (SALTS_OK, rt', x) \<longrightarrow>
        x \<notin> fst ` set (rt_nodes rt) \<and> rt_nodes rt' = rt_nodes rt @ [(x, requested r)]) \<and>
     (\<forall>rt x mask i rt'. salts_bt_set_resolver R rt x mask i = (SALTS_OK, rt') \<longrightarrow>
        rt_nodes rt' = map (\<lambda>(y, n). (y, if y = x then n\<lparr>rn_mask := mask, rn_user := Some i\<rparr> else n)) (rt_nodes rt))"

text \<open>The runtime node that a descriptor calls for.\<close>

definition has_callbacks :: "bt_node_desc \<Rightarrow> bool" where
  "has_callbacks d \<longleftrightarrow> bt_kind d \<in> {BT_LEAF, BT_SWITCH, BT_PIPELINE_SEQUENCE, BT_ENTRY_UPDATED, BT_CONSUME_QUEUE} \<or>
     condition_callback d \<or> parallel_hooks d \<or> dynamic_parameter_mask d \<noteq> 0"

definition planned_node :: "(nat \<Rightarrow> nat) \<Rightarrow> nat \<Rightarrow> bt_node_desc \<Rightarrow> runtime_node" where
  "planned_node number i d = \<lparr>rn_parent = map_option number (parent_index d), rn_kind = bt_kind d, rn_limit = bt_limit d,
     rn_duration = duration_ns d, rn_condition = condition_callback d, rn_parallel = parallel_hooks d,
     rn_user = (if has_callbacks d then Some i else None), rn_mask = dynamic_parameter_mask d\<rparr>"

section \<open>Construction\<close>

lemmas kind_defs = is_condition_kind_def has_limit_def is_timed_kind_def

lemma contract_facts:
  assumes "callback_contract_valid K d host"
  shows "\<not> has_limit (bt_kind d) \<Longrightarrow> bt_limit d = 0" "\<not> is_timed_kind (bt_kind d) \<Longrightarrow> duration_ns d = 0"
    "condition_callback d \<Longrightarrow> is_condition_kind (bt_kind d)" "parallel_hooks d \<Longrightarrow> bt_kind d = BT_PARALLEL"
  using assms by (auto simp: callback_contract_valid_def Let_def split: if_splits)

text \<open>The request and the resolver of a checked descriptor make the node that it calls for.\<close>

lemma request_planned:
  assumes "callback_contract_valid K (node_desc (nodes ! i)) host"
  defines "d \<equiv> node_desc (nodes ! i)"
  shows "(requested (node_request_of nodes i))\<lparr>rn_mask := dynamic_parameter_mask d,
      rn_user := if dynamic_parameter_mask d \<noteq> 0 then Some i else rn_user (requested (node_request_of nodes i))\<rparr> =
    planned_node (\<lambda>p. runtime_id (nodes ! p)) i d"
proof -
  note f = contract_facts [OF assms(1), folded d_def]
  show ?thesis
    unfolding planned_node_def has_callbacks_def node_request_of_def Let_def
    using f by (cases "bt_kind d") (auto simp: kind_defs d_def [symmetric])
qed

text \<open>The first nodes of the plan are in the runtime tree.\<close>

definition built :: "('rt \<Rightarrow> (nat \<times> runtime_node) list) \<Rightarrow> bt_node_desc list \<Rightarrow> nat \<Rightarrow> 'rt \<Rightarrow> bt_node list \<Rightarrow> bool" where
  "built rt_nodes descs k rt nodes \<longleftrightarrow> map node_desc nodes = descs \<and> k \<le> length descs \<and>
     rt_nodes rt = map (\<lambda>i. (runtime_id (nodes ! i), planned_node (\<lambda>p. runtime_id (nodes ! p)) i (descs ! i))) [0..<k] \<and>
     distinct (map (\<lambda>i. runtime_id (nodes ! i)) [0..<k])"

definition parent_first :: "bt_node_desc list \<Rightarrow> bool" where
  "parent_first descs \<longleftrightarrow> (\<forall>i < length descs. case parent_index (descs ! i) of None \<Rightarrow> i = 0 | Some p \<Rightarrow> p < i)"

lemma planned_cong: "(\<And>p. parent_index d = Some p \<Longrightarrow> f p = g p) \<Longrightarrow> planned_node f i d = planned_node g i d"
  by (cases "parent_index d") (auto simp: planned_node_def)

lemma map_resolver:
  "x \<notin> fst ` set xs \<Longrightarrow> map (\<lambda>(y, n). (y, if y = x then f n else n)) (xs @ [(x, m)]) = xs @ [(x, f m)]"
  by (induction xs) auto

lemma add_node_built:
  assumes laws: "builder_laws R rt_nodes" and order: "parent_first descs"
    and valid: "list_all (\<lambda>d. callback_contract_valid K d host) descs"
    and built: "built rt_nodes descs k rt nodes" and k: "k < length descs"
    and add: "adapter_add_node R rt nodes k = (SALTS_OK, rt', nodes')"
  shows "built rt_nodes descs (Suc k) rt' nodes'"
proof -
  let ?d = "descs ! k"
  have len: "length nodes = length descs" and nd: "node_desc (nodes ! k) = ?d"
    using built k by (auto simp: built_def)
  obtain rt1 x where a: "salts_bt_add R rt (node_request_of nodes k) = (SALTS_OK, rt1, x)"
    and n': "nodes' = nodes[k := (nodes ! k)\<lparr>runtime_id := x\<rparr>]"
    using add by (auto simp: adapter_add_node_def Let_def split: prod.splits if_splits)
  have fresh: "x \<notin> fst ` set (rt_nodes rt)" and r1: "rt_nodes rt1 = rt_nodes rt @ [(x, requested (node_request_of nodes k))]"
    using laws a by (auto simp: builder_laws_def)
  have "callback_contract_valid K (node_desc (nodes ! k)) host" using valid k nd by (simp add: list_all_length)
  note planned = request_planned [OF this, unfolded nd]
  have r': "rt_nodes rt' = rt_nodes rt @ [(x, planned_node (\<lambda>p. runtime_id (nodes ! p)) k ?d)]"
  proof (cases "dynamic_parameter_mask ?d = 0")
    case True
    then have "requested (node_request_of nodes k) = planned_node (\<lambda>p. runtime_id (nodes ! p)) k ?d"
      using planned by (cases "node_request_of nodes k") simp_all
    then show ?thesis using add a r1 True nd by (simp add: adapter_add_node_def)
  next
    case False
    then have "salts_bt_set_resolver R rt1 x (dynamic_parameter_mask ?d) k = (SALTS_OK, rt')"
      using add a nd by (auto simp: adapter_add_node_def Let_def split: prod.splits)
    then have "rt_nodes rt' = map (\<lambda>(y, n). (y, if y = x then n\<lparr>rn_mask := dynamic_parameter_mask ?d, rn_user := Some k\<rparr> else n))
        (rt_nodes rt @ [(x, requested (node_request_of nodes k))])"
      using laws r1 by (simp add: builder_laws_def)
    then show ?thesis unfolding map_resolver [OF fresh] using planned False by simp
  qed
  have same: "runtime_id (nodes' ! i) = (if i = k then x else runtime_id (nodes ! i))" for i
    using n' k len by (cases "i < length nodes") (auto simp: nth_list_update)
  have keep: "planned_node (\<lambda>p. runtime_id (nodes' ! p)) i (descs ! i) = planned_node (\<lambda>p. runtime_id (nodes ! p)) i (descs ! i)"
    if "i \<le> k" for i
  proof (rule planned_cong)
    fix p assume p: "parent_index (descs ! i) = Some p"
    have "p < i" using order that k p unfolding parent_first_def by (auto dest: spec [of _ i])
    then show "runtime_id (nodes' ! p) = runtime_id (nodes ! p)" using same that by simp
  qed
  have ids: "map (\<lambda>i. runtime_id (nodes' ! i)) [0..<k] = map (\<lambda>i. runtime_id (nodes ! i)) [0..<k]"
    by (simp add: same)
  have "x \<notin> set (map (\<lambda>i. runtime_id (nodes ! i)) [0..<k])" using fresh built by (auto simp: built_def image_image)
  then have "distinct (map (\<lambda>i. runtime_id (nodes' ! i)) [0..<k] @ [x])"
    unfolding ids using built by (simp add: built_def)
  moreover have "map node_desc nodes' = descs"
    using built n' k len by (simp add: built_def map_update) (metis list_update_id nth_map)
  moreover have "map (\<lambda>i. (runtime_id (nodes' ! i), planned_node (\<lambda>p. runtime_id (nodes' ! p)) i (descs ! i))) [0..<k] = rt_nodes rt"
    using keep same built unfolding built_def by simp
  moreover have "runtime_id (nodes' ! k) = x" using same by simp
  ultimately show ?thesis using k r' keep [of k] unfolding built_def by simp
qed

lemma add_nodes_built:
  assumes laws: "builder_laws R rt_nodes" and order: "parent_first descs"
    and valid: "list_all (\<lambda>d. callback_contract_valid K d host) descs"
  shows "add_nodes R [k..<length descs] rt nodes = (SALTS_OK, rt', nodes') \<Longrightarrow> built rt_nodes descs k rt nodes \<Longrightarrow>
    built rt_nodes descs (length descs) rt' nodes'"
proof (induction "length descs - k" arbitrary: k rt nodes)
  case 0
  then have "k = length descs" by (simp add: built_def)
  then show ?case using "0.prems" by simp
next
  case (Suc m)
  then have k: "k < length descs" "[k..<length descs] = k # [Suc k..<length descs]" by (simp_all add: upt_conv_Cons)
  then obtain rt1 nodes1 where add: "adapter_add_node R rt nodes k = (SALTS_OK, rt1, nodes1)"
    and rest: "add_nodes R [Suc k..<length descs] rt1 nodes1 = (SALTS_OK, rt', nodes')"
    using Suc.prems(1) by (auto split: prod.splits if_splits)
  show ?case
    by (rule Suc.hyps(1) [OF _ rest add_node_built [OF laws order valid Suc.prems(2) k(1) add]]) (use Suc.hyps(2) in simp)
qed

lemma descriptors_valid_iff:
  "descriptors_valid K host n ds \<longleftrightarrow> list_all (\<lambda>d. callback_contract_valid K d host) ds \<and>
     (\<forall>i < length ds. n + i \<noteq> 0 \<longrightarrow> (\<exists>p. parent_index (ds ! i) = Some p \<and> p < n + i))"
proof (induction K host n ds rule: descriptors_valid.induct)
  case (2 K host n d ds)
  then show ?case by (cases "parent_index d") (auto simp: All_less_Suc2 not_le)
qed simp

lemma descriptors_valid_order:
  assumes "descriptors_valid K host 0 descs" "descs \<noteq> []" "parent_index (hd descs) = None"
  shows "parent_first descs" "list_all (\<lambda>d. callback_contract_valid K d host) descs"
proof -
  note v = assms(1) [unfolded descriptors_valid_iff]
  have "case parent_index (descs ! i) of None \<Rightarrow> i = 0 | Some p \<Rightarrow> p < i" if i: "i < length descs" for i
  proof (cases i)
    case 0
    then show ?thesis using assms(2,3) by (simp add: hd_conv_nth)
  next
    case (Suc j)
    then obtain p where "parent_index (descs ! i) = Some p" "p < i" using v i by auto
    then show ?thesis by simp
  qed
  then show "parent_first descs" by (simp add: parent_first_def)
  show "list_all (\<lambda>d. callback_contract_valid K d host) descs" using v by simp
qed

text \<open>The tree that a construction makes.\<close>

lemma tree_init_outcome:
  assumes "builder_laws R rt_nodes"
  shows "case tree_init R K alloc None config descs host h of (status, tree, destroyed, s) \<Rightarrow>
    if status = SALTS_OK
    then \<not> config_invalid K config \<and> 0 < length descs \<and> length descs \<le> max_nodes config \<and> parent_first descs \<and>
      list_all (\<lambda>d. callback_contract_valid K d host) descs \<and> destroyed = [] \<and> s = (h, SALTS_OK) \<and>
      (\<exists>impl number. tree = Some impl \<and> bt_tree_host impl = host \<and> inj_on number {..<length descs} \<and>
         rt_nodes (bt_tree_runtime impl) = map (\<lambda>i. (number i, planned_node number i (descs ! i))) [0..<length descs])
    else tree = None \<and> (destroyed = [] \<and> s = (h, SALTS_OK) \<or> (\<exists>rt. destroyed = [rt]))"
proof -
  let ?nodes = "map (\<lambda>(i, d). \<lparr>node_index = i, runtime_id = 0, node_desc = d\<rparr>) (enumerate 0 descs)"
  have nd: "map node_desc ?nodes = descs" by (simp add: o_def case_prod_unfold flip: snd_def)
  have start: "built rt_nodes descs 0 rt ?nodes" if "salts_bt_init R config = Inr rt" for rt
    using assms that nd by (simp add: built_def builder_laws_def)
  have done1: "inj_on (\<lambda>i. runtime_id (nodes' ! i)) {..<length descs} \<and>
      rt_nodes rt' = map (\<lambda>i. (runtime_id (nodes' ! i), planned_node (\<lambda>p. runtime_id (nodes' ! p)) i (descs ! i))) [0..<length descs]"
    if "built rt_nodes descs (length descs) rt' nodes'" for rt' nodes'
    using that by (auto simp: built_def distinct_map atLeast0LessThan)
  show ?thesis
  proof (cases "length descs = 0 \<or> length descs > 2 ^ 32 - 1 \<or> length descs > size_max div node_bytes K \<or> config_invalid K config \<or>
      max_nodes config < length descs \<or> parent_index (hd descs) \<noteq> None \<or> \<not> descriptors_valid K host 0 descs \<or>
      \<not> alloc Calloc_Impl \<or> \<not> alloc Calloc_Nodes")
    case True
    then show ?thesis by (auto simp: tree_init_def)
  next
    case False
    then have order: "parent_first descs" "list_all (\<lambda>d. callback_contract_valid K d host) descs"
      using descriptors_valid_order [of K host descs] by auto
    show ?thesis
    proof (cases "salts_bt_init R config")
      case (Inl x)
      then obtain e left where x: "x = (e, left)" "e \<noteq> SALTS_OK" using assms unfolding builder_laws_def by (metis surj_pair)
      then show ?thesis using False order Inl by (auto simp: tree_init_def adapter_dispose_partial_def split: option.split prod.split)
    next
      case (Inr rt)
      obtain status rt' nodes' where a: "add_nodes R [0..<length descs] rt ?nodes = (status, rt', nodes')"
        by (cases "add_nodes R [0..<length descs] rt ?nodes") auto
      show ?thesis
      proof (cases "status = SALTS_OK \<and> salts_bt_validate R rt' = SALTS_OK")
        case True
        note b = done1 [OF add_nodes_built [OF assms order a [unfolded conjunct1 [OF True]] start [OF Inr]]]
        have "tree_init R K alloc None config descs host h = (SALTS_OK, Some \<lparr>bt_tree_runtime = rt', bt_nodes = nodes',
            bt_tree_host = host, leaf_callback_error = SALTS_OK\<rparr>, [], h, SALTS_OK)"
          using False True Inr a by (simp add: tree_init_def)
        then show ?thesis using False order b by auto
      next
        case bad: False
        then obtain e where "e \<noteq> SALTS_OK" "tree_init R K alloc None config descs host h = adapter_dispose_partial R host e (Some rt') (h, SALTS_OK)"
          using False Inr a by (cases "status = SALTS_OK") (auto simp: tree_init_def)
        then show ?thesis by (auto simp: adapter_dispose_partial_def split: prod.split)
      qed
    qed
  qed
qed

text \<open>
  C31. Building a tree makes exactly the planned nodes or leaves no tree. On success the plan was
  parent-first with every callback contract met and within the configured limits; the runtime's nodes
  are, in order, those that the descriptors call for, each under its own number, below its parent's
  number, with its limit, duration, condition, hooks and resolver, and calling back with its own index;
  and the host was not called. On failure the handle stays empty, and either the runtime tree that was made is
  destroyed or the host was not called.
\<close>

theorem tree_init_builds:
  assumes "builder_laws R rt_nodes"
  shows "case tree_init R K alloc None config descs host h of (status, tree, destroyed, s) \<Rightarrow>
    if status = SALTS_OK
    then \<not> config_invalid K config \<and> 0 < length descs \<and> length descs \<le> max_nodes config \<and> parent_first descs \<and>
      list_all (\<lambda>d. callback_contract_valid K d host) descs \<and> destroyed = [] \<and> s = (h, SALTS_OK) \<and>
      (\<exists>impl number. tree = Some impl \<and> bt_tree_host impl = host \<and> inj_on number {..<length descs} \<and>
         rt_nodes (bt_tree_runtime impl) = map (\<lambda>i. (number i, planned_node number i (descs ! i))) [0..<length descs])
    else tree = None \<and> (destroyed = [] \<and> s = (h, SALTS_OK) \<or> (\<exists>rt. destroyed = [rt]))"
  using assms by (rule tree_init_outcome)

section \<open>A runtime\<close>

text \<open>A runtime tree as the list of its nodes; a tick ticks the leaf of index 0.\<close>

definition list_runtime :: "((nat \<times> runtime_node) list, 's, 'p) bt_runtime" where
  "list_runtime = \<lparr>salts_bt_init = (\<lambda>_. Inr []),
     salts_bt_add = (\<lambda>rt r. let x = Suc (sum_list (map fst rt)) in (SALTS_OK, rt @ [(x, requested r)], x)),
     salts_bt_set_resolver = (\<lambda>rt x mask i. (SALTS_OK,
       map (\<lambda>(y, n). (y, if y = x then n\<lparr>rn_mask := mask, rn_user := Some i\<rparr> else n)) rt)),
     salts_bt_validate = (\<lambda>_. SALTS_OK),
     salts_bt_tick = (\<lambda>rt call s. case call (Call_Leaf_Tick 0) s of (r, s') \<Rightarrow>
       (SALTS_OK, case r of Reply_Status n \<Rightarrow> n | _ \<Rightarrow> 0, rt, s')),
     salts_bt_reset = (\<lambda>rt _ s. (SALTS_OK, rt, s)), salts_bt_cancel = (\<lambda>rt _ s. (SALTS_OK, rt, s)),
     salts_bt_destroy = (\<lambda>rt _ s. (SALTS_OK, [], s))\<rparr>"

lemma below_sum: "x \<in> set xs \<Longrightarrow> x \<le> sum_list (xs :: nat list)"
  by (induction xs) auto

lemma list_runtime_laws: "builder_laws list_runtime (\<lambda>rt. rt)"
proof -
  have "Suc (sum_list (map fst rt)) \<notin> fst ` set rt" for rt :: "(nat \<times> runtime_node) list"
    using below_sum [of "Suc (sum_list (map fst rt))" "map fst rt"] by auto
  then show ?thesis by (auto simp: builder_laws_def list_runtime_def Let_def)
qed

definition example_host :: "(nat, unit) bt_host" where
  "example_host = \<lparr>tick_leaf = Some (\<lambda>i h. (if h = 0 then SALTS_OK else SALTS_EIO, 1, Suc h)), halt_leaf = None, host_condition = None,
     select_child = None, parallel_enter = None, parallel_step = None, parallel_join = None, parallel_finish = None,
     parallel_abort = None, pipeline_prepare = None, pipeline_complete = None, pipeline_abort = None, entry_changed = None,
     queue_begin = None, queue_finish = None, queue_abort = None, resolve_dynamic_parameters = None\<rparr>"

definition example_constants :: bt_constants where
  "example_constants = \<lparr>bt_max_depth = 64, bt_max_control_iterations = 1000, dynamic_limit = 1, dynamic_duration = 2, node_bytes = 64\<rparr>"

definition example_config :: bt_tree_config where
  "example_config = \<lparr>max_nodes = 8, max_depth = 4, max_control_iterations = 10\<rparr>"

definition example_plan :: "bt_node_desc list" where
  "example_plan =
     [\<lparr>parent_index = None, bt_kind = BT_RETRY, bt_limit = 3, duration_ns = 0, condition_callback = False,
       parallel_hooks = False, dynamic_parameter_mask = 0\<rparr>,
      \<lparr>parent_index = Some 0, bt_kind = BT_LEAF, bt_limit = 0, duration_ns = 0, condition_callback = False,
       parallel_hooks = False, dynamic_parameter_mask = 0\<rparr>]"

lemmas example_defs = example_host_def example_constants_def example_config_def example_plan_def

theorem tree_init_builds_witness:
  "\<exists>impl number. fst (snd (tree_init list_runtime example_constants no_oom None example_config example_plan example_host 0)) = Some impl \<and>
     inj_on number {..<length example_plan} \<and>
     bt_tree_runtime impl = map (\<lambda>i. (number i, planned_node number i (example_plan ! i))) [0..<length example_plan]"
proof -
  have "fst (tree_init list_runtime example_constants no_oom None example_config example_plan example_host 0) = SALTS_OK"
    by (simp add: example_defs tree_init_def config_invalid_def callback_contract_valid_def size_max_def kind_defs
        list_runtime_def upt_rec adapter_add_node_def Let_def)
  with tree_init_builds [OF list_runtime_laws, where K = example_constants and alloc = no_oom and config = example_config
      and descs = example_plan and host = example_host and h = 0]
  show ?thesis unfolding case_prod_unfold by (simp only: simp_thms if_True) blast
qed

section \<open>Ticking\<close>

text \<open>What the runtime may do to the host in a tick: call the adapter any number of times.\<close>

definition tick_laws :: "('rt, 's, 'p) bt_runtime \<Rightarrow> bool" where
  "tick_laws R \<longleftrightarrow> (\<forall>rt call s. \<exists>cs. snd (snd (snd (salts_bt_tick R rt call s))) = fold (\<lambda>c s. snd (call c s)) cs s)"

text \<open>The host's own answer to a leaf tick, and the failures among a sequence of calls.\<close>

definition leaf_result :: "('h, 'p) bt_host \<Rightarrow> bt_call \<Rightarrow> 'h \<Rightarrow> salts_status" where
  "leaf_result H c h = (case c of Call_Leaf_Tick i \<Rightarrow> (case tick_leaf H of None \<Rightarrow> SALTS_OK | Some f \<Rightarrow> fst (f i h)) | _ \<Rightarrow> SALTS_OK)"

fun host_run :: "('h, 'p) bt_host \<Rightarrow> bt_call list \<Rightarrow> 'h \<Rightarrow> 'h \<times> salts_status list" where
  "host_run H [] h = (h, [])"
| "host_run H (c # cs) h =
     (case host_run H cs (fst (snd (adapter_call H c (h, SALTS_OK)))) of (h', es) \<Rightarrow>
        (h', if leaf_result H c h = SALTS_OK then es else leaf_result H c h # es))"

lemma adapter_call_state:
  "snd (adapter_call H c (h, e)) = (fst (snd (adapter_call H c (h, SALTS_OK))), if leaf_result H c h = SALTS_OK then e else leaf_result H c h)"
  by (cases c) (auto simp: leaf_result_def adapter_leaf_tick_def split: prod.split option.split)

lemma fold_calls:
  "fold (\<lambda>c s. snd (adapter_call H c s)) cs (h, e) = (fst (host_run H cs h), last (e # snd (host_run H cs h)))"
proof (induction cs arbitrary: h e)
  case (Cons c cs)
  show ?case unfolding fold_simps by (subst adapter_call_state) (auto simp: Cons.IH split: prod.split)
qed simp

lemma host_run_errors: "SALTS_OK \<notin> set (snd (host_run H cs h))"
  by (induction H cs h rule: host_run.induct) (auto split: prod.splits)

text \<open>
  C32. A tick reports the failure of a leaf callback. The host ends in the state after the calls that
  the runtime made; when a leaf callback failed among them, the tick returns the last such failure
  whatever the runtime made of it, and otherwise it returns the runtime's own status. The saved error
  is cleared, so it cannot leak into a later tick.
\<close>

theorem tree_tick_reports_leaf_error:
  assumes "tick_laws R"
  shows "\<exists>cs. case host_run (bt_tree_host impl) cs h of (h', failures) \<Rightarrow>
    (case tree_tick R (Some impl) h of (status, out, tree, h'') \<Rightarrow>
       h'' = h' \<and> map_option leaf_callback_error tree = Some SALTS_OK \<and>
       status = (if failures = [] then fst (salts_bt_tick R (bt_tree_runtime impl) (adapter_call (bt_tree_host impl)) (h, SALTS_OK))
                 else last failures))"
proof -
  let ?H = "bt_tree_host impl"
  let ?t = "salts_bt_tick R (bt_tree_runtime impl) (adapter_call ?H) (h, SALTS_OK)"
  obtain cs where "snd (snd (snd ?t)) = fold (\<lambda>c s. snd (adapter_call ?H c s)) cs (h, SALTS_OK)"
    using assms unfolding tick_laws_def by blast
  then obtain status out rt' where t: "?t = (status, out, rt', fst (host_run ?H cs h), last (SALTS_OK # snd (host_run ?H cs h)))"
    unfolding fold_calls by (cases ?t) auto
  have "last (snd (host_run ?H cs h)) \<noteq> SALTS_OK" if "snd (host_run ?H cs h) \<noteq> []"
    using that host_run_errors [of ?H cs h] last_in_set by metis
  then show ?thesis using t
    by (intro exI [of _ cs]) (auto simp: tree_tick_def Let_def split: prod.split)
qed

theorem tree_tick_reports_leaf_error_witness:
  "fst (tree_tick list_runtime (Some \<lparr>bt_tree_runtime = [], bt_nodes = [], bt_tree_host = example_host, leaf_callback_error = SALTS_OK\<rparr>) 1) \<noteq> SALTS_OK"
proof -
  let ?impl = "\<lparr>bt_tree_runtime = [], bt_nodes = [], bt_tree_host = example_host, leaf_callback_error = SALTS_OK\<rparr>"
  have "tick_laws (list_runtime :: ((nat \<times> runtime_node) list, nat \<times> salts_status, unit) bt_runtime)"
    unfolding tick_laws_def
    by (intro allI exI [of _ "[Call_Leaf_Tick 0]"]) (simp add: list_runtime_def split: prod.split)
  from tree_tick_reports_leaf_error [OF this, of ?impl 1]
  have "map_option leaf_callback_error (fst (snd (snd (tree_tick list_runtime (Some ?impl) 1)))) = Some SALTS_OK"
    unfolding case_prod_unfold by blast
  moreover have "fst (tree_tick list_runtime (Some ?impl) 1) = SALTS_EIO"
    by (simp add: tree_tick_def list_runtime_def adapter_leaf_tick_def example_host_def)
  ultimately show ?thesis by simp
qed

section \<open>The runtime calls of a construction\<close>

text \<open>
  What a list of descriptors asks of the runtime, without the adapter's checks, allocations and array of
  nodes: the numbers given so far, the descriptors left and the runtime tree. The answer is that of the
  first call that fails, or of the final validation.
\<close>

definition request_below :: "nat list \<Rightarrow> bt_node_desc \<Rightarrow> node_request" where
  "request_below ids d = (let i = length ids; k = bt_kind d; parent = map_option (\<lambda>p. ids ! p) (parent_index d) in
     case k of
       BT_LEAF \<Rightarrow> Add_Leaf parent i
     | BT_SWITCH \<Rightarrow> Add_Switch_Node parent i
     | BT_PIPELINE_SEQUENCE \<Rightarrow> Add_Pipeline_Node parent i
     | BT_ENTRY_UPDATED \<Rightarrow> Add_Entry_Updated_Node parent i
     | BT_CONSUME_QUEUE \<Rightarrow> Add_Consume_Queue_Node parent i
     | _ \<Rightarrow>
         if is_timed_kind k then Add_Timed_Node parent k (duration_ns d)
         else if is_condition_kind k \<and> condition_callback d then Add_Condition_Node parent k (bt_limit d) i
         else if k = BT_PARALLEL \<and> parallel_hooks d then Add_Parallel_Node parent i
         else if has_limit k then Add_Node_With_Limit parent k (bt_limit d)
         else Add_Node parent k)"

fun runtime_calls :: "('rt, 's, 'p) bt_runtime \<Rightarrow> nat list \<Rightarrow> bt_node_desc list \<Rightarrow> 'rt \<Rightarrow> salts_status" where
  "runtime_calls R ids [] rt = salts_bt_validate R rt"
| "runtime_calls R ids (d # ds) rt =
     (case salts_bt_add R rt (request_below ids d) of (added, rt', x) \<Rightarrow>
      if added \<noteq> SALTS_OK then added
      else case (if dynamic_parameter_mask d = 0 then (SALTS_OK, rt')
                 else salts_bt_set_resolver R rt' x (dynamic_parameter_mask d) (length ids)) of (resolved, rt'') \<Rightarrow>
        if resolved \<noteq> SALTS_OK then resolved else runtime_calls R (ids @ [x]) ds rt'')"

definition runtime_answer :: "('rt, 's, 'p) bt_runtime \<Rightarrow> bt_tree_config \<Rightarrow> bt_node_desc list \<Rightarrow> salts_status" where
  "runtime_answer R config descs = (case salts_bt_init R config of Inl (status, _) \<Rightarrow> status | Inr rt \<Rightarrow> runtime_calls R [] descs rt)"

lemma request_below_of:
  assumes "map runtime_id (take k nodes) = ids" "k < length nodes" "node_desc (nodes ! k) = d"
    and "\<And>p. parent_index d = Some p \<Longrightarrow> p < k"
  shows "node_request_of nodes k = request_below ids d"
proof -
  have len: "length ids = k" using assms(1,2) by auto
  have "map_option (\<lambda>p. runtime_id (nodes ! p)) (parent_index d) = map_option (\<lambda>p. ids ! p) (parent_index d)"
    using assms by (cases "parent_index d") auto
  then show ?thesis unfolding node_request_of_def request_below_def Let_def assms(3) len
    by (cases "bt_kind d") (simp_all add: kind_defs)
qed

lemma add_nodes_answer:
  assumes "map node_desc nodes = descs" "parent_first descs" "map runtime_id (take k nodes) = ids" "k \<le> length descs"
  shows "(case add_nodes R [k..<length descs] rt nodes of (status, rt', nodes') \<Rightarrow>
      if status \<noteq> SALTS_OK then status else salts_bt_validate R rt') = runtime_calls R ids (drop k descs) rt"
  using assms
proof (induction "length descs - k" arbitrary: k rt nodes ids)
  case (Suc m)
  have k: "k < length descs" "[k..<length descs] = k # [Suc k..<length descs]" "drop k descs = descs ! k # drop (Suc k) descs"
    using Suc.hyps(2) by (simp_all add: upt_conv_Cons Cons_nth_drop_Suc)
  have nd: "node_desc (nodes ! k) = descs ! k" "k < length nodes" using Suc.prems(1) k(1) by auto
  have req: "node_request_of nodes k = request_below ids (descs ! k)"
    using Suc.prems(2,3) k(1) nd by (intro request_below_of) (auto simp: parent_first_def dest: spec [of _ k])
  obtain st rt1 x where a: "salts_bt_add R rt (request_below ids (descs ! k)) = (st, rt1, x)" by (cases "salts_bt_add R rt (request_below ids (descs ! k))") auto
  let ?nodes = "nodes[k := (nodes ! k)\<lparr>runtime_id := x\<rparr>]" and ?m = "dynamic_parameter_mask (descs ! k)"
  have len: "length ids = k" using Suc.prems(3) nd(2) by auto
  have next_ids: "map runtime_id (take (Suc k) ?nodes) = ids @ [x]" using Suc.prems(3) nd(2) by (simp add: take_Suc_conv_app_nth)
  have descs': "map node_desc ?nodes = descs" using Suc.prems(1) nd by (simp add: map_update)
  have IH: "(case add_nodes R [Suc k..<length descs] r ?nodes of (status, rt', nodes') \<Rightarrow>
      if status \<noteq> SALTS_OK then status else salts_bt_validate R rt') = runtime_calls R (ids @ [x]) (drop (Suc k) descs) r" for r
    using Suc.hyps(2) k(1) by (intro Suc.hyps(1) descs' Suc.prems(2) next_ids) auto
  show ?case
    unfolding k(2,3) using IH by (simp add: adapter_add_node_def req a nd(1) len Let_def split: prod.splits)
qed simp

lemma tree_init_answer:
  assumes "descs \<noteq> []" "length descs \<le> 2 ^ 32 - 1" "length descs \<le> size_max div node_bytes K" "\<not> config_invalid K config"
    and "length descs \<le> max_nodes config" "parent_first descs" "list_all (\<lambda>d. callback_contract_valid K d host) descs"
  shows "fst (tree_init R K alloc None config descs host h) =
    (if alloc Calloc_Impl \<and> alloc Calloc_Nodes then runtime_answer R config descs else SALTS_ENOMEM)"
proof -
  let ?nodes = "map (\<lambda>(i, d). \<lparr>node_index = i, runtime_id = 0, node_desc = d\<rparr>) (enumerate 0 descs)"
  have nd: "map node_desc ?nodes = descs" by (simp add: o_def case_prod_unfold flip: snd_def)
  have root: "parent_index (hd descs) = None"
    using assms(1,6) by (cases descs) (auto simp: parent_first_def split: option.splits)
  have "descriptors_valid K host 0 descs"
    using assms(6,7) unfolding descriptors_valid_iff parent_first_def by (auto split: option.splits)
  moreover have "fst (adapter_dispose_partial R host e runtime s) = e" for e runtime s
    by (simp add: adapter_dispose_partial_def split: option.split prod.split)
  moreover have "runtime_calls R [] descs rt = (case add_nodes R [0..<length descs] rt ?nodes of (status, rt', nodes') \<Rightarrow>
      if status \<noteq> SALTS_OK then status else salts_bt_validate R rt')" for rt
    using add_nodes_answer [OF nd assms(6), of 0 "[]" R rt] by simp
  ultimately show ?thesis
    using assms(1-5) root by (simp add: tree_init_def runtime_answer_def Let_def split: sum.split prod.split)
qed

end
