(* ===== verification/Plan_Compiler.thy ===== *)
theory Plan_Compiler
  imports Tree_Adapter Complex_Main
begin

text \<open>
  The compilation of one action with its typed parameters into a session node:
  \<open>actions/c11/plan.c\<close>. The lemmas show that a compiled node meets the callback contract of the tree
  adapter, that its budget and duration are those of the parameter and never overflow, and that an
  error leaves the output as it was.

  A double is its rational value, \<open>None\<close> when it is not finite. \<open>strtod\<close> is a parameter: of a C string it
  gives the value, how many bytes it consumed, and whether it set \<open>ERANGE\<close>. The kind of a parameter is
  the value of its enumeration, which may be out of range.
\<close>

record leaf_parameter =
  param_name :: "string option"
  param_kind :: int
  param_text :: "string option"
  param_number :: "rat option"
  param_boolean :: bool

abbreviation (input) LEAF_STRING :: int where "LEAF_STRING \<equiv> 0"
abbreviation (input) LEAF_NUMBER :: int where "LEAF_NUMBER \<equiv> 1"
abbreviation (input) LEAF_BOOLEAN :: int where "LEAF_BOOLEAN \<equiv> 2"

datatype terminal_action = TERMINAL_RUNTIME | TERMINAL_SUCCESS | TERMINAL_FAILURE | TERMINAL_SWITCH_FAILURE

record session_node =
  node_tree :: bt_node_desc
  node_action :: string
  node_parameters :: "leaf_parameter list"
  text_sizes :: "nat list option"
  node_terminal :: terminal_action

type_synonym strtod = "string \<Rightarrow> rat option \<times> nat \<times> bool"

section \<open>Integers\<close>

text \<open>A double that is an \<open>int\<close>.\<close>

definition double_int :: "rat option \<Rightarrow> int option" where
  "double_int d =
     (case d of
        None \<Rightarrow> None
      | Some q \<Rightarrow> if q < of_int (- (2 ^ 31)) \<or> q > of_int (2 ^ 31 - 1) \<or> of_int \<lfloor>q\<rfloor> \<noteq> q then None else Some \<lfloor>q\<rfloor>)"

definition parse_integer :: "strtod \<Rightarrow> string option \<Rightarrow> nat \<Rightarrow> salts_status + int" where
  "parse_integer strtod t len =
     (case t of
        None \<Rightarrow> Inl SALTS_EINVAL
      | Some t \<Rightarrow>
          (case strtod (c_text t) of (d, consumed, erange) \<Rightarrow>
             if consumed = 0 \<or> consumed \<noteq> len \<or> erange then Inl SALTS_EINVAL
             else case double_int d of None \<Rightarrow> Inl SALTS_EINVAL | Some n \<Rightarrow> Inr n))"

definition parameter_integer :: "strtod \<Rightarrow> leaf_parameter \<Rightarrow> nat \<Rightarrow> salts_status + int" where
  "parameter_integer strtod p len =
     (if param_kind p = LEAF_BOOLEAN then Inl SALTS_EINVAL
      else if param_kind p = LEAF_STRING then parse_integer strtod (param_text p) len
      else if param_kind p \<noteq> LEAF_NUMBER then Inl SALTS_EINVAL
      else case double_int (param_number p) of None \<Rightarrow> Inl SALTS_EINVAL | Some n \<Rightarrow> Inr n)"

section \<open>Parameters\<close>

text \<open>A parameter is found as its index.\<close>

fun find_parameter :: "leaf_parameter list \<Rightarrow> string \<Rightarrow> nat option" where
  "find_parameter [] key = None"
| "find_parameter (p # ps) key = (if param_name p = Some key then Some 0 else map_option Suc (find_parameter ps key))"

definition parameter_size :: "session_node \<Rightarrow> nat \<Rightarrow> nat" where
  "parameter_size n i =
     (case text_sizes n of
        Some sizes \<Rightarrow> sizes ! i
      | None \<Rightarrow> length (c_text (the (param_text (node_parameters n ! i)))))"

definition substituted :: "session_node \<Rightarrow> nat option \<Rightarrow> bool" where
  "substituted n i =
     (case i of
        None \<Rightarrow> False
      | Some i \<Rightarrow>
          let p = node_parameters n ! i; t = the (param_text p); len = parameter_size n i in
          param_kind p = LEAF_STRING \<and> len \<ge> 2 \<and> t ! 0 = CHR ''{'' \<and> t ! (len - 1) = CHR ''}'')"

definition action_kinds :: "(string \<times> bt_node_kind) list" where
  "action_kinds =
     [(''Sequence'', BT_SEQUENCE), (''Fallback'', BT_FALLBACK), (''Selector'', BT_FALLBACK), (''Parallel'', BT_PARALLEL),
      (''ReactiveSequence'', BT_REACTIVE_SEQUENCE), (''ReactiveFallback'', BT_REACTIVE_FALLBACK), (''Retry'', BT_RETRY),
      (''Repeat'', BT_REPEAT), (''Switch'', BT_SWITCH), (''IfThenElse'', BT_IF_THEN_ELSE), (''Precondition'', BT_PRECONDITION),
      (''WhileDo'', BT_WHILE_DO), (''Inverter'', BT_INVERTER), (''ForceSuccess'', BT_FORCE_SUCCESS),
      (''ForceFailure'', BT_FORCE_FAILURE), (''Timeout'', BT_TIMEOUT), (''Delay'', BT_DELAY),
      (''KeepRunningUntilFailure'', BT_KEEP_RUNNING_UNTIL_FAILURE), (''RunOnce'', BT_RUN_ONCE),
      (''PipelineSequence'', BT_PIPELINE_SEQUENCE), (''EntryUpdated'', BT_ENTRY_UPDATED), (''ConsumeQueue'', BT_CONSUME_QUEUE)]"

definition action_kind :: "string \<Rightarrow> bt_node_kind" where
  "action_kind action = (case map_of action_kinds action of None \<Rightarrow> BT_LEAF | Some k \<Rightarrow> k)"

section \<open>The checks\<close>

definition parameter_invalid :: "leaf_parameter \<Rightarrow> bool" where
  "parameter_invalid p \<longleftrightarrow> param_name p = None \<or> param_kind p < LEAF_STRING \<or> param_kind p > LEAF_BOOLEAN \<or>
     (param_kind p = LEAF_STRING \<and> param_text p = None)"

text \<open>The arity of each kind; the second component says whether the condition is a callback.\<close>

fun check_arity :: "bt_node_kind \<Rightarrow> bool \<Rightarrow> nat \<Rightarrow> string + bool" where
  "check_arity BT_LEAF scalar children =
     (if children \<noteq> 0 then Inl ''unsupported control has children; refusing to reinterpret as a leaf'' else Inr False)"
| "check_arity BT_IF_THEN_ELSE scalar children =
     (if children < (if scalar then 1 else 2) \<or> children > (if scalar then 2 else 3)
      then Inl ''IfThenElse requires 1-2 children with a scalar condition or 2-3 with an in-tree condition'' else Inr scalar)"
| "check_arity BT_WHILE_DO scalar children =
     (if children \<noteq> (if scalar then 1 else 2)
      then Inl ''WhileDo requires one child with a scalar condition or two with an in-tree condition'' else Inr scalar)"
| "check_arity BT_PRECONDITION scalar children =
     (if \<not> scalar then Inl ''Precondition requires a scalar 'condition' parameter''
      else if children \<noteq> 1 then Inl ''must have exactly one child'' else Inr True)"
| "check_arity k scalar children =
     (if k \<in> {BT_INVERTER, BT_FORCE_SUCCESS, BT_FORCE_FAILURE, BT_RETRY, BT_REPEAT, BT_TIMEOUT, BT_DELAY, BT_RUN_ONCE,
         BT_KEEP_RUNNING_UNTIL_FAILURE, BT_ENTRY_UPDATED, BT_CONSUME_QUEUE} \<and> children \<noteq> 1
      then Inl ''must have exactly one child'' else Inr False)"

text \<open>The controls that end at once without children.\<close>

definition empty_terminal :: "bt_node_kind \<Rightarrow> terminal_action option" where
  "empty_terminal k =
     (if k = BT_SWITCH then Some TERMINAL_SWITCH_FAILURE
      else if k = BT_REACTIVE_FALLBACK then Some TERMINAL_FAILURE
      else if k = BT_PARALLEL \<or> k = BT_REACTIVE_SEQUENCE then Some TERMINAL_SUCCESS
      else None)"

text \<open>The control parameter of a kind and its default.\<close>

fun control_key :: "bt_node_kind \<Rightarrow> (string \<times> int) option" where
  "control_key BT_RETRY = Some (''num_attempts'', 3)"
| "control_key BT_REPEAT = Some (''num_cycles'', 0)"
| "control_key BT_WHILE_DO = Some (''max_iterations'', 100)"
| "control_key BT_KEEP_RUNNING_UNTIL_FAILURE = Some (''max_iterations'', 1000)"
| "control_key BT_TIMEOUT = Some (''timeout_ms'', 1000)"
| "control_key BT_DELAY = Some (''delay_ms'', 100)"
| "control_key _ = None"

definition static_value :: "strtod \<Rightarrow> session_node \<Rightarrow> nat option \<Rightarrow> int \<Rightarrow> string + int" where
  "static_value strtod n p value =
     (case p of
        None \<Rightarrow> Inr value
      | Some i \<Rightarrow>
          let q = node_parameters n ! i in
          case parameter_integer strtod q (if param_kind q = LEAF_STRING then parameter_size n i else 0) of
            Inl _ \<Rightarrow> Inl ''control parameter must be a 32-bit integer''
          | Inr v \<Rightarrow> Inr v)"

definition dynamic_value :: "bt_tree_config \<Rightarrow> bt_node_kind \<Rightarrow> int \<Rightarrow> int" where
  "dynamic_value limits k value =
     (if k = BT_REPEAT then 0
      else if \<not> is_timed_kind k \<and> nat value > max_control_iterations limits then int (max_control_iterations limits)
      else value)"

text \<open>The control parameter of a node.\<close>

definition apply_control ::
  "strtod \<Rightarrow> bt_constants \<Rightarrow> bt_tree_config \<Rightarrow> session_node \<Rightarrow> bool \<Rightarrow> string \<times> int \<Rightarrow> string + session_node \<times> bool" where
  "apply_control strtod K limits n skip entry =
     (case entry of (key, fallback) \<Rightarrow>
        let k = bt_kind (node_tree n); p = find_parameter (node_parameters n) key; dynamic = substituted n p in
        if p = None \<and> k = BT_REPEAT then Inl (''Repeat requires parameter 'num_cycles'' @ [CHR 0x27])
        else case (if dynamic then Inr (dynamic_value limits k fallback) else static_value strtod n p fallback) of
          Inl e \<Rightarrow> Inl e
        | Inr value \<Rightarrow>
            if value < 0 then Inl ''control parameter must be non-negative''
            else if is_timed_kind k then
              Inr (n\<lparr>node_tree := (node_tree n)\<lparr>duration_ns := of_int value * 1000000,
                dynamic_parameter_mask := (if dynamic then dynamic_duration K else 0)\<rparr>\<rparr>, skip)
            else if nat value > max_control_iterations limits then Inl ''control parameter exceeds the configured iteration budget''
            else
              let t = (node_tree n)\<lparr>dynamic_parameter_mask := (if dynamic then dynamic_limit K else 0)\<rparr> in
              if value = 0 \<and> \<not> dynamic \<and> k \<noteq> BT_REPEAT
              then Inr (n\<lparr>node_terminal := (if k = BT_WHILE_DO then TERMINAL_SUCCESS else TERMINAL_FAILURE),
                node_tree := t\<lparr>bt_kind := BT_LEAF, condition_callback := False\<rparr>\<rparr>, True)
              else Inr (n\<lparr>node_tree := t\<lparr>bt_limit := nat value\<rparr>\<rparr>, skip))"

section \<open>Compilation\<close>

text \<open>The node before its control parameter, and whether its descendants are pruned.\<close>

definition initial_node ::
  "string \<Rightarrow> leaf_parameter list \<Rightarrow> nat list option \<Rightarrow> nat \<Rightarrow> nat option \<Rightarrow> bool \<Rightarrow> session_node \<times> bool" where
  "initial_node action parameters sizes children parent condition =
     (let k = action_kind action; pruned = (if children = 0 then empty_terminal k else None); skip = (pruned \<noteq> None);
          t = \<lparr>parent_index = parent, bt_kind = (if skip then BT_LEAF else k), bt_limit = 0, duration_ns = 0,
            condition_callback = condition, parallel_hooks = (\<not> skip \<and> k = BT_PARALLEL), dynamic_parameter_mask = 0\<rparr>
      in (\<lparr>node_tree = t, node_action = action, node_parameters = parameters, text_sizes = sizes,
           node_terminal = (case pruned of None \<Rightarrow> TERMINAL_RUNTIME | Some a \<Rightarrow> a)\<rparr>, skip))"

definition compile_checked ::
  "strtod \<Rightarrow> bt_constants \<Rightarrow> bt_tree_config \<Rightarrow> string \<Rightarrow> leaf_parameter list \<Rightarrow> nat list option \<Rightarrow> nat \<Rightarrow> nat option \<Rightarrow>
   string + session_node \<times> bool" where
  "compile_checked strtod K limits action parameters sizes children parent =
     (let k = action_kind action; scalar = (find_parameter parameters ''condition'' \<noteq> None) in
      if action = ''SubTree'' then Inl ''SubTree must be expanded before plan compilation''
      else case check_arity k scalar children of
        Inl e \<Rightarrow> Inl e
      | Inr condition \<Rightarrow>
          if k = BT_SWITCH \<and> find_parameter parameters ''variable'' = None then Inl (''Switch requires parameter 'variable'' @ [CHR 0x27])
          else if k = BT_ENTRY_UPDATED \<and> find_parameter parameters ''watch_key'' = None
          then Inl (''EntryUpdated requires parameter 'watch_key'' @ [CHR 0x27])
          else case initial_node action parameters sizes children parent condition of
            (n, skip) \<Rightarrow>
              (case control_key (bt_kind (node_tree n)) of
                 None \<Rightarrow> Inr (n, skip)
               | Some entry \<Rightarrow> apply_control strtod K limits n skip entry))"

definition compile_body ::
  "strtod \<Rightarrow> bt_constants \<Rightarrow> bt_tree_config option \<Rightarrow> string option \<Rightarrow> leaf_parameter list \<Rightarrow> nat list option \<Rightarrow> nat \<Rightarrow> nat option \<Rightarrow>
   string + session_node \<times> bool" where
  "compile_body strtod K limits action parameters sizes children parent =
     (if limits = None \<or> action = None \<or> action = Some [] \<or> config_invalid K (the limits)
      then Inl ''invalid compilation input or BehaviorTree limits''
      else if list_ex parameter_invalid parameters then Inl ''invalid typed parameter''
      else compile_checked strtod K (the limits) (the action) parameters sizes children parent)"

text \<open>The outputs: the node, the prune flag, and the error buffer, whose capacity is zero when there is none.\<close>

record compile_output =
  out_node :: session_node
  out_prune :: bool
  out_error :: string

definition node_error :: "nat \<Rightarrow> string option \<Rightarrow> string \<Rightarrow> string" where
  "node_error capacity action detail =
     take (capacity - 1) (''Node '' @ [CHR 0x27] @ (case action of None \<Rightarrow> [] | Some a \<Rightarrow> a) @ [CHR 0x27] @ '': '' @ detail)"

definition compile_node ::
  "strtod \<Rightarrow> bt_constants \<Rightarrow> bt_tree_config option \<Rightarrow> string option \<Rightarrow> leaf_parameter list \<Rightarrow> nat list option \<Rightarrow> nat \<Rightarrow> nat option \<Rightarrow>
   nat \<Rightarrow> compile_output \<Rightarrow> salts_status \<times> compile_output" where
  "compile_node strtod K limits action parameters sizes children parent capacity output =
     (let cleared = (if capacity = 0 then output else output\<lparr>out_error := []\<rparr>) in
      case compile_body strtod K limits action parameters sizes children parent of
        Inl detail \<Rightarrow> (SALTS_EINVAL, if capacity = 0 then cleared else cleared\<lparr>out_error := node_error capacity action detail\<rparr>)
      | Inr (n, skip) \<Rightarrow> (SALTS_OK, cleared\<lparr>out_node := n, out_prune := skip\<rparr>))"

section \<open>The contract of a compiled node\<close>

text \<open>A host with every callback, and the two dynamic masks as separate flags.\<close>

definition host_complete :: "('h, 'p) bt_host \<Rightarrow> bool" where
  "host_complete host \<longleftrightarrow> tick_leaf host \<noteq> None \<and> host_condition host \<noteq> None \<and> select_child host \<noteq> None \<and>
     parallel_enter host \<noteq> None \<and> parallel_step host \<noteq> None \<and> parallel_join host \<noteq> None \<and> parallel_finish host \<noteq> None \<and>
     parallel_abort host \<noteq> None \<and> pipeline_prepare host \<noteq> None \<and> pipeline_complete host \<noteq> None \<and> entry_changed host \<noteq> None \<and>
     queue_begin host \<noteq> None \<and> queue_finish host \<noteq> None \<and> resolve_dynamic_parameters host \<noteq> None"

definition masks_separate :: "bt_constants \<Rightarrow> bool" where
  "masks_separate K \<longleftrightarrow> dynamic_limit K \<noteq> 0 \<and> dynamic_duration K \<noteq> 0 \<and> dynamic_limit K AND dynamic_duration K = 0"

lemma separate_masks:
  fixes a b :: "32 word"
  assumes "a \<noteq> 0" "b \<noteq> 0" "a AND b = 0"
  shows "a AND NOT (a OR b) = 0" "b AND NOT (a OR b) = 0" "a \<noteq> a OR b" "b \<noteq> a OR b" "a OR b \<noteq> 0" "b AND a = 0"
proof -
  show "a AND NOT (a OR b) = 0" "b AND NOT (a OR b) = 0" by (auto intro!: bit_eqI simp: bit_simps)
  show ba: "b AND a = 0" using assms(3) by (simp add: and.commute)
  show "a \<noteq> a OR b"
  proof
    assume "a = a OR b"
    then have "b AND a = b AND (a OR b)" by simp
    then show False using ba assms(2) by (simp add: bit.conj_disj_distrib)
  qed
  show "b \<noteq> a OR b"
  proof
    assume "b = a OR b"
    then have "a AND b = a AND (a OR b)" by simp
    then show False using assms(1,3) by (simp add: bit.conj_disj_distrib)
  qed
  show "a OR b \<noteq> 0" using assms(1) by (metis or_eq_0_iff)
qed

definition plain_desc :: "bt_node_desc \<Rightarrow> bool" where
  "plain_desc d \<longleftrightarrow> (condition_callback d \<longrightarrow> is_condition_kind (bt_kind d)) \<and> (parallel_hooks d \<longrightarrow> bt_kind d = BT_PARALLEL) \<and>
     (has_limit (bt_kind d) \<or> bt_limit d = 0) \<and> (is_timed_kind (bt_kind d) \<or> duration_ns d = 0)"

lemma contract_plain:
  assumes "host_complete host" "masks_separate K" "plain_desc d"
    "dynamic_parameter_mask d = 0 \<or> (dynamic_parameter_mask d = dynamic_limit K \<and> has_limit (bt_kind d)) \<or>
     (dynamic_parameter_mask d = dynamic_duration K \<and> is_timed_kind (bt_kind d))"
  shows "callback_contract_valid K d host"
proof -
  have m: "dynamic_limit K \<noteq> 0" "dynamic_duration K \<noteq> 0" "dynamic_limit K AND dynamic_duration K = 0"
    using assms(2) by (auto simp: masks_separate_def)
  note s = separate_masks [OF m]
  have k: "\<not> is_condition_kind (bt_kind d) \<Longrightarrow> \<not> condition_callback d" using assms(3) by (auto simp: plain_desc_def)
  show ?thesis
    using assms(1,3,4) m s k unfolding callback_contract_valid_def host_complete_def plain_desc_def Let_def
    by (elim disjE conjE) (auto simp: is_condition_kind_def)
qed

section \<open>The control parameter\<close>

lemma control_key_kind: "control_key k = Some e \<Longrightarrow> is_timed_kind k \<or> has_limit k"
  by (cases k) (auto simp: kind_defs)

text \<open>What a control parameter makes of a node.\<close>

lemma apply_control_outcome:
  assumes "apply_control strtod K limits n skip (key, fallback) = Inr (n', skip')"
  defines "p \<equiv> find_parameter (node_parameters n) key" and "k \<equiv> bt_kind (node_tree n)"
  defines "dynamic \<equiv> substituted n p"
  shows "\<exists>v. 0 \<le> v \<and> (if dynamic then v = dynamic_value limits k fallback else static_value strtod n p fallback = Inr v) \<and>
    (if is_timed_kind k
     then n' = n\<lparr>node_tree := (node_tree n)\<lparr>duration_ns := of_int v * 1000000,
       dynamic_parameter_mask := (if dynamic then dynamic_duration K else 0)\<rparr>\<rparr> \<and> skip' = skip
     else nat v \<le> max_control_iterations limits \<and>
       (if v = 0 \<and> \<not> dynamic \<and> k \<noteq> BT_REPEAT
        then n' = n\<lparr>node_terminal := (if k = BT_WHILE_DO then TERMINAL_SUCCESS else TERMINAL_FAILURE),
          node_tree := (node_tree n)\<lparr>dynamic_parameter_mask := 0, bt_kind := BT_LEAF, condition_callback := False\<rparr>\<rparr> \<and> skip'
        else n' = n\<lparr>node_tree := (node_tree n)\<lparr>dynamic_parameter_mask := (if dynamic then dynamic_limit K else 0), bt_limit := nat v\<rparr>\<rparr> \<and>
          skip' = skip))"
proof -
  obtain v where v: "(if dynamic then Inr (dynamic_value limits k fallback) else static_value strtod n p fallback) = Inr v"
    using assms(1) unfolding apply_control_def Let_def p_def k_def dynamic_def
    by (cases "if substituted n (find_parameter (node_parameters n) key) then Inr (dynamic_value limits (bt_kind (node_tree n)) fallback)
        else static_value strtod n (find_parameter (node_parameters n) key) fallback") (auto split: if_splits)
  note run = assms(1) [unfolded apply_control_def Let_def prod.case, folded p_def k_def, folded dynamic_def, unfolded v sum.case]
  have "0 \<le> v" using run by (auto split: if_splits)
  moreover have "if dynamic then v = dynamic_value limits k fallback else static_value strtod n p fallback = Inr v"
    using v by (auto split: if_splits)
  ultimately show ?thesis using run by (intro exI [of _ v]) (auto split: if_splits)
qed

lemma apply_control_contract:
  assumes run: "apply_control strtod K limits n skip (key, fallback) = Inr (n', skip')"
    and key: "control_key (bt_kind (node_tree n)) = Some (key, fallback)"
    and host: "host_complete host" "masks_separate K"
    and n: "plain_desc (node_tree n)" "bt_limit (node_tree n) = 0" "duration_ns (node_tree n) = 0"
      "\<not> parallel_hooks (node_tree n)" "\<not> skip" "node_terminal n = TERMINAL_RUNTIME"
  shows "callback_contract_valid K (node_tree n') host \<and> bt_limit (node_tree n') \<le> max_control_iterations limits \<and>
    parent_index (node_tree n') = parent_index (node_tree n) \<and> (skip' \<longleftrightarrow> node_terminal n' \<noteq> TERMINAL_RUNTIME) \<and>
    (skip' \<longrightarrow> bt_kind (node_tree n') = BT_LEAF)"
proof -
  let ?k = "bt_kind (node_tree n)" and ?dyn = "substituted n (find_parameter (node_parameters n) key)"
  obtain v where v: "if is_timed_kind ?k
     then n' = n\<lparr>node_tree := (node_tree n)\<lparr>duration_ns := of_int v * 1000000,
       dynamic_parameter_mask := (if ?dyn then dynamic_duration K else 0)\<rparr>\<rparr> \<and> skip' = skip
     else nat v \<le> max_control_iterations limits \<and>
       (if v = 0 \<and> \<not> ?dyn \<and> ?k \<noteq> BT_REPEAT
        then n' = n\<lparr>node_terminal := (if ?k = BT_WHILE_DO then TERMINAL_SUCCESS else TERMINAL_FAILURE),
          node_tree := (node_tree n)\<lparr>dynamic_parameter_mask := 0, bt_kind := BT_LEAF, condition_callback := False\<rparr>\<rparr> \<and> skip'
        else n' = n\<lparr>node_tree := (node_tree n)\<lparr>dynamic_parameter_mask := (if ?dyn then dynamic_limit K else 0), bt_limit := nat v\<rparr>\<rparr> \<and>
          skip' = skip)"
    using apply_control_outcome [OF run] by blast
  note rule = contract_plain [OF host]
  show ?thesis
  proof (cases "is_timed_kind ?k")
    case True
    then have "n' = n\<lparr>node_tree := (node_tree n)\<lparr>duration_ns := of_int v * 1000000,
       dynamic_parameter_mask := (if ?dyn then dynamic_duration K else 0)\<rparr>\<rparr>" "skip' = skip" using v by simp_all
    then show ?thesis using n True by (auto intro!: rule simp: plain_desc_def)
  next
    case False
    then have lim: "has_limit ?k" using control_key_kind [OF key] by simp
    show ?thesis
    proof (cases "v = 0 \<and> \<not> ?dyn \<and> ?k \<noteq> BT_REPEAT")
      case True
      then have "n' = n\<lparr>node_terminal := (if ?k = BT_WHILE_DO then TERMINAL_SUCCESS else TERMINAL_FAILURE),
          node_tree := (node_tree n)\<lparr>dynamic_parameter_mask := 0, bt_kind := BT_LEAF, condition_callback := False\<rparr>\<rparr>" "skip'"
        using v False by simp_all
      then show ?thesis using n by (auto intro!: rule simp: plain_desc_def)
    next
      case go: False
      then have "n' = n\<lparr>node_tree := (node_tree n)\<lparr>dynamic_parameter_mask := (if ?dyn then dynamic_limit K else 0), bt_limit := nat v\<rparr>\<rparr>"
        "skip' = skip" "nat v \<le> max_control_iterations limits"
        using v False by auto
      then show ?thesis using n lim by (auto intro!: rule simp: plain_desc_def)
    qed
  qed
qed

section \<open>Compilation\<close>

lemma check_arity_condition: "check_arity k scalar children = Inr condition \<Longrightarrow> condition \<Longrightarrow> is_condition_kind k"
  by (cases k) (auto simp: kind_defs split: if_splits)

lemma empty_terminal_some: "empty_terminal k = Some a \<Longrightarrow> a \<noteq> TERMINAL_RUNTIME \<and> \<not> is_condition_kind k"
  by (auto simp: empty_terminal_def kind_defs split: if_splits)

lemma initial_node_facts:
  assumes "initial_node action parameters sizes children parent condition = (n, skip)"
    and "condition \<Longrightarrow> is_condition_kind (action_kind action)"
  shows "plain_desc (node_tree n)" "bt_limit (node_tree n) = 0" "duration_ns (node_tree n) = 0" "dynamic_parameter_mask (node_tree n) = 0"
    "parent_index (node_tree n) = parent" "skip \<longleftrightarrow> node_terminal n \<noteq> TERMINAL_RUNTIME" "skip \<longrightarrow> bt_kind (node_tree n) = BT_LEAF"
    "\<not> skip \<longrightarrow> bt_kind (node_tree n) = action_kind action" "node_parameters n = parameters" "text_sizes n = sizes"
    "parallel_hooks (node_tree n) \<longrightarrow> bt_kind (node_tree n) = BT_PARALLEL"
  using assms empty_terminal_some [of "action_kind action"]
  by (auto simp: initial_node_def Let_def plain_desc_def split: option.splits if_splits)

lemma compile_checkedD:
  assumes "compile_checked strtod K limits action parameters sizes children parent = Inr (n', skip')"
  obtains n skip condition where "initial_node action parameters sizes children parent condition = (n, skip)"
    and "condition \<Longrightarrow> is_condition_kind (action_kind action)"
    and "check_arity (action_kind action) (find_parameter parameters ''condition'' \<noteq> None) children = Inr condition"
    and "case control_key (bt_kind (node_tree n)) of None \<Rightarrow> (n', skip') = (n, skip)
      | Some entry \<Rightarrow> apply_control strtod K limits n skip entry = Inr (n', skip')"
proof -
  obtain condition where c: "check_arity (action_kind action) (find_parameter parameters ''condition'' \<noteq> None) children = Inr condition"
    using assms by (auto simp: compile_checked_def Let_def split: if_splits sum.splits)
  obtain n skip where i: "initial_node action parameters sizes children parent condition = (n, skip)" by fastforce
  show thesis
    by (rule that [OF i check_arity_condition [OF c] c])
      (use assms c i in \<open>auto simp: compile_checked_def Let_def split: if_splits option.splits\<close>)
qed

lemma compile_checked_contract:
  assumes run: "compile_checked strtod K limits action parameters sizes children parent = Inr (n', skip')"
    and host: "host_complete host" "masks_separate K"
  shows "callback_contract_valid K (node_tree n') host \<and> bt_limit (node_tree n') \<le> max_control_iterations limits \<and>
    parent_index (node_tree n') = parent \<and> (skip' \<longleftrightarrow> node_terminal n' \<noteq> TERMINAL_RUNTIME) \<and>
    (skip' \<longrightarrow> bt_kind (node_tree n') = BT_LEAF)"
proof -
  obtain n skip condition where i: "initial_node action parameters sizes children parent condition = (n, skip)"
    and c: "condition \<Longrightarrow> is_condition_kind (action_kind action)"
    and r: "case control_key (bt_kind (node_tree n)) of None \<Rightarrow> (n', skip') = (n, skip)
      | Some entry \<Rightarrow> apply_control strtod K limits n skip entry = Inr (n', skip')"
    using compile_checkedD [OF run] by metis
  note f = initial_node_facts [OF i c]
  show ?thesis
  proof (cases "control_key (bt_kind (node_tree n))")
    case None
    then show ?thesis using r f by (auto intro!: contract_plain [OF host])
  next
    case (Some entry)
    obtain key fallback where e: "entry = (key, fallback)" by fastforce
    have "\<not> parallel_hooks (node_tree n)" "\<not> skip" using f(7,11) Some by auto
    then show ?thesis
      using apply_control_contract [OF _ Some [unfolded e] host f(1-3)] r Some e f(5,6) by simp
  qed
qed

lemma compile_node_ok:
  assumes "compile_node strtod K limits action parameters sizes children parent capacity output = (SALTS_OK, output')"
  obtains l a where "limits = Some l" "action = Some a" "\<not> config_invalid K l"
    "compile_checked strtod K l a parameters sizes children parent = Inr (out_node output', out_prune output')"
  using assms by (auto simp: compile_node_def compile_body_def Let_def split: sum.splits prod.splits if_splits)

text \<open>
  C33. A compiled node meets the callback contract that the tree adapter checks, for any host that
  has the callbacks: only kinds with a budget have one and it is within the configured iterations,
  only timed kinds have a duration, only conditional kinds a condition callback, and a dynamic
  parameter has the flag of its kind. The node keeps the parent it was given, and its descendants are
  pruned exactly when it is a leaf with a fixed terminal result.
\<close>

theorem compile_node_contract:
  assumes "compile_node strtod K limits action parameters sizes children parent capacity output = (SALTS_OK, output')"
    and "host_complete host" "masks_separate K"
  shows "callback_contract_valid K (node_tree (out_node output')) host \<and>
    bt_limit (node_tree (out_node output')) \<le> max_control_iterations (the limits) \<and>
    parent_index (node_tree (out_node output')) = parent \<and>
    (out_prune output' \<longleftrightarrow> node_terminal (out_node output') \<noteq> TERMINAL_RUNTIME) \<and>
    (out_prune output' \<longrightarrow> bt_kind (node_tree (out_node output')) = BT_LEAF)"
  using compile_node_ok [OF assms(1)] compile_checked_contract [OF _ assms(2,3)] by (metis option.sel)

text \<open>
  A compilation that fails leaves the node and the prune flag as they were, and its only status is
  \<open>SALTS_EINVAL\<close>; the error buffer is never overrun, is left alone when its capacity is zero, and is
  empty on success.
\<close>

theorem compile_node_error:
  "case compile_node strtod K limits action parameters sizes children parent capacity output of (status, output') \<Rightarrow>
     (status = SALTS_OK \<and> (capacity = 0 \<or> out_error output' = []) \<or>
      status = SALTS_EINVAL \<and> out_node output' = out_node output \<and> out_prune output' = out_prune output) \<and>
     (capacity = 0 \<and> out_error output' = out_error output \<or> length (out_error output') < capacity)"
  by (auto simp: compile_node_def node_error_def Let_def split: sum.split)

section \<open>Budgets and durations\<close>

lemma double_int_bounds: "double_int d = Some n \<Longrightarrow> - (2 ^ 31) \<le> n \<and> n < 2 ^ 31"
proof -
  assume "double_int d = Some n"
  then obtain q where "d = Some q" "of_int (- (2 ^ 31)) \<le> q" "q \<le> of_int (2 ^ 31 - 1)" "q = of_int n"
    by (auto simp: double_int_def not_less split: option.splits if_splits)
  then have "of_int (- (2 ^ 31)) \<le> (of_int n :: rat)" "(of_int n :: rat) \<le> of_int (2 ^ 31 - 1)" by simp_all
  then show ?thesis unfolding of_int_le_iff by simp
qed

lemma parameter_integer_bounds: "parameter_integer strtod p len = Inr n \<Longrightarrow> - (2 ^ 31) \<le> n \<and> n < 2 ^ 31"
  by (auto simp: parameter_integer_def parse_integer_def split: if_splits option.splits prod.splits dest!: double_int_bounds)

lemma control_key_default: "control_key k = Some (key, fallback) \<Longrightarrow> 0 \<le> fallback \<and> fallback \<le> 1000"
  by (cases k) auto

lemma static_value_bounds:
  "static_value strtod n p fallback = Inr v \<Longrightarrow> 0 \<le> fallback \<Longrightarrow> fallback \<le> 1000 \<Longrightarrow> v < 2 ^ 31"
  by (auto simp: static_value_def Let_def split: option.splits sum.splits dest!: parameter_integer_bounds)

lemma dynamic_value_bounds: "0 \<le> fallback \<Longrightarrow> fallback \<le> 1000 \<Longrightarrow> dynamic_value limits k fallback < 2 ^ 31"
  by (auto simp: dynamic_value_def)

lemma duration_exact:
  assumes "0 \<le> v" "v < 2 ^ 31"
  shows "unat (of_int v * 1000000 :: 64 word) = nat v * 1000000"
proof -
  obtain m where m: "v = int m" using assms(1) by (metis nonneg_int_cases)
  then have "m < 2 ^ 31" using assms(2) by simp
  then show ?thesis unfolding m by (simp add: unat_word_ariths unat_of_nat)
qed

lemma substituted_cong:
  "node_parameters n = node_parameters m \<Longrightarrow> text_sizes n = text_sizes m \<Longrightarrow> substituted n p = substituted m p"
  "node_parameters n = node_parameters m \<Longrightarrow> text_sizes n = text_sizes m \<Longrightarrow> static_value strtod n p v = static_value strtod m p v"
proof -
  assume same: "node_parameters n = node_parameters m" "text_sizes n = text_sizes m"
  then have "parameter_size n = parameter_size m" by (intro ext) (simp only: parameter_size_def)
  with same show "substituted n p = substituted m p" "static_value strtod n p v = static_value strtod m p v"
    by (simp_all only: substituted_def static_value_def)
qed

text \<open>
  A control's budget is its parameter's, exactly. The value of a compiled control is a
  nonnegative \<open>int\<close>: the parameter's integer, the default when it has none, or the placeholder of a
  substituted one. A timed node's duration is that many milliseconds in nanoseconds, with no
  wrap-around; every other control's budget is the value, within the configured iterations, except
  that a fixed budget of zero prunes all but a \<open>Repeat\<close>; and the resolver flag is set exactly for a
  substituted parameter.
\<close>

theorem compile_node_budget:
  assumes "compile_node strtod K (Some limits) (Some action) parameters sizes children parent capacity output = (SALTS_OK, output')"
    and "control_key (action_kind action) = Some (key, fallback)"
  defines "node \<equiv> out_node output'" and "p \<equiv> find_parameter parameters key" and "k \<equiv> action_kind action"
  shows "\<exists>v. 0 \<le> v \<and> v < 2 ^ 31 \<and>
    (if substituted node p then v = dynamic_value limits k fallback else static_value strtod node p fallback = Inr v) \<and>
    (if is_timed_kind k
     then unat (duration_ns (node_tree node)) = nat v * 1000000 \<and> \<not> out_prune output' \<and>
       dynamic_parameter_mask (node_tree node) = (if substituted node p then dynamic_duration K else 0)
     else nat v \<le> max_control_iterations limits \<and>
       (if v = 0 \<and> \<not> substituted node p \<and> k \<noteq> BT_REPEAT then out_prune output'
        else bt_kind (node_tree node) = k \<and> bt_limit (node_tree node) = nat v \<and> \<not> out_prune output' \<and>
          dynamic_parameter_mask (node_tree node) = (if substituted node p then dynamic_limit K else 0)))"
proof -
  have "compile_checked strtod K limits action parameters sizes children parent = Inr (node, out_prune output')"
    using compile_node_ok [OF assms(1)] by (metis node_def option.inject)
  then obtain n skip condition where i: "initial_node action parameters sizes children parent condition = (n, skip)"
    and c: "condition \<Longrightarrow> is_condition_kind (action_kind action)"
    and r: "case control_key (bt_kind (node_tree n)) of None \<Rightarrow> (node, out_prune output') = (n, skip)
      | Some entry \<Rightarrow> apply_control strtod K limits n skip entry = Inr (node, out_prune output')"
    using compile_checkedD by metis
  note f = initial_node_facts [OF i c]
  have "empty_terminal k = None" using assms(2) unfolding k_def by (cases "action_kind action") (auto simp: empty_terminal_def)
  then have skip: "\<not> skip" "bt_kind (node_tree n) = k" using i f(8) by (auto simp: initial_node_def Let_def k_def split: if_splits)
  then have run: "apply_control strtod K limits n skip (key, fallback) = Inr (node, out_prune output')" using r assms(2) k_def by simp
  have ps: "node_parameters n = parameters" using f(9) by simp
  note out = apply_control_outcome [OF run, unfolded ps, folded p_def, unfolded skip(2)]
  have same: "node_parameters node = node_parameters n" "text_sizes node = text_sizes n"
    using out by (auto split: if_splits)
  have fb: "0 \<le> fallback" "fallback \<le> 1000" using control_key_default [OF assms(2)] by simp_all
  obtain v where v: "0 \<le> v" "if substituted n p then v = dynamic_value limits k fallback else static_value strtod n p fallback = Inr v"
    and rest: "if is_timed_kind k
     then node = n\<lparr>node_tree := (node_tree n)\<lparr>duration_ns := of_int v * 1000000,
       dynamic_parameter_mask := (if substituted n p then dynamic_duration K else 0)\<rparr>\<rparr> \<and> out_prune output' = skip
     else nat v \<le> max_control_iterations limits \<and>
       (if v = 0 \<and> \<not> substituted n p \<and> k \<noteq> BT_REPEAT
        then node = n\<lparr>node_terminal := (if k = BT_WHILE_DO then TERMINAL_SUCCESS else TERMINAL_FAILURE),
          node_tree := (node_tree n)\<lparr>dynamic_parameter_mask := 0, bt_kind := BT_LEAF, condition_callback := False\<rparr>\<rparr> \<and> out_prune output'
        else node = n\<lparr>node_tree := (node_tree n)\<lparr>dynamic_parameter_mask := (if substituted n p then dynamic_limit K else 0), bt_limit := nat v\<rparr>\<rparr> \<and>
          out_prune output' = skip)"
    using out by (elim exE conjE) (rule that)
  have "v < 2 ^ 31" using v(2) static_value_bounds [OF _ fb] dynamic_value_bounds [OF fb] by (auto split: if_splits)
  then show ?thesis unfolding substituted_cong [OF same]
  proof (intro exI [of _ v] conjI)
    show "if is_timed_kind k
     then unat (duration_ns (node_tree node)) = nat v * 1000000 \<and> \<not> out_prune output' \<and>
       dynamic_parameter_mask (node_tree node) = (if substituted n p then dynamic_duration K else 0)
     else nat v \<le> max_control_iterations limits \<and>
       (if v = 0 \<and> \<not> substituted n p \<and> k \<noteq> BT_REPEAT then out_prune output'
        else bt_kind (node_tree node) = k \<and> bt_limit (node_tree node) = nat v \<and> \<not> out_prune output' \<and>
          dynamic_parameter_mask (node_tree node) = (if substituted n p then dynamic_limit K else 0))"
    proof (cases "is_timed_kind k")
      case True
      then show ?thesis using rest skip duration_exact [OF v(1) \<open>v < 2 ^ 31\<close>] by simp
    next
      case False
      then show ?thesis using rest skip by (cases "v = 0 \<and> \<not> substituted n p \<and> k \<noteq> BT_REPEAT") simp_all
    qed
  qed (use v in simp_all)
qed

section \<open>An instance\<close>

definition no_strtod :: strtod where "no_strtod = (\<lambda>_. (None, 0, False))"

definition full_host :: "(nat, unit) bt_host" where
  "full_host = \<lparr>tick_leaf = Some (\<lambda>i h. (SALTS_OK, 1, Suc h)), halt_leaf = None, host_condition = Some (\<lambda>i h. (SALTS_OK, 1, h)),
     select_child = Some (\<lambda>i h. (SALTS_OK, 0, h)), parallel_enter = Some (\<lambda>i j f h. (SALTS_OK, h)),
     parallel_step = Some (\<lambda>i j s h. (SALTS_OK, h)), parallel_join = Some (\<lambda>i s h. (SALTS_OK, h)),
     parallel_finish = Some (\<lambda>i j s h. (SALTS_OK, h)), parallel_abort = Some (\<lambda>i j h. h),
     pipeline_prepare = Some (\<lambda>i j h. (SALTS_OK, h)), pipeline_complete = Some (\<lambda>i j s h. (SALTS_OK, h)),
     pipeline_abort = None, entry_changed = Some (\<lambda>i h. (SALTS_OK, False, h)), queue_begin = Some (\<lambda>i h. (SALTS_OK, False, h)),
     queue_finish = Some (\<lambda>i h. (SALTS_OK, False, h)), queue_abort = None,
     resolve_dynamic_parameters = Some (\<lambda>i h. (SALTS_OK, (), h))\<rparr>"

lemma full_host_complete: "host_complete full_host" and example_masks: "masks_separate example_constants"
  by (simp_all add: host_complete_def full_host_def masks_separate_def example_constants_def)

definition number_parameter :: "string \<Rightarrow> rat \<Rightarrow> leaf_parameter" where
  "number_parameter key q = \<lparr>param_name = Some key, param_kind = LEAF_NUMBER, param_text = None, param_number = Some q, param_boolean = False\<rparr>"

definition blank_output :: compile_output where
  "blank_output = \<lparr>out_node = \<lparr>node_tree = \<lparr>parent_index = None, bt_kind = BT_LEAF, bt_limit = 0, duration_ns = 0,
     condition_callback = False, parallel_hooks = False, dynamic_parameter_mask = 0\<rparr>, node_action = [], node_parameters = [],
     text_sizes = None, node_terminal = TERMINAL_RUNTIME\<rparr>, out_prune = False, out_error = []\<rparr>"

abbreviation compile_example :: "string \<Rightarrow> leaf_parameter list \<Rightarrow> nat \<Rightarrow> nat option \<Rightarrow> salts_status \<times> compile_output" where
  "compile_example action ps children parent \<equiv>
     compile_node no_strtod example_constants (Some example_config) (Some action) ps None children parent 0 blank_output"

lemmas compile_defs =
  compile_node_def compile_body_def config_invalid_def example_config_def example_constants_def parameter_invalid_def
  number_parameter_def compile_checked_def action_kind_def action_kinds_def initial_node_def empty_terminal_def
  apply_control_def substituted_def static_value_def parameter_integer_def double_int_def is_timed_kind_def Let_def

lemma retry_compiles: "compile_example ''Retry'' [number_parameter ''num_attempts'' 5] 1 None = (SALTS_OK, snd (compile_example ''Retry'' [number_parameter ''num_attempts'' 5] 1 None))"
  by (simp add: compile_defs)

theorem compile_node_contract_witness:
  "callback_contract_valid example_constants
     (node_tree (out_node (snd (compile_example ''Retry'' [number_parameter ''num_attempts'' 5] 1 None)))) full_host"
  using compile_node_contract [OF retry_compiles full_host_complete example_masks] by blast

theorem compile_node_budget_witness:
  "bt_limit (node_tree (out_node (snd (compile_example ''Retry'' [number_parameter ''num_attempts'' 5] 1 None)))) = 5"
proof -
  let ?out = "snd (compile_example ''Retry'' [number_parameter ''num_attempts'' 5] 1 None)"
  have key: "action_kind ''Retry'' = BT_RETRY" by (simp add: action_kind_def action_kinds_def)
  have p: "find_parameter [number_parameter ''num_attempts'' 5] ''num_attempts'' = Some 0" by (simp add: number_parameter_def)
  have ps: "node_parameters (out_node ?out) = [number_parameter ''num_attempts'' 5]"
    by (simp add: compile_defs)
  have "\<not> substituted (out_node ?out) (Some 0)" "static_value no_strtod (out_node ?out) (Some 0) 3 = Inr 5"
    using ps by (simp_all add: substituted_def static_value_def number_parameter_def parameter_integer_def double_int_def)
  then show ?thesis
    using compile_node_budget [OF retry_compiles, of "''num_attempts''" 3] unfolding key p
    by (auto simp: is_timed_kind_def)
qed

text \<open>A node that the plan compiler produced under the configured limits.\<close>

definition compiled :: "bt_constants \<Rightarrow> bt_tree_config \<Rightarrow> session_node \<Rightarrow> bool" where
  "compiled K config n \<longleftrightarrow> (\<exists>strtod action ps sizes children parent capacity out out'.
     compile_node strtod K (Some config) (Some action) ps sizes children parent capacity out = (SALTS_OK, out') \<and> n = out_node out')"

lemma compiledI:
  "compile_node strtod K (Some config) (Some action) ps sizes children parent capacity out = (SALTS_OK, out') \<Longrightarrow> compiled K config (out_node out')"
  unfolding compiled_def by blast

lemma compiled_contract:
  assumes "compiled K config n" "host_complete host" "masks_separate K"
  shows "callback_contract_valid K (node_tree n) host"
proof -
  obtain strtod action ps sizes children parent capacity out out' where
    c: "compile_node strtod K (Some config) (Some action) ps sizes children parent capacity out = (SALTS_OK, out')" "n = out_node out'"
    using assms(1) unfolding compiled_def by blast
  obtain l a where "compile_checked strtod K l a ps sizes children parent = Inr (out_node out', out_prune out')"
    using compile_node_ok [OF c(1)] by metis
  then show ?thesis using compile_checked_contract [OF _ assms(2,3)] c(2) by metis
qed

lemma compiled_config: "compiled K config n \<Longrightarrow> \<not> config_invalid K config"
  unfolding compiled_def by (metis compile_node_ok option.inject)

text \<open>A plan of compiled nodes passes every check of the adapter.\<close>

lemma compiled_nodes_answer:
  assumes "list_all (compiled K config) ns" "ns \<noteq> []" "parent_first (map node_tree ns)" "length ns \<le> max_nodes config"
    and bytes: "0 < node_bytes K" "node_bytes K \<le> 2 ^ 32" and "host_complete host" "masks_separate K"
  shows "fst (tree_init R K alloc None config (map node_tree ns) host h) =
    (if alloc Calloc_Impl \<and> alloc Calloc_Nodes then runtime_answer R config (map node_tree ns) else SALTS_ENOMEM)"
proof -
  have "compiled K config (hd ns)" using assms(1,2) by (cases ns) auto
  then have config: "\<not> config_invalid K config" by (rule compiled_config)
  have len: "length ns \<le> 2 ^ 32 - 1" using config assms(4) by (simp add: config_invalid_def)
  have "length ns * node_bytes K \<le> (2 ^ 32 - 1) * 2 ^ 32" using len bytes(2) by (intro mult_mono) auto
  then have "length ns \<le> size_max div node_bytes K" using bytes(1) by (simp add: less_eq_div_iff_mult_less_eq size_max_def)
  moreover have "list_all (\<lambda>d. callback_contract_valid K d host) (map node_tree ns)"
    using assms(1) compiled_contract [OF _ assms(7,8)] by (auto simp: list_all_iff)
  ultimately show ?thesis using config len assms(2-4) by (intro tree_init_answer) auto
qed

end
