(* ===== verification/Session_Plan.thy ===== *)
theory Session_Plan
  imports Orch_Tree Plan_Compiler
begin

text \<open>
  The bridge from an orchestration tree to a session plan: \<open>actions/c11/orch_session_plan.c\<close>. The tree is
  walked with an explicit stack; every node is admitted, its texts are copied and it is compiled. The
  lemmas show that the plan is the recursive preorder of the tree with parents before their children,
  that nothing outside the admitted subset enters it, and which commands have a plan under which profile.

  A node pointer is an index into the tree's nodes, and an index out of range stands for a null pointer.
  The error buffer of capacity \<open>cap\<close> holds the message of a failure, \<open>[]\<close> when there is no buffer.
\<close>

definition contains_mustache :: "string \<Rightarrow> bool" where
  "contains_mustache t \<longleftrightarrow> list_ex (\<lambda>i. (t ! (i - 1) = CHR ''{'' \<and> t ! i = CHR ''{'') \<or> (t ! (i - 1) = CHR ''}'' \<and> t ! i = CHR ''}'')) [1..<length t]"

definition supported :: "orch_type \<Rightarrow> bool" where
  "supported ty \<longleftrightarrow> ty \<in> {ORCH_SEQUENCE, ORCH_FALLBACK, ORCH_SELECTOR, ORCH_INVERTER, ORCH_FORCE_SUCCESS, ORCH_FORCE_FAILURE, ORCH_SET_VARIABLE,
     ORCH_CHECK_EXIT_CODE, ORCH_PARSE_JSON, ORCH_PARSE_KEY_VALUE, ORCH_PARSE_REGEX, ORCH_PARSE_LINES, ORCH_SLEEP}"

datatype orch_plan_profile =
    ORCH_PLAN_DEFAULT | ORCH_PLAN_SINGLE_SHELL | ORCH_PLAN_SINGLE_COMMAND | ORCH_PLAN_COMMAND_JSON | ORCH_PLAN_COMMAND_KEYVALUE
  | ORCH_PLAN_COMMAND_REGEX | ORCH_PLAN_COMMAND_LINES

definition is_command_parser_profile :: "orch_plan_profile \<Rightarrow> bool" where
  "is_command_parser_profile profile \<longleftrightarrow>
     profile \<in> {ORCH_PLAN_COMMAND_JSON, ORCH_PLAN_COMMAND_KEYVALUE, ORCH_PLAN_COMMAND_REGEX, ORCH_PLAN_COMMAND_LINES}"

definition parser_type_for :: "orch_plan_profile \<Rightarrow> orch_type" where
  "parser_type_for profile =
     (if profile = ORCH_PLAN_COMMAND_KEYVALUE then ORCH_PARSE_KEY_VALUE
      else if profile = ORCH_PLAN_COMMAND_REGEX then ORCH_PARSE_REGEX
      else if profile = ORCH_PLAN_COMMAND_LINES then ORCH_PARSE_LINES
      else ORCH_PARSE_JSON)"

definition parser_profile_name :: "orch_plan_profile \<Rightarrow> string" where
  "parser_profile_name profile =
     (if profile = ORCH_PLAN_COMMAND_KEYVALUE then ''KeyValue''
      else if profile = ORCH_PLAN_COMMAND_REGEX then ''Regex''
      else if profile = ORCH_PLAN_COMMAND_LINES then ''Lines''
      else ''JSON'')"

record orch_session_plan =
  plan_nodes :: "session_node list"
  plan_capacity :: nat
  plan_bytes :: nat
  requires_native_process_owner :: bool

record orch_visit =
  visit_node :: nat
  visit_parent :: "nat option"
  visit_depth :: nat

datatype plan_site = Plan_Calloc | Plan_Nodes_Calloc | Stack_Calloc | Ports_Calloc nat | Sizes_Calloc nat | Text_Malloc nat nat

definition plan_fail :: "nat \<Rightarrow> salts_status \<Rightarrow> string \<Rightarrow> 'a build" where
  "plan_fail cap code reason = Inl (code, take (cap - 1) reason)"

section \<open>The accessors of the tree\<close>

definition orch_tree_root :: "orch_tree \<Rightarrow> orch_node option" where
  "orch_tree_root t = (case item_values (orch_nodes t) of [] \<Rightarrow> None | n # _ \<Rightarrow> Some n)"

definition orch_node_at :: "orch_tree \<Rightarrow> nat \<Rightarrow> orch_node option" where
  "orch_node_at t i = (if i < tree_size t then Some (node_at t i) else None)"

definition orch_child_at :: "orch_node \<Rightarrow> nat \<Rightarrow> salts_status + nat" where
  "orch_child_at n index = (if index \<ge> length (children_of n) then Inl SALTS_ENOENT else Inr (children_of n ! index))"

definition orch_param_at :: "orch_node \<Rightarrow> nat \<Rightarrow> salts_status + string \<times> string" where
  "orch_param_at n index = (if index \<ge> length (params_of n) then Inl SALTS_ENOENT else Inr (params_of n ! index))"

section \<open>The profile gates\<close>

definition has_binding :: "orch_node \<Rightarrow> string \<Rightarrow> string \<Rightarrow> bool" where
  "has_binding n key v \<longleftrightarrow> list_ex (\<lambda>j. case orch_param_at n j of Inl _ \<Rightarrow> False | Inr (k, w) \<Rightarrow> k = key \<and> w = v) [0..<length (params_of n)]"

definition child_node :: "orch_tree \<Rightarrow> orch_node \<Rightarrow> nat \<Rightarrow> orch_node option" where
  "child_node t n index = (case orch_child_at n index of Inl _ \<Rightarrow> None | Inr c \<Rightarrow> orch_node_at t c)"

definition single_command_gate :: "nat \<Rightarrow> orch_tree \<Rightarrow> unit build" where
  "single_command_gate cap t =
     (case (orch_tree_root t, tree_size t = 2) of
        (Some r, True) \<Rightarrow>
          (case child_node t r 0 of
             Some child \<Rightarrow>
               if orch_node_type r = ORCH_SEQUENCE \<and> length (children_of r) = 1 \<and> orch_node_type child = ORCH_SHELL then Inr ()
               else plan_fail cap SALTS_ENOTSUP ''Native Command qualification admits only Sequence with one Shell and no postprocessor''
           | None \<Rightarrow> plan_fail cap SALTS_ENOTSUP ''Native Command qualification admits only Sequence with one Shell and no postprocessor'')
      | _ \<Rightarrow> plan_fail cap SALTS_ENOTSUP ''Native Command qualification admits only Sequence with one Shell and no postprocessor'')"

definition parser_suffix :: "orch_plan_profile \<Rightarrow> string" where
  "parser_suffix profile = (if profile \<in> {ORCH_PLAN_COMMAND_KEYVALUE, ORCH_PLAN_COMMAND_REGEX, ORCH_PLAN_COMMAND_LINES} then parser_profile_name profile else ''Json'')"

definition parser_topology :: "orch_plan_profile \<Rightarrow> orch_tree \<Rightarrow> (orch_node \<times> orch_node) option" where
  "parser_topology profile t =
     (if tree_size t \<noteq> 3 then None
      else case orch_tree_root t of
        None \<Rightarrow> None
      | Some r \<Rightarrow>
          if orch_node_type r \<noteq> ORCH_SEQUENCE \<or> length (children_of r) \<noteq> 2 then None
          else case (child_node t r 0, child_node t r 1) of
            (Some shell, Some parser) \<Rightarrow>
              if orch_node_type shell \<noteq> ORCH_SHELL \<or> orch_node_type parser \<noteq> parser_type_for profile \<or>
                 length (children_of shell) \<noteq> 0 \<or> length (children_of parser) \<noteq> 0 then None
              else Some (shell, parser)
          | _ \<Rightarrow> None)"

definition command_parser_gate :: "nat \<Rightarrow> orch_plan_profile \<Rightarrow> orch_tree \<Rightarrow> unit build" where
  "command_parser_gate cap profile t =
     (case parser_topology profile t of
        None \<Rightarrow> plan_fail cap SALTS_ENOTSUP (take 179 (''Native Command '' @ parser_profile_name profile @
          '' qualification requires one Shell followed by Parse'' @ parser_suffix profile))
      | Some (shell, parser) \<Rightarrow>
          if \<not> has_binding shell ''output_key'' ''stdout'' \<or> \<not> has_binding parser ''input_key'' ''stdout''
          then plan_fail cap SALTS_ENOTSUP (take 179 (''Native Command '' @ parser_profile_name profile @ '' requires canonical stdout port binding''))
          else Inr ())"

definition single_shell_gate :: "nat \<Rightarrow> orch_tree \<Rightarrow> unit build" where
  "single_shell_gate cap t =
     (if tree_size t \<noteq> 1 \<or> map_option orch_node_type (orch_tree_root t) \<noteq> Some ORCH_SHELL
      then plan_fail cap SALTS_ENOTSUP ''Native Shell qualification only admits one canonical Shell node'' else Inr ())"

definition profile_gate :: "nat \<Rightarrow> orch_plan_profile \<Rightarrow> orch_tree \<Rightarrow> unit build" where
  "profile_gate cap profile t =
     (if profile = ORCH_PLAN_SINGLE_COMMAND then single_command_gate cap t
      else if is_command_parser_profile profile then command_parser_gate cap profile t
      else if profile = ORCH_PLAN_SINGLE_SHELL then single_shell_gate cap t
      else Inr ())"

section \<open>One node\<close>

definition admitted :: "orch_plan_profile \<Rightarrow> nat \<Rightarrow> orch_type \<Rightarrow> bool" where
  "admitted profile node_capacity ty \<longleftrightarrow> supported ty \<or>
     (profile = ORCH_PLAN_SINGLE_SHELL \<and> ty = ORCH_SHELL \<and> node_capacity = 1) \<or>
     (profile = ORCH_PLAN_SINGLE_COMMAND \<and> ty = ORCH_SHELL) \<or>
     (is_command_parser_profile profile \<and> ty = ORCH_SHELL)"

text \<open>The parameters of node \<open>i\<close> from number \<open>j\<close> on, copied with their retained bytes.\<close>

fun copy_params ::
  "plan_site allocator \<Rightarrow> nat \<Rightarrow> nat \<Rightarrow> nat \<Rightarrow> (string \<times> string) list \<Rightarrow> nat \<Rightarrow> ((leaf_parameter \<times> nat) list \<times> nat) build" where
  "copy_params mem cap i j [] bytes = Inr ([], bytes)"
| "copy_params mem cap i j ((k, v) # ps) bytes =
     (if length (c_text k) \<noteq> length k then plan_fail cap SALTS_EINVAL ''Invalid canonical Orch parameter''
      else if CHR 0x00 \<in> set v then plan_fail cap SALTS_ENOTSUP ''Binary Orch parameter cannot enter native C11 leaf''
      else if contains_mustache v then plan_fail cap SALTS_ENOTSUP ''Orch Mustache expansion not qualified for native C11 Session''
      else if bytes \<ge> max_bytes \<or> length v \<ge> max_bytes - bytes then plan_fail cap SALTS_EINVAL ''Orch Session Plan text budget exceeded''
      else if \<not> mem (Text_Malloc i j) then plan_fail cap SALTS_ENOMEM ''Cannot copy Orch parameter text''
      else and_then (copy_params mem cap i (j + 1) ps (bytes + length v + 1)) (\<lambda>(cs, b).
        Inr ((\<lparr>param_name = Some k, param_kind = LEAF_STRING, param_text = Some v, param_number = Some 0, param_boolean = False\<rparr>, length v) # cs, b)))"

text \<open>The compiler's output before it is written: no node is read from it.\<close>

definition no_output :: compile_output where
  "no_output =
     \<lparr>out_node = \<lparr>node_tree = \<lparr>parent_index = None, bt_kind = BT_LEAF, bt_limit = 0, duration_ns = 0, condition_callback = False,
        parallel_hooks = False, dynamic_parameter_mask = 0\<rparr>, node_action = [], node_parameters = [], text_sizes = None, node_terminal = TERMINAL_RUNTIME\<rparr>,
      out_prune = False, out_error = []\<rparr>"

text \<open>A visit: the compiled node, the retained bytes, and the children to push in order.\<close>

definition visit_step ::
  "strtod \<Rightarrow> bt_constants \<Rightarrow> plan_site allocator \<Rightarrow> nat \<Rightarrow> orch_plan_profile \<Rightarrow> bt_tree_config \<Rightarrow> orch_tree \<Rightarrow> nat \<Rightarrow> nat \<Rightarrow> nat \<Rightarrow> orch_visit \<Rightarrow>
   (session_node \<times> nat \<times> nat list) build" where
  "visit_step strtod K mem cap profile limits t index bytes height visit =
     (case orch_node_at t (visit_node visit) of
        None \<Rightarrow> plan_fail cap SALTS_EINVAL ''Invalid Orch tree or excessive depth''
      | Some n \<Rightarrow>
          let children = length (children_of n); params = length (params_of n) in
          if index \<ge> tree_size t \<or> visit_depth visit > max_depth limits
          then plan_fail cap SALTS_EINVAL ''Invalid Orch tree or excessive depth''
          else if \<not> admitted profile (tree_size t) (orch_node_type n)
          then plan_fail cap SALTS_ENOTSUP ''Orch action not qualified for native C11 Session; no Legacy fallback''
          else if params > max_params \<or> children \<ge> tree_size t \<or> children > size_sub (size_sub (tree_size t) height) 1
          then plan_fail cap SALTS_EINVAL ''Invalid Orch parameter/child budget''
          else if params \<noteq> 0 \<and> (\<not> mem (Ports_Calloc index) \<or> \<not> mem (Sizes_Calloc index))
          then plan_fail cap SALTS_ENOMEM ''Cannot allocate C11 typed ports''
          else and_then (copy_params mem cap index 0 (params_of n) bytes) (\<lambda>(copies, b).
            case compile_node strtod K (Some limits) (Some (spec_name (spec_for (orch_node_type n)))) (map fst copies)
                (if params = 0 then None else Some (map snd copies)) children (visit_parent visit) cap no_output of
              (status, res) \<Rightarrow>
                if status \<noteq> SALTS_OK then Inl (status, out_error res)
                else if out_prune res then plan_fail cap SALTS_ENOTSUP ''Native C11 Orch static pruning not yet qualified''
                else if height + children > tree_size t \<or> list_ex (\<lambda>c. orch_node_at t c = None) (children_of n)
                then plan_fail cap SALTS_EINVAL ''Broken Orch preorder child reference''
                else Inr (out_node res, b, children_of n)))"

section \<open>The walk\<close>

lemma visit_step_index: "visit_step strtod K mem cap profile limits t i bytes height visit = Inr r \<Longrightarrow> i < tree_size t"
  by (auto simp: visit_step_def Let_def plan_fail_def split: option.splits if_splits)

function plan_loop ::
  "strtod \<Rightarrow> bt_constants \<Rightarrow> plan_site allocator \<Rightarrow> nat \<Rightarrow> orch_plan_profile \<Rightarrow> bt_tree_config \<Rightarrow> orch_tree \<Rightarrow>
   session_node list \<Rightarrow> nat \<Rightarrow> orch_visit list \<Rightarrow> (session_node list \<times> nat) build" where
  "plan_loop strtod K mem cap profile limits t nodes bytes [] = Inr (nodes, bytes)"
| "plan_loop strtod K mem cap profile limits t nodes bytes (visit # stack) =
     (case visit_step strtod K mem cap profile limits t (length nodes) bytes (length stack) visit of
        Inl e \<Rightarrow> Inl e
      | Inr (n, b, cs) \<Rightarrow>
          plan_loop strtod K mem cap profile limits t (nodes @ [n]) b
            (map (\<lambda>c. \<lparr>visit_node = c, visit_parent = Some (length nodes), visit_depth = visit_depth visit + 1\<rparr>) cs @ stack))"
  by pat_completeness auto
termination
proof (relation "measure (\<lambda>(strtod, K, mem, cap, profile, limits, t, nodes, bytes, stack). tree_size t - length nodes)")
qed (auto dest!: visit_step_index)

definition create_plan ::
  "strtod \<Rightarrow> bt_constants \<Rightarrow> plan_site allocator \<Rightarrow> orch_tree option \<Rightarrow> bt_tree_config option \<Rightarrow> nat \<Rightarrow> orch_plan_profile \<Rightarrow> orch_session_plan build" where
  "create_plan strtod K mem tree limits cap profile =
     (case (tree, limits) of
        (Some t, Some l) \<Rightarrow>
          if tree_size t = 0 \<or> tree_size t > max_orch_nodes \<or> max_nodes l = 0 \<or> tree_size t > max_nodes l \<or> max_depth l = 0 \<or>
             max_depth l > bt_max_depth K \<or> max_control_iterations l = 0 \<or> max_control_iterations l > bt_max_control_iterations K
          then plan_fail cap SALTS_EINVAL ''Orch Session Plan exceeds C11 behavior-tree limits''
          else if \<not> mem Plan_Calloc then plan_fail cap SALTS_ENOMEM ''Cannot allocate Orch Session Plan''
          else and_then (profile_gate cap profile t) (\<lambda>_.
            if \<not> mem Plan_Nodes_Calloc \<or> \<not> mem Stack_Calloc
            then plan_fail cap SALTS_ENOMEM ''Cannot allocate bounded Orch Session Plan nodes''
            else and_then (plan_loop strtod K mem cap profile l t [] 0 [\<lparr>visit_node = 0, visit_parent = None, visit_depth = 1\<rparr>]) (\<lambda>(nodes, bytes).
              if length nodes \<noteq> tree_size t
              then plan_fail cap SALTS_EINVAL ''Orch Session Plan contains unreachable or repeated nodes''
              else Inr \<lparr>plan_nodes = nodes, plan_capacity = tree_size t, plan_bytes = bytes,
                requires_native_process_owner = (profile \<noteq> ORCH_PLAN_DEFAULT)\<rparr>))
      | _ \<Rightarrow> plan_fail cap SALTS_EINVAL ''Invalid C11 Orch Session Plan input'')"

section \<open>One visit\<close>

lemma copy_params_ok:
  assumes "copy_params mem cap i j ps bytes = Inr (cs, b)"
  shows "map (\<lambda>c. (param_name (fst c), param_text (fst c))) cs = map (\<lambda>(k, v). (Some k, Some v)) ps \<and> b = bytes + params_bytes ps \<and>
    list_all (\<lambda>p. CHR 0x00 \<notin> set (snd p) \<and> \<not> contains_mustache (snd p)) ps \<and> (bytes \<le> max_bytes \<longrightarrow> b \<le> max_bytes)"
  using assms
proof (induction mem cap i j ps bytes arbitrary: cs b rule: copy_params.induct)
  case (2 mem cap i j k v ps bytes)
  note guards = 2(2) [unfolded copy_params.simps plan_fail_def]
  have g: "length (c_text k) = length k" "CHR 0x00 \<notin> set v" "\<not> contains_mustache v" "length v < max_bytes - bytes" "mem (Text_Malloc i j)"
    using guards by (auto split: if_splits)
  obtain cs' where cs': "copy_params mem cap i (j + 1) ps (bytes + length v + 1) = Inr (cs', b)"
    "cs = (\<lparr>param_name = Some k, param_kind = LEAF_STRING, param_text = Some v, param_number = Some 0, param_boolean = False\<rparr>, length v) # cs'"
    using guards by (cases "copy_params mem cap i (j + 1) ps (bytes + length v + 1)") (auto split: if_splits)
  have "map (\<lambda>c. (param_name (fst c), param_text (fst c))) cs' = map (\<lambda>(k, v). (Some k, Some v)) ps \<and> b = bytes + length v + 1 + params_bytes ps \<and>
    list_all (\<lambda>p. CHR 0x00 \<notin> set (snd p) \<and> \<not> contains_mustache (snd p)) ps \<and> (bytes + length v + 1 \<le> max_bytes \<longrightarrow> b \<le> max_bytes)"
    by (rule 2(1)) (use g cs' in \<open>simp_all add: not_le\<close>)
  then show ?case using g cs'(2) by auto
qed simp

lemma compile_keeps:
  assumes "compile_node strtod K limits action parameters sizes children parent capacity output = (SALTS_OK, output')"
  shows "node_action (out_node output') = the action" "node_parameters (out_node output') = parameters"
    "parent_index (node_tree (out_node output')) = parent"
proof -
  obtain l a where la: "action = Some a" and c: "compile_checked strtod K l a parameters sizes children parent = Inr (out_node output', out_prune output')"
    using compile_node_ok [OF assms] by metis
  obtain n skip condition where n: "initial_node a parameters sizes children parent condition = (n, skip)"
    and i: "case control_key (bt_kind (node_tree n)) of None \<Rightarrow> (out_node output', out_prune output') = (n, skip)
      | Some entry \<Rightarrow> apply_control strtod K l n skip entry = Inr (out_node output', out_prune output')"
    by (rule compile_checkedD [OF c])
  have keep: "node_action n' = node_action n \<and> node_parameters n' = node_parameters n \<and> parent_index (node_tree n') = parent_index (node_tree n)"
    if "apply_control strtod K l n skip entry = Inr (n', skip')" for n n' skip skip' entry
    using that unfolding apply_control_def Let_def by (auto split: if_splits sum.splits prod.splits)
  have "node_action n = a \<and> node_parameters n = parameters \<and> parent_index (node_tree n) = parent"
    using n by (auto simp: initial_node_def Let_def)
  moreover have "node_action (out_node output') = node_action n \<and> node_parameters (out_node output') = node_parameters n \<and>
      parent_index (node_tree (out_node output')) = parent_index (node_tree n)"
    using i keep [of n skip] by (cases "control_key (bt_kind (node_tree n))") auto
  ultimately show "node_action (out_node output') = the action" "node_parameters (out_node output') = parameters"
    "parent_index (node_tree (out_node output')) = parent" using la by auto
qed

text \<open>What a plan node says of the tree node it stands for.\<close>

definition represents :: "bt_constants \<Rightarrow> orch_plan_profile \<Rightarrow> bt_tree_config \<Rightarrow> orch_tree \<Rightarrow> nat \<Rightarrow> session_node \<Rightarrow> bool" where
  "represents K profile limits t i n \<longleftrightarrow> i < tree_size t \<and> compiled K limits n \<and> admitted profile (tree_size t) (orch_node_type (node_at t i)) \<and>
     node_action n = spec_name (spec_for (orch_node_type (node_at t i))) \<and>
     map (\<lambda>p. (param_name p, param_text p)) (node_parameters n) = map (\<lambda>(k, v). (Some k, Some v)) (params_of (node_at t i)) \<and>
     list_all (\<lambda>p. CHR 0x00 \<notin> set (snd p) \<and> \<not> contains_mustache (snd p)) (params_of (node_at t i))"

lemma visit_step_ok:
  assumes "visit_step strtod K mem cap profile limits t index bytes height visit = Inr (n, b, cs)"
  shows "represents K profile limits t (visit_node visit) n" "cs = children_of (node_at t (visit_node visit))"
    "parent_index (node_tree n) = visit_parent visit" "b = bytes + params_bytes (params_of (node_at t (visit_node visit)))"
    "bytes \<le> max_bytes \<Longrightarrow> b \<le> max_bytes" "visit_depth visit \<le> max_depth limits"
proof -
  let ?i = "visit_node visit" and ?n = "node_at t (visit_node visit)"
  have i: "orch_node_at t ?i = Some ?n" "?i < tree_size t"
    using assms by (auto simp: visit_step_def orch_node_at_def plan_fail_def split: if_splits)
  note run = assms [unfolded visit_step_def i(1) option.case Let_def plan_fail_def]
  have ad: "admitted profile (tree_size t) (orch_node_type ?n)" and dep: "visit_depth visit \<le> max_depth limits"
    using run by (auto split: if_splits)
  obtain cps where cps: "copy_params mem cap index 0 (params_of ?n) bytes = Inr cps"
    using run by (cases "copy_params mem cap index 0 (params_of ?n) bytes") (auto split: if_splits)
  obtain copies b' where cb: "cps = (copies, b')" by fastforce
  let ?sizes = "if length (params_of ?n) = 0 then None else Some (map snd copies)"
  obtain status res where co: "compile_node strtod K (Some limits) (Some (spec_name (spec_for (orch_node_type ?n)))) (map fst copies) ?sizes
      (length (children_of ?n)) (visit_parent visit) cap no_output = (status, res)" by fastforce
  have fin: "status = SALTS_OK" "n = out_node res" "b = b'" "cs = children_of ?n"
    using run [unfolded cps cb and_then.simps prod.case co] by (auto split: if_splits)
  note co' = co [unfolded fin(1)]
  note cp = copy_params_ok [OF cps [unfolded cb]]
  show "cs = children_of ?n" "visit_depth visit \<le> max_depth limits" using fin dep by simp_all
  show "parent_index (node_tree n) = visit_parent visit" using compile_keeps(3) [OF co'] fin by simp
  show "b = bytes + params_bytes (params_of ?n)" "bytes \<le> max_bytes \<Longrightarrow> b \<le> max_bytes" using cp fin by simp_all
  show "represents K profile limits t ?i n"
    using i ad cp compile_keeps(1,2) [OF co'] compiledI [OF co'] fin unfolding represents_def by (auto simp: comp_def)
qed

section \<open>The order of the plan\<close>

text \<open>The recursive preorder of a tree whose children come after their parents.\<close>

definition forward :: "orch_tree \<Rightarrow> bool" where
  "forward t \<longleftrightarrow> (\<forall>i < tree_size t. \<forall>c \<in> set (children_of (node_at t i)). i < c \<and> c < tree_size t)"

function preorder :: "orch_tree \<Rightarrow> nat \<Rightarrow> nat list" where
  "preorder t i = i # concat (map (preorder t) (filter (\<lambda>c. i < c \<and> c < tree_size t) (children_of (node_at t i))))"
  by pat_completeness auto
termination
  by (relation "measure (\<lambda>(t, i). tree_size t - i)") auto

declare preorder.simps [simp del]

lemma preorder_forward:
  assumes "forward t" "i < tree_size t"
  shows "preorder t i = i # concat (map (preorder t) (children_of (node_at t i)))"
proof -
  have "filter (\<lambda>c. i < c \<and> c < tree_size t) (children_of (node_at t i)) = children_of (node_at t i)"
    using assms unfolding forward_def by (intro filter_True) blast
  then show ?thesis by (subst preorder.simps [of t i]) (simp only:)
qed

text \<open>The tree nodes visited so far with their plan nodes, and the visits still to come.\<close>

definition plan_inv :: "bt_constants \<Rightarrow> orch_plan_profile \<Rightarrow> bt_tree_config \<Rightarrow> orch_tree \<Rightarrow> nat list \<Rightarrow> session_node list \<Rightarrow> nat \<Rightarrow> bool" where
  "plan_inv K profile limits t vs nodes bytes \<longleftrightarrow> list_all2 (represents K profile limits t) vs nodes \<and>
     (\<forall>k < length nodes. case parent_index (node_tree (nodes ! k)) of
        None \<Rightarrow> k = 0 | Some p \<Rightarrow> p < k \<and> vs ! k \<in> set (children_of (node_at t (vs ! p)))) \<and>
     bytes = sum_list (map (\<lambda>i. params_bytes (params_of (node_at t i))) vs) \<and> bytes \<le> max_bytes"

definition pending :: "orch_tree \<Rightarrow> nat list \<Rightarrow> orch_visit list \<Rightarrow> bool" where
  "pending t vs stack \<longleftrightarrow> (\<forall>v \<in> set stack. case visit_parent v of
     None \<Rightarrow> vs = [] \<and> length stack = 1 | Some p \<Rightarrow> p < length vs \<and> visit_node v \<in> set (children_of (node_at t (vs ! p))))"

lemma plan_inv_step:
  assumes inv: "plan_inv K profile limits t vs nodes bytes" and todo: "pending t vs (visit # stack)"
    and step: "visit_step strtod K mem cap profile limits t (length nodes) bytes (length stack) visit = Inr (n, b, cs)"
  shows "plan_inv K profile limits t (vs @ [visit_node visit]) (nodes @ [n]) b"
    "pending t (vs @ [visit_node visit])
      (map (\<lambda>c. \<lparr>visit_node = c, visit_parent = Some (length nodes), visit_depth = visit_depth visit + 1\<rparr>) cs @ stack)"
proof -
  note ok = visit_step_ok [OF step]
  have len: "length vs = length nodes" using inv by (auto simp: plan_inv_def dest: list_all2_lengthD)
  have parent: "case parent_index (node_tree n) of None \<Rightarrow> length nodes = 0 | Some p \<Rightarrow> p < length nodes \<and> visit_node visit \<in> set (children_of (node_at t (vs ! p)))"
    using todo len unfolding ok(3) pending_def by (auto split: option.splits)
  show "plan_inv K profile limits t (vs @ [visit_node visit]) (nodes @ [n]) b"
    unfolding plan_inv_def
  proof (intro conjI allI impI)
    show "list_all2 (represents K profile limits t) (vs @ [visit_node visit]) (nodes @ [n])"
      using inv ok(1) by (simp add: plan_inv_def list_all2_appendI)
    show "b = sum_list (map (\<lambda>i. params_bytes (params_of (node_at t i))) (vs @ [visit_node visit]))" "b \<le> max_bytes"
      using inv ok(4,5) by (simp_all add: plan_inv_def)
    fix k assume "k < length (nodes @ [n])"
    then consider "k < length nodes" | "k = length nodes" by fastforce
    then show "case parent_index (node_tree ((nodes @ [n]) ! k)) of None \<Rightarrow> k = 0
      | Some p \<Rightarrow> p < k \<and> (vs @ [visit_node visit]) ! k \<in> set (children_of (node_at t ((vs @ [visit_node visit]) ! p)))"
    proof cases
      case 1
      then have "case parent_index (node_tree (nodes ! k)) of None \<Rightarrow> k = 0 | Some p \<Rightarrow> p < k \<and> vs ! k \<in> set (children_of (node_at t (vs ! p)))"
        using inv by (simp add: plan_inv_def)
      then show ?thesis using 1 len by (auto simp: nth_append split: option.splits)
    next
      case 2
      then show ?thesis using parent len by (auto simp: nth_append split: option.splits)
    qed
  qed
  have old: "case visit_parent v of None \<Rightarrow> False | Some p \<Rightarrow> p < length vs \<and> visit_node v \<in> set (children_of (node_at t (vs ! p)))" if v: "v \<in> set stack" for v
    using todo v unfolding pending_def by (cases stack) (auto split: option.splits)
  show "pending t (vs @ [visit_node visit])
      (map (\<lambda>c. \<lparr>visit_node = c, visit_parent = Some (length nodes), visit_depth = visit_depth visit + 1\<rparr>) cs @ stack)"
    unfolding pending_def using old len ok(2) by (fastforce simp: nth_append split: option.splits)
qed

lemma plan_loop_ok:
  assumes "plan_loop strtod K mem cap profile limits t nodes bytes stack = Inr (nodes', bytes')"
    and "plan_inv K profile limits t vs nodes bytes" "pending t vs stack"
  shows "\<exists>ws. plan_inv K profile limits t (vs @ ws) nodes' bytes' \<and> (forward t \<longrightarrow> ws = concat (map (\<lambda>v. preorder t (visit_node v)) stack))"
  using assms
proof (induction strtod K mem cap profile limits t nodes bytes stack arbitrary: vs rule: plan_loop.induct)
  case (1 strtod K mem cap profile limits t nodes bytes)
  then show ?case by (intro exI [of _ "[]"]) simp
next
  case (2 strtod K mem cap profile limits t nodes bytes visit stack)
  obtain n b cs where step: "visit_step strtod K mem cap profile limits t (length nodes) bytes (length stack) visit = Inr (n, b, cs)"
    using 2(2) by (auto split: sum.splits)
  note next' = plan_inv_step [OF 2(3,4) step]
  let ?push = "map (\<lambda>c. \<lparr>visit_node = c, visit_parent = Some (length nodes), visit_depth = visit_depth visit + 1\<rparr>) cs"
  have "plan_loop strtod K mem cap profile limits t (nodes @ [n]) b (?push @ stack) = Inr (nodes', bytes')" using 2(2) step by simp
  then obtain ws where ws: "plan_inv K profile limits t ((vs @ [visit_node visit]) @ ws) nodes' bytes'"
    "forward t \<longrightarrow> ws = concat (map (\<lambda>v. preorder t (visit_node v)) (?push @ stack))"
    using 2(1) [OF step refl refl _ next'] by blast
  have "visit_node visit < tree_size t" using visit_step_ok(1) [OF step] by (simp add: represents_def)
  then show ?case using ws visit_step_ok(2) [OF step]
    by (intro exI [of _ "visit_node visit # ws"]) (auto simp: preorder_forward comp_def)
qed

text \<open>The facts of a plan.\<close>

definition plan_of :: "bt_constants \<Rightarrow> orch_plan_profile \<Rightarrow> bt_tree_config \<Rightarrow> orch_tree \<Rightarrow> nat list \<Rightarrow> orch_session_plan \<Rightarrow> bool" where
  "plan_of K profile limits t vs plan \<longleftrightarrow> plan_inv K profile limits t vs (plan_nodes plan) (plan_bytes plan) \<and> length vs = tree_size t \<and> vs \<noteq> [] \<and>
     tree_size t \<le> max_nodes limits \<and> plan_capacity plan = tree_size t"

lemma create_plan_ok:
  assumes "create_plan strtod K mem (Some t) (Some limits) cap profile = Inr plan"
  shows "\<exists>vs. plan_of K profile limits t vs plan \<and> (forward t \<longrightarrow> vs = preorder t 0)"
    "profile_gate cap profile t = Inr ()" "requires_native_process_owner plan \<longleftrightarrow> profile \<noteq> ORCH_PLAN_DEFAULT"
proof -
  let ?stack = "[\<lparr>visit_node = 0, visit_parent = None, visit_depth = 1\<rparr>]"
  note run = assms [unfolded create_plan_def prod.case option.case plan_fail_def]
  have gate: "profile_gate cap profile t = Inr ()" using run by (cases "profile_gate cap profile t") (auto split: if_splits)
  then show "profile_gate cap profile t = Inr ()" .
  obtain nodes bytes where loop: "plan_loop strtod K mem cap profile limits t [] 0 ?stack = Inr (nodes, bytes)"
    using run gate by (cases "plan_loop strtod K mem cap profile limits t [] 0 ?stack") (auto split: if_splits)
  have plan: "plan = \<lparr>plan_nodes = nodes, plan_capacity = tree_size t, plan_bytes = bytes, requires_native_process_owner = (profile \<noteq> ORCH_PLAN_DEFAULT)\<rparr>"
    "length nodes = tree_size t" "tree_size t \<noteq> 0" "tree_size t \<le> max_nodes limits"
    using run gate loop by (auto split: if_splits)
  then show "requires_native_process_owner plan \<longleftrightarrow> profile \<noteq> ORCH_PLAN_DEFAULT" by simp
  have "plan_inv K profile limits t [] [] 0" "pending t [] ?stack" by (simp_all add: plan_inv_def pending_def)
  from plan_loop_ok [OF loop this] obtain ws where ws: "plan_inv K profile limits t ws nodes bytes" "forward t \<longrightarrow> ws = preorder t 0" by auto
  then have "length ws = length nodes" by (auto simp: plan_inv_def dest: list_all2_lengthD)
  then show "\<exists>vs. plan_of K profile limits t vs plan \<and> (forward t \<longrightarrow> vs = preorder t 0)"
    using ws plan unfolding plan_of_def by (intro exI [of _ ws]) auto
qed

section \<open>Plans of flat lists\<close>

lemma flat_forward: "orch_from_flat_nodes mem inputs = Inr t \<Longrightarrow> forward t"
  unfolding forward_def using flat_tree(2) by blast

lemma preorder_self: "i \<in> set (preorder t i)"
  by (subst preorder.simps) simp

lemma preorder_child:
  assumes "forward t"
  shows "i < tree_size t \<Longrightarrow> p \<in> set (preorder t i) \<Longrightarrow> p < tree_size t \<and> (\<forall>c \<in> set (children_of (node_at t p)). c \<in> set (preorder t i))"
proof (induction "tree_size t - i" arbitrary: i rule: less_induct)
  case less
  have kids: "i < c \<and> c < tree_size t" if "c \<in> set (children_of (node_at t i))" for c
    using assms less.prems(1) that unfolding forward_def by blast
  have members: "set (preorder t i) = insert i (\<Union>c \<in> set (children_of (node_at t i)). set (preorder t c))"
    unfolding preorder_forward [OF assms less.prems(1)] by simp
  consider "p = i" | c where "c \<in> set (children_of (node_at t i))" "p \<in> set (preorder t c)"
    using less.prems(2) unfolding members by blast
  then show ?case
  proof cases
    case 1
    then show ?thesis using less.prems(1) preorder_self unfolding members by blast
  next
    case 2
    have "tree_size t - c < tree_size t - i" using kids [OF 2(1)] by (auto intro: diff_less_mono2)
    from less.hyps [OF this _ 2(2)] show ?thesis using kids [OF 2(1)] 2(1) unfolding members by blast
  qed
qed

text \<open>A flat tree's preorder reaches every node.\<close>

lemma flat_preorder_all:
  assumes "orch_from_flat_nodes mem inputs = Inr t" "0 < tree_size t"
  shows "set (preorder t 0) = {..<tree_size t}"
proof -
  note child = preorder_child [OF flat_forward [OF assms(1)] assms(2)]
  have "j < tree_size t \<Longrightarrow> j \<in> set (preorder t 0)" for j
  proof (induction j rule: less_induct)
    case (less j)
    show ?case
    proof (cases "j = 0")
      case False
      then obtain p where p: "p < tree_size t" "j \<in> set (children_of (node_at t p))"
        using flat_tree(3) [OF assms(1) less.prems] by auto
      then have "p < j" using flat_tree(2) [OF assms(1)] by blast
      then show ?thesis using less.IH p child by blast
    qed (simp add: preorder_self)
  qed
  then show ?thesis using child by blast
qed

text \<open>What both claims below rest on.\<close>

lemma flat_plan:
  assumes "orch_from_flat_nodes mem inputs = Inr t" "create_plan strtod K mem' (Some t) (Some limits) cap profile = Inr plan"
  shows "plan_of K profile limits t (preorder t 0) plan" "distinct (preorder t 0)" "set (preorder t 0) = {..<tree_size t}"
proof -
  show plan: "plan_of K profile limits t (preorder t 0) plan" using create_plan_ok(1) [OF assms(2)] flat_forward [OF assms(1)] by blast
  then have len: "length (preorder t 0) = tree_size t" "0 < tree_size t" by (auto simp: plan_of_def)
  show all: "set (preorder t 0) = {..<tree_size t}" by (rule flat_preorder_all [OF assms(1) len(2)])
  show "distinct (preorder t 0)" by (rule card_distinct) (simp add: all len)
qed

text \<open>
  C37. The session plan of an accepted flat list is its recursive preorder, although the walk uses an
  explicit stack: every node of the tree appears exactly once, compiled under its catalog name with
  its parameters, and the parent of a plan node is an earlier plan node that stands for its parent in
  the tree. The retained bytes are those of the copied texts.
\<close>

theorem session_plan_preorder:
  assumes "orch_from_flat_nodes mem inputs = Inr t" "create_plan strtod K mem' (Some t) (Some limits) cap profile = Inr plan"
  shows "distinct (preorder t 0) \<and> set (preorder t 0) = {..<tree_size t} \<and>
    list_all2 (represents K profile limits t) (preorder t 0) (plan_nodes plan) \<and>
    (\<forall>k < tree_size t. case parent_index (node_tree (plan_nodes plan ! k)) of
       None \<Rightarrow> k = 0 | Some p \<Rightarrow> p < k \<and> preorder t 0 ! k \<in> set (children_of (node_at t (preorder t 0 ! p)))) \<and>
    plan_bytes plan = sum_list (map (\<lambda>i. params_bytes (params_of (node_at t i))) (preorder t 0)) \<and> plan_bytes plan \<le> max_bytes"
proof -
  note f = flat_plan [OF assms]
  have "length (plan_nodes plan) = tree_size t" using f(1) by (auto simp: plan_of_def plan_inv_def dest: list_all2_lengthD)
  then show ?thesis using f by (auto simp: plan_of_def plan_inv_def)
qed

text \<open>
  C38. Native plans fail closed: when the default plan of a flat list is created, every node of the
  list is of an admitted type, in particular none runs a shell, and no parameter text contains a NUL
  byte or a double brace.
\<close>

theorem default_plan_fails_closed:
  assumes "orch_from_flat_nodes mem inputs = Inr t" "create_plan strtod K mem' (Some t) (Some limits) cap ORCH_PLAN_DEFAULT = Inr plan" "i < tree_size t"
  shows "supported (orch_node_type (node_at t i)) \<and> orch_node_type (node_at t i) \<noteq> ORCH_SHELL \<and>
    (\<forall>p \<in> set (params_of (node_at t i)). CHR 0x00 \<notin> set (snd p) \<and> \<not> contains_mustache (snd p)) \<and> \<not> requires_native_process_owner plan"
proof -
  note f = flat_plan [OF assms(1,2)]
  have "i \<in> set (preorder t 0)" using f(3) assms(3) by simp
  then obtain k where k: "k < length (preorder t 0)" "preorder t 0 ! k = i" unfolding in_set_conv_nth by blast
  have "list_all2 (represents K ORCH_PLAN_DEFAULT limits t) (preorder t 0) (plan_nodes plan)" using f(1) unfolding plan_of_def plan_inv_def by blast
  from list_all2_nthD [OF this k(1)] have "represents K ORCH_PLAN_DEFAULT limits t i (plan_nodes plan ! k)" unfolding k(2) .
  then have s: "supported (orch_node_type (node_at t i))" and "list_all (\<lambda>p. CHR 0x00 \<notin> set (snd p) \<and> \<not> contains_mustache (snd p)) (params_of (node_at t i))"
    by (auto simp: represents_def admitted_def is_command_parser_profile_def)
  moreover have "orch_node_type (node_at t i) \<noteq> ORCH_SHELL" using s by (rule contrapos_pn) (simp add: supported_def)
  ultimately show ?thesis using create_plan_ok(3) [OF assms(2)] unfolding list_all_iff by blast
qed


definition sample_list :: "flat_node list" where
  "sample_list =
     [\<lparr>flat_type = Some ORCH_SEQUENCE, flat_parent = None, flat_params = []\<rparr>,
      \<lparr>flat_type = Some ORCH_INVERTER, flat_parent = Some 0, flat_params = []\<rparr>,
      \<lparr>flat_type = Some ORCH_SLEEP, flat_parent = Some 0, flat_params = [(Some ''duration'', Some ''5'')]\<rparr>,
      \<lparr>flat_type = Some ORCH_SET_VARIABLE, flat_parent = Some 1, flat_params = [(Some ''Key'', Some ''out'')]\<rparr>]"

lemma sample_list_keys:
  "orch_param_key (spec_for ORCH_SET_VARIABLE) ''Key'' = Some ''key''" "orch_param_key (spec_for ORCH_SLEEP) ''duration'' = Some ''duration''"
  by code_simp+

lemmas build_defs = orch_from_flat_nodes_def flat_invalid_def flat_attach_def orch_add_node_def orch_add_param_def orch_append_def
  orch_has_param_def set_node_def items_append_def orch_reserve_def grow_capacity.simps check_node_def
  orch_single_child_def empty_tree_def max_orch_nodes_def max_commands_def max_params_def max_bytes_def size_max_def size_sub_def

definition sample_tree :: orch_tree where
  "sample_tree = \<lparr>orch_nodes = \<lparr>item_values =
     [\<lparr>orch_node_type = ORCH_SEQUENCE, orch_params = no_items, orch_children = \<lparr>item_values = [1, 2], item_capacity = 4\<rparr>\<rparr>,
      \<lparr>orch_node_type = ORCH_INVERTER, orch_params = no_items, orch_children = \<lparr>item_values = [3], item_capacity = 4\<rparr>\<rparr>,
      \<lparr>orch_node_type = ORCH_SLEEP, orch_params = \<lparr>item_values = [(''duration'', ''5'')], item_capacity = 4\<rparr>, orch_children = no_items\<rparr>,
      \<lparr>orch_node_type = ORCH_SET_VARIABLE, orch_params = \<lparr>item_values = [(''key'', ''out'')], item_capacity = 4\<rparr>, orch_children = no_items\<rparr>],
     item_capacity = 4\<rparr>, retained_bytes = 6\<rparr>"

lemma sample_list_tree: "orch_from_flat_nodes no_oom sample_list = Inr sample_tree"
  by (simp add: sample_list_def sample_tree_def build_defs sample_list_keys [unfolded spec_for.simps leaf_spec_def] control_spec_def leaf_spec_def Let_def)

lemma sample_plan: "\<exists>plan. create_plan no_strtod example_constants no_oom (Some sample_tree) (Some example_config) 64 ORCH_PLAN_DEFAULT = Inr plan \<and>
    map node_action (plan_nodes plan) = [''Sequence'', ''Inverter'', ''SetVariable'', ''Sleep''] \<and> map (parent_index \<circ> node_tree) (plan_nodes plan) = [None, Some 0, Some 1, Some 0]"
  by (simp add: create_plan_def sample_tree_def visit_step_def orch_node_at_def profile_gate_def is_command_parser_profile_def admitted_def supported_def
      contains_mustache_def c_text_def no_output_def compile_defs build_defs control_spec_def leaf_spec_def)

theorem session_plan_preorder_witness:
  "\<exists>plan. create_plan no_strtod example_constants no_oom (Some sample_tree) (Some example_config) 64 ORCH_PLAN_DEFAULT = Inr plan \<and>
     list_all2 (represents example_constants ORCH_PLAN_DEFAULT example_config sample_tree) (preorder sample_tree 0) (plan_nodes plan) \<and>
     map node_action (plan_nodes plan) = [''Sequence'', ''Inverter'', ''SetVariable'', ''Sleep'']"
proof -
  obtain plan where p: "create_plan no_strtod example_constants no_oom (Some sample_tree) (Some example_config) 64 ORCH_PLAN_DEFAULT = Inr plan"
    and a: "map node_action (plan_nodes plan) = [''Sequence'', ''Inverter'', ''SetVariable'', ''Sleep'']"
    using sample_plan by (elim exE conjE)
  show ?thesis
    by (intro exI [of _ plan] conjI p a session_plan_preorder [OF sample_list_tree p, THEN conjunct2, THEN conjunct2, THEN conjunct1])
qed

theorem default_plan_fails_closed_witness:
  "\<exists>plan. create_plan no_strtod example_constants no_oom (Some sample_tree) (Some example_config) 64 ORCH_PLAN_DEFAULT = Inr plan \<and>
     supported (orch_node_type (node_at sample_tree 3)) \<and> \<not> requires_native_process_owner plan"
proof -
  obtain plan where p: "create_plan no_strtod example_constants no_oom (Some sample_tree) (Some example_config) 64 ORCH_PLAN_DEFAULT = Inr plan"
    using sample_plan by (elim exE conjE)
  have "3 < tree_size sample_tree" by (simp add: sample_tree_def)
  from default_plan_fails_closed [OF sample_list_tree p this] p show ?thesis by blast
qed

section \<open>Commands\<close>

text \<open>The gates on the view of a tree.\<close>

lemma node_at_view: "i < tree_size t \<Longrightarrow> tree_view t ! i = (ty, ps, cs) \<Longrightarrow>
    orch_node_at t i = Some (node_at t i) \<and> orch_node_type (node_at t i) = ty \<and> params_of (node_at t i) = ps \<and> children_of (node_at t i) = cs"
  by (simp add: tree_view_nth node_view_def orch_node_at_def)

lemma root_view: "tree_view t = (ty, ps, cs) # vs \<Longrightarrow>
    orch_tree_root t = Some (node_at t 0) \<and> orch_node_type (node_at t 0) = ty \<and> children_of (node_at t 0) = cs \<and> tree_size t = Suc (length vs)"
  unfolding tree_view_def orch_tree_root_def by (cases "item_values (orch_nodes t)") (auto simp: node_view_def)

lemma has_binding_iff: "has_binding n key v \<longleftrightarrow> (key, v) \<in> set (params_of n)"
proof -
  have "(case orch_param_at n j of Inl _ \<Rightarrow> False | Inr (k, w) \<Rightarrow> k = key \<and> w = v) \<longleftrightarrow> params_of n ! j = (key, v)" if "j < length (params_of n)" for j
    using that by (cases "params_of n ! j") (simp add: orch_param_at_def)
  then show ?thesis unfolding has_binding_def list_ex_iff in_set_conv_nth by auto
qed

lemma post_type_not_shell: "postprocessor_type c \<noteq> Some ORCH_SHELL"
  by (simp add: postprocessor_type_def)

text \<open>The trees of commands with two and three nodes.\<close>

lemma command_nodes_one:
  "command_nodes fmt c = [n] \<Longrightarrow> fst n = ORCH_SHELL \<longleftrightarrow> length (command_list c) = 1 \<and> postprocessor_type c = None"
proof -
  assume "command_nodes fmt c = [n]"
  then show ?thesis using post_type_not_shell [of c]
    by (cases "command_list c"; cases "tl (command_list c)") (auto simp: command_nodes_def post_nodes_def split: option.splits)
qed

lemma command_nodes_two:
  assumes "command_nodes fmt c = [n, m]"
  shows "fst n = ORCH_SHELL \<and> fst m = ty \<and> ty \<noteq> ORCH_SHELL \<longleftrightarrow> length (command_list c) = 1 \<and> postprocessor_type c = Some ty"
    and "length (command_list c) = 1 \<Longrightarrow> (''output_key'', Some ''stdout'') \<in> set (snd n) \<and> (''input_key'', Some ''stdout'') \<in> set (snd m)"
  using assms post_type_not_shell [of c]
  by (cases "command_list c"; cases "tl (command_list c)"; force simp: command_nodes_def post_nodes_def split: option.splits)+


lemma view_nodes:
  assumes "tree_view t = (ORCH_SEQUENCE, [], cs) # map pending_view ns"
  shows "orch_tree_root t = Some (node_at t 0)" "orch_node_type (node_at t 0) = ORCH_SEQUENCE" "children_of (node_at t 0) = cs" "tree_size t = Suc (length ns)"
    "k < length ns \<Longrightarrow> orch_node_at t (Suc k) = Some (node_at t (Suc k)) \<and> orch_node_type (node_at t (Suc k)) = fst (ns ! k) \<and>
       params_of (node_at t (Suc k)) = map (\<lambda>p. (fst p, the (snd p))) (snd (ns ! k)) \<and> children_of (node_at t (Suc k)) = []"
proof -
  show "orch_tree_root t = Some (node_at t 0)" "orch_node_type (node_at t 0) = ORCH_SEQUENCE" "children_of (node_at t 0) = cs" and size: "tree_size t = Suc (length ns)"
    using root_view [OF assms] by simp_all
  assume k: "k < length ns"
  have "tree_view t ! Suc k = (fst (ns ! k), map (\<lambda>p. (fst p, the (snd p))) (snd (ns ! k)), [])"
    unfolding assms using k by (cases "ns ! k") simp
  from node_at_view [OF _ this] show "orch_node_at t (Suc k) = Some (node_at t (Suc k)) \<and> orch_node_type (node_at t (Suc k)) = fst (ns ! k) \<and>
       params_of (node_at t (Suc k)) = map (\<lambda>p. (fst p, the (snd p))) (snd (ns ! k)) \<and> children_of (node_at t (Suc k)) = []"
    using size k by simp
qed

lemma single_command_view:
  assumes "tree_view t = (ORCH_SEQUENCE, [], [1..<length ns + 1]) # map pending_view ns"
  shows "single_command_gate cap t = Inr () \<longleftrightarrow> (\<exists>n. ns = [n] \<and> fst n = ORCH_SHELL)"
proof (cases "length ns = 1")
  case True
  then obtain n where n: "ns = [n]" by (auto simp: length_Suc_conv)
  note v = view_nodes [OF assms, unfolded n]
  have "child_node t (node_at t 0) 0 = Some (node_at t 1)" using v(3) v(5) [of 0] by (simp add: child_node_def orch_child_at_def)
  then show ?thesis using v n by (auto simp: single_command_gate_def plan_fail_def)
next
  case False
  then show ?thesis using view_nodes(1,4) [OF assms] by (auto simp: single_command_gate_def plan_fail_def)
qed

lemma command_parser_view:
  assumes "tree_view t = (ORCH_SEQUENCE, [], [1..<length ns + 1]) # map pending_view ns"
  shows "command_parser_gate cap profile t = Inr () \<longleftrightarrow> (\<exists>n m. ns = [n, m] \<and> fst n = ORCH_SHELL \<and> fst m = parser_type_for profile \<and>
    (''output_key'', ''stdout'') \<in> (\<lambda>p. (fst p, the (snd p))) ` set (snd n) \<and> (''input_key'', ''stdout'') \<in> (\<lambda>p. (fst p, the (snd p))) ` set (snd m))"
proof (cases "length ns = 2")
  case True
  then obtain n m where n: "ns = [n, m]" by (auto simp: length_Suc_conv numeral_2_eq_2)
  note v = view_nodes [OF assms, unfolded n]
  have "child_node t (node_at t 0) 0 = Some (node_at t 1)" "child_node t (node_at t 0) (Suc 0) = Some (node_at t 2)"
    using v(3) v(5) [of 0] v(5) [of 1] by (simp_all add: child_node_def orch_child_at_def numeral_2_eq_2)
  then have "parser_topology profile t = (if fst n = ORCH_SHELL \<and> fst m = parser_type_for profile then Some (node_at t 1, node_at t 2) else None)"
    using v(1-4) v(5) [of 0] v(5) [of 1] by (auto simp: parser_topology_def numeral_2_eq_2)
  then show ?thesis using v(5) [of 0] v(5) [of 1] n
    by (auto simp: command_parser_gate_def plan_fail_def has_binding_iff numeral_2_eq_2)
next
  case False
  then show ?thesis using view_nodes(1,4) [OF assms] by (auto simp: command_parser_gate_def parser_topology_def plan_fail_def)
qed

text \<open>The gates on the tree of a command.\<close>

lemma command_gate:
  assumes "orch_from_command fmt mem c = Inr t"
  shows "profile_gate cap profile t = Inr () \<longleftrightarrow>
    (if profile = ORCH_PLAN_DEFAULT then True else if profile = ORCH_PLAN_SINGLE_SHELL then False
     else length (command_list c) = 1 \<and> postprocessor_type c = (if profile = ORCH_PLAN_SINGLE_COMMAND then None else Some (parser_type_for profile)))"
proof -
  have view: "tree_view t = (ORCH_SEQUENCE, [], [1..<length (command_nodes fmt c) + 1]) # map pending_view (command_nodes fmt c)"
    using command_outcome [of mem fmt c] assms by (simp add: outcome_def command_view_def)
  have shell: "single_shell_gate cap t \<noteq> Inr ()" using view_nodes(1,2) [OF view] by (simp add: single_shell_gate_def plan_fail_def)
  have single: "single_command_gate cap t = Inr () \<longleftrightarrow> length (command_list c) = 1 \<and> postprocessor_type c = None"
    unfolding single_command_view [OF view] using command_nodes_one
  proof (intro iffI)
    assume "length (command_list c) = 1 \<and> postprocessor_type c = None"
    then show "\<exists>n. command_nodes fmt c = [n] \<and> fst n = ORCH_SHELL" by (auto simp: command_nodes_def post_nodes_def length_Suc_conv)
  qed blast
  have not_shell: "parser_type_for profile \<noteq> ORCH_SHELL" by (simp add: parser_type_for_def)
  have parser: "command_parser_gate cap profile t = Inr () \<longleftrightarrow> length (command_list c) = 1 \<and> postprocessor_type c = Some (parser_type_for profile)"
    unfolding command_parser_view [OF view]
  proof (intro iffI)
    assume "length (command_list c) = 1 \<and> postprocessor_type c = Some (parser_type_for profile)"
    then obtain n m where nm: "command_nodes fmt c = [n, m]" by (auto simp: command_nodes_def post_nodes_def length_Suc_conv)
    then show "\<exists>n m. command_nodes fmt c = [n, m] \<and> fst n = ORCH_SHELL \<and> fst m = parser_type_for profile \<and>
        (''output_key'', ''stdout'') \<in> (\<lambda>p. (fst p, the (snd p))) ` set (snd n) \<and> (''input_key'', ''stdout'') \<in> (\<lambda>p. (fst p, the (snd p))) ` set (snd m)"
      using command_nodes_two [OF nm] \<open>length (command_list c) = 1 \<and> postprocessor_type c = Some (parser_type_for profile)\<close> by force
  qed (use command_nodes_two(1) not_shell in blast)
  show ?thesis using shell single parser by (cases profile) (auto simp: profile_gate_def is_command_parser_profile_def)
qed

section \<open>Plans of commands\<close>

lemma mustache_pairs: "contains_mustache v \<longleftrightarrow> (\<exists>u w. v = u @ ''{{'' @ w \<or> v = u @ ''}}'' @ w)"
proof -
  have pair: "(\<exists>i\<in>{1..<length v}. v ! (i - 1) = a \<and> v ! i = a) \<longleftrightarrow> (\<exists>u w. v = u @ [a, a] @ w)" for a
  proof
    assume "\<exists>i\<in>{1..<length v}. v ! (i - 1) = a \<and> v ! i = a"
    then obtain i where i: "1 \<le> i" "i < length v" "v ! (i - 1) = a" "v ! i = a" by auto
    then have "v = take (i - 1) v @ [a, a] @ drop (Suc i) v"
      using id_take_nth_drop [of "i - 1" v] Cons_nth_drop_Suc [of i v] by auto
    then show "\<exists>u w. v = u @ [a, a] @ w" by blast
  next
    assume "\<exists>u w. v = u @ [a, a] @ w"
    then obtain u w where "v = u @ [a, a] @ w" by blast
    then show "\<exists>i\<in>{1..<length v}. v ! (i - 1) = a \<and> v ! i = a" by (intro bexI [of _ "Suc (length u)"]) (auto simp: nth_append)
  qed
  show ?thesis using pair [of "CHR ''{''"] pair [of "CHR ''}''"] unfolding contains_mustache_def list_ex_iff set_upt
    by (simp only: append.simps) blast
qed

text \<open>The texts that a plan takes over.\<close>

abbreviation clean_params :: "(string \<times> string) list \<Rightarrow> bool" where
  "clean_params ps \<equiv> list_all (\<lambda>p. CHR 0x00 \<notin> set (snd p) \<and> \<not> contains_mustache (snd p)) ps"

lemma copy_params_total:
  assumes "clean_params ps" "list_all (\<lambda>p. c_text (fst p) = fst p) ps" "bytes + params_bytes ps \<le> max_bytes"
  shows "\<exists>cs. copy_params no_oom cap i j ps bytes = Inr (cs, bytes + params_bytes ps) \<and> list_all (\<lambda>p. \<not> parameter_invalid (fst p)) cs"
  using assms
proof (induction ps arbitrary: j bytes)
  case (Cons p ps)
  obtain k v where p: "p = (k, v)" by fastforce
  have "bytes + length v + 1 + params_bytes ps \<le> max_bytes" using Cons.prems(3) p by simp
  moreover from this have "\<not> (bytes \<ge> max_bytes \<or> length v \<ge> max_bytes - bytes)" by linarith
  moreover obtain cs where "copy_params no_oom cap i (j + 1) ps (bytes + length v + 1) = Inr (cs, bytes + length v + 1 + params_bytes ps)"
    "list_all (\<lambda>p. \<not> parameter_invalid (fst p)) cs" using Cons.IH [of "bytes + length v + 1" "j + 1"] Cons.prems calculation(1) by auto
  ultimately show ?case using Cons.prems p by (simp add: parameter_invalid_def)
qed simp

text \<open>Leaves and sequences compile whatever their parameters.\<close>

lemma compile_plain:
  assumes "\<not> config_invalid K limits" "a \<noteq> []" "a \<noteq> ''SubTree''" "action_kind a = BT_LEAF \<and> children = 0 \<or> action_kind a = BT_SEQUENCE"
    and "list_all (\<lambda>p. \<not> parameter_invalid p) ps"
  shows "\<exists>res. compile_node strtod K (Some limits) (Some a) ps sizes children parent cap output = (SALTS_OK, res) \<and> \<not> out_prune res"
proof -
  have "\<not> list_ex parameter_invalid ps" using assms(5) by (simp add: list_all_iff list_ex_iff)
  then show ?thesis using assms(1-4)
    by (auto simp: compile_node_def compile_body_def compile_checked_def initial_node_def empty_terminal_def Let_def)
qed

text \<open>The node types of a command's tree.\<close>

abbreviation command_types :: "orch_type set" where
  "command_types \<equiv> {ORCH_SHELL, ORCH_PARSE_JSON, ORCH_PARSE_KEY_VALUE, ORCH_PARSE_REGEX, ORCH_PARSE_LINES}"

lemma command_actions:
  "list_all (\<lambda>ty. let a = spec_name (spec_for ty) in action_kind a = BT_LEAF \<and> a \<noteq> [] \<and> a \<noteq> ''SubTree'')
    [ORCH_SHELL, ORCH_PARSE_JSON, ORCH_PARSE_KEY_VALUE, ORCH_PARSE_REGEX, ORCH_PARSE_LINES]"
  "action_kind (spec_name (spec_for ORCH_SEQUENCE)) = BT_SEQUENCE" "spec_name (spec_for ORCH_SEQUENCE) \<noteq> []" "spec_name (spec_for ORCH_SEQUENCE) \<noteq> ''SubTree''"
  by code_simp+

lemma visit_plain:
  assumes n: "orch_node_at t (visit_node visit) = Some n" "orch_node_type n \<in> command_types \<and> children_of n = [] \<or> orch_node_type n = ORCH_SEQUENCE"
    and index: "index < tree_size t" "length (params_of n) \<le> max_params" "height + length (children_of n) \<le> tree_size t"
      "length (children_of n) < tree_size t" "length (children_of n) \<le> size_sub (size_sub (tree_size t) height) 1"
      "\<forall>c\<in>set (children_of n). c < tree_size t"
    and keys: "list_all (\<lambda>p. c_text (fst p) = fst p) (params_of n)" "bytes + params_bytes (params_of n) \<le> max_bytes"
  shows "(\<exists>r. visit_step strtod K no_oom cap profile limits t index bytes height visit = Inr r) \<longleftrightarrow>
    \<not> config_invalid K limits \<and> visit_depth visit \<le> max_depth limits \<and> admitted profile (tree_size t) (orch_node_type n) \<and> clean_params (params_of n)"
proof
  have na: "n = node_at t (visit_node visit)" using n(1) by (simp add: orch_node_at_def split: if_splits)
  assume "\<exists>r. visit_step strtod K no_oom cap profile limits t index bytes height visit = Inr r"
  then obtain m b cs where "visit_step strtod K no_oom cap profile limits t index bytes height visit = Inr (m, b, cs)" by auto
  note ok = visit_step_ok(1,6) [OF this, folded na]
  then show "\<not> config_invalid K limits \<and> visit_depth visit \<le> max_depth limits \<and> admitted profile (tree_size t) (orch_node_type n) \<and> clean_params (params_of n)"
    using compiled_config by (auto simp: represents_def na)
next
  assume ok: "\<not> config_invalid K limits \<and> visit_depth visit \<le> max_depth limits \<and> admitted profile (tree_size t) (orch_node_type n) \<and> clean_params (params_of n)"
  obtain copies where copies: "copy_params no_oom cap index 0 (params_of n) bytes = Inr (copies, bytes + params_bytes (params_of n))"
    "list_all (\<lambda>p. \<not> parameter_invalid p) (map fst copies)"
    using copy_params_total [OF conjunct2 [OF conjunct2 [OF conjunct2 [OF ok]]] keys, of cap index 0] by (auto simp: list_all_iff)
  let ?a = "spec_name (spec_for (orch_node_type n))"
  have a: "?a \<noteq> []" "?a \<noteq> ''SubTree''" "action_kind ?a = BT_LEAF \<and> length (children_of n) = 0 \<or> action_kind ?a = BT_SEQUENCE"
    using n(2) command_actions by (auto simp: Let_def)
  obtain res where "compile_node strtod K (Some limits) (Some ?a) (map fst copies) (if length (params_of n) = 0 then None else Some (map snd copies))
      (length (children_of n)) (visit_parent visit) cap no_output = (SALTS_OK, res)" "\<not> out_prune res"
    using compile_plain [OF conjunct1 [OF ok] a copies(2)] by blast
  moreover have "\<not> list_ex (\<lambda>c. orch_node_at t c = None) (children_of n)" using index(6) by (auto simp: list_ex_iff orch_node_at_def)
  ultimately show "\<exists>r. visit_step strtod K no_oom cap profile limits t index bytes height visit = Inr r"
    using ok index copies(1) by (simp add: visit_step_def n(1) Let_def not_le not_less)
qed

text \<open>The walk of a tree whose root has all other nodes as children, none of which has a child.\<close>

definition star_node :: "orch_tree \<Rightarrow> nat \<Rightarrow> bool" where
  "star_node t i \<longleftrightarrow> orch_node_type (node_at t i) \<in> command_types \<and> children_of (node_at t i) = [] \<and>
     length (params_of (node_at t i)) \<le> max_params \<and> list_all (\<lambda>p. c_text (fst p) = fst p) (params_of (node_at t i))"

abbreviation admits_node :: "orch_plan_profile \<Rightarrow> orch_tree \<Rightarrow> nat \<Rightarrow> bool" where
  "admits_node profile t i \<equiv> admitted profile (tree_size t) (orch_node_type (node_at t i)) \<and> clean_params (params_of (node_at t i))"

abbreviation bytes_from :: "orch_tree \<Rightarrow> nat \<Rightarrow> nat" where
  "bytes_from t k \<equiv> sum_list (map (\<lambda>i. params_bytes (params_of (node_at t i))) [k..<tree_size t])"

lemma leaves_loop:
  assumes star: "\<forall>i\<in>{1..<tree_size t}. star_node t i" and "1 \<le> k" "k \<le> tree_size t" "length nodes = k" "bytes + bytes_from t k \<le> max_bytes"
  defines "stack \<equiv> map (\<lambda>c. \<lparr>visit_node = c, visit_parent = Some 0, visit_depth = 2\<rparr>) [k..<tree_size t]"
  shows "if k = tree_size t \<or> \<not> config_invalid K limits \<and> 2 \<le> max_depth limits \<and> (\<forall>i\<in>{k..<tree_size t}. admits_node profile t i)
    then \<exists>nodes' bytes'. plan_loop strtod K no_oom cap profile limits t nodes bytes stack = Inr (nodes', bytes') \<and> length nodes' = tree_size t
    else \<exists>e. plan_loop strtod K no_oom cap profile limits t nodes bytes stack = Inl e"
  using assms(2-5) unfolding stack_def
proof (induction "tree_size t - k" arbitrary: k nodes bytes)
  case (Suc m)
  then have k: "k < tree_size t" "[k..<tree_size t] = k # [Suc k..<tree_size t]" by (simp_all add: upt_conv_Cons)
  let ?v = "\<lparr>visit_node = k, visit_parent = Some 0, visit_depth = 2\<rparr>" and ?n = "node_at t k"
  let ?rest = "map (\<lambda>c. \<lparr>visit_node = c, visit_parent = Some 0, visit_depth = 2\<rparr>) [Suc k..<tree_size t]"
  have node: "orch_node_at t (visit_node ?v) = Some ?n" using k(1) by (simp add: orch_node_at_def)
  have s: "orch_node_type ?n \<in> command_types" "children_of ?n = []" "length (params_of ?n) \<le> max_params"
    "list_all (\<lambda>p. c_text (fst p) = fst p) (params_of ?n)"
    using star k(1) Suc.prems(1) by (auto simp: star_node_def)
  have step: "(\<exists>r. visit_step strtod K no_oom cap profile limits t (length nodes) bytes (length ?rest) ?v = Inr r) \<longleftrightarrow>
      \<not> config_invalid K limits \<and> visit_depth ?v \<le> max_depth limits \<and> admits_node profile t k"
    by (rule visit_plain [OF node]) (use s Suc.prems k in \<open>auto\<close>)
  show ?case
  proof (cases "\<not> config_invalid K limits \<and> 2 \<le> max_depth limits \<and> admits_node profile t k")
    case True
    then obtain n b cs where v: "visit_step strtod K no_oom cap profile limits t (length nodes) bytes (length ?rest) ?v = Inr (n, b, cs)"
      using step by auto
    have bc: "cs = []" "b = bytes + params_bytes (params_of ?n)" using visit_step_ok(2,4) [OF v] s(2) by simp_all
    have loop: "plan_loop strtod K no_oom cap profile limits t nodes bytes (?v # ?rest) = plan_loop strtod K no_oom cap profile limits t (nodes @ [n]) b ?rest"
      using v bc(1) by simp
    have "{k..<tree_size t} = insert k {Suc k..<tree_size t}" using k(1) by auto
    then have conds: "k = tree_size t \<or> \<not> config_invalid K limits \<and> 2 \<le> max_depth limits \<and> (\<forall>i\<in>{k..<tree_size t}. admits_node profile t i) \<longleftrightarrow>
        Suc k = tree_size t \<or> \<not> config_invalid K limits \<and> 2 \<le> max_depth limits \<and> (\<forall>i\<in>{Suc k..<tree_size t}. admits_node profile t i)"
      using True k(1) by auto
    show ?thesis unfolding conds k(2) list.map(2) loop
      by (rule Suc.hyps(1)) (use Suc.hyps(2) Suc.prems bc(2) k in auto)
  next
    case False
    then obtain e where "visit_step strtod K no_oom cap profile limits t (length nodes) bytes (length ?rest) ?v = Inl e"
      using step by (cases "visit_step strtod K no_oom cap profile limits t (length nodes) bytes (length ?rest) ?v") auto
    then show ?thesis using False k by auto
  qed
qed simp

text \<open>The decimal text of an integer, an instance of \<open>fmt\<close>.\<close>

function nat_text :: "nat \<Rightarrow> string" where
  "nat_text n = (if n < 10 then [char_of (48 + n)] else nat_text (n div 10) @ [char_of (48 + n mod 10)])"
  by pat_completeness auto
termination
  by (relation "measure id") auto

declare nat_text.simps [simp del]

definition int_text :: "int \<Rightarrow> string" where
  "int_text n = (if n < 0 then CHR ''-'' # nat_text (nat (- n)) else nat_text (nat n))"

definition sample_command :: orch_command where
  "sample_command = \<lparr>cmd_sequence = False, cmd_command = Some ''ls'', cmd_commands = [], cmd_output_format = OUTPUT_JSON, cmd_regex = None,
     cmd_json = None, cmd_lines = None, cmd_keyvalue = None\<rparr>"

text \<open>The tree of a command.\<close>

lemma command_node_facts:
  assumes "n \<in> set (command_nodes fmt c)"
  shows "fst n \<in> command_types" "list_all (\<lambda>p. c_text (fst p) = fst p) (snd n)" "length (snd n) \<le> max_params"
proof -
  have shells: "fst n = ORCH_SHELL \<and> list_all (\<lambda>p. c_text (fst p) = fst p) (snd n)" if "n \<in> set (shell_nodes cs)" for cs
    using that by (induction cs) (auto simp: c_text_def split: if_splits)
  have post: "fst n \<in> command_types \<and> list_all (\<lambda>p. c_text (fst p) = fst p) (snd n)" if "n \<in> set (post_nodes fmt c)"
    using that by (auto simp: post_nodes_def postprocessor_type_def post_params_def c_text_def split: option.splits if_splits)
  show "fst n \<in> command_types" "list_all (\<lambda>p. c_text (fst p) = fst p) (snd n)" using assms shells post by (auto simp: command_nodes_def)
  show "length (snd n) \<le> max_params" using assms command_nodes_small [of fmt c] by (simp add: list_all_iff)
qed

lemma command_star:
  assumes "orch_from_command fmt mem c = Inr t"
  shows "tree_view t = (ORCH_SEQUENCE, [], [1..<length (command_nodes fmt c) + 1]) # map pending_view (command_nodes fmt c)"
    "\<forall>i\<in>{1..<tree_size t}. star_node t i" "bytes_from t 1 \<le> max_bytes" "tree_size t \<le> max_orch_nodes"
proof -
  let ?ns = "command_nodes fmt c"
  have ok: "command_admissible fmt c" and view: "tree_view t = (ORCH_SEQUENCE, [], [1..<length ?ns + 1]) # map pending_view ?ns"
    using command_outcome [of mem fmt c] assms by (simp_all add: outcome_def command_view_def)
  note v = view_nodes [OF view]
  show "tree_view t = (ORCH_SEQUENCE, [], [1..<length ?ns + 1]) # map pending_view ?ns" by (rule view)
  show "\<forall>i\<in>{1..<tree_size t}. star_node t i"
  proof
    fix i assume "i \<in> {1..<tree_size t}"
    then obtain k where k: "i = Suc k" "k < length ?ns" using v(4) by (cases i) auto
    then show "star_node t i" using v(5) [OF k(2)] command_node_facts [OF nth_mem [OF k(2)]]
      by (simp add: star_node_def list_all_iff)
  qed
  have "[1..<tree_size t] = map Suc [0..<length ?ns]" using v(4) by (simp add: map_Suc_upt)
  then have "map (\<lambda>i. params_bytes (params_of (node_at t i))) [1..<tree_size t] = map (\<lambda>k. pending_bytes (snd (?ns ! k))) [0..<length ?ns]"
    using v(5) by (simp add: comp_def)
  also have "\<dots> = map (\<lambda>n. pending_bytes (snd n)) ?ns" by (intro nth_equalityI) simp_all
  finally show "bytes_from t 1 \<le> max_bytes" using ok unfolding command_admissible_def nodes_bytes_def by metis
  show "tree_size t \<le> max_orch_nodes" using v(4) ok command_nodes_few [of fmt c] by (simp add: command_admissible_def max_orch_nodes_def)
qed

lemma star_plan:
  assumes view: "tree_view t = (ORCH_SEQUENCE, [], [1..<length ns + 1]) # map pending_view ns"
    and star: "\<forall>i\<in>{1..<tree_size t}. star_node t i" and size: "bytes_from t 1 \<le> max_bytes" "tree_size t \<le> max_orch_nodes"
  shows "(\<exists>plan. create_plan strtod K no_oom (Some t) (Some config) cap profile = Inr plan) \<longleftrightarrow>
    \<not> config_invalid K config \<and> tree_size t \<le> max_nodes config \<and> profile_gate cap profile t = Inr () \<and>
    (ns = [] \<or> 2 \<le> max_depth config) \<and> (\<forall>i\<in>{1..<tree_size t}. admits_node profile t i)"
proof -
  let ?v = "\<lparr>visit_node = 0, visit_parent = None, visit_depth = 1\<rparr>"
  let ?loop = "plan_loop strtod K no_oom cap profile config t [] 0 [?v]"
  note v = view_nodes(1-4) [OF view]
  have "tree_view t ! 0 = (ORCH_SEQUENCE, [], [1..<length ns + 1])" by (simp add: view)
  then have root: "params_of (node_at t 0) = []" "orch_node_at t 0 = Some (node_at t 0)" using node_at_view [of 0 t] v(4) by simp_all
  have "tree_size t \<le> size_max" using size(2) by (simp add: max_orch_nodes_def max_commands_def size_max_def)
  then have subs: "size_sub (size_sub (tree_size t) 0) 1 = tree_size t - 1" using v(4) by (simp add: size_sub_le)
  have step: "(\<exists>r. visit_step strtod K no_oom cap profile config t 0 0 0 ?v = Inr r) \<longleftrightarrow>
      \<not> config_invalid K config \<and> visit_depth ?v \<le> max_depth config \<and> admits_node profile t 0"
    by (rule visit_plain) (use root v subs in auto)
  have admit: "admits_node profile t 0" using v(2) root(1) by (simp add: admitted_def supported_def)
  have loop: "(\<exists>nodes bytes. ?loop = Inr (nodes, bytes) \<and> length nodes = tree_size t) \<or> (\<exists>e. ?loop = Inl e)"
    "(\<exists>r. ?loop = Inr r) \<longleftrightarrow> \<not> config_invalid K config \<and> (ns = [] \<or> 2 \<le> max_depth config) \<and> (\<forall>i\<in>{1..<tree_size t}. admits_node profile t i)"
  proof -
    have "(if \<not> config_invalid K config \<and> (ns = [] \<or> 2 \<le> max_depth config) \<and> (\<forall>i\<in>{1..<tree_size t}. admits_node profile t i)
      then \<exists>nodes bytes. ?loop = Inr (nodes, bytes) \<and> length nodes = tree_size t else \<exists>e. ?loop = Inl e)"
    proof (cases "config_invalid K config")
      case True
      then show ?thesis using step by (cases "visit_step strtod K no_oom cap profile config t 0 0 0 ?v") auto
    next
      case False
      then have "1 \<le> max_depth config" by (simp add: config_invalid_def)
      then obtain n b cs where s: "visit_step strtod K no_oom cap profile config t 0 0 0 ?v = Inr (n, b, cs)" using step False admit by auto
      have bc: "cs = [1..<tree_size t]" "b = 0" using visit_step_ok(2,4) [OF s] v(3,4) root(1) by simp_all
      have run: "?loop = plan_loop strtod K no_oom cap profile config t [n] 0
          (map (\<lambda>c. \<lparr>visit_node = c, visit_parent = Some 0, visit_depth = 2\<rparr>) [1..<tree_size t])"
        using s bc by (simp add: numeral_2_eq_2)
      show ?thesis unfolding run
        using leaves_loop [OF star, of 1 "[n]" 0 K config profile strtod cap] size(1) v(4) False by (auto split: if_splits)
    qed
    then show "(\<exists>nodes bytes. ?loop = Inr (nodes, bytes) \<and> length nodes = tree_size t) \<or> (\<exists>e. ?loop = Inl e)"
      "(\<exists>r. ?loop = Inr r) \<longleftrightarrow> \<not> config_invalid K config \<and> (ns = [] \<or> 2 \<le> max_depth config) \<and> (\<forall>i\<in>{1..<tree_size t}. admits_node profile t i)"
      by (auto split: if_splits)
  qed
  show ?thesis
    using loop v(4) size(2)
    by (cases "profile_gate cap profile t") (auto simp: create_plan_def config_invalid_def plan_fail_def)
qed

text \<open>The commands that a profile is for, by the fields of the command.\<close>

fun profile_admits :: "orch_plan_profile \<Rightarrow> orch_command \<Rightarrow> bool" where
  "profile_admits ORCH_PLAN_DEFAULT c \<longleftrightarrow> command_list c = []"
| "profile_admits ORCH_PLAN_SINGLE_SHELL c \<longleftrightarrow> False"
| "profile_admits ORCH_PLAN_SINGLE_COMMAND c \<longleftrightarrow> length (command_list c) = 1 \<and>
     cmd_regex c = None \<and> cmd_json c = None \<and> cmd_lines c = None \<and> cmd_keyvalue c = None \<and> cmd_output_format c \<noteq> OUTPUT_JSON"
| "profile_admits ORCH_PLAN_COMMAND_REGEX c \<longleftrightarrow> length (command_list c) = 1 \<and> cmd_regex c \<noteq> None"
| "profile_admits ORCH_PLAN_COMMAND_JSON c \<longleftrightarrow> length (command_list c) = 1 \<and> cmd_regex c = None \<and>
     (cmd_json c \<noteq> None \<or> cmd_lines c = None \<and> cmd_keyvalue c = None \<and> cmd_output_format c = OUTPUT_JSON)"
| "profile_admits ORCH_PLAN_COMMAND_LINES c \<longleftrightarrow> length (command_list c) = 1 \<and> cmd_regex c = None \<and> cmd_json c = None \<and> cmd_lines c \<noteq> None"
| "profile_admits ORCH_PLAN_COMMAND_KEYVALUE c \<longleftrightarrow> length (command_list c) = 1 \<and> cmd_regex c = None \<and> cmd_json c = None \<and> cmd_lines c = None \<and>
     cmd_keyvalue c \<noteq> None"

definition template_free :: "string \<Rightarrow> bool" where
  "template_free v \<longleftrightarrow> CHR 0x00 \<notin> set v \<and> (\<nexists>u w. v = u @ ''{{'' @ w \<or> v = u @ ''}}'' @ w)"

lemma shell_nodes_types: "cs \<noteq> [] \<Longrightarrow> \<exists>n\<in>set (shell_nodes cs). fst n = ORCH_SHELL"
  by (cases cs) auto

lemma gate_admits:
  assumes "orch_from_command fmt mem c = Inr t"
  shows "profile_gate cap profile t = Inr () \<and> (\<forall>n\<in>set (command_nodes fmt c). admitted profile (tree_size t) (fst n)) \<longleftrightarrow> profile_admits profile c"
proof (cases "profile = ORCH_PLAN_DEFAULT")
  case True
  have post: "\<forall>n\<in>set (post_nodes fmt c). supported (fst n)"
    by (auto simp: post_nodes_def postprocessor_type_def supported_def split: option.splits if_splits)
  have "\<not> supported ORCH_SHELL" by (simp add: supported_def)
  then have "(\<forall>n\<in>set (command_nodes fmt c). supported (fst n)) \<longleftrightarrow> command_list c = []"
    using shell_nodes_types [of "command_list c"] post by (cases "command_list c") (auto simp: command_nodes_def)
  then show ?thesis unfolding command_gate [OF assms] using True by (simp add: admitted_def is_command_parser_profile_def)
next
  case False
  have "\<forall>n\<in>set (command_nodes fmt c). admitted profile (tree_size t) (fst n)" if "profile \<noteq> ORCH_PLAN_SINGLE_SHELL"
    using command_node_facts(1) [of _ fmt c] that False by (cases profile) (fastforce simp: admitted_def supported_def is_command_parser_profile_def)+
  then show ?thesis unfolding command_gate [OF assms] using False
    by (cases profile) (auto simp: postprocessor_type_def parser_type_for_def split: if_splits)
qed

text \<open>
  C39. Which commands have a session plan. With memory available, a plan for the tree of a command is created exactly when
  the limits are valid and admit the tree (one node for each command, one for the postprocessor and the
  root, and two levels when there is a node below the root), the profile is the one for the command, and no text of
  the command holds a zero byte, \<open>{{\<close> or \<open>}}\<close>. The default profile is for no command at all, since it
  refuses a shell; the single-command profile for one command without a postprocessor; each parser profile
  for one command with that parser (a regex before a JSON path, lines, key-value pairs and the JSON format, in
  this order); the profile of a bare shell node is for no command tree.
\<close>

theorem command_plan_exact:
  assumes "orch_from_command fmt mem c = Inr t"
  shows "(\<exists>plan. create_plan strtod K no_oom (Some t) (Some config) cap profile = Inr plan) \<longleftrightarrow>
    \<not> config_invalid K config \<and> Suc (length (command_nodes fmt c)) \<le> max_nodes config \<and> (command_nodes fmt c = [] \<or> 2 \<le> max_depth config) \<and>
    profile_admits profile c \<and> list_all (\<lambda>n. list_all (\<lambda>p. template_free (the (snd p))) (snd n)) (command_nodes fmt c)"
proof -
  let ?ns = "command_nodes fmt c"
  note star = command_star [OF assms]
  note v = view_nodes [OF star(1)]
  have range: "{1..<tree_size t} = Suc ` {..<length ?ns}" using v(4) by (simp add: lessThan_atLeast0 image_Suc_atLeastLessThan)
  have node: "admits_node profile t (Suc k) \<longleftrightarrow> admitted profile (tree_size t) (fst (?ns ! k)) \<and> list_all (\<lambda>p. template_free (the (snd p))) (snd (?ns ! k))"
    if "k < length ?ns" for k
    using v(5) [OF that] by (simp add: list_all_iff template_free_def mustache_pairs)
  have "(\<forall>i\<in>{1..<tree_size t}. admits_node profile t i) \<longleftrightarrow>
      (\<forall>n\<in>set ?ns. admitted profile (tree_size t) (fst n)) \<and> list_all (\<lambda>n. list_all (\<lambda>p. template_free (the (snd p))) (snd n)) ?ns"
    unfolding range using node by (auto simp: list_all_length all_set_conv_all_nth)
  then show ?thesis unfolding star_plan [OF star] gate_admits [OF assms, of cap profile, symmetric] v(4) by blast
qed

theorem command_plan_exact_witness:
  "\<exists>t. orch_from_command int_text no_oom sample_command = Inr t \<and>
     (\<exists>plan. create_plan no_strtod example_constants no_oom (Some t) (Some example_config) 64 ORCH_PLAN_COMMAND_JSON = Inr plan) \<and>
     \<not> (\<exists>plan. create_plan no_strtod example_constants no_oom (Some t) (Some example_config) 64 ORCH_PLAN_DEFAULT = Inr plan) \<and>
     \<not> (\<exists>plan. create_plan no_strtod example_constants no_oom (Some t) (Some example_config) 64 ORCH_PLAN_COMMAND_REGEX = Inr plan)"
proof -
  have "command_admissible int_text sample_command"
    by (simp add: command_admissible_def command_list_def command_nodes_def post_nodes_def postprocessor_type_def post_params_def sample_command_def
        max_commands_def max_bytes_def)
  then obtain t where t: "orch_from_command int_text no_oom sample_command = Inr t"
    using command_outcome [of no_oom int_text sample_command] by (auto simp: outcome_def)
  have nodes: "command_nodes int_text sample_command = [(ORCH_SHELL, [(''cmd'', Some ''ls''), (''output_key'', Some ''stdout'')]),
      (ORCH_PARSE_JSON, [(''input_key'', Some ''stdout''), (''path'', Some ''$''), (''output_key'', Some ''data'')])]"
    by (simp add: command_list_def command_nodes_def post_nodes_def postprocessor_type_def post_params_def sample_command_def)
  have texts: "list_all (\<lambda>n. list_all (\<lambda>p. template_free (the (snd p))) (snd n)) (command_nodes int_text sample_command)"
    unfolding nodes template_free_def mustache_pairs [symmetric] by (simp add: contains_mustache_def upt_rec)
  have config: "\<not> config_invalid example_constants example_config" "3 \<le> max_nodes example_config" "2 \<le> max_depth example_config"
    by (simp_all add: example_constants_def example_config_def config_invalid_def)
  note exact = command_plan_exact [OF t, of no_strtod example_constants example_config 64]
  show ?thesis
    by (intro exI [of _ t] conjI t; unfold exact)
      (use config texts in \<open>simp_all add: nodes\<close>, simp_all add: sample_command_def command_list_def)
qed

end
