(* ===== verification/Spec2Isabelle.thy ===== *)
theory Spec2Isabelle
  imports Owner_Settlement Output_Scan Expression_Evaluator Service_Control Value_Assign Session_Plan
begin

text \<open>
  Verification development of praktor, a workflow runtime written in C. A workflow is a graph of tasks; each
  task runs a tree of actions over shared values, and a single owner thread decides which tasks may
  start, collects what they produced and publishes it.

  \<^bold>\<open>Parts and theories.\<close> Paths are relative to \<open>src/\<close>. The theories follow the path of a
  workflow through the program.

  \<^item> \<open>Praktor_Prelude\<close>: status codes, C integer conventions, loops (\<open>c_loop\<close>), lemmas on lists and
    counting, and the locale \<open>invariant_system\<close> (initial states, steps, an invariant) with its induction over
    reachable states. The state machines below interpret it on their own definitions.
  \<^item> \<open>Json_Api\<close>: the interface of the external JSON document library. Its functions are the
    record \<open>json_api\<close>; \<open>json_laws\<close> states what its documentation promises, and \<open>tree_api\<close> is an instance
    that satisfies the laws.
  \<^item> \<open>Workflow_Dependencies\<close> (\<open>praktor/src/yml/workflow_dependencies.c\<close>): the dependency graph with its hash
    table of names, trigger checks and Kahn's cycle check. It accepts exactly the well-declared acyclic
    workflows; the table refines the position in the list of names (locale \<open>name_table\<close>), and the edges are
    provided to the scheduler through the locale \<open>edge_source\<close>.
  \<^item> \<open>Workflow_Dag_State\<close> (\<open>praktor/src/yml/workflow_dag_state.c\<close>): which tasks are ready, claimed and finished.
    Invariant of every reachable state, exact claims in declaration order, and absence of deadlock.
  \<^item> \<open>Workflow_Task_Registry\<close> (\<open>praktor/src/yml/workflow_task_registry.c\<close>): states, revisions and typed outputs of
    tasks; admission of JSON outputs within budgets, atomic calls, two-phase publication of groups.
  \<^item> \<open>Value_Store\<close> and \<open>Value_Txn\<close> (\<open>actions/c11/value_store.c\<close>): the bounded string store as a refinement of a
    bounded map (locale \<open>bounded_map\<close>), and optimistic transactions over it, committed singly or as a group.
  \<^item> \<open>Workflow_Parallel\<close> (\<open>actions/c11/workflow_parallel_commit.c\<close>, \<open>workflow_parallel_process_guard.c\<close>): the commit of a
    parallel cohort and the gate that allows it only after the executor and all processes have settled.
  \<^item> \<open>Owner_Settlement\<close> (\<open>actions/c11/workflow_owner_settlement.c\<close>): the owner's turn that publishes or aborts a
    cohort. It composes the readiness state, the registry, the transactions and the gate.
  \<^item> \<open>Workflow_Value\<close> and \<open>Value_Assign\<close> (\<open>praktor/src/data/workflow_value.c\<close>): exact integers at a width, lookup,
    erasure, assignment and append along paths, against reference functions on JSON trees.
  \<^item> \<open>Expression_Lexer\<close> and \<open>Expression_Evaluator\<close> (\<open>praktor/src/expressions/\<close>): conditions. Tokens within the buffer,
    round trip of literals, totality of the evaluation, and release of every regex handle.
  \<^item> \<open>Output_Scan\<close> (\<open>actions/core/output_scan.c\<close>): lines, key/value pairs and their JSON rendering.
  \<^item> \<open>Orch_Tree\<close> (\<open>praktor/src/yml/orch_tree.c\<close>, \<open>orch_nodes.def\<close>): the orchestration tree, from a command or from a
    flat list; which inputs are accepted and what the tree then is.
  \<^item> \<open>Plan_Compiler\<close> (\<open>actions/c11/plan.c\<close>): one action with its parameters compiled into a session node.
  \<^item> \<open>Session_Plan\<close> (\<open>actions/c11/orch_session_plan.c\<close>): the walk over the orchestration tree that admits and
    compiles every node; the plan is the tree's preorder, unsupported input is refused, and for the trees
    of commands the profiles admit exactly the commands they are for.
  \<^item> \<open>Tree_Adapter\<close> (\<open>actions/c11/tree_adapter.c\<close>): compiled nodes as a tree of the behaviour-tree runtime, and its
    callbacks. The theorem of this theory composes the last three: what the walk and the compiler
    produce is refused by none of the adapter's checks, so only the runtime can refuse it.
  \<^item> \<open>Host_Clock\<close>, \<open>Process_Control\<close> and \<open>Service_Control\<close> (\<open>shared/process/src/\<close>): starting and stopping processes and
    services with timeouts. Which signals and commands may be sent, and that every request is answered.

  \<^bold>\<open>State and operations.\<close> A C struct is a record, an enumeration a datatype, and each function
  one definition that takes the state and returns the status with the new state. A value outside an
  enumeration, a NULL pointer that is data and an invalid text view are \<open>None\<close>. Failed allocations are an argument: an
  allocator says for each allocation site whether it succeeds, so a theorem about all allocators covers
  every failure; \<open>no_oom\<close> never fails. Buffers and addresses are kept only where the code compares or bounds them. A
  \<open>size_t\<close> is a natural number, with the wrap-around written out (\<open>size_dec\<close>, \<open>size_sub\<close>) where the code can meet it;
  hashes, revisions, digits, masks and clock readings are words.

  \<^bold>\<open>Code outside the repository.\<close> The JSON library, the behaviour-tree runtime, the executor,
  \<open>strtod\<close>, the arithmetic on \<open>double\<close>, the text of an integer (\<open>tstr_format\<close>) and the text searches of the evaluator
  (\<open>vstr_contains\<close> and its like) are parameters. Hosts (processes, services, regex, clock) are functions of
  the history of calls made so far, so they may answer differently each time. The hypotheses on them are named
  predicates (\<open>json_laws\<close>, \<open>builder_laws\<close>, \<open>tick_laws\<close>, \<open>clock_advances\<close>, \<open>host_complete\<close>, \<open>masks_separate\<close>),
  and the witnesses discharge them for concrete instances. One part of the JSON library is not a parameter: assignment and append (\<open>Value_Assign\<close>)
  build the changed document with functions on JSON trees (\<open>put_member\<close>, \<open>nest_pending\<close>, \<open>push_element\<close>), which
  stand for its object and array constructors and its clone.

  \<^bold>\<open>Arguments that are not representable.\<close> A process host always has its callbacks, so the rejection of a NULL
  callback at the start of \<open>praktor_process_control_execute\<close> is left out, and the reason given to
  \<open>dag_stop\<close> is a value of its enumeration.

  \<^bold>\<open>Loops.\<close> Bounded loops are structural or terminate by a measure: the walk of \<open>Session_Plan\<close> ends since every
  visit fills one more slot of the plan. Loops that wait for a host, and those whose end needs an invariant, use \<open>c_loop\<close> or its like,
  which is \<open>None\<close> when it does not end, with theorems that they return; those that wait return when the clock advances and calls take bounded time (\<open>control_execute_returns\<close>). The evaluator's
  recursion is bounded by its own depth limit, and \<open>evaluate_total\<close> shows that it returns for every input. The recursion of an
  assignment of a document to itself has one level of fuel, which is enough, since the parents on its
  path exist in the calls it makes; \<open>value_set_correct\<close> shows that the assignment always returns.

  \<^bold>\<open>Not modelled.\<close> The YAML front end (\<open>praktor/src/yml/orch_yaml.c\<close>, \<open>yaml_*.c\<close>) reads nodes of an external
  parser and produces the flat lists and commands from which \<open>Orch_Tree\<close> starts. The session with its native
  host (\<open>actions/c11/session*.c\<close>, \<open>native_host.c\<close>) is the host of the tree adapter, and
  \<open>praktor_c11_orch_session_plan_init_session\<close> is left out with it. The native process layer
  (\<open>shared/process/src/process_native.c\<close>, \<open>process_driver.c\<close>, \<open>process_worker.c\<close>) is operating-system calls and threads. Snapshots,
  document queries, regex providers, start-up, the SDK wrapper and the tools (with the vendored Lemon) are
  input and output around libraries. Destructors only free. Preemption is not modelled, since the owner is the only thread
  that runs the modelled operations; threads appear through the executor's reports. Floating point is exact
  (a rational) where only integral values matter, and a parameter elsewhere.
\<close>

section \<open>From an orchestration tree to a runtime tree\<close>

text \<open>
  C40. Session plans are never refused by the tree adapter. Take a plan that was created from any orchestration
  tree under any profile, a host with all callbacks, two different nonzero mask bits, and a node size of at
  most 4 GiB. When both allocations succeed, the construction under the same limits answers what the
  runtime's own calls answer for the plan's nodes in order (\<open>runtime_answer\<close>: create, add, set a resolver,
  validate, up to the first failure), so none of the adapter's checks refuses what the bridge and the
  plan compiler produced; otherwise it answers ENOMEM. On success, and for a runtime that records the nodes it is given, the
  runtime tree has one node for each node of the orchestration tree, under a number of its own and as
  planned; on failure no tree is left.
\<close>

theorem session_plan_builds:
  assumes plan: "create_plan strtod K mem (Some t) (Some config) cap profile = Inr plan"
    and host: "host_complete H" "masks_separate K" and bytes: "0 < node_bytes K" "node_bytes K \<le> 2 ^ 32"
    and laws: "builder_laws R rt_nodes"
  shows "case tree_init R K site_mem None config (map node_tree (plan_nodes plan)) H h of (st, tree, destroyed, s) \<Rightarrow>
    st = (if site_mem Calloc_Impl \<and> site_mem Calloc_Nodes
      then runtime_answer R config (map node_tree (plan_nodes plan)) else SALTS_ENOMEM) \<and>
    (if st = SALTS_OK
     then \<exists>impl number. tree = Some impl \<and> bt_tree_host impl = H \<and> inj_on number {..<tree_size t} \<and>
       rt_nodes (bt_tree_runtime impl) =
         map (\<lambda>i. (number i, planned_node number i (node_tree (plan_nodes plan ! i)))) [0..<tree_size t]
     else tree = None)"
proof -
  obtain vs where vs: "plan_of K profile config t vs plan" using create_plan_ok(1) [OF plan] by blast
  then have all: "list_all2 (represents K profile config t) vs (plan_nodes plan)" and len: "length vs = tree_size t" "vs \<noteq> []" "tree_size t \<le> max_nodes config"
    by (simp_all add: plan_of_def plan_inv_def)
  have size: "length (plan_nodes plan) = tree_size t" using all len by (simp add: list_all2_lengthD)
  have "compiled K config (plan_nodes plan ! k)" if k: "k < length (plan_nodes plan)" for k
    using list_all2_nthD2 [OF all k] by (simp add: represents_def)
  then have "list_all (compiled K config) (plan_nodes plan)" by (simp add: list_all_length)
  moreover have "parent_first (map node_tree (plan_nodes plan))"
    using vs unfolding plan_of_def plan_inv_def parent_first_def by (fastforce split: option.splits)
  moreover have "plan_nodes plan \<noteq> []" using size len by auto
  ultimately have "fst (tree_init R K site_mem None config (map node_tree (plan_nodes plan)) H h) =
      (if site_mem Calloc_Impl \<and> site_mem Calloc_Nodes then runtime_answer R config (map node_tree (plan_nodes plan)) else SALTS_ENOMEM)"
    using size len(3) host bytes by (intro compiled_nodes_answer) auto
  then show ?thesis using tree_init_outcome [OF laws, where K = K and alloc = site_mem and config = config
      and descs = "map node_tree (plan_nodes plan)" and host = H and h = h]
    by (auto simp: size split: prod.splits if_splits)
qed

theorem session_plan_builds_witness:
  "\<exists>plan impl. create_plan no_strtod example_constants no_oom (Some sample_tree) (Some example_config) 64 ORCH_PLAN_DEFAULT = Inr plan \<and>
     fst (snd (tree_init list_runtime example_constants no_oom None example_config (map node_tree (plan_nodes plan)) full_host 0)) = Some impl \<and>
     length (bt_tree_runtime impl) = tree_size sample_tree"
proof -
  obtain plan where p: "create_plan no_strtod example_constants no_oom (Some sample_tree) (Some example_config) 64 ORCH_PLAN_DEFAULT = Inr plan"
    using sample_plan by (elim exE conjE)
  let ?R = "list_runtime :: ((nat \<times> runtime_node) list, nat \<times> salts_status, unit) bt_runtime"
  have calls: "runtime_calls ?R ids ds rt = SALTS_OK" for ids ds rt
    by (induction ds arbitrary: ids rt) (simp_all add: list_runtime_def Let_def)
  then have answer: "runtime_answer ?R example_config ds = SALTS_OK" for ds
    by (simp add: runtime_answer_def) (simp add: list_runtime_def)
  have bytes: "0 < node_bytes example_constants" "node_bytes example_constants \<le> 2 ^ 32" by (simp_all add: example_constants_def)
  show ?thesis
    using session_plan_builds [OF p full_host_complete example_masks bytes list_runtime_laws, of no_oom 0] p answer
    by (auto split: prod.splits)
qed

end
